(* ===== verification/NocPrelude.thy ===== *)
theory NocPrelude
  imports Main
begin

text \<open>
  What the component theories share: the types that stand for Python values (identifiers,
  instants, results of calls that may raise), the string operations of Python's \<open>str\<close> the
  program uses, insertion-ordered dictionaries, and generic lemmas on lists and options.

  Conventions. An instant or a duration is an \<open>int\<close> number of microseconds (Python's
  \<open>datetime\<close> and \<open>timedelta\<close> have exactly that resolution). A UUID is a number,
  ordered as its canonical text (and the column of the database) orders it. A Python string is a \<open>string\<close> whose characters are
  the code points 0 to 255. A call that may raise returns \<open>error + 'a\<close>, with
  \<open>Inl\<close> the exception.
\<close>

type_synonym uuid = nat
type_synonym instant = int
type_synonym duration = int

abbreviation micros :: int where
  "micros \<equiv> 1000000"

abbreviation minutes :: "int \<Rightarrow> duration" where
  "minutes n \<equiv> n * 60 * micros"

abbreviation hours :: "int \<Rightarrow> duration" where
  "hours n \<equiv> n * 3600 * micros"

abbreviation days :: "int \<Rightarrow> duration" where
  "days n \<equiv> n * 86400 * micros"

named_theorems gate_simps \<open>unfolding rules of the decision functions (gates, guards, admissions)\<close>
named_theorems step_inv \<open>each operation keeps the component's invariant\<close>

section \<open>Results\<close>

fun is_ok :: "'e + 'a \<Rightarrow> bool" where
  "is_ok (Inl _) = False"
| "is_ok (Inr _) = True"

lemma is_ok_iff: "is_ok r \<longleftrightarrow> (\<exists>v. r = Inr v)"
  by (cases r) auto

section \<open>Python strings\<close>

definition code_point :: "char \<Rightarrow> nat" where
  "code_point c = of_char c"

definition is_space :: "char \<Rightarrow> bool" where
  "is_space c \<longleftrightarrow> (let n = code_point c in
     9 \<le> n \<and> n \<le> 13 \<or> 28 \<le> n \<and> n \<le> 32 \<or> n = 133 \<or> n = 160)"

definition is_ascii :: "string \<Rightarrow> bool" where
  "is_ascii s \<longleftrightarrow> list_all (\<lambda>c. code_point c < 128) s"

definition is_digit_char :: "char \<Rightarrow> bool" where
  "is_digit_char c \<longleftrightarrow> 48 \<le> code_point c \<and> code_point c \<le> 57"

definition lower_char :: "char \<Rightarrow> char" where
  "lower_char c = (let n = code_point c in
     if 65 \<le> n \<and> n \<le> 90 \<or> 192 \<le> n \<and> n \<le> 222 \<and> n \<noteq> 215 then char_of (n + 32) else c)"

definition upper_ascii_char :: "char \<Rightarrow> char" where
  "upper_ascii_char c = (let n = code_point c in
     if 97 \<le> n \<and> n \<le> 122 then char_of (n - 32) else c)"

definition lower :: "string \<Rightarrow> string" where
  "lower s = map lower_char s"

definition lstrip :: "string \<Rightarrow> string" where
  "lstrip s = dropWhile is_space s"

definition rstrip :: "string \<Rightarrow> string" where
  "rstrip s = rev (dropWhile is_space (rev s))"

definition strip :: "string \<Rightarrow> string" where
  "strip s = rstrip (lstrip s)"

definition startswith :: "string \<Rightarrow> string \<Rightarrow> bool" where
  "startswith s p \<longleftrightarrow> take (length p) s = p"

definition endswith :: "string \<Rightarrow> string \<Rightarrow> bool" where
  "endswith s p \<longleftrightarrow> startswith (rev s) (rev p)"

text \<open>\<open>s.split(sep)\<close> for a one-character separator: never empty.\<close>

fun split_on :: "char \<Rightarrow> string \<Rightarrow> string list" where
  "split_on d [] = [[]]"
| "split_on d (c # cs) =
     (if c = d then [] # split_on d cs
      else (case split_on d cs of [] \<Rightarrow> [[c]] | w # ws \<Rightarrow> (c # w) # ws))"

text \<open>\<open>s.partition(sep)\<close>: the head, whether the separator was found, and the tail.\<close>

fun partition_on :: "char \<Rightarrow> string \<Rightarrow> string \<times> bool \<times> string" where
  "partition_on d [] = ([], False, [])"
| "partition_on d (c # cs) =
     (if c = d then ([], True, cs)
      else (case partition_on d cs of (h, b, t) \<Rightarrow> (c # h, b, t)))"

text \<open>\<open>sep.join(parts)\<close>.\<close>

fun join_with :: "string \<Rightarrow> string list \<Rightarrow> string" where
  "join_with d [] = []"
| "join_with d [w] = w"
| "join_with d (w # ws) = w @ d @ join_with d ws"

text \<open>\<open>repr(s)\<close> of a string that holds no quote, backslash or control character.\<close>

definition py_repr :: "string \<Rightarrow> string" where
  "py_repr s = [CHR 0x27] @ s @ [CHR 0x27]"

definition newline :: char where
  "newline = CHR 0x0A"

text \<open>
  \<open>re.match\<close> with a pattern ending in \<open>$\<close>: the end of the string, or just before a
  newline that ends it.
\<close>

definition matches_dollar :: "(string \<Rightarrow> bool) \<Rightarrow> string \<Rightarrow> bool" where
  "matches_dollar p s \<longleftrightarrow> p s \<or> (s \<noteq> [] \<and> last s = newline \<and> p (butlast s))"

lemma startswith_append [simp]: "startswith (p @ s) p"
  by (simp add: startswith_def)

lemma endswith_append [simp]: "endswith (s @ p) p"
  by (simp add: endswith_def startswith_def)

lemma split_on_not_Nil [simp]: "split_on d s \<noteq> []"
  by (induction s) (auto split: list.splits)

lemma split_on_none: "d \<notin> set s \<Longrightarrow> split_on d s = [s]"
  by (induction s) auto

lemma split_on_append:
  "d \<notin> set w \<Longrightarrow> split_on d (w @ d # s) = w # split_on d s"
  by (induction w) auto

lemma partition_on_found [simp]:
  "d \<notin> set h \<Longrightarrow> partition_on d (h @ d # t) = (h, True, t)"
  by (induction h) auto

lemma partition_on_none [simp]:
  "d \<notin> set s \<Longrightarrow> partition_on d s = (s, False, [])"
  by (induction s) auto

lemma partition_on_Some:
  "partition_on d s = (h, True, t) \<Longrightarrow> s = h @ d # t \<and> d \<notin> set h"
  by (induction s arbitrary: h) (auto split: if_splits prod.splits)

lemma partition_on_None:
  "partition_on d s = (h, False, t) \<Longrightarrow> s = h \<and> d \<notin> set s \<and> t = []"
  by (induction s arbitrary: h) (auto split: if_splits prod.splits)

lemma split_on_join:
  "ws \<noteq> [] \<Longrightarrow> \<forall>w\<in>set ws. d \<notin> set w \<Longrightarrow> split_on d (join_with [d] ws) = ws"
proof (induction "[d]" ws rule: join_with.induct)
  case (2 w)
  then show ?case by (simp add: split_on_none)
next
  case (3 w v va)
  then show ?case by (simp add: split_on_append)
qed simp

lemma split_on_chars: "c \<in> set s \<Longrightarrow> c = d \<or> (\<exists>w\<in>set (split_on d s). c \<in> set w)"
  by (induction s) (auto split: list.splits)

lemma split_on_sub: "w \<in> set (split_on d s) \<Longrightarrow> set w \<subseteq> set s - {d}"
proof (induction s arbitrary: w)
  case (Cons c s)
  obtain v vs where sp: "split_on d s = v # vs" by (cases "split_on d s") auto
  have "set v \<subseteq> set s - {d}" "\<And>w. w \<in> set vs \<Longrightarrow> set w \<subseteq> set s - {d}"
    using Cons.IH by (simp_all add: sp)
  with Cons.prems show ?case by (auto simp: sp split: if_splits)
qed auto

lemma split_on_snoc:
  "split_on d (s @ [c]) =
     (if c = d then split_on d s @ [[]]
      else butlast (split_on d s) @ [last (split_on d s) @ [c]])"
proof (induction s)
  case (Cons x s)
  then show ?case by (cases "split_on d s"; cases "split_on d (s @ [c])") (auto split: if_splits)
qed simp

lemma split_on_last_Nil: "last (split_on d s) = [] \<longleftrightarrow> s = [] \<or> last s = d"
  by (cases s rule: rev_cases) (auto simp: split_on_snoc)

lemma join_split: "join_with [d] (split_on d s) = s"
proof (induction s)
  case (Cons c s)
  then show ?case
    by (cases "split_on d s") (auto, (metis append_Cons join_with.simps list.exhaust)+)
qed simp

lemma dropWhile_none: "\<forall>c\<in>set s. \<not> P c \<Longrightarrow> dropWhile P s = s"
  by (induction s) auto

lemma strip_none: "\<forall>c\<in>set s. \<not> is_space c \<Longrightarrow> strip s = s"
  by (simp add: strip_def lstrip_def rstrip_def dropWhile_none)

lemma lower_none: "\<forall>c\<in>set s. lower_char c = c \<Longrightarrow> lower s = s"
  by (simp add: lower_def map_idI)

lemma endswith_char: "endswith s [c] \<longleftrightarrow> s \<noteq> [] \<and> last s = c"
  by (cases s rule: rev_cases) (auto simp: endswith_def startswith_def)

lemma startswith_char: "startswith s [c] \<longleftrightarrow> s \<noteq> [] \<and> hd s = c"
  by (cases s) (auto simp: startswith_def)

lemma strip_Nil [simp]: "strip [] = []"
  by (simp add: strip_def rstrip_def lstrip_def)

section \<open>Decimal text\<close>

fun dec_digits :: "nat \<Rightarrow> nat list" where
  "dec_digits n = (if n < 10 then [n] else dec_digits (n div 10) @ [n mod 10])"

declare dec_digits.simps [simp del]

definition digit_char :: "nat \<Rightarrow> char" where
  "digit_char d = char_of (48 + d)"

definition digit_val :: "char \<Rightarrow> nat" where
  "digit_val c = code_point c - 48"

text \<open>\<open>str(n)\<close> and \<open>int(s)\<close> on a run of ASCII digits.\<close>

definition dec_text :: "nat \<Rightarrow> string" where
  "dec_text n = map digit_char (dec_digits n)"

definition dec_value :: "string \<Rightarrow> nat" where
  "dec_value s = foldl (\<lambda>a c. 10 * a + digit_val c) 0 s"

lemma dec_digits_lt: "d \<in> set (dec_digits n) \<Longrightarrow> d < 10"
proof (induction n rule: dec_digits.induct)
  case (1 n)
  then show ?case by (subst (asm) dec_digits.simps) (auto split: if_splits)
qed

lemma digit_val_char [simp]: "d < 10 \<Longrightarrow> digit_val (digit_char d) = d"
  by (simp add: digit_val_def digit_char_def code_point_def)

lemma is_digit_digit_char [simp]: "d < 10 \<Longrightarrow> is_digit_char (digit_char d)"
  by (simp add: is_digit_char_def digit_char_def code_point_def)

lemma dec_digits_not_Nil [simp]: "dec_digits n \<noteq> []"
  by (subst dec_digits.simps) simp

lemma foldl_dec_digits: "foldl (\<lambda>a d. 10 * a + d) 0 (dec_digits n) = n"
proof (induction n rule: dec_digits.induct)
  case (1 n)
  then show ?case by (cases "n < 10") (simp_all add: dec_digits.simps [of n])
qed

lemma dec_value_text [simp]: "dec_value (dec_text n) = n"
proof -
  have "foldl (\<lambda>a c. 10 * a + digit_val c) b (map digit_char ds) = foldl (\<lambda>a d. 10 * a + d) b ds"
    if "\<forall>d\<in>set ds. d < 10" for b ds
    using that by (induction ds arbitrary: b) auto
  then show ?thesis
    using dec_digits_lt by (simp add: dec_value_def dec_text_def foldl_dec_digits)
qed

lemma dec_text_digits: "c \<in> set (dec_text n) \<Longrightarrow> is_digit_char c"
  using dec_digits_lt by (auto simp: dec_text_def)

lemma dec_text_not_Nil [simp]: "dec_text n \<noteq> []"
  by (simp add: dec_text_def)

text \<open>\<open>str\<close> of an integer.\<close>

definition int_text :: "int \<Rightarrow> string" where
  "int_text i = (if i < 0 then ''-'' @ dec_text (nat (- i)) else dec_text (nat i))"

lemma int_text_not_Nil [simp]: "int_text i \<noteq> []"
  by (simp add: int_text_def)

lemma dec_text_no_minus: "hd (dec_text n) \<noteq> CHR ''-''"
proof -
  have "is_digit_char (hd (dec_text n))" by (rule dec_text_digits [of _ n]) simp
  then show ?thesis by (auto simp: is_digit_char_def code_point_def)
qed

lemma int_text_inj:
  assumes "int_text i = int_text j"
  shows "i = j"
proof -
  let ?v = "\<lambda>s. if hd s = CHR ''-'' then - int (dec_value (tl s)) else int (dec_value s)"
  have v: "?v (int_text k) = k" for k
    by (simp add: int_text_def dec_text_no_minus)
  have "i = ?v (int_text i)" using v [of i] by simp
  also have "\<dots> = ?v (int_text j)" unfolding assms ..
  also have "\<dots> = j" by (rule v)
  finally show ?thesis .
qed

section \<open>Dictionaries in insertion order\<close>

text \<open>
  A Python \<open>dict\<close> whose order matters is an association list without repeated keys:
  assigning an existing key keeps its place, a new key goes last.
\<close>

fun dict_set :: "'k \<Rightarrow> 'v \<Rightarrow> ('k \<times> 'v) list \<Rightarrow> ('k \<times> 'v) list" where
  "dict_set k v [] = [(k, v)]"
| "dict_set k v ((k', v') # d) = (if k = k' then (k, v) # d else (k', v') # dict_set k v d)"

lemma dict_set_lookup [simp]: "map_of (dict_set k v d) = (map_of d)(k \<mapsto> v)"
  by (induction d) auto

lemma dict_set_keys [simp]: "fst ` set (dict_set k v d) = insert k (fst ` set d)"
proof (induction d)
  case (Cons p d)
  then show ?case by (cases p) (simp add: insert_commute)
qed simp

lemma dict_set_distinct: "distinct (map fst d) \<Longrightarrow> distinct (map fst (dict_set k v d))"
proof (induction d)
  case (Cons p d)
  then show ?case by (cases p) auto
qed simp

lemma dict_set_length:
  "length (dict_set k v d) = (if map_of d k = None then Suc (length d) else length d)"
  by (induction d) auto

section \<open>Lists\<close>

text \<open>\<open>list(dict.fromkeys(xs))\<close>: the first of every value, in order.\<close>

definition dedup :: "'a list \<Rightarrow> 'a list" where
  "dedup xs = rev (remdups (rev xs))"

lemma set_dedup [simp]: "set (dedup xs) = set xs"
  by (simp add: dedup_def)

lemma distinct_dedup [simp]: "distinct (dedup xs)"
  by (simp add: dedup_def)

lemma length_dedup: "length (dedup xs) = card (set xs)"
  by (simp add: dedup_def length_remdups_card_conv)

lemma filter_length_less:
  "x \<in> set xs \<Longrightarrow> \<not> P x \<Longrightarrow> length (filter P xs) < length xs"
  by (induction xs) (auto simp: less_Suc_eq_le)

lemma sum_list_nonneg_int: "(\<And>x. x \<in> set xs \<Longrightarrow> 0 \<le> x) \<Longrightarrow> 0 \<le> sum_list (xs :: int list)"
  by (rule sum_list_nonneg)

end
