(* ===== verification/Access.thy ===== *)
theory Access
  imports NocPrelude
begin

text \<open>
  The five-part access check of \<open>security/access.py\<close>: the TLP lattice, the resolved
  \<open>AccessContext\<close> and \<open>evaluate\<close>, the one gate every endpoint calls. The lemmas
  show that the gate allows exactly when all five conditions hold, that it reports every failed
  check in the order of \<open>ALL_CHECKS\<close>, and that each check is necessary on its own.
\<close>

section \<open>The classification lattice\<close>

datatype tlp = CLEAR | GREEN | AMBER | AMBER_STRICT | RED

text \<open>The integer values of the \<open>IntEnum\<close>.\<close>

fun tlp_value :: "tlp \<Rightarrow> nat" where
  "tlp_value CLEAR = 0"
| "tlp_value GREEN = 1"
| "tlp_value AMBER = 2"
| "tlp_value AMBER_STRICT = 3"
| "tlp_value RED = 4"

lemma tlp_value_inj [simp]: "tlp_value a = tlp_value b \<longleftrightarrow> a = b"
  by (cases a; cases b) simp_all

instantiation tlp :: linorder
begin

definition less_eq_tlp :: "tlp \<Rightarrow> tlp \<Rightarrow> bool" where
  "less_eq_tlp a b \<longleftrightarrow> tlp_value a \<le> tlp_value b"

definition less_tlp :: "tlp \<Rightarrow> tlp \<Rightarrow> bool" where
  "less_tlp a b \<longleftrightarrow> tlp_value a < tlp_value b"

instance
  by standard (auto simp: less_eq_tlp_def less_tlp_def simp flip: tlp_value_inj)

end

fun tlp_name :: "tlp \<Rightarrow> string" where
  "tlp_name CLEAR = ''CLEAR''"
| "tlp_name GREEN = ''GREEN''"
| "tlp_name AMBER = ''AMBER''"
| "tlp_name AMBER_STRICT = ''AMBER_STRICT''"
| "tlp_name RED = ''RED''"

definition tlp_levels :: "tlp list" where
  "tlp_levels = [CLEAR, GREEN, AMBER, AMBER_STRICT, RED]"

definition tlp_names :: "string list" where
  "tlp_names = map tlp_name tlp_levels"

datatype access_error = AccessResolutionError string

text \<open>\<open>Tlp[name]\<close>, with the \<open>KeyError\<close> turned into an \<open>AccessResolutionError\<close>.\<close>

definition tlp_from_name :: "string \<Rightarrow> access_error + tlp" where
  "tlp_from_name name =
     (case find (\<lambda>l. tlp_name l = name) tlp_levels of
        Some l \<Rightarrow> Inr l
      | None \<Rightarrow> Inl (AccessResolutionError (''unknown TLP classification: '' @ name)))"

lemma tlp_name_inj [simp]: "tlp_name a = tlp_name b \<longleftrightarrow> a = b"
  by (cases a; cases b) simp_all

lemma tlp_from_name_name [simp]: "tlp_from_name (tlp_name l) = Inr l"
  by (cases l) (simp_all add: tlp_from_name_def tlp_levels_def)

lemma tlp_from_name_Inr: "tlp_from_name n = Inr l \<longleftrightarrow> n = tlp_name l"
  by (cases l) (auto simp: tlp_from_name_def tlp_levels_def split: if_splits)

section \<open>The five checks\<close>

datatype access_check = CHECK_ROLE | CHECK_ASSIGNMENT | CHECK_CLEARANCE | CHECK_COMPARTMENTS
  | CHECK_STEP_UP

definition all_checks :: "access_check list" where
  "all_checks =
     [CHECK_ROLE, CHECK_ASSIGNMENT, CHECK_CLEARANCE, CHECK_COMPARTMENTS, CHECK_STEP_UP]"

record access_context =
  permission_key :: string
  permission_requires_step_up :: bool
  role_permissions :: "string set"
  has_unexpired_assignment :: bool
  user_clearance :: tlp
  object_classification :: tlp
  user_compartments :: "string set"
  object_compartments :: "string set"
  mfa_satisfied_at :: "instant option"

record access_decision =
  allowed :: bool
  failed_checks :: "access_check list"

abbreviation denied :: "access_decision \<Rightarrow> bool" where
  "denied d \<equiv> \<not> allowed d"

text \<open>\<open>STEP_UP_FRESHNESS\<close> of \<open>security/sessions.py\<close>.\<close>

definition step_up_freshness :: duration where
  "step_up_freshness = minutes 15"

text \<open>
  The evaluation appends to \<open>failed\<close> check by check, without short-circuit. The clock is
  the argument \<open>now\<close>.
\<close>

definition evaluate :: "instant \<Rightarrow> access_context \<Rightarrow> access_decision" where
  "evaluate now ctx =
     (let failed = [];
          failed = (if permission_key ctx \<notin> role_permissions ctx
                    then failed @ [CHECK_ROLE] else failed);
          failed = (if \<not> has_unexpired_assignment ctx
                    then failed @ [CHECK_ASSIGNMENT] else failed);
          failed = (if \<not> object_classification ctx \<le> user_clearance ctx
                    then failed @ [CHECK_CLEARANCE] else failed);
          failed = (if \<not> object_compartments ctx \<subseteq> user_compartments ctx
                    then failed @ [CHECK_COMPARTMENTS] else failed);
          failed = (if permission_requires_step_up ctx
                    then let fresh = (case mfa_satisfied_at ctx of
                                        None \<Rightarrow> False
                                      | Some at \<Rightarrow> now - at < step_up_freshness)
                         in if \<not> fresh then failed @ [CHECK_STEP_UP] else failed
                    else failed)
      in \<lparr>allowed = (failed = []), failed_checks = failed\<rparr>)"

section \<open>What the gate promises\<close>

text \<open>The abstract specification of each check, one clause of docs/05 each.\<close>

fun check_holds :: "instant \<Rightarrow> access_context \<Rightarrow> access_check \<Rightarrow> bool" where
  "check_holds now ctx CHECK_ROLE \<longleftrightarrow> permission_key ctx \<in> role_permissions ctx"
| "check_holds now ctx CHECK_ASSIGNMENT \<longleftrightarrow> has_unexpired_assignment ctx"
| "check_holds now ctx CHECK_CLEARANCE \<longleftrightarrow> object_classification ctx \<le> user_clearance ctx"
| "check_holds now ctx CHECK_COMPARTMENTS \<longleftrightarrow> object_compartments ctx \<subseteq> user_compartments ctx"
| "check_holds now ctx CHECK_STEP_UP \<longleftrightarrow>
     permission_requires_step_up ctx \<longrightarrow>
     (\<exists>at. mfa_satisfied_at ctx = Some at \<and> now - at < step_up_freshness)"

lemma failed_checks_spec:
  "failed_checks (evaluate now ctx) = filter (\<lambda>c. \<not> check_holds now ctx c) all_checks"
  by (auto simp: evaluate_def all_checks_def Let_def split: option.split)

lemma allowed_iff_no_failure: "allowed (evaluate now ctx) \<longleftrightarrow> failed_checks (evaluate now ctx) = []"
  by (simp add: evaluate_def Let_def)

lemma all_checks_complete [simp]: "set all_checks = UNIV"
proof
  show "UNIV \<subseteq> set all_checks"
  proof
    fix c :: access_check
    show "c \<in> set all_checks" by (cases c) (simp_all add: all_checks_def)
  qed
qed simp

lemma allowed_iff: "allowed (evaluate now ctx) \<longleftrightarrow> (\<forall>c. check_holds now ctx c)"
  by (simp add: allowed_iff_no_failure failed_checks_spec filter_empty_conv)

lemma failed_iff: "c \<in> set (failed_checks (evaluate now ctx)) \<longleftrightarrow> \<not> check_holds now ctx c"
  by (simp add: failed_checks_spec)

section \<open>Properties\<close>

text \<open>C1: The gate allows exactly when all five conditions hold, and otherwise reports exactly the checks
  that fail, each once and in the order of \<open>ALL_CHECKS\<close>.\<close>

theorem evaluate_exact:
  "allowed (evaluate now ctx) = (\<forall>c. check_holds now ctx c) \<and>
   failed_checks (evaluate now ctx) = filter (\<lambda>c. \<not> check_holds now ctx c) all_checks"
  by (simp add: allowed_iff failed_checks_spec)

definition at_least :: "access_context \<Rightarrow> access_context \<Rightarrow> bool" where
  "at_least a b \<longleftrightarrow>
     permission_key a = permission_key b \<and>
     (permission_requires_step_up b \<longrightarrow> permission_requires_step_up a) \<and>
     role_permissions a \<subseteq> role_permissions b \<and>
     (has_unexpired_assignment a \<longrightarrow> has_unexpired_assignment b) \<and>
     user_clearance a \<le> user_clearance b \<and> object_classification b \<le> object_classification a \<and>
     user_compartments a \<subseteq> user_compartments b \<and> object_compartments b \<subseteq> object_compartments a \<and>
     mfa_satisfied_at a = mfa_satisfied_at b"

text \<open>Access never widens. Whoever is allowed stays allowed with more clearance, more permissions and
  compartments, an object of lower classification or fewer compartments, and an earlier clock; so no
  check is satisfied by having less.\<close>

theorem evaluate_monotone:
  assumes "at_least a b" "now' \<le> now" "allowed (evaluate now a)"
  shows "allowed (evaluate now' b)"
  unfolding allowed_iff
proof
  fix c
  have all: "\<And>c. check_holds now a c" using assms(3) by (simp add: allowed_iff)
  show "check_holds now' b c"
  proof (cases c)
    case CHECK_STEP_UP
    then show ?thesis using all [of CHECK_STEP_UP] assms(1,2) by (auto simp: at_least_def)
  next
    case CHECK_CLEARANCE
    then show ?thesis using all [of CHECK_CLEARANCE] assms(1) by (auto simp: at_least_def)
  qed (use all [of c] assms(1) in \<open>auto simp: at_least_def\<close>)
qed

definition demo_context :: access_context where
  "demo_context = \<lparr>permission_key = ''case.read'', permission_requires_step_up = False,
     role_permissions = {''case.read''}, has_unexpired_assignment = True, user_clearance = AMBER,
     object_classification = GREEN, user_compartments = {''K1''}, object_compartments = {},
     mfa_satisfied_at = None\<rparr>"

theorem evaluate_monotone_witness:
  "allowed (evaluate 5 (demo_context\<lparr>user_clearance := RED\<rparr>))"
proof (rule evaluate_monotone [where a = demo_context and now = 7])
  show "at_least demo_context (demo_context\<lparr>user_clearance := RED\<rparr>)"
    by (simp add: at_least_def demo_context_def less_eq_tlp_def)
  show "allowed (evaluate 7 demo_context)"
    by (simp add: evaluate_def demo_context_def less_eq_tlp_def Let_def)
qed simp

end
