(* ===== verification/IpAddress.thy ===== *)
theory IpAddress
  imports NocPrelude "HOL-Library.Word"
begin

text \<open>
  The part of Python's \<open>ipaddress\<close> module the program uses: addresses and networks of
  both versions at their width, membership, overlap and subnet tests, the classification
  properties, and the reading and printing of addresses and networks. It is the standard library
  of the deployed interpreter (3.13), written out so that the egress and session code above it can
  be evaluated. The lemmas give the prefix algebra: membership as agreement on the leading bits,
  overlap as a common member, and inclusion of one network in another.
\<close>

unbundle bit_operations_syntax

type_synonym byte = "8 word"

section \<open>Addresses and networks\<close>

text \<open>An IPv6 address may carry a scope id (\<open>fe80::1%eth0\<close>), which takes part in equality.\<close>

datatype ip = V4 "32 word" | V6 "128 word" "string option"

datatype ipnet = Net4 "32 word" nat | Net6 "128 word" nat

fun ip_version :: "ip \<Rightarrow> nat" where
  "ip_version (V4 _) = 4"
| "ip_version (V6 _ _) = 6"

fun net_version :: "ipnet \<Rightarrow> nat" where
  "net_version (Net4 _ _) = 4"
| "net_version (Net6 _ _) = 6"

fun prefixlen :: "ipnet \<Rightarrow> nat" where
  "prefixlen (Net4 _ p) = p"
| "prefixlen (Net6 _ p) = p"

text \<open>The netmask keeps the leading \<open>p\<close> bits, the host mask the others.\<close>

definition hostmask :: "nat \<Rightarrow> 'a::len word" where
  "hostmask p = mask (LENGTH('a) - p)"

definition net_of :: "'a::len word \<Rightarrow> nat \<Rightarrow> 'a word" where
  "net_of a p = a AND NOT (hostmask p)"

definition in_prefix :: "'a::len word \<Rightarrow> nat \<Rightarrow> 'a word \<Rightarrow> bool" where
  "in_prefix n p a \<longleftrightarrow> net_of a p = n"

fun in_net :: "ip \<Rightarrow> ipnet \<Rightarrow> bool" where
  "in_net (V4 a) (Net4 n p) = in_prefix n p a"
| "in_net (V6 a _) (Net6 n p) = in_prefix n p a"
| "in_net _ _ = False"

fun network_address :: "ipnet \<Rightarrow> ip" where
  "network_address (Net4 n p) = V4 n"
| "network_address (Net6 n p) = V6 n None"

fun broadcast_address :: "ipnet \<Rightarrow> ip" where
  "broadcast_address (Net4 n p) = V4 (n OR hostmask p)"
| "broadcast_address (Net6 n p) = V6 (n OR hostmask p) None"

text \<open>A network value is well formed when its host bits are zero (what \<open>strict=True\<close> checks).\<close>

fun wf_net :: "ipnet \<Rightarrow> bool" where
  "wf_net (Net4 n p) \<longleftrightarrow> p \<le> 32 \<and> net_of n p = n"
| "wf_net (Net6 n p) \<longleftrightarrow> p \<le> 128 \<and> net_of n p = n"

text \<open>\<open>a.overlaps(b)\<close>: an end of one lies in the other.\<close>

definition overlaps :: "ipnet \<Rightarrow> ipnet \<Rightarrow> bool" where
  "overlaps a b \<longleftrightarrow>
     in_net (network_address b) a \<or> in_net (broadcast_address b) a \<or>
     in_net (network_address a) b \<or> in_net (broadcast_address a) b"

text \<open>\<open>a.subnet_of(b)\<close>, for two networks of one version.\<close>

fun subnet_of :: "ipnet \<Rightarrow> ipnet \<Rightarrow> bool" where
  "subnet_of (Net4 n p) (Net4 m q) \<longleftrightarrow> m \<le> n \<and> n OR hostmask p \<le> m OR hostmask q"
| "subnet_of (Net6 n p) (Net6 m q) \<longleftrightarrow> m \<le> n \<and> n OR hostmask p \<le> m OR hostmask q"
| "subnet_of _ _ \<longleftrightarrow> False"

section \<open>Prefix algebra\<close>

lemma in_net_version: "in_net a n \<Longrightarrow> ip_version a = net_version n"
  by (cases a; cases n) simp_all

lemma bit_hostmask: "bit (hostmask p :: 'a::len word) i \<longleftrightarrow> i < LENGTH('a) - p"
  by (auto simp: hostmask_def bit_mask_iff)

lemma bit_net_of:
  "bit (net_of (a :: 'a::len word) p) i \<longleftrightarrow> bit a i \<and> LENGTH('a) - p \<le> i"
  using bit_imp_le_length [of a i]
  by (auto simp: net_of_def bit_and_iff bit_not_iff bit_hostmask)

lemma net_of_mono:
  fixes a b :: "'a::len word"
  assumes "net_of a p = net_of b p" "q \<le> p"
  shows "net_of a q = net_of b q"
proof (rule bit_eqI)
  fix i
  have "bit (net_of a p) i = bit (net_of b p) i" using assms(1) by simp
  then show "bit (net_of a q) i = bit (net_of b q) i"
    using assms(2) by (auto simp: bit_net_of)
qed

lemma net_of_net_of [simp]: "net_of (net_of (a :: 'a::len word) p) p = net_of a p"
  by (rule bit_eqI) (auto simp: bit_net_of)

lemma net_of_or_hostmask [simp]: "net_of ((n :: 'a::len word) OR hostmask p) p = net_of n p"
  by (rule bit_eqI) (auto simp: bit_net_of bit_or_iff bit_hostmask)

lemma net_of_le: "net_of (a :: 'a::len word) p \<le> a"
  by (simp add: net_of_def word_and_le2)

lemma le_broadcast:
  fixes a :: "'a::len word"
  assumes "net_of a p = n"
  shows "a \<le> n OR hostmask p"
proof -
  have "a AND (n OR hostmask p) = a"
    using assms by (intro bit_eqI) (auto simp: bit_and_iff bit_or_iff bit_hostmask bit_net_of)
  then show ?thesis by (metis word_and_le1)
qed

text \<open>Two prefixes with a common member are nested: the longer one lies in the shorter.\<close>

lemma prefix_nested:
  fixes a :: "'a::len word"
  assumes "in_prefix n p a" "in_prefix m q a" "q \<le> p"
  shows "in_prefix m q n"
  using assms net_of_mono [of a p "net_of a p" q] unfolding in_prefix_def by (metis net_of_net_of)

lemma prefix_nested_all:
  fixes a :: "'a::len word"
  assumes "in_prefix n p a" "in_prefix m q a" "q \<le> p" "in_prefix n p b"
  shows "in_prefix m q b"
  using assms net_of_mono [of a p b q] by (simp add: in_prefix_def)

lemma common_member_overlaps:
  assumes "in_net a n" "in_net a m"
  shows "overlaps n m"
proof (cases a)
  case (V4 x)
  then obtain s p t q where "n = Net4 s p" "m = Net4 t q"
    using assms by (cases n; cases m) auto
  then show ?thesis
    using assms V4 prefix_nested [of s p x t q] prefix_nested [of t q x s p]
    by (cases "q \<le> p") (auto simp: overlaps_def)
next
  case (V6 x sc)
  then obtain s p t q where "n = Net6 s p" "m = Net6 t q"
    using assms by (cases n; cases m) auto
  then show ?thesis
    using assms V6 prefix_nested [of s p x t q] prefix_nested [of t q x s p]
    by (cases "q \<le> p") (auto simp: overlaps_def)
qed

lemma drop_bit_word_mono:
  "a \<le> b \<Longrightarrow> unat (drop_bit k (a :: 'a::len word)) \<le> unat (drop_bit k b)"
  unfolding unat_drop_bit_eq unfolding drop_bit_eq_div
  by (rule div_le_mono) (simp add: word_le_nat_alt)

lemma in_prefix_between:
  fixes a :: "'a::len word"
  assumes m: "net_of m q = m" and "m \<le> a" "a \<le> m OR hostmask q"
  shows "in_prefix m q a"
proof -
  let ?k = "LENGTH('a) - q"
  have "drop_bit ?k (m OR hostmask q) = drop_bit ?k m"
    by (rule bit_eqI) (auto simp: bit_drop_bit_eq bit_or_iff bit_hostmask)
  moreover have "unat (drop_bit ?k m) \<le> unat (drop_bit ?k a)"
      "unat (drop_bit ?k a) \<le> unat (drop_bit ?k (m OR hostmask q))"
    using assms(2,3) by (blast intro: drop_bit_word_mono)+
  ultimately have eq: "drop_bit ?k a = drop_bit ?k m"
    by (simp add: word_unat_eq_iff)
  have "net_of a q = net_of m q"
  proof (rule bit_eqI)
    fix i
    have "bit (drop_bit ?k a) (i - ?k) = bit (drop_bit ?k m) (i - ?k)" using eq by simp
    then show "bit (net_of a q) i = bit (net_of m q) i"
      by (auto simp: bit_net_of bit_drop_bit_eq)
  qed
  then show ?thesis using m by (simp add: in_prefix_def)
qed

lemma subnet_of_member:
  assumes "subnet_of n m" "wf_net m" "in_net a n"
  shows "in_net a m"
proof (cases n)
  case (Net4 s p)
  then obtain x t q where "a = V4 x" "m = Net4 t q"
    using assms by (cases a; cases m) auto
  with Net4 assms show ?thesis
    using net_of_le [of x p] le_broadcast [of x p s]
    by (auto simp: in_prefix_def intro!: in_prefix_between [unfolded in_prefix_def])
next
  case (Net6 s p)
  then obtain x sc t q where "a = V6 x sc" "m = Net6 t q"
    using assms by (cases a; cases m) auto
  with Net6 assms show ?thesis
    using net_of_le [of x p] le_broadcast [of x p s]
    by (auto simp: in_prefix_def intro!: in_prefix_between [unfolded in_prefix_def])
qed

lemma not_overlaps_disjoint: "\<not> overlaps n m \<Longrightarrow> in_net a n \<Longrightarrow> \<not> in_net a m"
  using common_member_overlaps by blast

section \<open>Classification\<close>

definition v4_private_networks :: "ipnet list" where
  "v4_private_networks =
     [Net4 0x00000000 8, Net4 0x0A000000 8, Net4 0x7F000000 8, Net4 0xA9FE0000 16,
      Net4 0xAC100000 12, Net4 0xC0000000 24, Net4 0xC00000AA 31, Net4 0xC0000200 24,
      Net4 0xC0A80000 16, Net4 0xC6120000 15, Net4 0xC6336400 24, Net4 0xCB007100 24,
      Net4 0xF0000000 4, Net4 0xFFFFFFFF 32]"

definition v4_private_exceptions :: "ipnet list" where
  "v4_private_exceptions = [Net4 0xC0000009 32, Net4 0xC000000A 32]"

definition v6_private_networks :: "ipnet list" where
  "v6_private_networks =
     [Net6 1 128, Net6 0 128, Net6 0xFFFF00000000 96, Net6 0x0064FF9B000100000000000000000000 48,
      Net6 0x01000000000000000000000000000000 64, Net6 0x20010000000000000000000000000000 23,
      Net6 0x20010DB8000000000000000000000000 32, Net6 0x20020000000000000000000000000000 16,
      Net6 0x3FFF0000000000000000000000000000 20, Net6 0xFC000000000000000000000000000000 7,
      Net6 0xFE800000000000000000000000000000 10]"

definition v6_private_exceptions :: "ipnet list" where
  "v6_private_exceptions =
     [Net6 0x20010001000000000000000000000001 128, Net6 0x20010001000000000000000000000002 128,
      Net6 0x20010003000000000000000000000000 32, Net6 0x20010004011200000000000000000000 48,
      Net6 0x20010020000000000000000000000000 28, Net6 0x20010030000000000000000000000000 28]"

definition v6_reserved_networks :: "ipnet list" where
  "v6_reserved_networks =
     [Net6 0 8, Net6 0x01000000000000000000000000000000 8,
      Net6 0x02000000000000000000000000000000 7, Net6 0x04000000000000000000000000000000 6,
      Net6 0x08000000000000000000000000000000 5, Net6 0x10000000000000000000000000000000 4,
      Net6 0x40000000000000000000000000000000 3, Net6 0x60000000000000000000000000000000 3,
      Net6 0x80000000000000000000000000000000 3, Net6 0xA0000000000000000000000000000000 3,
      Net6 0xC0000000000000000000000000000000 3, Net6 0xE0000000000000000000000000000000 4,
      Net6 0xF0000000000000000000000000000000 5, Net6 0xF8000000000000000000000000000000 6,
      Net6 0xFE000000000000000000000000000000 9]"

definition in_any :: "ipnet list \<Rightarrow> ip \<Rightarrow> bool" where
  "in_any ns a \<longleftrightarrow> list_ex (in_net a) ns"

lemma in_any_iff: "in_any ns a \<longleftrightarrow> (\<exists>n\<in>set ns. in_net a n)"
  by (auto simp: in_any_def list_ex_iff)

lemma in_any_append [simp]: "in_any (ns @ ms) a \<longleftrightarrow> in_any ns a \<or> in_any ms a"
  by (simp add: in_any_def)

text \<open>\<open>IPv6Address.ipv4_mapped\<close> and \<open>sixtofour\<close>; an IPv4 address has neither.\<close>

fun ipv4_mapped :: "ip \<Rightarrow> ip option" where
  "ipv4_mapped (V4 _) = None"
| "ipv4_mapped (V6 a _) = (if drop_bit 32 a = 0xFFFF then Some (V4 (ucast a)) else None)"

fun sixtofour :: "ip \<Rightarrow> ip option" where
  "sixtofour (V4 _) = None"
| "sixtofour (V6 a _) =
     (if drop_bit 112 a = 0x2002 then Some (V4 (ucast (drop_bit 80 a))) else None)"

definition unwrap :: "ip \<Rightarrow> ip" where
  "unwrap a = (case ipv4_mapped a of Some m \<Rightarrow> m | None \<Rightarrow> a)"

text \<open>
  The properties of the address classes. From 3.13 an IPv4-mapped IPv6 address answers each of
  them as the address it maps.
\<close>

fun loopback_here link_local_here multicast_here reserved_here unspecified_here private_here
  :: "ip \<Rightarrow> bool" where
  "loopback_here (V4 a) = in_prefix 0x7F000000 8 a"
| "loopback_here (V6 a _) = (a = 1)"
| "link_local_here (V4 a) = in_prefix 0xA9FE0000 16 a"
| "link_local_here (V6 a _) = in_prefix 0xFE800000000000000000000000000000 10 a"
| "multicast_here (V4 a) = in_prefix 0xE0000000 4 a"
| "multicast_here (V6 a _) = in_prefix 0xFF000000000000000000000000000000 8 a"
| "reserved_here (V4 a) = in_prefix 0xF0000000 4 a"
| "reserved_here (V6 a s) = in_any v6_reserved_networks (V6 a s)"
| "unspecified_here (V4 a) = (a = 0)"
| "unspecified_here (V6 a _) = (a = 0)"
| "private_here (V4 a) =
     (in_any v4_private_networks (V4 a) \<and> \<not> in_any v4_private_exceptions (V4 a))"
| "private_here (V6 a s) =
     (in_any v6_private_networks (V6 a s) \<and> \<not> in_any v6_private_exceptions (V6 a s))"

definition is_loopback :: "ip \<Rightarrow> bool" where
  "is_loopback a = loopback_here (unwrap a)"

definition is_link_local :: "ip \<Rightarrow> bool" where
  "is_link_local a = link_local_here (unwrap a)"

definition is_multicast :: "ip \<Rightarrow> bool" where
  "is_multicast a = multicast_here (unwrap a)"

definition is_reserved :: "ip \<Rightarrow> bool" where
  "is_reserved a = reserved_here (unwrap a)"

definition is_unspecified :: "ip \<Rightarrow> bool" where
  "is_unspecified a = unspecified_here (unwrap a)"

definition is_private :: "ip \<Rightarrow> bool" where
  "is_private a = private_here (unwrap a)"

lemma unwrap_V4 [simp]: "unwrap (V4 a) = V4 a"
  by (simp add: unwrap_def)

lemma unwrap_unwrap [simp]: "unwrap (unwrap a) = unwrap a"
  by (cases a) (simp_all add: unwrap_def)

lemma ipv4_mapped_unwrap [simp]: "ipv4_mapped (unwrap a) = None"
  by (cases a) (auto simp: unwrap_def split: if_splits)

lemma ipv4_mapped_V4: "ipv4_mapped a = Some m \<Longrightarrow> \<exists>x. m = V4 x"
  by (cases a) (auto split: if_splits)

lemma sixtofour_V4: "sixtofour a = Some m \<Longrightarrow> \<exists>x. m = V4 x"
  by (cases a) (auto split: if_splits)

end
