(* ===== verification/IpText.thy ===== *)
theory IpText
  imports IpAddress
begin

text \<open>
  Reading and printing addresses and networks: \<open>ipaddress.ip_address\<close>,
  \<open>ipaddress.ip_network\<close> and \<open>str\<close> of their results, as the 3.13 standard library
  defines them. The lemmas are the round trips: printing an address and reading it back gives the
  same address, for both versions, which is what makes the normalised host of the egress policy a
  fixed point.
\<close>

section \<open>IPv4\<close>

definition parse_octet :: "string \<Rightarrow> nat option" where
  "parse_octet s =
     (if s = [] \<or> \<not> list_all is_digit_char s \<or> 3 < length s then None
      else if s \<noteq> ''0'' \<and> hd s = CHR ''0'' then None
      else if dec_value s > 255 then None
      else Some (dec_value s))"

definition parse_v4 :: "string \<Rightarrow> 32 word option" where
  "parse_v4 s =
     (case map parse_octet (split_on CHR ''.'' s) of
        [Some a, Some b, Some c, Some d] \<Rightarrow>
          Some (of_nat (((a * 256 + b) * 256 + c) * 256 + d))
      | _ \<Rightarrow> None)"

definition v4_octets :: "32 word \<Rightarrow> nat list" where
  "v4_octets a = (let n = unat a in
     [n div 16777216, n div 65536 mod 256, n div 256 mod 256, n mod 256])"

definition format_v4 :: "32 word \<Rightarrow> string" where
  "format_v4 a = join_with ''.'' (map dec_text (v4_octets a))"

section \<open>IPv6\<close>

definition is_hex_char :: "char \<Rightarrow> bool" where
  "is_hex_char c \<longleftrightarrow> (let n = code_point c in
     48 \<le> n \<and> n \<le> 57 \<or> 97 \<le> n \<and> n \<le> 102 \<or> 65 \<le> n \<and> n \<le> 70)"

definition hex_val :: "char \<Rightarrow> nat" where
  "hex_val c = (let n = code_point c in
     if n \<le> 57 then n - 48 else if n \<le> 70 then n - 55 else n - 87)"

definition hex_char :: "nat \<Rightarrow> char" where
  "hex_char d = (if d < 10 then char_of (48 + d) else char_of (87 + d))"

fun hex_text :: "nat \<Rightarrow> string" where
  "hex_text n = (if n < 16 then [hex_char n] else hex_text (n div 16) @ [hex_char (n mod 16)])"

declare hex_text.simps [simp del]

definition hex_value :: "string \<Rightarrow> nat" where
  "hex_value s = foldl (\<lambda>a c. 16 * a + hex_val c) 0 s"

definition parse_hextet :: "string \<Rightarrow> nat option" where
  "parse_hextet s =
     (if s = [] \<or> \<not> list_all is_hex_char s \<or> 4 < length s then None else Some (hex_value s))"

fun all_some :: "'a option list \<Rightarrow> 'a list option" where
  "all_some [] = Some []"
| "all_some (None # xs) = None"
| "all_some (Some x # xs) = map_option ((#) x) (all_some xs)"

text \<open>The embedded IPv4 tail becomes two hextets before anything else is read.\<close>

definition expand_v4_tail :: "string list \<Rightarrow> string list option" where
  "expand_v4_tail parts =
     (if CHR ''.'' \<in> set (last parts)
      then (case parse_v4 (last parts) of
              None \<Rightarrow> None
            | Some a \<Rightarrow> Some (butlast parts @
                [hex_text (unat a div 65536), hex_text (unat a mod 65536)]))
      else Some parts)"

text \<open>The indices strictly inside the list whose part is empty: the places of a \<open>::\<close>.\<close>

definition inner_empties :: "string list \<Rightarrow> nat list" where
  "inner_empties parts = filter (\<lambda>i. parts ! i = []) [1..<length parts - 1]"

definition hextets_value :: "nat list \<Rightarrow> nat" where
  "hextets_value hs = foldl (\<lambda>a h. a * 65536 + h) 0 hs"

definition read_parts :: "string list \<Rightarrow> 128 word option" where
  "read_parts parts =
     (case inner_empties parts of
        [] \<Rightarrow>
          if length parts \<noteq> 8 \<or> hd parts = [] \<or> last parts = [] then None
          else map_option (\<lambda>hs. of_nat (hextets_value hs)) (all_some (map parse_hextet parts))
      | [skip] \<Rightarrow>
          let hi = (if hd parts = [] then skip - 1 else skip);
              lo = (if last parts = [] then length parts - skip - 2 else length parts - skip - 1)
          in if hd parts = [] \<and> hi \<noteq> 0 \<or> last parts = [] \<and> lo \<noteq> 0 \<or> 8 \<le> hi + lo then None
             else (case (all_some (map parse_hextet (take hi parts)),
                         all_some (map parse_hextet (drop (length parts - lo) parts))) of
                     (Some hs, Some ls) \<Rightarrow>
                       Some (of_nat (hextets_value (hs @ replicate (8 - (hi + lo)) 0 @ ls)))
                   | _ \<Rightarrow> None)
      | _ \<Rightarrow> None)"

definition parse_v6_addr :: "string \<Rightarrow> 128 word option" where
  "parse_v6_addr s =
     (let parts = split_on CHR '':'' s in
      if s = [] \<or> length parts < 3 then None
      else (case expand_v4_tail parts of
              None \<Rightarrow> None
            | Some ps \<Rightarrow> if 9 < length ps then None else read_parts ps))"

text \<open>\<open>_split_scope_id\<close>: the address, then an optional scope after one percent sign.\<close>

definition parse_v6 :: "string \<Rightarrow> ip option" where
  "parse_v6 s =
     (case partition_on CHR ''%'' s of
        (a, found, scope) \<Rightarrow>
          if found \<and> (scope = [] \<or> CHR ''%'' \<in> set scope) then None
          else map_option (\<lambda>w. V6 w (if found then Some scope else None)) (parse_v6_addr a))"

definition v6_hextets :: "128 word \<Rightarrow> nat list" where
  "v6_hextets a = map (\<lambda>i. unat a div 65536 ^ (7 - i) mod 65536) [0..<8]"

text \<open>
  \<open>_compress_hextets\<close>: the loop keeps the best run of zero hextets and the current one
  (start and length); only a run longer than one hextet is written as \<open>::\<close>.
\<close>

fun longest_zero_run :: "nat \<Rightarrow> nat list \<Rightarrow> (nat \<times> nat) \<Rightarrow> (nat \<times> nat) \<Rightarrow> nat \<times> nat" where
  "longest_zero_run i [] best cur = best"
| "longest_zero_run i (h # hs) (bs, bl) (cs, cl) =
     (if h = 0
      then let cs' = (if cl = 0 then i else cs); cl' = cl + 1 in
           if bl < cl' then longest_zero_run (i + 1) hs (cs', cl') (cs', cl')
           else longest_zero_run (i + 1) hs (bs, bl) (cs', cl')
      else longest_zero_run (i + 1) hs (bs, bl) (cs, 0))"

definition compress_hextets :: "nat list \<Rightarrow> string list" where
  "compress_hextets hs =
     (let (st, len) = longest_zero_run 0 hs (0, 0) (0, 0); ts = map hex_text hs in
      if 1 < len
      then (if st = 0 then [[]] else []) @ take st ts @ [[]] @ drop (st + len) ts @
           (if st + len = length hs then [[]] else [])
      else ts)"

definition format_v6_addr :: "128 word \<Rightarrow> string" where
  "format_v6_addr a =
     (if drop_bit 32 a = 0xFFFF then ''::ffff:'' @ format_v4 (ucast a)
      else join_with '':'' (compress_hextets (v6_hextets a)))"

section \<open>Addresses and networks of either version\<close>

text \<open>\<open>ip_address(s)\<close>, with its \<open>ValueError\<close> as \<open>None\<close>. A slash is refused by both readers.\<close>

definition parse_ip :: "string \<Rightarrow> ip option" where
  "parse_ip s =
     (if CHR ''/'' \<in> set s then None
      else (case parse_v4 s of Some a \<Rightarrow> Some (V4 a) | None \<Rightarrow> parse_v6 s))"

fun format_ip :: "ip \<Rightarrow> string" where
  "format_ip (V4 a) = format_v4 a"
| "format_ip (V6 a None) = format_v6_addr a"
| "format_ip (V6 a (Some s)) = format_v6_addr a @ ''%'' @ s"

definition max_prefixlen :: "ip \<Rightarrow> nat" where
  "max_prefixlen a = (case a of V4 _ \<Rightarrow> 32 | V6 _ _ \<Rightarrow> 128)"

definition parse_prefix :: "nat \<Rightarrow> string \<Rightarrow> nat option" where
  "parse_prefix w s =
     (if s = [] \<or> \<not> list_all is_digit_char s \<or> w < dec_value s then None
      else Some (dec_value s))"

text \<open>A dotted netmask or host mask after the slash (IPv4 only); a netmask is tried first.\<close>

definition mask_prefix :: "32 word \<Rightarrow> nat option" where
  "mask_prefix m = find (\<lambda>p. NOT (hostmask p) = m) [0..<33]"

definition parse_v4_mask :: "string \<Rightarrow> nat option" where
  "parse_v4_mask s =
     (case parse_prefix 32 s of
        Some p \<Rightarrow> Some p
      | None \<Rightarrow> (case parse_v4 s of
          None \<Rightarrow> None
        | Some m \<Rightarrow> (case mask_prefix m of Some p \<Rightarrow> Some p | None \<Rightarrow> mask_prefix (NOT m))))"

text \<open>\<open>ip_network(s, strict=True)\<close>: host bits set is a \<open>ValueError\<close> too.\<close>

definition parse_net :: "string \<Rightarrow> ipnet option" where
  "parse_net s =
     (let v4 = (case split_on CHR ''/'' s of
                  [a] \<Rightarrow> (case parse_v4 a of Some n \<Rightarrow> Some (Net4 n 32) | None \<Rightarrow> None)
                | [a, m] \<Rightarrow> (case (parse_v4 a, parse_v4_mask m) of
                     (Some n, Some p) \<Rightarrow> Some (Net4 n p) | _ \<Rightarrow> None)
                | _ \<Rightarrow> None);
          v6 = (case split_on CHR ''/'' s of
                  [a] \<Rightarrow> (case parse_v6 a of Some (V6 n _) \<Rightarrow> Some (Net6 n 128) | _ \<Rightarrow> None)
                | [a, m] \<Rightarrow> (case (parse_v6 a, parse_prefix 128 m) of
                     (Some (V6 n _), Some p) \<Rightarrow> Some (Net6 n p) | _ \<Rightarrow> None)
                | _ \<Rightarrow> None);
          net = (case v4 of Some n \<Rightarrow> Some n | None \<Rightarrow> v6)
      in case net of
           Some n \<Rightarrow> if wf_net n then Some n else None
         | None \<Rightarrow> None)"

fun format_net :: "ipnet \<Rightarrow> string" where
  "format_net (Net4 n p) = format_v4 n @ ''/'' @ dec_text p"
| "format_net (Net6 n p) = format_v6_addr n @ ''/'' @ dec_text p"

text \<open>\<open>ip_network(f"{a}/{a.max_prefixlen}")\<close>.\<close>

fun single_net :: "ip \<Rightarrow> ipnet" where
  "single_net (V4 a) = Net4 a 32"
| "single_net (V6 a _) = Net6 a 128"

section \<open>Reading back what was printed\<close>

lemma dec_text_length: "n < 1000 \<Longrightarrow> length (dec_text n) \<le> 3"
  by (simp add: dec_text_def dec_digits.simps)

lemma digit_char_0: "digit_char 0 = CHR ''0''"
  by code_simp

lemma dec_text_no_leading_zero:
  assumes "0 < n" shows "hd (dec_text n) \<noteq> CHR ''0''"
proof -
  have "hd (dec_digits n) \<noteq> 0"
    using assms
  proof (induction n rule: dec_digits.induct)
    case (1 n)
    then show ?case
      by (cases "n < 10") (simp_all add: dec_digits.simps [of n])
  qed
  moreover have "hd (dec_digits n) < 10"
    by (rule dec_digits_lt [of _ n]) simp
  moreover have "digit_char 0 = CHR ''0''" by (rule digit_char_0)
  ultimately show ?thesis
    by (metis dec_digits_not_Nil dec_text_def digit_val_char list.map_sel(1) zero_less_numeral)
qed

lemma dec_text_eq_iff [simp]: "dec_text n = dec_text m \<longleftrightarrow> n = m"
  by (metis dec_value_text)

lemma dec_text_0: "dec_text 0 = ''0''"
  by (simp add: dec_text_def dec_digits.simps digit_char_0)

lemma dec_text_all_digits [simp]: "list_all is_digit_char (dec_text n)"
  by (auto simp: list_all_iff dest: dec_text_digits)

lemma parse_octet_text: "n < 256 \<Longrightarrow> parse_octet (dec_text n) = Some n"
  using dec_text_length [of n] dec_text_no_leading_zero [of n] dec_text_0
    dec_value_text [of 0, unfolded dec_text_0] dec_text_all_digits [of 0, unfolded dec_text_0]
  by (cases "n = 0") (auto simp: parse_octet_def)

lemma digit_not_in_dec_text: "\<not> is_digit_char c \<Longrightarrow> c \<notin> set (dec_text n)"
  using dec_text_digits by blast

lemma octet_step: "n div (k * 256) * 256 + n div k mod 256 = (n div k :: nat)"
  by (simp add: div_mult2_eq)

lemma v4_octets_value:
  "((n div 16777216 * 256 + n div 65536 mod 256) * 256 + n div 256 mod 256) * 256 + n mod 256
     = (n :: nat)"
  using octet_step [of n 65536] octet_step [of n 256] by simp

lemma parse_format_v4 [simp]: "parse_v4 (format_v4 a) = Some a"
proof -
  have lt: "unat a < 4294967296" using unsigned_less [of a] by simp
  have dot: "CHR ''.'' \<notin> set (dec_text n)" for n
    by (rule digit_not_in_dec_text) (simp add: is_digit_char_def code_point_def)
  have "split_on CHR ''.'' (format_v4 a) = map dec_text (v4_octets a)"
    unfolding format_v4_def by (rule split_on_join) (auto simp: v4_octets_def Let_def dot)
  moreover have "map parse_octet (map dec_text (v4_octets a)) = map Some (v4_octets a)"
    using lt by (simp add: v4_octets_def Let_def parse_octet_text)
  ultimately show ?thesis
    using v4_octets_value [of "unat a"] by (simp add: parse_v4_def v4_octets_def Let_def)
qed

lemma hex_char_15: "hex_char 15 = CHR ''f''"
  by code_simp

lemma hex_char_val [simp]: "d < 16 \<Longrightarrow> hex_val (hex_char d) = d"
  by (auto simp: hex_val_def hex_char_def code_point_def Let_def)

lemma is_hex_hex_char [simp]: "d < 16 \<Longrightarrow> is_hex_char (hex_char d)"
  by (auto simp: is_hex_char_def hex_char_def code_point_def Let_def)

lemma hex_text_hex [simp]: "list_all is_hex_char (hex_text n)"
  by (induction n rule: hex_text.induct) (subst hex_text.simps, simp)

lemma hex_text_not_Nil [simp]: "hex_text n \<noteq> []"
  by (subst hex_text.simps) simp

lemma hex_value_text [simp]: "hex_value (hex_text n) = n"
proof (induction n rule: hex_text.induct)
  case (1 n)
  then show ?case
    by (cases "n < 16") (simp_all add: hex_text.simps [of n] hex_value_def)
qed

lemma hex_text_length: "n < 65536 \<Longrightarrow> length (hex_text n) \<le> 4"
  by (simp add: hex_text.simps)

lemma parse_hextet_text [simp]: "n < 65536 \<Longrightarrow> parse_hextet (hex_text n) = Some n"
  using hex_text_length [of n] by (simp add: parse_hextet_def)

lemma not_hex_not_in_text: "\<not> is_hex_char c \<Longrightarrow> c \<notin> set (hex_text n)"
  using hex_text_hex [of n] by (auto simp: list_all_iff)

lemma sep_not_in_hex_text [simp]:
  "CHR '':'' \<notin> set (hex_text n)" "CHR ''.'' \<notin> set (hex_text n)"
  "CHR ''%'' \<notin> set (hex_text n)" "CHR ''/'' \<notin> set (hex_text n)"
  by (simp_all add: not_hex_not_in_text is_hex_char_def code_point_def Let_def)

lemma all_some_map_Some [simp]: "all_some (map Some xs) = Some xs"
  by (induction xs) auto

lemma all_some_hextets:
  "\<forall>h\<in>set hs. h < 65536 \<Longrightarrow> all_some (map parse_hextet (map hex_text hs)) = Some hs"
  by (induction hs) auto

text \<open>The hextets of a number, most significant first, and their value.\<close>

lemma hextets_value_snoc [simp]: "hextets_value (hs @ [h]) = hextets_value hs * 65536 + h"
  by (simp add: hextets_value_def)

lemma hextets_value_zeros: "hextets_value (replicate k 0 @ hs) = hextets_value hs"
  by (induction k) (simp_all add: hextets_value_def)

lemma hextets_value_digits:
  "hextets_value (map (\<lambda>i. n div 65536 ^ (k - Suc i) mod 65536) [0..<k]) = n mod 65536 ^ k"
proof (induction k arbitrary: n)
  case (Suc k)
  have "map (\<lambda>i. n div 65536 ^ (Suc k - Suc i) mod 65536) [0..<Suc k]
      = map (\<lambda>i. n div 65536 div 65536 ^ (k - Suc i) mod 65536) [0..<k] @ [n mod 65536]"
  proof -
    have "n div 65536 ^ (k - i) = n div 65536 div 65536 ^ (k - Suc i)" if "i < k" for i
      using that Suc_diff_Suc [of i k] by (metis div_mult2_eq power_Suc)
    then show ?thesis by (simp cong: map_cong)
  qed
  then have "hextets_value (map (\<lambda>i. n div 65536 ^ (Suc k - Suc i) mod 65536) [0..<Suc k])
      = (n div 65536 mod 65536 ^ k) * 65536 + n mod 65536"
    by (simp only: hextets_value_snoc Suc [of "n div 65536"])
  also have "\<dots> = n mod 65536 ^ Suc k"
    by (simp add: mod_mult2_eq mult.commute)
  finally show ?case .
qed (simp add: hextets_value_def)

lemma v6_hextets_value: "of_nat (hextets_value (v6_hextets a)) = a"
proof -
  have "v6_hextets a = map (\<lambda>i. unat a div 65536 ^ (8 - Suc i) mod 65536) [0..<8]"
    unfolding v6_hextets_def by (rule map_cong) (auto simp: )
  then have "hextets_value (v6_hextets a) = unat a mod 65536 ^ 8"
    by (simp only: hextets_value_digits)
  moreover have "unat a < 65536 ^ 8" using unsigned_less [of a] by simp
  ultimately show ?thesis by simp
qed

lemma v6_hextets_length [simp]: "length (v6_hextets a) = 8"
  by (simp add: v6_hextets_def)

lemma v6_hextets_lt: "h \<in> set (v6_hextets a) \<Longrightarrow> h < 65536"
  by (auto simp: v6_hextets_def)

text \<open>The longest run found is a run of zero hextets inside the list.\<close>

definition zero_run :: "nat list \<Rightarrow> nat \<Rightarrow> nat \<times> nat \<Rightarrow> bool" where
  "zero_run hs n r \<longleftrightarrow> fst r + snd r \<le> n \<and> (\<forall>j. fst r \<le> j \<and> j < fst r + snd r \<longrightarrow> hs ! j = 0)"

lemma longest_zero_run_zero:
  assumes "zero_run hs i best" "zero_run hs i cur" "i \<le> length hs"
    "snd cur \<noteq> 0 \<Longrightarrow> fst cur + snd cur = i"
  shows "zero_run hs (length hs) (longest_zero_run i (drop i hs) best cur)"
  using assms
proof (induction "length hs - i" arbitrary: i best cur)
  case 0
  then show ?case by (cases best; cases cur) (auto simp: zero_run_def)
next
  case (Suc k)
  obtain bs bl cs cl where bc: "best = (bs, bl)" "cur = (cs, cl)" by (cases best; cases cur)
  have i: "i < length hs" "k = length hs - Suc i" using Suc.hyps(2) by auto
  have wide: "zero_run hs (Suc i) best" using Suc.prems(1) by (auto simp: zero_run_def)
  have drop: "drop i hs = hs ! i # drop (Suc i) hs" using i(1) by (simp add: Cons_nth_drop_Suc)
  let ?cur = "(if cl = 0 then i else cs, cl + 1)"
  have grown: "zero_run hs (Suc i) ?cur \<and> fst ?cur + snd ?cur = Suc i" if "hs ! i = 0"
    using Suc.prems(2,4) that by (auto simp: zero_run_def bc less_Suc_eq)
  have reset: "zero_run hs (Suc i) (cs, 0)"
    using Suc.prems(2) by (auto simp: zero_run_def bc)
  show ?case
  proof (cases "hs ! i = 0")
    case True
    then have g: "zero_run hs (Suc i) ?cur" "fst ?cur + snd ?cur = Suc i" using grown by auto
    have "zero_run hs (length hs) (longest_zero_run (Suc i) (drop (Suc i) hs) b ?cur)"
      if "zero_run hs (Suc i) b" for b
      using that g i(1) by (intro Suc.hyps(1) [OF i(2)]) auto
    from this [of ?cur] this [of best] show ?thesis
      using True g wide by (simp add: drop bc Let_def)
  next
    case False
    have "zero_run hs (length hs) (longest_zero_run (Suc i) (drop (Suc i) hs) best (cs, 0))"
      using reset wide i(1) by (intro Suc.hyps(1) [OF i(2)]) auto
    then show ?thesis using False by (simp add: drop bc)
  qed
qed

lemma longest_zero_run_spec:
  assumes "longest_zero_run 0 hs (0, 0) (0, 0) = (st, len)"
  shows "st + len \<le> length hs" "\<And>j. st \<le> j \<Longrightarrow> j < st + len \<Longrightarrow> hs ! j = 0"
  using longest_zero_run_zero [of hs 0 "(0, 0)" "(0, 0)"] assms by (auto simp: zero_run_def)

text \<open>Reading a list of parts with one gap, and one without.\<close>

definition gapped :: "string list \<Rightarrow> string list \<Rightarrow> string list" where
  "gapped H L = (if H = [] then [[]] else H) @ [[]] @ (if L = [] then [[]] else L)"

lemma inner_empties_shape:
  assumes "[] \<notin> set P" "[] \<notin> set Q"
  shows "inner_empties (x # P @ [] # Q @ [y]) = [Suc (length P)]"
proof -
  let ?p = "x # P @ [] # Q @ [y]"
  have "length ?p - 1 = Suc (length P) + Suc (length Q)" by simp
  then have "[1..<length ?p - 1]
      = [1..<Suc (length P)] @ [Suc (length P)..<Suc (length P) + Suc (length Q)]"
    using upt_add_eq_append [of 1 "Suc (length P)" "Suc (length Q)"] by simp
  also have "[Suc (length P)..<Suc (length P) + Suc (length Q)]
      = Suc (length P) # [Suc (Suc (length P))..<Suc (length P) + Suc (length Q)]"
    by (simp add: upt_conv_Cons del: upt_Suc)
  finally have split: "[1..<length ?p - 1] = [1..<Suc (length P)] @
      Suc (length P) # [Suc (Suc (length P))..<Suc (length P) + Suc (length Q)]" .
  have "?p ! i \<noteq> []" if i: "1 \<le> i" "i < Suc (length P)" for i
  proof -
    obtain j where j: "i = Suc j" "j < length P" using i by (cases i) auto
    then have "?p ! i = P ! j" by (simp add: nth_append)
    then show ?thesis using assms(1) j(2) by (metis nth_mem)
  qed
  moreover have "?p ! i \<noteq> []"
    if i: "Suc (Suc (length P)) \<le> i" "i < Suc (length P) + Suc (length Q)" for i
  proof -
    obtain j where j: "i = Suc (Suc (length P)) + j"
      using i(1) le_Suc_ex by blast
    then have "j < length Q" using i(2) by simp
    moreover from this have "?p ! i = Q ! j" by (simp add: j nth_append)
    ultimately show ?thesis using assms(2) by (metis nth_mem)
  qed
  ultimately have "filter (\<lambda>i. ?p ! i = []) [1..<Suc (length P)] = []"
      "filter (\<lambda>i. ?p ! i = []) [Suc (Suc (length P))..<Suc (length P) + Suc (length Q)] = []"
    unfolding filter_empty_conv set_upt by auto
  moreover have "?p ! Suc (length P) = []" by simp
  ultimately show ?thesis
    unfolding inner_empties_def split by (simp del: upt_Suc)
qed

lemma gapped_shape:
  assumes "[] \<notin> set H" "[] \<notin> set L"
  obtains x P Q y where "gapped H L = x # P @ [] # Q @ [y]" "[] \<notin> set P" "[] \<notin> set Q"
    "x = [] \<longleftrightarrow> H = []" "y = [] \<longleftrightarrow> L = []" "length P = length H - 1"
    "length Q = length L - 1"
proof -
  define x P where "x = (if H = [] then [] else hd H)" and "P = tl H"
  define y Q where "y = (if L = [] then [] else last L)" and "Q = butlast L"
  have "gapped H L = x # P @ [] # Q @ [y]"
    by (cases H; cases L rule: rev_cases) (auto simp: gapped_def x_def P_def y_def Q_def)
  moreover have "[] \<notin> set P" using assms(1) by (cases H) (auto simp: P_def)
  moreover have "[] \<notin> set Q" using assms(2) by (auto simp: Q_def dest: in_set_butlastD)
  moreover have "x = [] \<longleftrightarrow> H = []" using assms(1) by (cases H) (auto simp: x_def)
  moreover have "y = [] \<longleftrightarrow> L = []" using assms(2) by (auto simp: y_def) (metis last_in_set)
  moreover have "length P = length H - 1" "length Q = length L - 1"
    by (simp_all add: P_def Q_def)
  ultimately show ?thesis by (rule that)
qed

lemma read_gapped:
  assumes hs: "\<forall>h\<in>set hs. h < 65536" and ls: "\<forall>h\<in>set ls. h < 65536"
    and len: "length hs + length ls < 8"
  shows "read_parts (gapped (map hex_text hs) (map hex_text ls))
    = Some (of_nat (hextets_value (hs @ replicate (8 - (length hs + length ls)) 0 @ ls)))"
proof -
  let ?H = "map hex_text hs" and ?L = "map hex_text ls"
  have ne: "[] \<notin> set ?H" "[] \<notin> set ?L" by (auto simp: image_iff) (metis hex_text_not_Nil)+
  from gapped_shape [OF ne] obtain x P Q y where g:
    "gapped ?H ?L = x # P @ [] # Q @ [y]" "[] \<notin> set P" "[] \<notin> set Q"
    "x = [] \<longleftrightarrow> ?H = []" "y = [] \<longleftrightarrow> ?L = []" "length P = length ?H - 1"
    "length Q = length ?L - 1" by metis
  let ?p = "gapped ?H ?L"
  have ie: "inner_empties ?p = [Suc (length P)]"
    using inner_empties_shape [OF g(2,3)] g(1) by simp
  have hd: "hd ?p = x" and last: "last ?p = y" and n: "length ?p = length P + length Q + 3"
    using g(1) by simp_all
  have take: "take (length hs) ?p = ?H" by (auto simp: gapped_def)
  have drop: "drop (length ?p - length ls) ?p = ?L" by (auto simp: gapped_def)
  have hi: "(if hd ?p = [] then Suc (length P) - 1 else Suc (length P)) = length hs"
    unfolding hd using g(4,6) by (cases hs) auto
  have lo: "(if last ?p = [] then length ?p - Suc (length P) - 2
      else length ?p - Suc (length P) - 1) = length ls"
    unfolding last n using g(5,7) by (cases ls) auto
  have guards: "\<not> (hd ?p = [] \<and> length hs \<noteq> 0 \<or> last ?p = [] \<and> length ls \<noteq> 0
      \<or> 8 \<le> length hs + length ls)"
    unfolding hd last using g(4,5) len by auto
  show ?thesis
    unfolding read_parts_def ie list.case Let_def hi lo if_not_P [OF guards] take drop
    using all_some_hextets [OF hs] all_some_hextets [OF ls] by simp
qed

lemma read_full:
  assumes hs: "\<forall>h\<in>set hs. h < 65536" and len: "length hs = 8"
  shows "read_parts (map hex_text hs) = Some (of_nat (hextets_value hs))"
proof -
  have "inner_empties (map hex_text hs) = []"
    using len by (auto simp: inner_empties_def filter_empty_conv)
  moreover have "hd (map hex_text hs) \<noteq> []" "last (map hex_text hs) \<noteq> []"
    using len by (cases hs; auto simp: last_map)+
  ultimately show ?thesis
    using len all_some_hextets [OF hs] by (simp add: read_parts_def)
qed

lemma compress_cases:
  obtains "compress_hextets hs = map hex_text hs"
  | pre k post where "hs = pre @ replicate k 0 @ post" "1 < k"
      "compress_hextets hs = gapped (map hex_text pre) (map hex_text post)"
proof (cases "longest_zero_run 0 hs (0, 0) (0, 0)")
  case (Pair st len)
  note run = longest_zero_run_spec [OF Pair]
  show thesis
  proof (cases "1 < len")
    case False
    then show ?thesis using that(1) by (simp add: compress_hextets_def Pair)
  next
    case True
    have "take len (drop st hs) = replicate len 0"
      using run by (intro nth_equalityI) auto
    then have "hs = take st hs @ replicate len 0 @ drop (st + len) hs"
      by (metis append_take_drop_id drop_drop add.commute)
    moreover have "compress_hextets hs
        = gapped (map hex_text (take st hs)) (map hex_text (drop (st + len) hs))"
      using run(1) True by (auto simp: compress_hextets_def Pair gapped_def take_map drop_map)
    ultimately show ?thesis using that(2) True by blast
  qed
qed

lemma gapped_length: "length (gapped H L) = max 1 (length H) + 1 + max 1 (length L)"
  by (cases H; cases L) (auto simp: gapped_def)

lemma gapped_plain:
  assumes "\<forall>w\<in>set H. c \<notin> set w" "\<forall>w\<in>set L. c \<notin> set w"
  shows "\<forall>w\<in>set (gapped H L). c \<notin> set w"
  using assms by (auto simp: gapped_def split: if_splits)

lemma parse_parts:
  assumes sep: "\<forall>w\<in>set ps. CHR '':'' \<notin> set w" and dot: "\<forall>w\<in>set ps. CHR ''.'' \<notin> set w"
    and len: "3 \<le> length ps" "length ps \<le> 9" and read: "read_parts ps = Some a"
  shows "parse_v6_addr (join_with '':'' ps) = Some a"
proof -
  have split: "split_on CHR '':'' (join_with '':'' ps) = ps"
    using sep len by (intro split_on_join) auto
  have "CHR ''.'' \<notin> set (last ps)" using dot len(1) by (cases ps rule: rev_cases) auto
  then have "expand_v4_tail ps = Some ps" by (simp add: expand_v4_tail_def)
  moreover have "join_with '':'' ps \<noteq> []"
    using len(1) split by (cases "join_with '':'' ps") auto
  ultimately show ?thesis using len read by (simp add: parse_v6_addr_def split)
qed

lemma parse_compressed:
  assumes "\<forall>h\<in>set hs. h < 65536" "length hs = 8"
  shows "parse_v6_addr (join_with '':'' (compress_hextets hs)) = Some (of_nat (hextets_value hs))"
proof (cases hs rule: compress_cases)
  case 1
  then show ?thesis using assms read_full [OF assms] by (auto intro!: parse_parts)
next
  case (2 pre k post)
  have len: "length pre + length post + k = 8" using assms(2) 2(1) by simp
  have bounds: "\<forall>h\<in>set pre. h < 65536" "\<forall>h\<in>set post. h < 65536" using assms(1) 2(1) by auto
  have k: "8 - (length pre + length post) = k" using len by simp
  have "read_parts (gapped (map hex_text pre) (map hex_text post)) = Some (of_nat (hextets_value hs))"
    using read_gapped [OF bounds] len 2(1,2) unfolding k by simp
  then show ?thesis
    unfolding 2(3) using len 2(2)
    by (intro parse_parts gapped_plain) (auto simp: gapped_length)
qed

lemma colon_not_in_v4 [simp]:
  "CHR '':'' \<notin> set (format_v4 a)" "CHR ''%'' \<notin> set (format_v4 a)" "CHR ''/'' \<notin> set (format_v4 a)"
proof -
  have join: "c \<noteq> CHR ''.'' \<Longrightarrow> \<forall>w\<in>set ws. c \<notin> set w \<Longrightarrow> c \<notin> set (join_with ''.'' ws)" for c ws
    by (induction "''.''" ws rule: join_with.induct) auto
  have "\<not> is_digit_char c \<Longrightarrow> c \<noteq> CHR ''.'' \<Longrightarrow> c \<notin> set (format_v4 a)" for c
    unfolding format_v4_def by (intro join) (auto simp: digit_not_in_dec_text)
  then show "CHR '':'' \<notin> set (format_v4 a)" "CHR ''%'' \<notin> set (format_v4 a)"
      "CHR ''/'' \<notin> set (format_v4 a)"
    by (simp_all add: is_digit_char_def code_point_def)
qed

lemma parse_format_v6_addr [simp]: "parse_v6_addr (format_v6_addr a) = Some a"
proof (cases "drop_bit 32 a = 0xFFFF")
  case False
  then show ?thesis
    using parse_compressed [of "v6_hextets a"]
    by (auto simp: format_v6_addr_def v6_hextets_value dest: v6_hextets_lt)
next
  case True
  let ?w = "ucast a :: 32 word"
  let ?l = "[65535, unat ?w div 65536, unat ?w mod 65536]"
  have dots: "CHR ''.'' \<in> set (format_v4 ?w)"
    by (simp add: format_v4_def v4_octets_def Let_def)
  have "format_v6_addr a = join_with '':'' [[], [], ''ffff'', format_v4 ?w]"
    using True by (simp add: format_v6_addr_def)
  moreover have "split_on CHR '':'' (join_with '':'' [[], [], ''ffff'', format_v4 ?w])
      = [[], [], ''ffff'', format_v4 ?w]"
    using split_on_join [of "[[], [], ''ffff'', format_v4 ?w]" "CHR '':''"] by simp
  moreover have "hex_text 65535 = ''ffff''" by (simp add: hex_text.simps hex_char_15)
  then have "[[], [], ''ffff'', hex_text (unat ?w div 65536), hex_text (unat ?w mod 65536)]
      = gapped (map hex_text []) (map hex_text ?l)"
    by (simp add: gapped_def)
  moreover have "read_parts (gapped (map hex_text []) (map hex_text ?l)) = Some a"
  proof -
    have lt: "unat ?w < 4294967296" using unsigned_less [of ?w] by simp
    have "unat (drop_bit 32 a) = 0xFFFF" using True by simp
    then have "unat a div 4294967296 = 65535"
      unfolding unat_drop_bit_eq unfolding drop_bit_eq_div by simp
    moreover have "unat ?w = unat a mod 4294967296"
      by (simp add: unsigned_ucast_eq take_bit_eq_mod)
    ultimately have "65535 * 4294967296 + unat ?w = unat a"
      using div_mult_mod_eq [of "unat a" 4294967296] by simp
    moreover have "hextets_value ?l = 65535 * 4294967296 + unat ?w"
      by (simp add: hextets_value_def)
    ultimately have val: "of_nat (hextets_value ?l) = a" by simp
    have bound: "\<forall>h\<in>set ?l. h < 65536" using lt by (auto simp: less_mult_imp_div_less)
    have "read_parts (gapped (map hex_text []) (map hex_text ?l))
        = Some (of_nat (hextets_value ([] @ replicate (8 - (length ([] :: nat list) + length ?l)) 0 @ ?l)))"
      by (rule read_gapped [OF _ bound]) simp_all
    then show ?thesis unfolding append_Nil hextets_value_zeros val .
  qed
  ultimately show ?thesis
    using dots by (simp add: parse_v6_addr_def expand_v4_tail_def gapped_length)
qed

lemma parse_v4_colon: "CHR '':'' \<in> set s \<Longrightarrow> parse_v4 s = None"
proof -
  assume "CHR '':'' \<in> set s"
  moreover have "c \<in> set s \<Longrightarrow> c \<noteq> d \<Longrightarrow> \<exists>w\<in>set (split_on d s). c \<in> set w" for c d and s :: string
    by (induction s) (auto split: list.splits)
  ultimately obtain w where w: "w \<in> set (split_on CHR ''.'' s)" "CHR '':'' \<in> set w" by blast
  have "\<not> is_digit_char CHR '':''" by (simp add: is_digit_char_def code_point_def)
  then have "parse_octet w = None" using w(2) by (auto simp: parse_octet_def list_all_iff)
  then have "None \<in> set (map parse_octet (split_on CHR ''.'' s))" using w(1) by force
  then show ?thesis by (auto simp: parse_v4_def split: list.splits option.splits)
qed

lemma join_chars: "set (join_with d ws) \<subseteq> set d \<union> \<Union> (set ` set ws)"
  by (induction d ws rule: join_with.induct) auto

lemma compress_chars:
  "w \<in> set (compress_hextets hs) \<Longrightarrow> list_all is_hex_char w"
  by (cases hs rule: compress_cases) (auto simp: gapped_def split: if_splits)

lemma v6_text_chars:
  assumes "c \<in> set (format_v6_addr a)"
  shows "is_hex_char c \<or> c = CHR '':'' \<or> c = CHR ''.''"
proof (cases "drop_bit 32 a = 0xFFFF")
  case True
  have "c \<in> set ''::ffff:'' \<union> {CHR ''.''} \<union> \<Union> (set ` set (map dec_text (v4_octets (ucast a))))"
    using assms True join_chars [of "''.''" "map dec_text (v4_octets (ucast a))"]
    by (auto simp: format_v6_addr_def format_v4_def)
  moreover have "is_digit_char c \<Longrightarrow> is_hex_char c"
    by (simp add: is_digit_char_def is_hex_char_def Let_def)
  moreover have "is_hex_char CHR ''f''" by (simp add: is_hex_char_def code_point_def)
  ultimately show ?thesis using dec_text_digits by auto
next
  case False
  then have "c \<in> {CHR '':''} \<union> \<Union> (set ` set (compress_hextets (v6_hextets a)))"
    using assms join_chars [of "'':''" "compress_hextets (v6_hextets a)"]
    by (auto simp: format_v6_addr_def)
  then show ?thesis using compress_chars by (auto simp: list_all_iff)
qed

lemma sep_not_in_v6 [simp]:
  "CHR ''/'' \<notin> set (format_v6_addr a)" "CHR ''%'' \<notin> set (format_v6_addr a)"
  using v6_text_chars [of "CHR ''/''" a] v6_text_chars [of "CHR ''%''" a]
  by (auto simp: is_hex_char_def code_point_def)

lemma colon_in_v6 [simp]: "CHR '':'' \<in> set (format_v6_addr a)"
proof -
  have "CHR '':'' \<notin> set s \<Longrightarrow> parse_v6_addr s = None" for s
    by (simp add: parse_v6_addr_def split_on_none)
  then show ?thesis by (metis option.distinct(1) parse_format_v6_addr)
qed

lemma parse_format_v6 [simp]: "parse_v6 (format_v6_addr a) = Some (V6 a None)"
  by (simp add: parse_v6_def)

text \<open>The scope ids an address that was read can carry.\<close>

fun plain_scope :: "ip \<Rightarrow> bool" where
  "plain_scope (V6 _ (Some s)) \<longleftrightarrow> s \<noteq> [] \<and> CHR ''%'' \<notin> set s \<and> CHR ''/'' \<notin> set s"
| "plain_scope _ \<longleftrightarrow> True"

lemma parse_format_ip: "plain_scope a \<Longrightarrow> parse_ip (format_ip a) = Some a"
proof (induction a rule: format_ip.induct)
  case (3 a s)
  then have "parse_v6 (format_v6_addr a @ ''%'' @ s) = Some (V6 a (Some s))"
    by (simp add: parse_v6_def)
  moreover have "parse_v4 (format_v6_addr a @ ''%'' @ s) = None"
    by (rule parse_v4_colon) simp
  ultimately show ?case using 3 by (simp add: parse_ip_def)
qed (simp_all add: parse_ip_def parse_v4_colon)

lemma parse_ip_plain: "parse_ip s = Some a \<Longrightarrow> plain_scope a"
  by (auto simp: parse_ip_def parse_v6_def split: if_splits option.splits prod.splits
      dest!: partition_on_Some)

lemma parse_format_parse: "parse_ip s = Some a \<Longrightarrow> parse_ip (format_ip a) = Some a"
  by (simp add: parse_format_ip parse_ip_plain)

lemma parse_prefix_text: "p \<le> w \<Longrightarrow> parse_prefix w (dec_text p) = Some p"
  by (simp add: parse_prefix_def)

lemma parse_format_net: "wf_net n \<Longrightarrow> parse_net (format_net n) = Some n"
proof (cases n)
  case (Net4 a p)
  assume wf: "wf_net n"
  have "split_on CHR ''/'' (format_net n) = [format_v4 a, dec_text p]"
    by (simp add: Net4 split_on_append split_on_none digit_not_in_dec_text is_digit_char_def
        code_point_def)
  then show ?thesis
    using wf by (simp add: Net4 parse_net_def Let_def parse_v4_mask_def parse_prefix_text)
next
  case (Net6 a p)
  assume wf: "wf_net n"
  have "split_on CHR ''/'' (format_net n) = [format_v6_addr a, dec_text p]"
    by (simp add: Net6 split_on_append split_on_none digit_not_in_dec_text is_digit_char_def
        code_point_def)
  then show ?thesis
    using wf by (simp add: Net6 parse_net_def Let_def parse_prefix_text parse_v4_colon)
qed

lemma parse_net_wf: "parse_net s = Some n \<Longrightarrow> wf_net n"
  by (auto simp: parse_net_def Let_def split: option.splits if_splits)

end
