(* ===== verification/EgressAddress.thy ===== *)
theory EgressAddress
  imports IpText
begin

text \<open>
  The address classifier of \<open>egress_policy.py\<close>: the network tables, \<open>is_blocked\<close>,
  \<open>classify\<close>, \<open>locality\<close> and the deployment's own networks. The lemmas show that the
  class of an address agrees with the tables (no address the tables refuse is PUBLIC, PRIVATE or
  LOOPBACK), that an IPv4-mapped spelling never changes the answer, and that a network judged
  wholly public or wholly private holds addresses of that class only.
\<close>

section \<open>The tables\<close>

definition blocked_networks :: "ipnet list" where
  "blocked_networks =
     [Net4 0x7F000000 8, Net4 0x0A000000 8, Net4 0xAC100000 12, Net4 0xC0A80000 16,
      Net4 0xA9FE0000 16, Net6 1 128, Net6 0xFC000000000000000000000000000000 7,
      Net6 0xFE800000000000000000000000000000 10, Net4 0 8,
      Net4 0x64400000 10,
      Net4 0xC0000000 24,
      Net4 0xC6120000 15,
      Net6 0 128,
      Net6 0xFEC00000000000000000000000000000 10]"

definition metadata_hosts :: "string list" where
  "metadata_hosts =
     [''metadata.google.internal'', ''metadata.goog'', ''instance-data'', ''metadata.azure.com'']"

text \<open>169.254.169.254, 169.254.170.2, fd00:ec2::254, fd20:ce::254, 100.100.100.200, 192.0.0.192
  and 168.63.129.16.\<close>

definition metadata_addresses :: "ip list" where
  "metadata_addresses =
     [V4 0xA9FEA9FE, V4 0xA9FEAA02, V6 0xFD000EC2000000000000000000000254 None,
      V6 0xFD2000CE000000000000000000000254 None, V4 0x646464C8, V4 0xC00000C0, V4 0xA83F8110]"

definition private_networks :: "ipnet list" where
  "private_networks =
     [Net4 0x0A000000 8, Net4 0xAC100000 12, Net4 0xC0A80000 16,
      Net6 0xFC000000000000000000000000000000 7, Net4 0x64400000 10]"

definition loopback_networks :: "ipnet list" where
  "loopback_networks = [Net4 0x7F000000 8, Net6 1 128]"

definition never_admissible :: "ipnet list" where
  "never_admissible =
     [Net4 0 8, Net4 0xC0000000 24, Net4 0xC6120000 15, Net4 0xA9FE0000 16,
      Net4 0xE0000000 4, Net4 0xF0000000 4, Net6 0xFE800000000000000000000000000000 10,
      Net6 0xFEC00000000000000000000000000000 10, Net6 0x20020000000000000000000000000000 16,
      Net6 0xFF000000000000000000000000000000 8, Net6 0 128]"

definition not_public :: "ipnet list" where
  "not_public = blocked_networks @ never_admissible @
     [Net4 0xC0000200 24, Net4 0xC6336400 24, Net4 0xCB007100 24,
      Net6 0x20010000000000000000000000000000 23, Net6 0x20010DB8000000000000000000000000 32,
      Net6 0x3FFF0000000000000000000000000000 20, Net6 0x0064FF9B000100000000000000000000 48,
      Net6 0x01000000000000000000000000000000 64]"

definition global_unicast_v6 :: ipnet where
  "global_unicast_v6 = Net6 0x20000000000000000000000000000000 3"

definition reserved_service_names :: "string list" where
  "reserved_service_names =
     [''postgres'', ''redis'', ''minio'', ''minio-init'', ''migrate'', ''api'',
      ''sample-origin'', ''cron'', ''caddy'', ''egress-proxy'', ''mailpit'', ''localhost'']"

text \<open>172.31.243.0/24 and 172.31.244.0/24.\<close>

definition default_internal_networks :: "ipnet list" where
  "default_internal_networks = [Net4 0xAC1FF300 24, Net4 0xAC1FF400 24]"

section \<open>The classifier\<close>

text \<open>\<open>is_blocked\<close> of an address that is no longer IPv4-mapped and embeds no other.\<close>

definition blocked_itself :: "ip \<Rightarrow> bool" where
  "blocked_itself a \<longleftrightarrow>
     is_loopback a \<or> is_private a \<or> is_link_local a \<or> is_multicast a \<or> is_reserved a \<or>
     is_unspecified a \<or> in_any blocked_networks a"

text \<open>
  The recursion of the source has depth one: \<open>sixtofour\<close> of an address is an IPv4 address,
  which has neither a mapped nor a 6to4 form.
\<close>

definition is_blocked :: "ip \<Rightarrow> bool" where
  "is_blocked addr =
     (let a = (case ipv4_mapped addr of Some m \<Rightarrow> m | None \<Rightarrow> addr)
      in (case sixtofour a of Some e \<Rightarrow> blocked_itself e | None \<Rightarrow> False) \<or> blocked_itself a)"

datatype address_class = PUBLIC | PRIVATE | LOOPBACK | LINK_LOCAL | METADATA | OTHER

definition inside :: "ip \<Rightarrow> ipnet list \<Rightarrow> bool" where
  "inside a ns \<longleftrightarrow> list_ex (\<lambda>n. ip_version a = net_version n \<and> in_net a n) ns"

definition classify :: "ip \<Rightarrow> address_class" where
  "classify addr =
     (let a = unwrap addr in
      if a \<in> set metadata_addresses then METADATA
      else if \<not> is_blocked a then PUBLIC
      else if is_loopback a then LOOPBACK
      else if is_link_local a then LINK_LOCAL
      else if inside a private_networks then PRIVATE
      else OTHER)"

definition locality :: "ip \<Rightarrow> string" where
  "locality a =
     (case classify a of LOOPBACK \<Rightarrow> ''loopback'' | PRIVATE \<Rightarrow> ''private'' | PUBLIC \<Rightarrow> ''global''
      | _ \<Rightarrow> ''refused'')"

text \<open>
  \<open>internal_networks\<close>: the value of the environment variable, if set; blank counts as
  unset. \<open>None\<close> is the \<open>ValueError\<close> of a malformed value.
\<close>

definition internal_networks :: "string option \<Rightarrow> bool \<Rightarrow> ipnet list option" where
  "internal_networks raw production =
     (case raw of
        None \<Rightarrow> Some (if production then default_internal_networks else [])
      | Some text \<Rightarrow>
          if strip text = [] then Some (if production then default_internal_networks else [])
          else all_some (map (\<lambda>part. let p = strip part in if p = [] then None else parse_net p)
                             (split_on CHR '','' text)))"

section \<open>Whole networks\<close>

definition wholly_public :: "ipnet \<Rightarrow> bool" where
  "wholly_public n \<longleftrightarrow>
     \<not> (net_version n = 6 \<and> \<not> subnet_of n global_unicast_v6) \<and>
     \<not> list_ex (\<lambda>m. net_version n = net_version m \<and> overlaps n m) not_public \<and>
     \<not> (is_blocked (network_address n) \<or> is_blocked (broadcast_address n))"

definition wholly_private :: "ipnet \<Rightarrow> bool" where
  "wholly_private n \<longleftrightarrow>
     list_ex (\<lambda>p. net_version n = net_version p \<and> subnet_of n p) private_networks"

definition loopback_net :: "ipnet \<Rightarrow> bool" where
  "loopback_net n \<longleftrightarrow>
     list_ex (\<lambda>m. net_version n = net_version m \<and> subnet_of n m) loopback_networks"

section \<open>What the classes mean\<close>

lemma inside_iff: "inside a ns \<longleftrightarrow> in_any ns a"
  by (auto simp: inside_def in_any_def list_ex_iff dest: in_net_version)

lemma is_blocked_unwrap: "is_blocked (unwrap a) = is_blocked a"
  by (cases "ipv4_mapped a") (simp_all add: is_blocked_def unwrap_def, metis ipv4_mapped_V4
      ipv4_mapped.simps(1) option.simps(4))

lemma classify_unwrap: "classify (unwrap a) = classify a"
  by (simp add: classify_def)

lemma is_blocked_here:
  "is_blocked a \<longleftrightarrow> (\<exists>e. sixtofour (unwrap a) = Some e \<and> blocked_itself e) \<or> blocked_itself (unwrap a)"
  by (auto simp: is_blocked_def unwrap_def Let_def split: option.splits)

lemma unwrapped_mapped: "unwrap a = a \<Longrightarrow> ipv4_mapped a = None"
  by (metis ipv4_mapped_unwrap)

text \<open>Disjoint tables share no address: the check is by the two network values alone.\<close>

definition tables_disjoint :: "ipnet list \<Rightarrow> ipnet list \<Rightarrow> bool" where
  "tables_disjoint ns ms \<longleftrightarrow> list_all (\<lambda>n. list_all (\<lambda>m. \<not> overlaps n m) ms) ns"

lemma tables_disjoint_apart: "tables_disjoint ns ms \<Longrightarrow> in_any ns a \<Longrightarrow> \<not> in_any ms a"
  by (auto simp: tables_disjoint_def list_all_iff in_any_iff dest: not_overlaps_disjoint)

lemma never_private_apart: "tables_disjoint never_admissible private_networks"
  by code_simp

lemma tables_wf: "list_all wf_net (not_public @ private_networks @ loopback_networks)"
  by code_simp

lemma never_loopback_apart: "tables_disjoint never_admissible loopback_networks"
  by code_simp

lemma private_local_apart:
  "tables_disjoint private_networks
     (Net4 0xA9FE0000 16 # Net6 0xFE800000000000000000000000000000 10 # loopback_networks)"
  by code_simp

lemma tunnel_no_exception:
  "tables_disjoint [Net6 0x20020000000000000000000000000000 16] v6_private_exceptions"
  by code_simp

lemma in_prefix_full: "in_prefix n LENGTH('a) a \<longleftrightarrow> n = (a :: 'a::len word)"
  by (auto simp: in_prefix_def net_of_def hostmask_def)

lemma in_prefix_full6: "in_prefix n 128 a \<longleftrightarrow> n = (a :: 128 word)"
  using in_prefix_full [of n a] by simp

lemma loopback_here_iff: "loopback_here a \<longleftrightarrow> in_any loopback_networks a"
  by (cases a) (auto simp: loopback_networks_def in_any_def in_prefix_full6)

lemma link_local_here_iff:
  "link_local_here a \<longleftrightarrow>
     in_any [Net4 0xA9FE0000 16, Net6 0xFE800000000000000000000000000000 10] a"
  by (cases a) (auto simp: in_any_def)

lemma never_blocked_itself:
  assumes "in_any never_admissible a" "unwrap a = a"
  shows "blocked_itself a"
proof (cases "in_net a (Net6 0x20020000000000000000000000000000 16)")
  case True
  then have "\<not> in_any v6_private_exceptions a"
    using tables_disjoint_apart [OF tunnel_no_exception] by (simp add: in_any_def)
  moreover have "in_any v6_private_networks a" using True by (simp add: in_any_def v6_private_networks_def)
  ultimately have "private_here a" using True by (cases a) simp_all
  then show ?thesis by (simp add: blocked_itself_def is_private_def assms(2))
next
  case False
  then show ?thesis
    using assms(1) unfolding blocked_itself_def is_multicast_def is_reserved_def assms(2)
    by (cases a) (auto simp: never_admissible_def blocked_networks_def in_any_def)
qed

lemma never_blocked: "in_any never_admissible (unwrap a) \<Longrightarrow> is_blocked a"
  by (simp add: is_blocked_here never_blocked_itself)

lemma blocked_table_blocked: "in_any blocked_networks (unwrap a) \<Longrightarrow> is_blocked a"
  by (simp add: is_blocked_here blocked_itself_def)

text \<open>The class of an address never overrides a table.\<close>

lemma classify_public:
  assumes "classify a = PUBLIC"
  shows "\<not> in_any (blocked_networks @ never_admissible) (unwrap a)"
    "unwrap a \<notin> set metadata_addresses"
  using assms never_blocked [of a] blocked_table_blocked [of a]
  by (auto simp: classify_def Let_def is_blocked_unwrap split: if_splits)

lemma classify_loopback:
  "classify a = LOOPBACK \<Longrightarrow> in_any loopback_networks (unwrap a)"
  by (auto simp: classify_def Let_def is_loopback_def loopback_here_iff split: if_splits)

lemma classify_private:
  "classify a = PRIVATE \<Longrightarrow> in_any private_networks (unwrap a)"
  by (auto simp: classify_def Let_def inside_iff split: if_splits)

lemma classify_not_metadata:
  "classify a \<noteq> METADATA \<longleftrightarrow> unwrap a \<notin> set metadata_addresses"
  by (auto simp: classify_def Let_def)

lemma classify_never:
  assumes "in_any never_admissible (unwrap a)"
  shows "classify a \<in> {METADATA, LINK_LOCAL, OTHER}"
proof -
  have "classify a \<noteq> PUBLIC" using classify_public [of a] assms by auto
  moreover have "classify a \<noteq> LOOPBACK"
    using classify_loopback [of a] assms tables_disjoint_apart [OF never_loopback_apart] by blast
  moreover have "classify a \<noteq> PRIVATE"
    using classify_private [of a] assms tables_disjoint_apart [OF never_private_apart] by blast
  ultimately show ?thesis by (cases "classify a") auto
qed

section \<open>Wholly public and wholly private networks\<close>

lemma net_of_push: "net_of x 16 = push_bit 112 (drop_bit 112 (x :: 128 word))"
  by (rule bit_eqI) (auto simp: bit_net_of bit_push_bit_iff bit_drop_bit_eq)

definition within :: "ipnet list \<Rightarrow> ipnet list \<Rightarrow> bool" where
  "within ns ms \<longleftrightarrow> list_all (\<lambda>n. list_ex (\<lambda>m. subnet_of n m) ms) ns"

lemma within_member:
  "within ns ms \<Longrightarrow> list_all wf_net ms \<Longrightarrow> in_any ns a \<Longrightarrow> in_any ms a"
  by (auto simp: within_def list_all_iff list_ex_iff in_any_iff) (metis subnet_of_member)

definition v4_refused :: "ipnet list" where
  "v4_refused = v4_private_networks @
     [Net4 0x7F000000 8, Net4 0xA9FE0000 16, Net4 0xE0000000 4, Net4 0xF0000000 4, Net4 0 32]"

definition v6_refused :: "ipnet list" where
  "v6_refused = v6_private_networks @ v6_reserved_networks @
     [Net6 1 128, Net6 0xFE800000000000000000000000000000 10,
      Net6 0xFF000000000000000000000000000000 8, Net6 0 128]"

lemma v4_refused_within: "within v4_refused not_public"
  by code_simp

lemma v6_refused_within:
  "within (filter (\<lambda>n. overlaps n global_unicast_v6) v6_refused) not_public"
  by code_simp

lemma blocked_itself_v4: "blocked_itself (V4 x) \<Longrightarrow> in_any (v4_refused @ blocked_networks) (V4 x)"
  using in_prefix_full [of 0 x]
  by (auto simp: blocked_itself_def is_loopback_def is_private_def is_link_local_def
      is_multicast_def is_reserved_def is_unspecified_def v4_refused_def in_any_def)

lemma blocked_itself_v6:
  "unwrap (V6 x s) = V6 x s \<Longrightarrow> blocked_itself (V6 x s) \<Longrightarrow>
   in_any (v6_refused @ blocked_networks) (V6 x s)"
  by (auto simp: blocked_itself_def is_loopback_def is_private_def is_link_local_def
      is_multicast_def is_reserved_def is_unspecified_def v6_refused_def in_any_def in_prefix_full6)

lemma wholly_public_apart:
  assumes "wholly_public n" "in_net a n"
  shows "\<not> in_any not_public a"
proof
  assume "in_any not_public a"
  then obtain m where m: "m \<in> set not_public" "in_net a m" by (auto simp: in_any_iff)
  have "net_version n = net_version m" using assms(2) m(2) by (metis in_net_version)
  then have "\<not> overlaps n m" using assms(1) m(1) by (simp add: wholly_public_def list_ex_iff)
  then show False using assms(2) m(2) not_overlaps_disjoint by blast
qed

lemma not_public_wf: "list_all wf_net not_public"
  using tables_wf by simp

lemma global_unicast_not_mapped:
  assumes "in_net (V6 x s) global_unicast_v6"
  shows "unwrap (V6 x s) = V6 x s"
proof -
  have "bit (net_of x 3) 125"
    using assms by (simp add: global_unicast_v6_def in_prefix_def)
  then have "bit x 125" by (simp add: bit_net_of)
  then have "bit (drop_bit 32 x) 93" by (simp add: bit_drop_bit_eq)
  moreover have "\<not> bit (0xFFFF :: 128 word) 93" by simp
  ultimately have "drop_bit 32 x \<noteq> 0xFFFF" by metis
  then show ?thesis by (simp add: unwrap_def)
qed

lemma wholly_public_not_blocked:
  assumes "wholly_public n" "in_net a n"
  shows "unwrap a = a \<and> \<not> is_blocked a"
proof (cases a)
  case (V4 x)
  have "\<not> in_any not_public (V4 x)" using wholly_public_apart [OF assms] V4 by simp
  moreover from this have "\<not> in_any blocked_networks (V4 x)" by (simp add: not_public_def)
  moreover have "\<not> in_any v4_refused (V4 x)"
    using calculation within_member [OF v4_refused_within not_public_wf] by blast
  ultimately have "\<not> blocked_itself (V4 x)" using blocked_itself_v4 [of x] by auto
  then show ?thesis by (simp add: V4 is_blocked_here)
next
  case (V6 x s)
  have pub: "\<not> in_any not_public (V6 x s)" using wholly_public_apart [OF assms] V6 by simp
  have "subnet_of n global_unicast_v6"
    using assms V6 by (cases n) (auto simp: wholly_public_def)
  moreover have "wf_net global_unicast_v6" by code_simp
  ultimately have g: "in_net (V6 x s) global_unicast_v6"
    using subnet_of_member assms(2) V6 by blast
  note here = global_unicast_not_mapped [OF g]
  have "\<not> in_any v6_refused (V6 x s)"
  proof
    assume "in_any v6_refused (V6 x s)"
    then have "in_any (filter (\<lambda>n. overlaps n global_unicast_v6) v6_refused) (V6 x s)"
      using g common_member_overlaps by (auto simp: in_any_iff)
    then show False using pub within_member [OF v6_refused_within not_public_wf] by blast
  qed
  moreover have "\<not> in_any blocked_networks (V6 x s)" using pub by (simp add: not_public_def)
  ultimately have "\<not> blocked_itself (V6 x s)" using blocked_itself_v6 [OF here] by auto
  moreover have "sixtofour (V6 x s) = None"
  proof (rule ccontr)
    assume "sixtofour (V6 x s) \<noteq> None"
    then have "drop_bit 112 x = 0x2002" by (simp split: if_splits)
    then have "net_of x 16 = push_bit 112 0x2002"
      by (metis net_of_push)
    then have "in_any never_admissible (V6 x s)"
      by (simp add: never_admissible_def in_any_def in_prefix_def)
    then show False using pub by (simp add: not_public_def)
  qed
  ultimately show ?thesis by (simp add: V6 is_blocked_here here)
qed

lemma tables_here:
  assumes "in_any (private_networks @ loopback_networks) a"
  shows "unwrap a = a"
proof (cases a)
  case (V6 x s)
  have n: "in_any [Net6 0xFC000000000000000000000000000000 7, Net6 1 128] (V6 x s)"
    using assms by (auto simp: V6 private_networks_def loopback_networks_def in_any_def)
  show ?thesis
  proof (cases "x = 1")
    case False
    then have "in_prefix 0xFC000000000000000000000000000000 7 x"
      using n by (simp add: in_any_def in_prefix_full6)
    then have "bit (net_of x 7) 125" by (simp add: in_prefix_def)
    then have "bit x 125" by (simp add: bit_net_of)
    then have "bit (drop_bit 32 x) 93" by (simp add: bit_drop_bit_eq)
    moreover have "\<not> bit (0xFFFF :: 128 word) 93" by simp
    ultimately have "drop_bit 32 x \<noteq> 0xFFFF" by metis
    then show ?thesis by (simp add: V6 unwrap_def)
  qed (simp add: V6 unwrap_def)
qed simp

lemma wholly_private_class:
  assumes "wholly_private n" "in_net a n" "a \<notin> set metadata_addresses"
  shows "unwrap a = a \<and> is_blocked a \<and> classify a = PRIVATE"
proof -
  obtain p where p: "p \<in> set private_networks" "subnet_of n p"
    using assms(1) by (auto simp: wholly_private_def list_ex_iff)
  have "wf_net p" using p(1) tables_wf by (auto simp: list_all_iff)
  then have priv: "in_any private_networks a"
    using p subnet_of_member assms(2) by (auto simp: in_any_iff)
  then have here: "unwrap a = a" by (intro tables_here) simp
  have blocked: "is_blocked a"
  proof -
    have "set private_networks \<subseteq> set blocked_networks"
      by (simp add: private_networks_def blocked_networks_def)
    then have "in_any blocked_networks a" using priv by (auto simp: in_any_iff)
    then show ?thesis using blocked_table_blocked [of a] here by simp
  qed
  have "\<not> in_any (Net4 0xA9FE0000 16 # Net6 0xFE800000000000000000000000000000 10 # loopback_networks) a"
    using tables_disjoint_apart [OF private_local_apart] priv by blast
  then have "\<not> is_loopback a" "\<not> is_link_local a"
    by (auto simp: is_loopback_def is_link_local_def here loopback_here_iff link_local_here_iff in_any_def)
  then show ?thesis
    using priv blocked here assms(3) by (simp add: classify_def inside_iff)
qed

lemma loopback_net_class:
  assumes "loopback_net n" "in_net a n"
  shows "unwrap a = a \<and> is_blocked a \<and> (classify a = LOOPBACK \<or> a \<in> set metadata_addresses)"
proof -
  obtain p where p: "p \<in> set loopback_networks" "subnet_of n p"
    using assms(1) by (auto simp: loopback_net_def list_ex_iff)
  have "wf_net p" using p(1) tables_wf by (auto simp: list_all_iff)
  then have loop: "in_any loopback_networks a"
    using p subnet_of_member assms(2) by (auto simp: in_any_iff)
  then have here: "unwrap a = a" by (intro tables_here) simp
  have "is_loopback a" by (simp add: is_loopback_def here loopback_here_iff loop)
  moreover from this have "is_blocked a" by (simp add: is_blocked_here here blocked_itself_def)
  ultimately show ?thesis using here by (simp add: classify_def)
qed

end
