(* ===== verification/EgressCodes.thy ===== *)
theory EgressCodes
  imports NocPrelude
begin

text \<open>
  The closed table of egress codes of \<open>egress_policy.py\<close>: the groups of codes, the status
  and SOCKS5 reply a proxy sends for each, the client exception each maps to, and the fixed
  sentence that explains it. The lemmas show that the tables agree: every wire code has a status
  in 400..504, every code has a sentence, and a code the proxy may send is a code a client knows.
\<close>

section \<open>The groups of codes\<close>

definition policy_codes :: "string list" where
  "policy_codes =
     [''scheme_refused'', ''no_host'', ''credentials_in_url'', ''bad_port'', ''bad_host'',
      ''metadata_host'', ''blocked_name'', ''onion_not_allowed'', ''destination_not_allowed'',
      ''port_not_allowed'', ''destination_not_in_source'', ''metadata_address'',
      ''blocked_address'', ''internal_address'', ''outside_declared_network'',
      ''loopback_refused'', ''unclassifiable_address'']"

definition resolution_codes :: "string list" where
  "resolution_codes =
     [''name_not_found'', ''resolve_failed'']"

definition auth_codes :: "string list" where
  "auth_codes =
     [''route_auth_required'', ''route_auth_failed'']"

definition route_codes :: "string list" where
  "route_codes =
     [''route_unknown'', ''route_inactive'', ''route_retired'', ''no_exit'', ''context_required'',
      ''context_refused'', ''probe_only'', ''run_not_running'', ''run_expired'',
      ''passive_route_misused'', ''persona_required'', ''persona_not_bound'',
      ''persona_unavailable'', ''persona_needs_exit'', ''profile_shared'', ''authority_missing'',
      ''authority_predates_route_change'', ''above_route_ceiling'', ''stop_limit'']"

definition capacity_codes :: "string list" where
  "capacity_codes =
     [''proxy_busy'', ''route_busy'', ''ledger_unavailable'', ''config_error'', ''upstream_blocked'']"

section \<open>What a proxy sends\<close>

text \<open>
  A Python dict built from several parts: a later entry of a repeated key would win, so the pairs
  are folded in with \<open>dict_set\<close>.
\<close>

definition dict_of :: "('k \<times> 'v) list \<Rightarrow> ('k \<times> 'v) list" where
  "dict_of kvs = foldl (\<lambda>d (k, v). dict_set k v d) [] kvs"

definition each :: "'k list \<Rightarrow> 'v \<Rightarrow> ('k \<times> 'v) list" where
  "each ks v = map (\<lambda>k. (k, v)) ks"

text \<open>code to (HTTP status, SOCKS5 REP); authentication has no REP.\<close>

definition wire_table :: "(string \<times> (nat \<times> nat option)) list" where
  "wire_table = dict_of (
     each policy_codes (403, Some 2) @
     each resolution_codes (502, Some 4) @
     each auth_codes (407, None) @
     each route_codes (403, Some 2) @
     each capacity_codes (503, Some 1) @
     [(''connect_failed'', (502, Some 5)),
      (''upstream_failed'', (502, Some 1)),
      (''upstream_timeout'', (504, Some 6)),
      (''bad_request'', (400, Some 1)),
      (''method_not_allowed'', (405, Some 7)),
      (''address_type_refused'', (400, Some 8))])"

definition wire_codes :: "string list" where
  "wire_codes = map fst wire_table"

definition proxy_status :: "string \<Rightarrow> nat option" where
  "proxy_status c = map_option fst (map_of wire_table c)"

definition socks5_reply :: "string \<Rightarrow> nat option option" where
  "socks5_reply c = map_option snd (map_of wire_table c)"

definition code_exception :: "(string \<times> string) list" where
  "code_exception = dict_of (
     each policy_codes ''DestinationRefused'' @
     each resolution_codes ''UnresolvableHost'' @
     each (auth_codes @ route_codes @ capacity_codes) ''RouteUnavailable'' @
     each [''connect_failed'', ''upstream_failed'', ''upstream_timeout'', ''bad_request'',
           ''method_not_allowed'', ''address_type_refused''] ''Unreachable'' @
     each [''no_route'', ''proxy_required'', ''proxy_misconfigured'', ''no_route_provider'',
           ''proxy_unreachable''] ''RouteUnavailable'' @
     each [''proxy_protocol'', ''unreachable'', ''connect_refused''] ''Unreachable'' @
     [(''request_uncertain'', ''RequestUncertain''),
      (''body_length_mismatch'', ''RequestUncertain''),
      (''certificate'', ''CertificateRefused''),
      (''deadline'', ''DeadlineExceeded''),
      (''response_too_large'', ''ResponseTooLarge''),
      (''response_truncated'', ''ResponseTruncated'')] @
     each [''no_location'', ''redirect_loop'', ''too_many_redirects'', ''off_origin_redirect'']
       ''RedirectRefused'' @
     [(''http_status'', ''HttpStatusError''),
      (''tls_context_refused'', ''OutboundError'')])"

definition egress_codes :: "string list" where
  "egress_codes = map fst code_exception"

definition client_codes :: "string list" where
  "client_codes = filter (\<lambda>c. c \<notin> set wire_codes) egress_codes"

section \<open>The sentences\<close>

definition explain_table :: "(string \<times> string) list" where
  "explain_table =
     [(''scheme_refused'',
        ''only http and https destinations are reached''),
      (''no_host'',
        ''the destination names no host''),
      (''credentials_in_url'',
        ''a destination URL may not carry a user name or password''),
      (''bad_port'',
        ''the destination port is not a port''),
      (''bad_host'',
        ''the destination host is neither a name nor an address this policy can judge''),
      (''metadata_host'',
        ''the destination is a cloud metadata endpoint, which no route reaches''),
      (''blocked_name'',
        ''the destination is a local or internal name, which this route does not reach''),
      (''onion_not_allowed'',
        ''the destination is an onion service, which this route does not reach''),
      (''destination_not_allowed'',
        ''no destination rule of this route names the destination''),
      (''port_not_allowed'',
        ''this route does not reach the destination on that port''),
      (''destination_not_in_source'',
        ''the destination is not the site of the source this run reads''),
      (''metadata_address'',
        ''the destination address is a cloud metadata address, which no route reaches''),
      (''blocked_address'',
        ''it resolves into private address space''),
      (''internal_address'',
        ''the destination is inside this deployment's own networks, which no route reaches''),
      (''outside_declared_network'',
        ''the destination answered outside the network its rule declares''),
      (''loopback_refused'',
        ''the destination is this host's own loopback, which this route does not reach''),
      (''unclassifiable_address'',
        ''the destination resolves to an address this check cannot classify''),
      (''name_not_found'',
        ''the name does not exist''),
      (''resolve_failed'',
        ''the name could not be resolved just now''),
      (''route_auth_required'',
        ''the egress proxy asked for this route's credentials and none were sent''),
      (''route_auth_failed'',
        ''the egress proxy did not accept this route's credentials''),
      (''route_unknown'',
        ''there is no such egress route''),
      (''route_inactive'',
        ''the egress route is switched off''),
      (''route_retired'',
        ''the egress route has been retired''),
      (''no_exit'',
        ''the egress profile of this route has no exit configured''),
      (''context_required'',
        ''a persona route needs the run, act or stop it serves''),
      (''context_refused'',
        ''the context sent does not belong to this kind of route''),
      (''probe_only'',
        ''the readiness probe route reaches nothing''),
      (''run_not_running'',
        ''the run this connection serves is not running''),
      (''run_expired'',
        ''the run this connection serves started too long ago to open a connection''),
      (''passive_route_misused'',
        ''the passive route serves only feed and web runs with no persona''),
      (''persona_required'',
        ''this route carries persona traffic only''),
      (''persona_not_bound'',
        ''the persona is not bound to the egress profile of this route''),
      (''persona_unavailable'',
        ''the persona cannot be used right now''),
      (''persona_needs_exit'',
        ''persona traffic needs an exit other than this host's own address''),
      (''profile_shared'',
        ''another persona, or a public read, is live on this egress profile''),
      (''authority_missing'',
        ''no live collection authority covers this connection''),
      (''authority_predates_route_change'',
        ''the collection authority was confirmed before the route last changed''),
      (''above_route_ceiling'',
        ''the source is classified above what this route may carry''),
      (''stop_limit'',
        ''this persona has used every stop connection it may open this hour''),
      (''proxy_busy'',
        ''the egress proxy is at its connection limit''),
      (''route_busy'',
        ''the egress route is at its connection limit''),
      (''ledger_unavailable'',
        ''the egress proxy could not record the connection, so it made none''),
      (''config_error'',
        ''the egress configuration cannot be used''),
      (''upstream_blocked'',
        ''the upstream exit of this route is refused by policy''),
      (''connect_failed'',
        ''the destination did not accept the connection''),
      (''upstream_failed'',
        ''the upstream exit of this route failed''),
      (''upstream_timeout'',
        ''the destination did not answer in time''),
      (''bad_request'',
        ''the egress proxy could not read the request''),
      (''method_not_allowed'',
        ''the egress proxy serves CONNECT only''),
      (''address_type_refused'',
        ''the egress proxy does not take that address type''),
      (''no_route'',
        ''a proxy is configured and this call named no route, so nothing was sent (decision 68)''),
      (''proxy_required'',
        ''in production every outbound connection leaves through the egress proxy, and none is configured (decision 68)''),
      (''proxy_misconfigured'',
        ''the egress proxy setting is not an http address with a host and a port''),
      (''no_route_provider'',
        ''an egress proxy is configured and this build has no egress route provider''),
      (''proxy_unreachable'',
        ''the egress proxy could not be reached''),
      (''proxy_protocol'',
        ''the egress proxy answered in a form this client does not read''),
      (''unreachable'',
        ''the destination could not be reached''),
      (''connect_refused'',
        ''the destination refused the connection''),
      (''request_uncertain'',
        ''the connection failed after the request was sent, so the far end may have acted on it''),
      (''body_length_mismatch'',
        ''the request body was not the length it declared''),
      (''certificate'',
        ''the certificate of the destination did not verify for its name''),
      (''deadline'',
        ''the call ran out of its time allowance''),
      (''response_too_large'',
        ''the response was larger than this call accepts''),
      (''response_truncated'',
        ''the response ended short of the length it declared''),
      (''no_location'',
        ''a redirect came with no Location header''),
      (''redirect_loop'',
        ''the redirects came back to a place already visited''),
      (''too_many_redirects'',
        ''the redirects went on past the limit''),
      (''off_origin_redirect'',
        ''a redirect to another origin was refused''),
      (''http_status'',
        ''the destination answered with an error status''),
      (''tls_context_refused'',
        ''a TLS context that does not verify the certificate against the name was refused'')]"

text \<open>\<open>explain(code)\<close>: an unknown code is a \<open>KeyError\<close>.\<close>

definition explain :: "string \<Rightarrow> string option" where
  "explain c = map_of explain_table c"

lemma dict_of_keys: "fst ` set (dict_of kvs) = fst ` set kvs"
proof -
  have "fst ` set (foldl (\<lambda>d (k, v). dict_set k v d) d kvs) = fst ` set d \<union> fst ` set kvs" for d
    by (induction kvs arbitrary: d) (auto simp: split_beta)
  then show ?thesis by (simp add: dict_of_def)
qed

lemma dict_of_distinct: "distinct (map fst (dict_of kvs))"
proof -
  have "distinct (map fst d) \<Longrightarrow> distinct (map fst (foldl (\<lambda>d (k, v). dict_set k v d) d kvs))" for d
    by (induction kvs arbitrary: d) (auto simp: split_beta dict_set_distinct)
  then show ?thesis by (simp add: dict_of_def)
qed

lemma dict_set_entries: "set (dict_set k v d) \<subseteq> insert (k, v) (set d)"
  by (induction k v d rule: dict_set.induct) auto

lemma dict_of_entries: "set (dict_of kvs) \<subseteq> set kvs"
proof -
  have "set (foldl (\<lambda>d (k, v). dict_set k v d) d kvs) \<subseteq> set d \<union> set kvs" for d
  proof (induction kvs arbitrary: d)
    case (Cons kv kvs)
    then show ?case
      using dict_set_entries [of "fst kv" "snd kv" d] by (fastforce simp: split_beta)
  qed simp
  from this [of "[]"] show ?thesis by (simp add: dict_of_def)
qed

section \<open>Properties\<close>

text \<open>The tables agree. No code is listed twice; every code a proxy may send is a code the client maps
  to an exception class; each code has exactly one sentence; a status lies between 400 and 504; only the
  two authentication codes lack a SOCKS5 reply, and they answer 407.\<close>

theorem code_tables_agree:
  "distinct egress_codes \<and> map fst explain_table = egress_codes \<and>
   set wire_codes \<subseteq> set egress_codes \<and>
   list_all (\<lambda>(c, s, r). 400 \<le> s \<and> s \<le> 504 \<and> (r = None \<longleftrightarrow> c \<in> set auth_codes) \<and> (s = 407 \<longleftrightarrow> c \<in> set auth_codes))
     wire_table"
proof (intro conjI)
  show "distinct egress_codes" unfolding egress_codes_def code_exception_def by (rule dict_of_distinct)
  show "map fst explain_table = egress_codes" by code_simp
  show "set wire_codes \<subseteq> set egress_codes"
    by (auto simp: wire_codes_def egress_codes_def wire_table_def code_exception_def dict_of_keys
        each_def image_Un image_image)
  have "list_all (\<lambda>(c, s, r). 400 \<le> s \<and> s \<le> 504 \<and> (r = None \<longleftrightarrow> c \<in> set auth_codes) \<and> (s = 407 \<longleftrightarrow> c \<in> set auth_codes))
     (each policy_codes (403 :: nat, Some 2) @ each resolution_codes (502, Some 4) @ each auth_codes (407, None) @
      each route_codes (403, Some 2) @ each capacity_codes (503, Some 1) @
      [(''connect_failed'', (502, Some 5)), (''upstream_failed'', (502, Some 1)),
       (''upstream_timeout'', (504, Some 6)), (''bad_request'', (400, Some 1)),
       (''method_not_allowed'', (405, Some 7)), (''address_type_refused'', (400, Some 8 :: nat option))])"
    unfolding each_def policy_codes_def resolution_codes_def auth_codes_def route_codes_def capacity_codes_def
    by simp
  then show "list_all (\<lambda>(c, s, r). 400 \<le> s \<and> s \<le> 504 \<and> (r = None \<longleftrightarrow> c \<in> set auth_codes) \<and> (s = 407 \<longleftrightarrow> c \<in> set auth_codes))
     wire_table"
    unfolding wire_table_def list_all_iff using dict_of_entries by blast
qed

end
