(* ===== verification/EgressHosts.thy ===== *)
theory EgressHosts
  imports EgressAddress EgressCodes
begin

text \<open>
  Hosts, and the destination rules that name them, of \<open>egress_policy.py\<close>: the one spelling
  of a host (\<open>normalise_host\<close>), the construction of a \<open>Rule\<close>, its text form and
  its reading back. The IDNA encoder is third-party code and is the parameter \<open>idna\<close>:
  the ASCII form of a non-ASCII name, or \<open>None\<close> where it raises.
\<close>

section \<open>Errors\<close>

datatype egress_error =
    Refusal (refusal_code: string) (refusal_message: string) (refusal_host: "string option")
  | EgressValueError string
  | Unresolvable string bool

text \<open>\<open>Refusal(code, message, host=...)\<close>; without a message it is the code's sentence.\<close>

definition explain_text :: "string \<Rightarrow> string" where
  "explain_text c = (case explain c of Some t \<Rightarrow> t | None \<Rightarrow> [])"

definition refusal :: "string \<Rightarrow> string option \<Rightarrow> string option \<Rightarrow> egress_error" where
  "refusal code message host =
     (if code \<notin> set egress_codes
      then EgressValueError (''unknown egress code '' @ py_repr code)
      else Refusal code (case message of Some m \<Rightarrow> m | None \<Rightarrow> explain_text code) host)"

section \<open>One spelling per destination\<close>

type_synonym idna_encoder = "string \<Rightarrow> string option"

definition label_char :: "char \<Rightarrow> bool" where
  "label_char c \<longleftrightarrow> (let n = code_point c in
     97 \<le> n \<and> n \<le> 122 \<or> 48 \<le> n \<and> n \<le> 57 \<or> n = 95)"

text \<open>\<open>[a-z0-9_]([a-z0-9_-]{0,61}[a-z0-9_])?\<close>\<close>

definition label_body :: "string \<Rightarrow> bool" where
  "label_body s \<longleftrightarrow> s \<noteq> [] \<and> length s \<le> 63 \<and> label_char (hd s) \<and> label_char (last s) \<and>
     list_all (\<lambda>c. label_char c \<or> c = CHR ''-'') s"

definition host_label :: "string \<Rightarrow> bool" where
  "host_label s \<longleftrightarrow> length s \<le> 63 \<and> matches_dollar label_body s"

definition unbracket :: "string \<Rightarrow> string" where
  "unbracket h = (if startswith h ''['' \<and> endswith h '']'' then butlast (tl h) else h)"

definition drop_dot :: "string \<Rightarrow> string" where
  "drop_dot h = (if endswith h ''.'' then butlast h else h)"

definition bad_host :: "string \<Rightarrow> egress_error" where
  "bad_host host = refusal ''bad_host'' None (Some host)"

text \<open>The checks on a name, after the UTS-46 mapping.\<close>

definition check_name :: "string \<Rightarrow> string \<Rightarrow> egress_error + string" where
  "check_name host h0 =
     (let h = lower h0 in
      if 253 < length h then Inl (bad_host host)
      else let labels = split_on CHR ''.'' h in
        if \<not> list_all host_label labels then Inl (bad_host host)
        else let final = last labels in
          if final \<noteq> [] \<and> list_all is_digit_char final \<or> startswith final ''0x''
          then Inl (bad_host host)
          else Inr h)"

definition normalise_host :: "idna_encoder \<Rightarrow> string option \<Rightarrow> egress_error + string" where
  "normalise_host idna given =
     (case given of
        None \<Rightarrow> Inl (refusal ''bad_host'' (Some ''the destination names no host'') None)
      | Some host \<Rightarrow>
          let h = drop_dot (unbracket (strip host)) in
          if h = [] \<or> CHR ''%'' \<in> set h then Inl (bad_host host)
          else (case parse_ip h of
              Some a \<Rightarrow> Inr (format_ip a)
            | None \<Rightarrow>
                if is_ascii h then check_name host h
                else (case idna h of
                    None \<Rightarrow> Inl (bad_host host)
                  | Some e \<Rightarrow>
                      let h' = drop_dot e in
                      if h' = [] \<or> parse_ip h' \<noteq> None then Inl (bad_host host)
                      else check_name host h')))"

definition is_onion :: "string \<Rightarrow> bool" where
  "is_onion host \<longleftrightarrow> host = ''onion'' \<or> endswith host ''.onion''"

definition special_suffixes :: "string list" where
  "special_suffixes = [''local'', ''localhost'', ''internal'', ''home.arpa'', ''lan'', ''arpa'']"

definition special_name :: "string \<Rightarrow> bool" where
  "special_name host \<longleftrightarrow>
     CHR ''.'' \<notin> set host \<or>
     list_ex (\<lambda>s. host = s \<or> endswith host (''.'' @ s)) special_suffixes"

section \<open>Rules\<close>

text \<open>The \<open>frozenset\<close> of ports is kept as the ascending list of its members.\<close>

record rule =
  rule_ports :: "int list"
  rule_host :: "string option"
  rule_suffix :: "string option"
  rule_network :: "ipnet option"

definition port_set :: "int list \<Rightarrow> int list" where
  "port_set ps = sort (remdups ps)"

text \<open>\<open>_normal_or_value_error\<close>.\<close>

definition normal_or_value_error :: "idna_encoder \<Rightarrow> string \<Rightarrow> egress_error + string" where
  "normal_or_value_error idna host =
     (case normalise_host idna (Some host) of
        Inl _ \<Rightarrow> Inl (EgressValueError ''not a host name or an address'')
      | Inr h \<Rightarrow> Inr h)"

definition lstrip_dots :: "string \<Rightarrow> string" where
  "lstrip_dots s = dropWhile (\<lambda>c. c = CHR ''.'') s"

text \<open>\<open>Rule.__post_init__\<close>: the network argument is already a network value here.\<close>

definition make_rule ::
  "idna_encoder \<Rightarrow> int list \<Rightarrow> string option \<Rightarrow> string option \<Rightarrow> ipnet option \<Rightarrow>
   egress_error + rule" where
  "make_rule idna ports0 host suffix network =
     (let ports = port_set ports0 in
      if ports = [] \<or> \<not> list_all (\<lambda>p. 1 \<le> p \<and> p \<le> 65535) ports
      then Inl (EgressValueError ''a rule names at least one port, each from 1 to 65535'')
      else case suffix of
        Some s \<Rightarrow>
          if host \<noteq> None \<or> network \<noteq> None
          then Inl (EgressValueError ''a suffix rule names a suffix and nothing else'')
          else (case normal_or_value_error idna (lstrip_dots s) of
              Inl e \<Rightarrow> Inl e
            | Inr n \<Rightarrow>
                if parse_ip n \<noteq> None
                then Inl (EgressValueError ''a suffix is a name, never an address'')
                else Inr \<lparr>rule_ports = ports, rule_host = None, rule_suffix = Some n,
                          rule_network = None\<rparr>)
      | None \<Rightarrow>
          (case host of
             Some h0 \<Rightarrow>
               (case normal_or_value_error idna h0 of
                  Inl e \<Rightarrow> Inl e
                | Inr h \<Rightarrow>
                    (case parse_ip h of
                       Some a \<Rightarrow>
                         (case network of
                            Some n \<Rightarrow>
                              if \<not> in_net a n
                              then Inl (EgressValueError ''the address lies outside the network given for it'')
                              else Inr \<lparr>rule_ports = ports, rule_host = None, rule_suffix = None,
                                        rule_network = Some (single_net a)\<rparr>
                          | None \<Rightarrow> Inr \<lparr>rule_ports = ports, rule_host = None, rule_suffix = None,
                                        rule_network = Some (single_net a)\<rparr>)
                     | None \<Rightarrow> Inr \<lparr>rule_ports = ports, rule_host = Some h, rule_suffix = None,
                                   rule_network = network\<rparr>))
           | None \<Rightarrow>
               (case network of
                  None \<Rightarrow> Inl (EgressValueError ''a rule names a host, a suffix or a network'')
                | Some n \<Rightarrow> Inr \<lparr>rule_ports = ports, rule_host = None, rule_suffix = None,
                                 rule_network = Some n\<rparr>)))"

text \<open>\<open>rule_networks\<close>: what a rule's answers must fall in.\<close>

definition rule_networks :: "rule option \<Rightarrow> ipnet list" where
  "rule_networks r =
     (case r of
        None \<Rightarrow> []
      | Some r \<Rightarrow>
          (case rule_network r of
             Some n \<Rightarrow> [n]
           | None \<Rightarrow> if rule_host r = Some ''localhost'' then loopback_networks else []))"

section \<open>The text of a rule\<close>

text \<open>\<open>str(int)\<close> of a port.\<close>

definition net_text :: "ipnet \<Rightarrow> string" where
  "net_text n = (if net_version n = 6 then ''['' @ format_net n @ '']'' else format_net n)"

text \<open>A constructed rule names one of the three, so the last case is never one (it raises there).\<close>

definition format_rule :: "rule \<Rightarrow> string" where
  "format_rule r =
     (let ports = join_with '','' (map int_text (rule_ports r)) in
      case rule_suffix r of
        Some s \<Rightarrow> ''.'' @ s @ '':'' @ ports
      | None \<Rightarrow>
          (case (rule_host r, rule_network r) of
             (Some h, Some n) \<Rightarrow> h @ ''@'' @ net_text n @ '':'' @ ports
           | (Some h, None) \<Rightarrow> h @ '':'' @ ports
           | (None, Some n) \<Rightarrow> net_text n @ '':'' @ ports
           | (None, None) \<Rightarrow> '':'' @ ports))"

definition rule_sentence :: string where
  "rule_sentence = ''a destination rule is NAME:PORTS, .SUFFIX:PORTS, CIDR:PORTS '' @
     ''or NAME@CIDR:PORTS, with an IPv6 address in brackets''"

text \<open>
  \<open>_RULE_TEXT\<close>: a greedy non-empty target without a newline, the last colon, and a comma
  list of digit runs. A final newline would match \<open>$\<close>, but the text was stripped.
\<close>

definition is_port_list :: "string \<Rightarrow> bool" where
  "is_port_list s \<longleftrightarrow> list_all (\<lambda>w. w \<noteq> [] \<and> list_all is_digit_char w) (split_on CHR '','' s)"

definition rule_text_split :: "string \<Rightarrow> (string \<times> string) option" where
  "rule_text_split s =
     (case partition_on CHR '':'' (rev s) of
        (ports, found, target) \<Rightarrow>
          if found \<and> target \<noteq> [] \<and> newline \<notin> set target \<and> is_port_list (rev ports)
          then Some (rev target, rev ports) else None)"

definition parse_net_or_address :: "string \<Rightarrow> ipnet option" where
  "parse_net_or_address text =
     (let bracketed = startswith text ''['' \<and> endswith text '']'';
          inner = (if bracketed then butlast (tl text) else text)
      in if CHR '':'' \<in> set inner \<and> \<not> bracketed then None
         else if CHR ''/'' \<in> set inner then parse_net inner
         else map_option single_net (parse_ip inner))"

definition strip_brackets :: "string \<Rightarrow> string" where
  "strip_brackets s = (let b = (\<lambda>c. c = CHR ''['' \<or> c = CHR '']'') in
     rev (dropWhile b (rev (dropWhile b s))))"

definition parse_rule :: "idna_encoder \<Rightarrow> string \<Rightarrow> egress_error + rule" where
  "parse_rule idna text =
     (case rule_text_split (strip text) of
        None \<Rightarrow> Inl (EgressValueError rule_sentence)
      | Some (target, ports_text) \<Rightarrow>
          let ports = map (\<lambda>w. int (dec_value w)) (split_on CHR '','' ports_text);
              resentence = (\<lambda>r. case r of Inl _ \<Rightarrow> Inl (EgressValueError rule_sentence) | Inr v \<Rightarrow> Inr v)
          in if startswith target ''.''
             then resentence (make_rule idna ports None (Some (tl target)) None)
             else if CHR ''@'' \<in> set target
             then (case partition_on CHR ''@'' target of
                     (name, _, net) \<Rightarrow>
                       if name = [] \<or> parse_ip (strip_brackets name) \<noteq> None
                       then Inl (EgressValueError rule_sentence)
                       else (case parse_net_or_address net of
                               None \<Rightarrow> Inl (EgressValueError rule_sentence)
                             | Some n \<Rightarrow> resentence (make_rule idna ports (Some name) None (Some n))))
             else if startswith target ''['' \<or> CHR ''/'' \<in> set target \<or> parse_ip target \<noteq> None
             then (case parse_net_or_address target of
                     None \<Rightarrow> Inl (EgressValueError rule_sentence)
                   | Some n \<Rightarrow> resentence (make_rule idna ports None None (Some n)))
             else if CHR '':'' \<in> set target
             then Inl (EgressValueError rule_sentence)
             else resentence (make_rule idna ports (Some target) None None))"

section \<open>Names\<close>

text \<open>What the checks leave of a name; a newline may still end a label, because of \<open>$\<close>.\<close>

definition name_form :: "string \<Rightarrow> bool" where
  "name_form h \<longleftrightarrow>
     length h \<le> 253 \<and> list_all host_label (split_on CHR ''.'' h) \<and>
     \<not> (last (split_on CHR ''.'' h) \<noteq> [] \<and> list_all is_digit_char (last (split_on CHR ''.'' h))) \<and>
     \<not> startswith (last (split_on CHR ''.'' h)) ''0x''"

definition name_char :: "char \<Rightarrow> bool" where
  "name_char c \<longleftrightarrow> label_char c \<or> c = CHR ''-'' \<or> c = CHR ''.''"

lemma check_name_Inr: "check_name host h0 = Inr h \<longleftrightarrow> h = lower h0 \<and> name_form h"
  by (auto simp: check_name_def name_form_def Let_def)

lemma label_body_chars: "label_body w \<Longrightarrow> c \<in> set w \<Longrightarrow> label_char c \<or> c = CHR ''-''"
  by (auto simp: label_body_def list_all_iff)

lemma host_label_chars:
  assumes "host_label w" "c \<in> set w"
  shows "label_char c \<or> c = CHR ''-'' \<or> c = newline"
proof (cases "label_body w")
  case True
  then show ?thesis using assms(2) label_body_chars by blast
next
  case False
  then have "label_body (butlast w)" "last w = newline" "w \<noteq> []"
    using assms(1) by (auto simp: host_label_def matches_dollar_def)
  then have "w = butlast w @ [newline]" by (metis append_butlast_last_id)
  then have "c \<in> set (butlast w) \<or> c = newline"
    using assms(2) by (metis Un_iff empty_iff insert_iff list.set set_append)
  then show ?thesis using \<open>label_body (butlast w)\<close> label_body_chars by blast
qed

lemma name_chars: "name_form h \<Longrightarrow> c \<in> set h \<Longrightarrow> name_char c \<or> c = newline"
  unfolding name_form_def name_char_def list_all_iff
  using split_on_chars host_label_chars by blast

lemma host_label_not_Nil: "host_label w \<Longrightarrow> w \<noteq> []"
  by (auto simp: host_label_def matches_dollar_def label_body_def)

lemma name_not_Nil: "name_form h \<Longrightarrow> h \<noteq> []"
  using host_label_not_Nil [of "[]"] by (auto simp: name_form_def)

lemma name_last: "name_form h \<Longrightarrow> last h \<noteq> CHR ''.''"
proof -
  assume "name_form h"
  then have "host_label (last (split_on CHR ''.'' h))"
    unfolding name_form_def list_all_iff by (metis last_in_set split_on_not_Nil)
  then show ?thesis using host_label_not_Nil split_on_last_Nil by metis
qed

lemma sep_not_name_char:
  "\<not> name_char CHR '':''" "\<not> name_char CHR ''@''" "\<not> name_char CHR ''/''" "\<not> name_char CHR ''[''"
  "\<not> name_char CHR '']''" "\<not> name_char CHR ''%''" "\<not> name_char CHR '',''"
  by (simp_all add: name_char_def label_char_def code_point_def)

lemma newline_facts [simp]:
  "newline \<noteq> CHR '':''" "newline \<noteq> CHR ''@''" "newline \<noteq> CHR ''/''" "newline \<noteq> CHR ''[''"
  "newline \<noteq> CHR '']''" "newline \<noteq> CHR ''%''" "newline \<noteq> CHR ''.''"
  by (simp_all add: newline_def)

lemma sep_not_in_name:
  assumes "name_form h"
  shows "CHR '':'' \<notin> set h" "CHR ''@'' \<notin> set h" "CHR ''/'' \<notin> set h" "CHR ''['' \<notin> set h"
    "CHR '']'' \<notin> set h" "CHR ''%'' \<notin> set h"
  using name_chars [OF assms] sep_not_name_char newline_facts by (metis)+

lemma name_char_plain:
  assumes "name_char c"
  shows "lower_char c = c" "\<not> is_space c" "code_point c < 128"
  using assms
  by (auto simp: name_char_def label_char_def lower_char_def is_space_def code_point_def Let_def)

lemma newline_plain: "lower_char newline = newline" "code_point newline < 128"
  by (simp_all add: lower_char_def newline_def code_point_def)

lemma name_lower: "name_form h \<Longrightarrow> lower h = h"
  using name_chars name_char_plain(1) newline_plain(1) by (intro lower_none) metis

lemma name_ascii: "name_form h \<Longrightarrow> is_ascii h"
  using name_chars name_char_plain(3) newline_plain(2) unfolding is_ascii_def list_all_iff by metis

lemma parse_v4_digits:
  assumes "parse_v4 s \<noteq> None"
  shows "last (split_on CHR ''.'' s) \<noteq> [] \<and> list_all is_digit_char (last (split_on CHR ''.'' s))"
proof -
  obtain a b c d where m: "map parse_octet (split_on CHR ''.'' s) = [Some a, Some b, Some c, Some d]"
    using assms by (auto simp: parse_v4_def split: list.splits option.splits)
  then have "last (map parse_octet (split_on CHR ''.'' s)) = Some d" by simp
  then have "parse_octet (last (split_on CHR ''.'' s)) = Some d" by (simp add: last_map)
  then show ?thesis by (auto simp: parse_octet_def split: if_splits)
qed

lemma parse_v6_no_colon: "CHR '':'' \<notin> set s \<Longrightarrow> parse_v6 s = None"
proof -
  assume c: "CHR '':'' \<notin> set s"
  obtain a f t where p: "partition_on CHR ''%'' s = (a, f, t)" by (cases "partition_on CHR ''%'' s")
  then have "set a \<subseteq> set s"
    by (cases f) (auto dest: partition_on_Some partition_on_None)
  then have "CHR '':'' \<notin> set a" using c by blast
  then have "parse_v6_addr a = None" by (simp add: parse_v6_addr_def split_on_none)
  then show ?thesis by (simp add: parse_v6_def p)
qed

lemma name_not_literal: "name_form h \<Longrightarrow> parse_ip h = None"
  using parse_v4_digits [of h] parse_v6_no_colon [of h] sep_not_in_name(1) [of h]
  by (auto simp: parse_ip_def name_form_def split: option.split)

text \<open>A host whose normal form is a name, and holds no newline, is its own normal form.\<close>

lemma normalise_name:
  assumes "name_form h" "newline \<notin> set h"
  shows "normalise_host idna (Some h) = Inr h"
proof -
  have "strip h = h"
    using name_chars [OF assms(1)] name_char_plain(2) assms(2) by (intro strip_none) metis
  moreover have "unbracket h = h"
    using sep_not_in_name(4) [OF assms(1)] by (cases h) (auto simp: unbracket_def startswith_char)
  moreover have "drop_dot h = h"
    using name_last [OF assms(1)] by (simp add: drop_dot_def endswith_char)
  ultimately show ?thesis
    using name_not_Nil [OF assms(1)] sep_not_in_name(6) [OF assms(1)] name_not_literal [OF assms(1)]
      name_ascii [OF assms(1)] name_lower [OF assms(1)] assms(1)
    by (simp add: normalise_host_def check_name_Inr)
qed

lemma normalise_host_cases:
  assumes "normalise_host idna (Some host) = Inr h"
  shows "name_form h \<or> (\<exists>a. h = format_ip a \<and> parse_ip (format_ip a) = Some a \<and> CHR ''%'' \<notin> set h)"
  using assms
proof (cases "parse_ip (drop_dot (unbracket (strip host)))")
  case None
  then show ?thesis
    using assms by (auto simp: normalise_host_def check_name_Inr Let_def
        split: if_splits option.splits)
next
  case (Some a)
  then have h: "h = format_ip a" and p: "CHR ''%'' \<notin> set (drop_dot (unbracket (strip host)))"
    using assms by (auto simp: normalise_host_def Let_def split: if_splits)
  then have "CHR ''%'' \<notin> set h"
    using Some by (cases a rule: format_ip.cases)
      (auto simp: parse_ip_def parse_v6_def split: if_splits option.splits prod.splits
        dest!: partition_on_Some)
  then show ?thesis using h parse_format_parse [OF Some] by blast
qed

lemma v4_text_dot [simp]: "format_v4 a \<noteq> []" "last (format_v4 a) \<noteq> CHR ''.''"
  and v4_text_plain: "c \<in> set (format_v4 a) \<Longrightarrow> is_hex_char c \<or> c = CHR ''.''"
proof -
  let ?ws = "map dec_text (v4_octets a)"
  have ws: "split_on CHR ''.'' (format_v4 a) = ?ws"
    unfolding format_v4_def
    by (rule split_on_join) (auto simp: v4_octets_def Let_def digit_not_in_dec_text
        is_digit_char_def code_point_def)
  have "last (split_on CHR ''.'' (format_v4 a)) \<noteq> []"
    unfolding ws by (simp add: v4_octets_def Let_def)
  then show "format_v4 a \<noteq> []" "last (format_v4 a) \<noteq> CHR ''.''"
    by (auto simp: split_on_last_Nil)
  assume "c \<in> set (format_v4 a)"
  then consider "c = CHR ''.''" | w where "w \<in> set ?ws" "c \<in> set w"
    using split_on_chars ws by metis
  then show "is_hex_char c \<or> c = CHR ''.''"
  proof cases
    case 2
    then have "is_digit_char c" by (auto dest: dec_text_digits)
    then show ?thesis by (simp add: is_digit_char_def is_hex_char_def Let_def)
  qed simp
qed

lemma v4_text_hd: "hd (format_v4 a) \<noteq> CHR ''.''"
proof -
  obtain d ds where "dec_text (unat a div 16777216) = d # ds"
    by (cases "dec_text (unat a div 16777216)") auto
  moreover from this have "d \<noteq> CHR ''.''"
    using dec_text_digits [of d "unat a div 16777216"] by (auto simp: is_digit_char_def code_point_def)
  ultimately show ?thesis by (simp add: format_v4_def v4_octets_def Let_def)
qed

lemma v6_text_dot [simp]: "format_v6_addr a \<noteq> []" "last (format_v6_addr a) \<noteq> CHR ''.''"
proof -
  show "format_v6_addr a \<noteq> []" by (metis colon_in_v6 empty_iff list.set(1))
  show "last (format_v6_addr a) \<noteq> CHR ''.''"
  proof (cases "drop_bit 32 a = 0xFFFF")
    case False
    then have t: "format_v6_addr a = join_with '':'' (compress_hextets (v6_hextets a))"
      by (simp add: format_v6_addr_def)
    have "c \<in> set (format_v6_addr a) \<Longrightarrow> c \<noteq> CHR ''.''" for c
      unfolding t using join_chars [of "'':''" "compress_hextets (v6_hextets a)"] compress_chars
      by (fastforce simp: list_all_iff is_hex_char_def code_point_def Let_def)
    then show ?thesis using \<open>format_v6_addr a \<noteq> []\<close> last_in_set by blast
  qed (simp add: format_v6_addr_def)
qed

lemma ip_text_plain:
  assumes "CHR ''%'' \<notin> set (format_ip a)" "c \<in> set (format_ip a)"
  shows "is_hex_char c \<or> c = CHR '':'' \<or> c = CHR ''.''"
  using assms v4_text_plain v6_text_chars by (cases a rule: format_ip.cases) auto

lemma normalise_literal:
  assumes "parse_ip (format_ip a) = Some a" "CHR ''%'' \<notin> set (format_ip a)"
  shows "normalise_host idna (Some (format_ip a)) = Inr (format_ip a)"
proof -
  let ?h = "format_ip a"
  have plain: "c \<in> set ?h \<Longrightarrow> \<not> is_space c \<and> c \<noteq> CHR ''[''" for c
    using ip_text_plain [OF assms(2), of c]
    by (auto simp: is_hex_char_def is_space_def code_point_def Let_def)
  have "strip ?h = ?h" by (rule strip_none) (simp add: plain)
  moreover have "unbracket ?h = ?h"
    using plain by (cases ?h) (auto simp: unbracket_def startswith_char)
  moreover have "?h \<noteq> [] \<and> last ?h \<noteq> CHR ''.''"
    using assms(2) by (cases a rule: format_ip.cases) auto
  then have "drop_dot ?h = ?h" "?h \<noteq> []" by (auto simp: drop_dot_def endswith_char)
  ultimately show ?thesis using assms by (simp add: normalise_host_def)
qed

lemma normalise_fixed:
  assumes "normalise_host idna (Some host) = Inr h" "newline \<notin> set h"
  shows "normalise_host idna' (Some h) = Inr h"
  using normalise_host_cases [OF assms(1)] normalise_name [OF _ assms(2)] normalise_literal by metis

section \<open>A rule and its text\<close>

definition rule_form :: "rule \<Rightarrow> bool" where
  "rule_form r \<longleftrightarrow>
     rule_ports r \<noteq> [] \<and> sorted (rule_ports r) \<and> distinct (rule_ports r) \<and>
     (\<forall>p\<in>set (rule_ports r). 1 \<le> p \<and> p \<le> 65535) \<and>
     (case rule_suffix r of
        Some s \<Rightarrow> name_form s \<and> rule_host r = None \<and> rule_network r = None
      | None \<Rightarrow> (case rule_host r of
          Some h \<Rightarrow> name_form h
        | None \<Rightarrow> rule_network r \<noteq> None))"

lemma port_set_form: "sorted (port_set ps) \<and> distinct (port_set ps) \<and> set (port_set ps) = set ps"
  by (simp add: port_set_def)

lemma port_set_id: "sorted ps \<Longrightarrow> distinct ps \<Longrightarrow> port_set ps = ps"
  by (simp add: port_set_def distinct_remdups_id sorted_sort_id)

lemma literal_not_name: "parse_ip h \<noteq> None \<Longrightarrow> \<not> name_form h"
  using name_not_literal by auto

lemma normal_name:
  "normal_or_value_error idna h0 = Inr h \<Longrightarrow> parse_ip h = None \<Longrightarrow> name_form h"
  using normalise_host_cases [of idna h0 h]
  by (auto simp: normal_or_value_error_def split: sum.splits)

lemma make_rule_form:
  assumes "make_rule idna ports host suffix net = Inr r"
  shows "rule_form r"
proof -
  have ports: "rule_ports r = port_set ports \<and> port_set ports \<noteq> [] \<and>
      (\<forall>p\<in>set (port_set ports). 1 \<le> p \<and> p \<le> 65535)"
    using assms
    by (auto simp: make_rule_def Let_def list_all_iff
        split: if_splits option.splits sum.splits)
  have shape: "case rule_suffix r of
        Some s \<Rightarrow> name_form s \<and> rule_host r = None \<and> rule_network r = None
      | None \<Rightarrow> (case rule_host r of Some h \<Rightarrow> name_form h | None \<Rightarrow> rule_network r \<noteq> None)"
    using assms
    by (auto simp: make_rule_def Let_def dest: normal_name
        split: if_splits option.splits sum.splits)
  show ?thesis using ports shape port_set_form [of ports] by (simp add: rule_form_def)
qed

text \<open>The text of the ports.\<close>

definition ports_text :: "int list \<Rightarrow> string" where
  "ports_text ps = join_with '','' (map int_text ps)"

lemma ports_text_split:
  assumes "ps \<noteq> []" "\<forall>p\<in>set ps. 0 \<le> p"
  shows "split_on CHR '','' (ports_text ps) = map int_text ps"
  unfolding ports_text_def using assms
  by (intro split_on_join) (auto simp: int_text_def digit_not_in_dec_text is_digit_char_def code_point_def)

lemma ports_text_read:
  assumes "ps \<noteq> []" "\<forall>p\<in>set ps. 0 \<le> p"
  shows "map (\<lambda>w. int (dec_value w)) (split_on CHR '','' (ports_text ps)) = ps"
  unfolding ports_text_split [OF assms] using assms(2)
  by (auto simp: int_text_def intro!: map_idI)

lemma ports_text_list:
  assumes "ps \<noteq> []" "\<forall>p\<in>set ps. 0 \<le> p"
  shows "is_port_list (ports_text ps)"
  unfolding is_port_list_def ports_text_split [OF assms] using assms(2)
  by (auto simp: list_all_iff int_text_def dest: dec_text_digits)

lemma ports_text_chars:
  assumes "\<forall>p\<in>set ps. 0 \<le> p" "c \<in> set (ports_text ps)"
  shows "is_digit_char c \<or> c = CHR '','' "
proof -
  have "c \<in> {CHR '',''} \<union> \<Union> (set ` set (map int_text ps))"
    using assms(2) join_chars [of "'',''" "map int_text ps"] by (auto simp: ports_text_def)
  moreover have "p \<in> set ps \<Longrightarrow> int_text p = dec_text (nat p)" for p
    using assms(1) by (simp add: int_text_def leD)
  ultimately show ?thesis by (auto dest: dec_text_digits)
qed

lemma plain_text_split:
  assumes "target \<noteq> []" "newline \<notin> set target" "\<forall>c\<in>set target. \<not> is_space c"
    "ps \<noteq> []" "\<forall>p\<in>set ps. 0 \<le> p"
  shows "rule_text_split (strip (target @ '':'' @ ports_text ps)) = Some (target, ports_text ps)"
proof -
  have c: "c \<in> set (ports_text ps) \<Longrightarrow> \<not> is_space c \<and> c \<noteq> CHR '':''" for c
    using ports_text_chars [OF assms(5), of c]
    by (auto simp: is_digit_char_def is_space_def code_point_def Let_def)
  then have "strip (target @ '':'' @ ports_text ps) = target @ '':'' @ ports_text ps"
    using assms(3) by (intro strip_none) (auto simp: is_space_def code_point_def)
  moreover have "partition_on CHR '':'' (rev (target @ '':'' @ ports_text ps))
      = (rev (ports_text ps), True, rev target)"
  proof -
    have "CHR '':'' \<notin> set (rev (ports_text ps))" using c by auto
    then show ?thesis by simp
  qed
  ultimately show ?thesis
    using assms ports_text_list [OF assms(4,5)] by (simp add: rule_text_split_def)
qed

lemma name_hd: "name_form h \<Longrightarrow> hd h \<noteq> CHR ''.''"
proof
  assume "name_form h" "hd h = CHR ''.''"
  moreover obtain t where "h = CHR ''.'' # t"
    using calculation name_not_Nil by (cases h) auto
  ultimately have "host_label []" by (simp add: name_form_def)
  then show False using host_label_not_Nil by blast
qed

lemma format_net_chars:
  assumes "c \<in> set (format_net n)"
  shows "is_hex_char c \<or> c \<in> {CHR '':'', CHR ''.'', CHR ''/''}"
proof -
  have "is_digit_char c \<Longrightarrow> is_hex_char c"
    by (simp add: is_digit_char_def is_hex_char_def Let_def)
  then show ?thesis
    using assms v4_text_plain v6_text_chars dec_text_digits by (cases n) auto
qed

lemma net_text_chars:
  "c \<in> set (net_text n) \<Longrightarrow>
   is_hex_char c \<or> c \<in> {CHR '':'', CHR ''.'', CHR ''/'', CHR ''['', CHR '']''}"
  using format_net_chars by (auto simp: net_text_def split: if_splits)

lemma net_text_plain:
  assumes "c \<in> set (net_text n)"
  shows "\<not> is_space c" "c \<noteq> newline" "c \<noteq> CHR ''@''"
  using net_text_chars [OF assms]
  by (auto simp: is_hex_char_def is_space_def newline_def code_point_def Let_def)

lemma parse_net_text:
  assumes "wf_net n" shows "parse_net_or_address (net_text n) = Some n"
proof (cases n)
  case (Net4 a p)
  have "\<not> startswith (format_net n) ''[''"
    by (cases "format_v4 a") (use v4_text_plain [of "hd (format_v4 a)" a] in
        \<open>auto simp: Net4 startswith_char is_hex_char_def code_point_def\<close>)
  moreover have "CHR '':'' \<notin> set (format_net n)"
    by (simp add: Net4 digit_not_in_dec_text is_digit_char_def code_point_def)
  moreover have "CHR ''/'' \<in> set (format_net n)" by (simp add: Net4)
  ultimately show ?thesis
    using parse_format_net [OF assms] by (simp add: parse_net_or_address_def net_text_def Net4)
next
  case (Net6 a p)
  have "butlast (tl (net_text n)) = format_net n"
    by (simp add: net_text_def Net6 butlast_append)
  moreover have "startswith (net_text n) ''[''" "endswith (net_text n) '']''"
    by (simp_all add: net_text_def Net6 startswith_def endswith_def)
  moreover have "CHR ''/'' \<in> set (format_net n)" by (simp add: Net6)
  ultimately show ?thesis
    using parse_format_net [OF assms] by (simp add: parse_net_or_address_def)
qed

lemma name_plain:
  assumes "name_form h" "newline \<notin> set h"
  shows "\<forall>c\<in>set h. \<not> is_space c"
  using name_chars [OF assms(1)] name_char_plain(2) assms(2) by metis

lemma strip_brackets_none:
  "CHR ''['' \<notin> set s \<Longrightarrow> CHR '']'' \<notin> set s \<Longrightarrow> strip_brackets s = s"
  unfolding strip_brackets_def Let_def by (subst dropWhile_none | force)+

text \<open>A rule in the form \<open>__post_init__\<close> leaves is built again from its own parts.\<close>

lemma make_rule_again:
  assumes form: "rule_form r"
    and nl: "\<forall>h. rule_host r = Some h \<or> rule_suffix r = Some h \<longrightarrow> newline \<notin> set h"
  shows "make_rule idna (rule_ports r) (rule_host r) (rule_suffix r) (rule_network r) = Inr r"
proof -
  have ports: "port_set (rule_ports r) = rule_ports r" "rule_ports r \<noteq> []"
    "list_all (\<lambda>p. 1 \<le> p \<and> p \<le> 65535) (rule_ports r)"
    using form by (auto simp: rule_form_def port_set_id list_all_iff)
  have norm: "normal_or_value_error idna h = Inr h \<and> parse_ip h = None \<and> lstrip_dots h = h"
    if "name_form h" "newline \<notin> set h" for h
  proof -
    have "lstrip_dots h = h"
      using name_hd [OF that(1)] by (cases h) (auto simp: lstrip_dots_def)
    then show ?thesis
      using normalise_name [OF that] name_not_literal [OF that(1)]
      by (simp add: normal_or_value_error_def)
  qed
  show ?thesis
    using form nl ports norm
    by (cases "rule_suffix r"; cases "rule_host r"; cases "rule_network r")
      (auto simp: rule_form_def make_rule_def Let_def intro!: rule.equality)
qed

lemma format_rule_shapes:
  assumes "rule_form r"
  obtains (suffix) s where "r = \<lparr>rule_ports = rule_ports r, rule_host = None, rule_suffix = Some s, rule_network = None\<rparr>"
      "name_form s" "format_rule r = (''.'' @ s) @ '':'' @ ports_text (rule_ports r)"
  | (named) h n where "r = \<lparr>rule_ports = rule_ports r, rule_host = Some h, rule_suffix = None, rule_network = Some n\<rparr>"
      "name_form h" "format_rule r = (h @ ''@'' @ net_text n) @ '':'' @ ports_text (rule_ports r)"
  | (host) h where "r = \<lparr>rule_ports = rule_ports r, rule_host = Some h, rule_suffix = None, rule_network = None\<rparr>"
      "name_form h" "format_rule r = h @ '':'' @ ports_text (rule_ports r)"
  | (network) n where "r = \<lparr>rule_ports = rule_ports r, rule_host = None, rule_suffix = None, rule_network = Some n\<rparr>"
      "format_rule r = net_text n @ '':'' @ ports_text (rule_ports r)"
  using assms
  by (cases r; cases "rule_suffix r"; cases "rule_host r"; cases "rule_network r")
    (auto simp: rule_form_def format_rule_def ports_text_def)

lemma parse_format_rule:
  assumes form: "rule_form r" and wf: "\<forall>n. rule_network r = Some n \<longrightarrow> wf_net n"
    and nl: "\<forall>h. rule_host r = Some h \<or> rule_suffix r = Some h \<longrightarrow> newline \<notin> set h"
  shows "parse_rule idna (format_rule r) = Inr r"
proof -
  have ps: "rule_ports r \<noteq> []" "\<forall>p\<in>set (rule_ports r). 0 \<le> p"
    using form by (auto simp: rule_form_def)
  note split = plain_text_split [OF _ _ _ ps] and read = ports_text_read [OF ps]
  note again = make_rule_again [OF form nl, of idna]
  have sp: "\<not> is_space CHR ''.''" "\<not> is_space CHR ''@''"
    by (simp_all add: is_space_def code_point_def)
  from form show ?thesis
  proof (cases rule: format_rule_shapes)
    case (suffix s)
    then have "rule_suffix r = Some s" "rule_host r = None" "rule_network r = None"
      by (metis rule.select_convs)+
    moreover have "rule_text_split (strip (format_rule r)) = Some (''.'' @ s, ports_text (rule_ports r))"
    proof -
      have "newline \<notin> set s" using nl calculation by simp
      then show ?thesis
        unfolding suffix(3) using name_plain [OF suffix(2)] sp by (intro split) (auto simp: newline_def)
    qed
    ultimately show ?thesis using again by (simp add: parse_rule_def read startswith_char)
  next
    case (named h n)
    then have r: "rule_suffix r = None" "rule_host r = Some h" "rule_network r = Some n"
      by (metis rule.select_convs)+
    then have nlh: "newline \<notin> set h" and wfn: "wf_net n" using nl wf by simp_all
    have nn: "newline \<notin> set (net_text n)" using net_text_plain(2) by blast
    have "\<not> startswith (h @ ''@'' @ net_text n) ''.''"
      using name_hd [OF named(2)] name_not_Nil [OF named(2)] by (cases h) (auto simp: startswith_def)
    moreover have "partition_on CHR ''@'' (h @ CHR ''@'' # net_text n) = (h, True, net_text n)"
      using sep_not_in_name [OF named(2)] by simp
    moreover have "strip_brackets h = h"
      using sep_not_in_name [OF named(2)] by (simp add: strip_brackets_none)
    moreover have "rule_text_split (strip (format_rule r))
        = Some (h @ ''@'' @ net_text n, ports_text (rule_ports r))"
      unfolding named(3) using name_plain [OF named(2) nlh] net_text_plain(1) sp nn nlh
      by (intro split) (auto simp: newline_def)
    ultimately show ?thesis
      using again wfn r name_not_Nil [OF named(2)] name_not_literal [OF named(2)]
      by (simp add: parse_rule_def read parse_net_text)
  next
    case (host h)
    then have r: "rule_suffix r = None" "rule_host r = Some h" "rule_network r = None"
      by (metis rule.select_convs)+
    then have nlh: "newline \<notin> set h" using nl by simp
    have "\<not> startswith h ''.'' \<and> \<not> startswith h ''[''"
      using name_hd [OF host(2)] sep_not_in_name(4) [OF host(2)]
      by (cases h) (auto simp: startswith_def)
    moreover have "rule_text_split (strip (format_rule r)) = Some (h, ports_text (rule_ports r))"
      unfolding host(3) using name_plain [OF host(2) nlh] name_not_Nil [OF host(2)] nlh
      by (intro split) auto
    ultimately show ?thesis
      using again r name_not_literal [OF host(2)] sep_not_in_name [OF host(2)]
      by (simp add: parse_rule_def read)
  next
    case (network n)
    then have r: "rule_suffix r = None" "rule_host r = None" "rule_network r = Some n"
      by (metis rule.select_convs)+
    have at: "CHR ''@'' \<notin> set (net_text n)" using net_text_plain(3) by blast
    have ne: "net_text n \<noteq> []" by (cases n) (auto simp: net_text_def)
    have dot: "\<not> startswith (net_text n) ''.''"
    proof (cases n)
      case (Net4 a p)
      then show ?thesis using v4_text_hd [of a] by (cases "format_v4 a") (auto simp: net_text_def startswith_char)
    qed (simp add: net_text_def startswith_char)
    have bracket: "startswith (net_text n) ''['' \<or> CHR ''/'' \<in> set (net_text n)"
      by (cases n) (auto simp: net_text_def startswith_char)
    have "rule_text_split (strip (format_rule r)) = Some (net_text n, ports_text (rule_ports r))"
      unfolding network(2) using net_text_plain(1,2) ne by (intro split) blast+
    then show ?thesis
      using again r wf parse_net_text [of n] at dot bracket
      by (auto simp: parse_rule_def read Let_def)
  qed
qed

section \<open>Properties\<close>

text \<open>One spelling per destination. A host that was normalised is its own normal form, whatever the
  IDNA encoder, as long as the result holds no newline.\<close>

theorem normalise_host_fixed:
  assumes "normalise_host idna (Some host) = Inr h" "newline \<notin> set h"
  shows "normalise_host idna' (Some h) = Inr h"
  by (rule normalise_fixed [OF assms])

theorem normalise_host_fixed_witness:
  "normalise_host (\<lambda>_. None) (Some ''jira.corp.example'') = Inr ''jira.corp.example''"
  by (rule normalise_host_fixed [where host = "''Jira.Corp.Example.''" and idna = "\<lambda>_. None"]) code_simp+

text \<open>The exception is real. The label pattern ends in a dollar sign, which also matches before a final
  newline, so a bracketed name or a name before the trailing dot keeps one: the metadata alias with a
  newline is normalised to a string that is not the alias, and the result is not a fixed point.\<close>

theorem normalise_host_keeps_newline:
  "normalise_host idna (Some (''[metadata.goog'' @ [newline] @ '']'')) = Inr (''metadata.goog'' @ [newline]) \<and>
   ''metadata.goog'' @ [newline] \<notin> set metadata_hosts \<and>
   normalise_host idna (Some (''metadata.goog'' @ [newline])) = Inr ''metadata.goog''"
  unfolding newline_def by code_simp

text \<open>Writing a rule and reading it back gives the rule. Every rule the constructor makes, with a
  strict network and no newline in its name, is read back from its own text.\<close>

theorem rule_text_roundtrip:
  assumes "make_rule idna ports host suffix net = Inr r"
    "\<forall>n. rule_network r = Some n \<longrightarrow> wf_net n"
    "\<forall>h. rule_host r = Some h \<or> rule_suffix r = Some h \<longrightarrow> newline \<notin> set h"
  shows "parse_rule idna' (format_rule r) = Inr r"
  by (rule parse_format_rule [OF make_rule_form [OF assms(1)] assms(2,3)])

theorem rule_text_roundtrip_witness:
  "parse_rule (\<lambda>_. None) (format_rule \<lparr>rule_ports = [80, 443], rule_host = Some ''jira.corp'',
      rule_suffix = None, rule_network = Some (Net4 0x0A140000 24)\<rparr>)
    = Inr \<lparr>rule_ports = [80, 443], rule_host = Some ''jira.corp'', rule_suffix = None,
           rule_network = Some (Net4 0x0A140000 24)\<rparr>"
proof (rule rule_text_roundtrip)
  have n: "normalise_host (\<lambda>_. None) (Some ''JIRA.corp'') = Inr ''jira.corp''" by code_simp
  have p: "parse_ip ''jira.corp'' = None" by code_simp
  show "make_rule (\<lambda>_. None) [443, 80, 443] (Some ''JIRA.corp'') None (Some (Net4 0x0A140000 24))
    = Inr \<lparr>rule_ports = [80, 443], rule_host = Some ''jira.corp'', rule_suffix = None,
           rule_network = Some (Net4 0x0A140000 24)\<rparr>"
    by (simp add: make_rule_def port_set_def normal_or_value_error_def n p)
  have "wf_net (Net4 0x0A140000 24)" by code_simp
  then show "\<forall>n. rule_network \<lparr>rule_ports = [80, 443], rule_host = Some ''jira.corp'', rule_suffix = None,
           rule_network = Some (Net4 0x0A140000 24)\<rparr> = Some n \<longrightarrow> wf_net n" by simp
qed (simp add: newline_def)

end
