(* ===== verification/EgressPolicy.thy ===== *)
theory EgressPolicy
  imports EgressHosts
begin

text \<open>
  Which destinations a route may reach (\<open>egress_policy.py\<close>): the validation of a rule, the
  route policy, the name-level check, the admission of an address and the one lookup whose every
  answer is admitted. The resolver (\<open>socket.getaddrinfo\<close>) and the IDNA encoder are parameters.
  The lemmas show that nothing admitted lies in a network no rule may admit, that private space
  is reached only on an integration route through a network its rule names, that one refused
  answer refuses the host, and that a validated rule admits exactly what it declares.
\<close>

section \<open>Validation of a rule\<close>

definition decision_ref :: string where
  "decision_ref = ''decision 68''"

definition route_kinds :: "string list" where
  "route_kinds = [''persona'', ''integration'']"

definition net_overlaps_any :: "ipnet \<Rightarrow> ipnet list \<Rightarrow> bool" where
  "net_overlaps_any n ms \<longleftrightarrow> list_ex (\<lambda>m. net_version n = net_version m \<and> overlaps n m) ms"

definition holds_metadata :: "ipnet \<Rightarrow> bool" where
  "holds_metadata n \<longleftrightarrow>
     list_ex (\<lambda>a. ip_version a = net_version n \<and> in_net a n) metadata_addresses"

definition suffix_problems :: "string \<Rightarrow> string \<Rightarrow> string option \<Rightarrow> string list" where
  "suffix_problems shown kind suffix =
     (case suffix of
        None \<Rightarrow> []
      | Some s \<Rightarrow>
          (if kind = ''integration''
           then [shown @ '': an integration route names each destination, so it takes no suffix rule'']
           else []) @
          (if CHR ''.'' \<notin> set s
           then [shown @ '': a suffix rule needs at least two labels''] else []))"

definition host_problems :: "string \<Rightarrow> string \<Rightarrow> bool \<Rightarrow> string option \<Rightarrow> string list" where
  "host_problems shown kind production host =
     (case host of
        None \<Rightarrow> []
      | Some h \<Rightarrow>
          (if h = ''localhost''
           then (if production
                 then [shown @ '': loopback is refused in production, where the relay is another service rather than this host'']
                 else if kind = ''persona''
                 then [shown @ '': a persona route reaches the public internet only ('' @ decision_ref @ '')'']
                 else [])
           else if h \<in> set reserved_service_names
           then [shown @ '': '' @ h @ '' is one of this deployment's own services, which no route may name'']
           else []) @
          (if h \<in> set metadata_hosts
           then [shown @ '': a cloud metadata endpoint is never a destination''] else []))"

definition network_problems :: "string \<Rightarrow> string \<Rightarrow> bool \<Rightarrow> ipnet option \<Rightarrow> string list" where
  "network_problems shown kind production net =
     (case net of
        None \<Rightarrow> []
      | Some n \<Rightarrow>
          (if net_version n = 4 \<and> prefixlen n < 16
           then [shown @ '': a network rule covers at most an IPv4 /16, so a mistyped prefix cannot open an estate'']
           else []) @
          (if net_version n = 6 \<and> prefixlen n < 64
           then [shown @ '': a network rule covers at most an IPv6 /64''] else []) @
          (if net_overlaps_any n never_admissible
           then [shown @ '': the network overlaps link-local, reserved, multicast, unspecified or tunnel space, which no rule admits'']
           else []) @
          (if holds_metadata n
           then [shown @ '': the network holds a cloud metadata address''] else []) @
          (if kind = ''persona'' \<and> \<not> wholly_public n
           then [shown @ '': a persona route reaches the public internet only ('' @ decision_ref @ '')'']
           else if loopback_net n \<and> production
           then [shown @ '': loopback is refused in production, where the relay is another service rather than this host'']
           else if \<not> (wholly_public n \<or> wholly_private n \<or> loopback_net n)
           then [shown @ '': a network must lie wholly in public space or wholly inside one private range (10/8, 172.16/12, 192.168/16, fc00::/7 or 100.64/10)'']
           else []))"

text \<open>Every reason the rule may not stand; an unknown kind is a \<open>ValueError\<close>.\<close>

definition validate_rule :: "rule \<Rightarrow> string \<Rightarrow> bool \<Rightarrow> ipnet list \<Rightarrow> egress_error + string list" where
  "validate_rule r kind production internal =
     (if kind \<notin> set route_kinds
      then Inl (EgressValueError (''unknown route kind '' @ py_repr kind))
      else let shown = format_rule r in
        Inr (suffix_problems shown kind (rule_suffix r) @
             host_problems shown kind production (rule_host r) @
             network_problems shown kind production (rule_network r) @
             (if list_ex (\<lambda>n. net_overlaps_any n internal) (rule_networks (Some r))
              then [shown @ '': the rule overlaps this deployment's own networks, which no route may reach'']
              else [])))"

section \<open>The policy of a route\<close>

record route_policy =
  pol_kind :: string
  pol_rules :: "rule list"
  pol_narrow :: "rule list"
  any_public :: bool
  any_public_ports :: "int list option"
  allow_loopback :: bool
  pol_onion :: bool
  refuse_special_names :: bool
  pol_internal :: "ipnet list"
  admission :: string

text \<open>\<open>RoutePolicy.__post_init__\<close>; the fields are typed already.\<close>

definition make_policy :: "route_policy \<Rightarrow> egress_error + route_policy" where
  "make_policy p =
     (if pol_kind p \<notin> set route_kinds
      then Inl (EgressValueError (''unknown route kind '' @ py_repr (pol_kind p)))
      else if admission p \<notin> {''local'', ''proxy''}
      then Inl (EgressValueError (''admission is 'local' or 'proxy', not '' @ py_repr (admission p)))
      else Inr (p\<lparr>any_public_ports := map_option port_set (any_public_ports p)\<rparr>))"

definition default_policy :: "string \<Rightarrow> route_policy" where
  "default_policy kind =
     \<lparr>pol_kind = kind, pol_rules = [], pol_narrow = [], any_public = True, any_public_ports = None,
      allow_loopback = False, pol_onion = False, refuse_special_names = False, pol_internal = [],
      admission = ''local''\<rparr>"

definition public_policy :: route_policy where
  "public_policy = default_policy ''persona''"

definition name_matches :: "rule \<Rightarrow> string \<Rightarrow> bool" where
  "name_matches r host =
     (case rule_host r of
        Some h \<Rightarrow> h = host
      | None \<Rightarrow> (case rule_suffix r of
          Some s \<Rightarrow> host = s \<or> endswith host (''.'' @ s)
        | None \<Rightarrow> False))"

text \<open>\<open>_match\<close>: does this rule name the host, or hold the literal.\<close>

definition rule_hit :: "rule \<Rightarrow> string \<Rightarrow> ip option \<Rightarrow> bool" where
  "rule_hit r host literal =
     (case literal of
        Some a \<Rightarrow>
          rule_host r = None \<and> rule_suffix r = None \<and>
          (case rule_network r of
             Some n \<Rightarrow> net_version n = ip_version a \<and> in_net a n
           | None \<Rightarrow> False)
      | None \<Rightarrow> name_matches r host)"

fun match_rules :: "rule list \<Rightarrow> string \<Rightarrow> ip option \<Rightarrow> int \<Rightarrow> bool \<Rightarrow> rule option \<times> bool" where
  "match_rules [] host literal port other = (None, other)"
| "match_rules (r # rs) host literal port other =
     (if rule_hit r host literal
      then (if port \<in> set (rule_ports r) then (Some r, other)
            else match_rules rs host literal port True)
      else match_rules rs host literal port other)"

section \<open>Admission of an address\<close>

type_synonym blocked_seam = "(ip \<Rightarrow> bool) option"

definition plain_refusal :: "string \<Rightarrow> egress_error" where
  "plain_refusal code = refusal code None None"

definition admit ::
  "ip \<Rightarrow> route_policy \<Rightarrow> rule option \<Rightarrow> blocked_seam \<Rightarrow> egress_error + address_class" where
  "admit address policy r seam =
     (let a = unwrap address in
      if a \<in> set metadata_addresses then Inl (plain_refusal ''metadata_address'')
      else if inside a (pol_internal policy) then Inl (plain_refusal ''internal_address'')
      else let blocked = (case seam of Some f \<Rightarrow> f address | None \<Rightarrow> is_blocked address);
               networks = rule_networks r in
        if networks \<noteq> []
        then if \<not> inside a networks then Inl (plain_refusal ''outside_declared_network'')
             else if \<not> blocked then Inr PUBLIC
             else (case classify a of
                 LOOPBACK \<Rightarrow> if allow_loopback policy then Inr LOOPBACK
                             else Inl (plain_refusal ''loopback_refused'')
               | PRIVATE \<Rightarrow> if pol_kind policy = ''integration'' then Inr PRIVATE
                            else Inl (plain_refusal ''blocked_address'')
               | _ \<Rightarrow> Inl (plain_refusal ''blocked_address''))
        else if \<not> blocked then Inr PUBLIC
        else Inl (plain_refusal ''blocked_address''))"

definition blocked_message :: "string \<Rightarrow> string option \<Rightarrow> string" where
  "blocked_message host label =
     (case label of
        None \<Rightarrow> host @ '' resolves into private address space, which a watch target must not: fetching it would reach this deployment's own internal network''
      | Some l \<Rightarrow> host @ '' resolves into private address space, and no destination rule of the '' @ l @
                 '' route names it together with its network'')"

definition coded :: "string \<Rightarrow> string \<Rightarrow> egress_error" where
  "coded code host = refusal code (Some (host @ '': '' @ explain_text code)) (Some host)"

text \<open>\<open>_labelled\<close>: a refusal of the admission, told with the host. Other errors pass unchanged.\<close>

definition labelled :: "egress_error \<Rightarrow> string \<Rightarrow> route_policy \<Rightarrow> string option \<Rightarrow> egress_error" where
  "labelled e host policy route_label =
     (case e of
        Refusal code _ _ \<Rightarrow>
          if code = ''blocked_address''
          then refusal ''blocked_address''
                 (Some (blocked_message host
                    (if pol_kind policy = ''persona'' then None
                     else Some (case route_label of
                       None \<Rightarrow> pol_kind policy
                     | Some l \<Rightarrow> if l = [] then pol_kind policy else l)))) (Some host)
          else coded code host
      | _ \<Rightarrow> e)"

definition metadata_message :: "string \<Rightarrow> string" where
  "metadata_message host = host @ '' is a cloud metadata endpoint. Reaching it from a collector steals our own credentials, which is worse than the SSRF this check is usually about''"

section \<open>The name-level check\<close>

text \<open>The checks before the rules: the special names, the onion names, the metadata literals.\<close>

definition check_form :: "route_policy \<Rightarrow> string \<Rightarrow> egress_error + ip option" where
  "check_form policy h =
     (case parse_ip h of
        None \<Rightarrow>
          if refuse_special_names policy \<and> special_name h then Inl (coded ''blocked_name'' h)
          else if is_onion h \<and> \<not> pol_onion policy then Inl (coded ''onion_not_allowed'' h)
          else Inr None
      | Some a \<Rightarrow>
          if unwrap a \<in> set metadata_addresses then Inl (coded ''metadata_address'' h)
          else Inr (Some (unwrap a)))"

definition check_rules ::
  "route_policy \<Rightarrow> string \<Rightarrow> ip option \<Rightarrow> int \<Rightarrow> egress_error + rule option" where
  "check_rules policy h literal port =
     (case match_rules (pol_rules policy) h literal port False of
        (Some r, _) \<Rightarrow> Inr (Some r)
      | (None, other) \<Rightarrow>
          if other then Inl (coded ''port_not_allowed'' h)
          else if \<not> any_public policy then Inl (coded ''destination_not_allowed'' h)
          else if (case any_public_ports policy of Some ps \<Rightarrow> port \<notin> set ps | None \<Rightarrow> False)
          then Inl (coded ''port_not_allowed'' h)
          else Inr None)"

definition check_destination ::
  "idna_encoder \<Rightarrow> route_policy \<Rightarrow> string \<Rightarrow> int \<Rightarrow> string option \<Rightarrow> blocked_seam \<Rightarrow>
   egress_error + rule option" where
  "check_destination idna policy host port label seam =
     (case normalise_host idna (Some host) of
        Inl e \<Rightarrow> Inl e
      | Inr h \<Rightarrow>
          if h \<in> set metadata_hosts
          then Inl (refusal ''metadata_host'' (Some (metadata_message h)) (Some h))
          else if \<not> (1 \<le> port \<and> port \<le> 65535) then Inl (refusal ''bad_port'' None (Some h))
          else (case check_form policy h of
              Inl e \<Rightarrow> Inl e
            | Inr unwrapped \<Rightarrow>
                (case check_rules policy h unwrapped port of
                   Inl e \<Rightarrow> Inl e
                 | Inr r \<Rightarrow>
                     (case (case parse_ip h of
                              Some a \<Rightarrow> if admission policy = ''local'' then admit a policy r seam
                                        else Inr PUBLIC
                            | None \<Rightarrow> Inr PUBLIC) of
                        Inl e \<Rightarrow> Inl (labelled e h policy label)
                      | Inr _ \<Rightarrow>
                          if pol_narrow policy \<noteq> [] \<and>
                             fst (match_rules (pol_narrow policy) h unwrapped port False) = None
                          then Inl (coded ''destination_not_allowed'' h)
                          else Inr r))))"

section \<open>One lookup, every answer admitted\<close>

datatype addr_family = AF_INET | AF_INET6 | AF_OTHER

record answer =
  ans_family :: addr_family
  ans_kind :: int
  ans_proto :: int
  ans_addr :: string
  ans_rest :: "int list"

record pinned =
  pin_addresses :: "answer list"
  pin_locality :: string

text \<open>
  \<open>getaddrinfo(host, port)\<close>: the answers, or the failure and whether it is the permanent
  "no such name".
\<close>

type_synonym resolver = "string \<Rightarrow> int \<Rightarrow> bool + answer list"

definition answer_ip :: "answer \<Rightarrow> ip option" where
  "answer_ip a = parse_ip (hd (split_on CHR ''%'' (ans_addr a)))"

definition judge_answer ::
  "string \<Rightarrow> route_policy \<Rightarrow> rule option \<Rightarrow> string option \<Rightarrow> blocked_seam \<Rightarrow> answer \<Rightarrow>
   egress_error + address_class" where
  "judge_answer host policy r label seam a =
     (if ans_family a = AF_OTHER
      then Inl (refusal ''unclassifiable_address''
        (Some (host @ '' resolves to an address this check cannot classify'')) (Some host))
      else (case answer_ip a of
          None \<Rightarrow> Inl (EgressValueError (ans_addr a))
        | Some address \<Rightarrow>
            (case admit address policy r seam of
               Inr c \<Rightarrow> Inr c
             | Inl (Refusal code m h) \<Rightarrow>
                 if code = ''blocked_address''
                 then Inl (refusal ''blocked_address'' (Some (blocked_message host label)) (Some host))
                 else Inl (coded code host)
             | Inl e \<Rightarrow> Inl e)))"

fun pin_answers ::
  "string \<Rightarrow> route_policy \<Rightarrow> rule option \<Rightarrow> string option \<Rightarrow> blocked_seam \<Rightarrow> answer list \<Rightarrow>
   answer list \<Rightarrow> address_class list \<Rightarrow> egress_error + answer list \<times> address_class list" where
  "pin_answers host policy r label seam [] pinned classes = Inr (pinned, classes)"
| "pin_answers host policy r label seam (a # as) pinned classes =
     (case judge_answer host policy r label seam a of
        Inl e \<Rightarrow> Inl e
      | Inr c \<Rightarrow>
          pin_answers host policy r label seam as
            (if a \<in> set pinned then pinned else pinned @ [a]) (List.insert c classes))"

definition resolve_and_pin ::
  "resolver \<Rightarrow> string \<Rightarrow> int \<Rightarrow> route_policy \<Rightarrow> rule option \<Rightarrow> string option \<Rightarrow> blocked_seam \<Rightarrow>
   egress_error + pinned" where
  "resolve_and_pin resolve host port policy r label seam =
     (case resolve host port of
        Inl permanent \<Rightarrow> Inl (Unresolvable host permanent)
      | Inr answers \<Rightarrow>
          (case pin_answers host policy r label seam answers [] [] of
             Inl e \<Rightarrow> Inl e
           | Inr (pinned, classes) \<Rightarrow>
               if pinned = [] then Inl (Unresolvable host False)
               else Inr \<lparr>pin_addresses = pinned,
                         pin_locality = (if PUBLIC \<in> set classes then ''global''
                                         else if PRIVATE \<in> set classes then ''private''
                                         else ''loopback'')\<rparr>))"

section \<open>What admission promises\<close>

text \<open>The abstract contract of an admitted address.\<close>

definition admissible :: "route_policy \<Rightarrow> rule option \<Rightarrow> ip \<Rightarrow> bool" where
  "admissible policy r a \<longleftrightarrow>
     unwrap a \<notin> set metadata_addresses \<and>
     \<not> in_any (pol_internal policy) (unwrap a) \<and>
     \<not> in_any never_admissible (unwrap a) \<and>
     (rule_networks r \<noteq> [] \<longrightarrow> in_any (rule_networks r) (unwrap a)) \<and>
     (case classify a of
        PUBLIC \<Rightarrow> True
      | PRIVATE \<Rightarrow> pol_kind policy = ''integration'' \<and> rule_networks r \<noteq> []
      | LOOPBACK \<Rightarrow> allow_loopback policy \<and> rule_networks r \<noteq> []
      | _ \<Rightarrow> False)"

lemma admit_iff: "is_ok (admit a policy r None) \<longleftrightarrow> admissible policy r a"
proof -
  have cls: "classify a = PUBLIC \<longleftrightarrow> unwrap a \<notin> set metadata_addresses \<and> \<not> is_blocked a"
    by (auto simp: classify_def Let_def is_blocked_unwrap)
  have meta: "unwrap a \<notin> set metadata_addresses \<longleftrightarrow> classify a \<noteq> METADATA"
    by (rule classify_not_metadata [symmetric])
  have never: "in_any never_admissible (unwrap a) \<Longrightarrow> classify a \<in> {METADATA, LINK_LOCAL, OTHER}"
    by (rule classify_never)
  show ?thesis
    unfolding admit_def admissible_def Let_def classify_unwrap inside_iff
    using cls meta never by (cases "classify a") auto
qed

lemma admit_class:
  assumes "admit a policy r None = Inr c"
  shows "classify a = c"
proof -
  have "classify a = PUBLIC \<longleftrightarrow> unwrap a \<notin> set metadata_addresses \<and> \<not> is_blocked a"
    by (auto simp: classify_def Let_def is_blocked_unwrap)
  then show ?thesis
    using assms unfolding admit_def Let_def classify_unwrap
    by (auto split: if_splits address_class.splits)
qed

lemma pin_answers_Inr:
  assumes "pin_answers host policy r label seam as p cs = Inr (p', cs')"
  shows "set p' = set p \<union> set as"
    "\<forall>a\<in>set as. \<exists>c\<in>set cs'. judge_answer host policy r label seam a = Inr c"
    "set cs' = set cs \<union> {c. \<exists>a\<in>set as. judge_answer host policy r label seam a = Inr c}"
  using assms
  by (induction host policy r label seam as p cs rule: pin_answers.induct)
    (auto split: sum.splits if_splits)

lemma pin_answers_Inl:
  assumes "pin_answers host policy r label seam as p cs = Inl e"
  shows "\<exists>a\<in>set as. judge_answer host policy r label seam a = Inl e"
  using assms
  by (induction host policy r label seam as p cs rule: pin_answers.induct)
    (auto split: sum.splits if_splits)

lemma judge_answer_Inr:
  "judge_answer host policy r label seam a = Inr c \<longleftrightarrow>
   ans_family a \<noteq> AF_OTHER \<and> (\<exists>i. answer_ip a = Some i \<and> admit i policy r seam = Inr c)"
  by (auto simp: judge_answer_def split: option.splits sum.splits egress_error.splits if_splits)

section \<open>Properties\<close>

text \<open>C27: The admission of an address refines its contract. It is granted exactly when the address
  (unwrapped from any IPv4-mapped spelling) is no metadata address, lies in none of the deployment's
  own networks and in no network that no rule may admit, falls in the network its rule declares, and
  is public, or private on an integration route through a rule with a network, or loopback on a route
  that allows it through such a rule.\<close>

theorem admit_refines:
  "is_ok (admit a policy r None) \<longleftrightarrow> admissible policy r a"
  by (rule admit_iff)

lemma admit_unwrap: "admit (unwrap a) policy r None = admit a policy r None"
  by (simp add: admit_def Let_def is_blocked_unwrap)

lemma pin_ok_iff:
  "is_ok (pin_answers host policy r label seam as p cs) \<longleftrightarrow>
     (\<forall>a\<in>set as. is_ok (judge_answer host policy r label seam a))"
proof (cases "pin_answers host policy r label seam as p cs")
  case (Inl e)
  then show ?thesis using pin_answers_Inl by (metis is_ok.simps(1))
next
  case (Inr v)
  then show ?thesis using pin_answers_Inr(2) by (cases v) (fastforce simp: is_ok_iff)
qed

lemma resolve_all_or_nothing_aux:
  "is_ok (resolve_and_pin resolve host port policy r label None) \<longleftrightarrow>
     (\<exists>as. resolve host port = Inr as \<and> as \<noteq> [] \<and>
        list_all (\<lambda>x. ans_family x \<noteq> AF_OTHER \<and>
          (case answer_ip x of Some i \<Rightarrow> admissible policy r i | None \<Rightarrow> False)) as)"
proof -
  have judge: "is_ok (judge_answer host policy r label None x) \<longleftrightarrow> ans_family x \<noteq> AF_OTHER \<and>
      (case answer_ip x of Some i \<Rightarrow> admissible policy r i | None \<Rightarrow> False)" for x
    by (auto simp: is_ok_iff judge_answer_Inr admit_iff [symmetric] split: option.splits)
  show ?thesis
  proof (cases "resolve host port")
    case (Inr as)
    have ok: "is_ok (pin_answers host policy r label None as [] []) \<longleftrightarrow>
        list_all (\<lambda>x. is_ok (judge_answer host policy r label None x)) as"
      by (simp add: pin_ok_iff list_all_iff)
    show ?thesis
    proof (cases "pin_answers host policy r label None as [] []")
      case (Inl e)
      then show ?thesis using ok Inr by (simp add: resolve_and_pin_def judge)
    next
      case p: (Inr v)
      then have "set (fst v) = set as" using pin_answers_Inr(1) by (cases v) fastforce
      then have "fst v = [] \<longleftrightarrow> as = []" by (metis set_empty)
      then show ?thesis using ok Inr p by (auto simp: resolve_and_pin_def judge split_beta)
    qed
  qed (simp add: resolve_and_pin_def)
qed

text \<open>C28: One lookup decides the host as a whole. It is pinned exactly when the lookup answers, with at
  least one answer, and every answer is an address the policy may admit; one refused answer refuses
  the host. The pinned addresses are then the answers and nothing else.\<close>

theorem resolve_all_or_nothing:
  "is_ok (resolve_and_pin resolve host port policy r label None) \<longleftrightarrow>
     (\<exists>as. resolve host port = Inr as \<and> as \<noteq> [] \<and>
        list_all (\<lambda>x. ans_family x \<noteq> AF_OTHER \<and>
          (case answer_ip x of Some i \<Rightarrow> admissible policy r i | None \<Rightarrow> False)) as)"
  by (rule resolve_all_or_nothing_aux)

lemma resolve_pins_answers:
  assumes "resolve_and_pin resolve host port policy r label seam = Inr p"
  shows "\<exists>as. resolve host port = Inr as \<and> set (pin_addresses p) = set as"
proof -
  obtain as q cs where "resolve host port = Inr as"
      "pin_answers host policy r label seam as [] [] = Inr (q, cs)" "pin_addresses p = q"
    using assms by (auto simp: resolve_and_pin_def split: sum.splits if_splits prod.splits)
  then show ?thesis using pin_answers_Inr(1) by fastforce
qed

lemma match_rules_Some:
  "fst (match_rules rs h lit port other) = Some r \<Longrightarrow>
   r \<in> set rs \<and> rule_hit r h lit \<and> port \<in> set (rule_ports r)"
  by (induction rs h lit port other rule: match_rules.induct) (auto split: if_splits)

lemma check_destination_Inr:
  assumes "check_destination idna policy host port label seam = Inr r"
  obtains h where "normalise_host idna (Some host) = Inr h" "h \<notin> set metadata_hosts"
    "1 \<le> port \<and> port \<le> 65535"
    "case r of
       Some x \<Rightarrow> x \<in> set (pol_rules policy) \<and> port \<in> set (rule_ports x) \<and>
                 rule_hit x h (map_option unwrap (parse_ip h))
     | None \<Rightarrow> any_public policy"
    "case parse_ip h of
       Some a \<Rightarrow> unwrap a \<notin> set metadata_addresses \<and>
         (admission policy = ''local'' \<longrightarrow> is_ok (admit a policy r seam))
     | None \<Rightarrow> \<not> (refuse_special_names policy \<and> special_name h) \<and> (is_onion h \<longrightarrow> pol_onion policy)"
    "pol_narrow policy = [] \<or>
       (\<exists>x\<in>set (pol_narrow policy). port \<in> set (rule_ports x) \<and>
          rule_hit x h (map_option unwrap (parse_ip h)))"
proof -
  from assms obtain h where h: "normalise_host idna (Some host) = Inr h" "h \<notin> set metadata_hosts"
      "1 \<le> port \<and> port \<le> 65535"
    by (auto simp: check_destination_def split: sum.splits if_splits)
  obtain u where form: "check_form policy h = Inr u"
    using assms h by (auto simp: check_destination_def split: sum.splits)
  have u: "u = map_option unwrap (parse_ip h)"
    using form by (auto simp: check_form_def split: option.splits if_splits)
  have rules: "check_rules policy h u port = Inr r"
    using assms h form by (auto simp: check_destination_def split: sum.splits if_splits)
  have local: "case parse_ip h of Some a \<Rightarrow> admission policy = ''local'' \<longrightarrow> is_ok (admit a policy r seam)
      | None \<Rightarrow> True"
    using assms h form rules
    by (auto simp: check_destination_def is_ok_iff split: sum.splits if_splits option.splits)
  have narrow: "pol_narrow policy = [] \<or> fst (match_rules (pol_narrow policy) h u port False) \<noteq> None"
    using assms h form rules by (auto simp: check_destination_def split: sum.splits if_splits)
  show ?thesis
  proof (rule that [OF h])
    show "case r of Some x \<Rightarrow> x \<in> set (pol_rules policy) \<and> port \<in> set (rule_ports x) \<and>
        rule_hit x h (map_option unwrap (parse_ip h)) | None \<Rightarrow> any_public policy"
      using rules match_rules_Some [of "pol_rules policy" h u port False]
      by (auto simp: check_rules_def u split: option.splits if_splits prod.splits)
    show "case parse_ip h of
       Some a \<Rightarrow> unwrap a \<notin> set metadata_addresses \<and>
         (admission policy = ''local'' \<longrightarrow> is_ok (admit a policy r seam))
     | None \<Rightarrow> \<not> (refuse_special_names policy \<and> special_name h) \<and> (is_onion h \<longrightarrow> pol_onion policy)"
      using form local by (auto simp: check_form_def split: option.splits if_splits)
    show "pol_narrow policy = [] \<or> (\<exists>x\<in>set (pol_narrow policy). port \<in> set (rule_ports x) \<and>
          rule_hit x h (map_option unwrap (parse_ip h)))"
      using narrow match_rules_Some [of "pol_narrow policy" h u port False] u by auto
  qed
qed

text \<open>Private space is reached only through a rule that names it. Whatever an integration or persona
  route resolves and pins after the name-level check, an answer in private or loopback space means the
  policy holds a rule for this port that names the host (or holds the literal) and whose networks
  contain the answer; for private space the route is an integration route.\<close>

theorem private_needs_a_rule:
  assumes "check_destination idna policy host port label None = Inr r"
    "resolve_and_pin resolve host port policy r label None = Inr p"
    "x \<in> set (pin_addresses p)" "answer_ip x = Some i" "classify i \<in> {PRIVATE, LOOPBACK}"
  shows "(classify i = PRIVATE \<longrightarrow> pol_kind policy = ''integration'') \<and>
    (classify i = LOOPBACK \<longrightarrow> allow_loopback policy) \<and>
    (\<exists>rl h. r = Some rl \<and> rl \<in> set (pol_rules policy) \<and> port \<in> set (rule_ports rl) \<and>
       normalise_host idna (Some host) = Inr h \<and> rule_hit rl h (map_option unwrap (parse_ip h)) \<and>
       in_any (rule_networks (Some rl)) (unwrap i))"
proof -
  have "is_ok (resolve_and_pin resolve host port policy r label None)"
    using assms(2) by (simp add: is_ok_iff)
  then obtain as where as: "resolve host port = Inr as"
      "list_all (\<lambda>x. ans_family x \<noteq> AF_OTHER \<and>
        (case answer_ip x of Some i \<Rightarrow> admissible policy r i | None \<Rightarrow> False)) as"
    unfolding resolve_all_or_nothing_aux by blast
  have "x \<in> set as" using resolve_pins_answers [OF assms(2)] as(1) assms(3) by auto
  then have adm: "admissible policy r i" using as(2) assms(4) by (fastforce simp: list_all_iff)
  then have net: "rule_networks r \<noteq> []" using assms(5) by (auto simp: admissible_def)
  then obtain rl where rl: "r = Some rl" by (cases r) (simp_all add: rule_networks_def)
  have "\<exists>h. rl \<in> set (pol_rules policy) \<and> port \<in> set (rule_ports rl) \<and>
      normalise_host idna (Some host) = Inr h \<and> rule_hit rl h (map_option unwrap (parse_ip h))"
    using assms(1) unfolding rl by (rule check_destination_Inr) auto
  then show ?thesis
    using adm net assms(5) unfolding rl admissible_def by (cases "classify i") auto
qed

definition demo_rule :: rule where
  "demo_rule = \<lparr>rule_ports = [443], rule_host = Some ''jira.corp'', rule_suffix = None,
     rule_network = Some (Net4 0x0A140000 24)\<rparr>"

definition demo_policy :: route_policy where
  "demo_policy = (default_policy ''integration'')\<lparr>pol_rules := [demo_rule], any_public := False,
     pol_internal := default_internal_networks\<rparr>"

definition demo_answer :: answer where
  "demo_answer = \<lparr>ans_family = AF_INET, ans_kind = 1, ans_proto = 6, ans_addr = ''10.20.0.5'', ans_rest = [443]\<rparr>"

definition demo_pinned :: pinned where
  "demo_pinned = \<lparr>pin_addresses = [demo_answer], pin_locality = ''private''\<rparr>"

lemma demo_ip: "answer_ip demo_answer = Some (V4 0x0A140005)"
  by (simp add: answer_ip_def demo_answer_def parse_ip_def parse_v4_def parse_octet_def dec_value_def
      digit_val_def is_digit_char_def code_point_def)

lemma demo_admit: "admit (V4 0x0A140005) demo_policy (Some demo_rule) None = Inr PRIVATE"
  by code_simp

lemma demo_check:
  "check_destination (\<lambda>_. None) demo_policy ''jira.corp'' 443 None None = Inr (Some demo_rule)"
  by code_simp

lemma demo_class: "classify (V4 0x0A140005) = PRIVATE"
  by code_simp

lemma demo_pin:
  "resolve_and_pin (\<lambda>_ _. Inr [demo_answer]) ''jira.corp'' 443 demo_policy (Some demo_rule) None None
    = Inr demo_pinned"
  using demo_ip demo_admit
  by (simp add: resolve_and_pin_def judge_answer_def demo_pinned_def) (simp add: demo_answer_def)

theorem private_needs_a_rule_witness:
  "pol_kind demo_policy = ''integration'' \<and>
    (\<exists>rl h. Some demo_rule = Some rl \<and> rl \<in> set (pol_rules demo_policy) \<and> 443 \<in> set (rule_ports rl) \<and>
       normalise_host (\<lambda>_. None) (Some ''jira.corp'') = Inr h \<and>
       rule_hit rl h (map_option unwrap (parse_ip h)) \<and>
       in_any (rule_networks (Some rl)) (unwrap (V4 0x0A140005)))"
proof -
  have "demo_answer \<in> set (pin_addresses demo_pinned)" by (simp add: demo_pinned_def)
  from private_needs_a_rule [OF demo_check demo_pin this demo_ip] demo_class show ?thesis by simp
qed

lemma validated_network:
  assumes "validate_rule r kind production internal = Inr []" "rule_network r = Some n"
  shows "kind \<in> set route_kinds" "\<not> net_overlaps_any n never_admissible" "\<not> holds_metadata n"
    "kind = ''persona'' \<longrightarrow> wholly_public n" "\<not> (loopback_net n \<and> production)"
    "wholly_public n \<or> wholly_private n \<or> loopback_net n" "\<not> net_overlaps_any n internal"
  using assms
  by (auto simp: validate_rule_def network_problems_def rule_networks_def Let_def split: if_splits)

lemma no_overlap_apart:
  assumes "\<not> net_overlaps_any n ms" "in_net a n"
  shows "\<not> in_any ms a"
proof
  assume "in_any ms a"
  then obtain m where m: "m \<in> set ms" "in_net a m" by (auto simp: in_any_iff)
  then have "net_version n = net_version m" using assms(2) by (metis in_net_version)
  moreover have "overlaps n m" using common_member_overlaps assms(2) m(2) by blast
  ultimately show False using assms(1) m(1) by (auto simp: net_overlaps_any_def list_ex_iff)
qed

text \<open>A validated rule admits what it declares. Every address of a validated rule's network is
  admitted through the rule on a route of that kind with those internal networks (loopback where the
  route allows it), and what it is admitted as is public, private, or loopback as the network is: the
  validation and the admission agree on every address, not only on the ends of the network.\<close>

theorem validated_rule_admits:
  assumes "validate_rule r (pol_kind policy) production (pol_internal policy) = Inr []"
    "rule_network r = Some n" "in_net a n" "loopback_net n \<longrightarrow> allow_loopback policy"
  shows "admit a policy (Some r) None =
    Inr (if wholly_public n then PUBLIC else if wholly_private n then PRIVATE else LOOPBACK)"
proof -
  note v = validated_network [OF assms(1,2)]
  have meta: "a \<notin> set metadata_addresses"
    using v(3) assms(3) in_net_version [OF assms(3)] by (auto simp: holds_metadata_def list_ex_iff)
  have internal: "\<not> in_any (pol_internal policy) a" by (rule no_overlap_apart [OF v(7) assms(3)])
  have nets: "rule_networks (Some r) = [n]" by (simp add: rule_networks_def assms(2))
  have inside: "in_any [n] a" using assms(3) by (simp add: in_any_def)
  consider "wholly_public n" | "\<not> wholly_public n" "wholly_private n"
    | "\<not> wholly_public n" "\<not> wholly_private n" "loopback_net n" using v(6) by blast
  then show ?thesis
  proof cases
    case 1
    then have "unwrap a = a" "\<not> is_blocked a" using wholly_public_not_blocked assms(3) by blast+
    then show ?thesis
      using 1 meta internal nets inside by (simp add: admit_def inside_iff)
  next
    case 2
    then have "pol_kind policy = ''integration''" using v(1,4) by (auto simp: route_kinds_def)
    then show ?thesis
      using 2 wholly_private_class [OF 2(2) assms(3) meta] meta internal nets inside
      by (simp add: admit_def inside_iff)
  next
    case 3
    then show ?thesis
      using loopback_net_class [OF 3(3) assms(3)] assms(4) meta internal nets inside
      by (auto simp: admit_def inside_iff)
  qed
qed

theorem validated_rule_admits_witness:
  "admit (V4 0x0A140005) demo_policy (Some demo_rule) None =
    Inr (if wholly_public (Net4 0x0A140000 24) then PUBLIC
         else if wholly_private (Net4 0x0A140000 24) then PRIVATE else LOOPBACK)"
proof (rule validated_rule_admits [where production = True])
  let ?n = "Net4 0x0A140000 24"
  have "\<not> net_overlaps_any ?n never_admissible" "\<not> holds_metadata ?n" "wholly_private ?n"
    "\<not> loopback_net ?n" "\<not> net_overlaps_any ?n default_internal_networks"
    "''jira.corp'' \<notin> set reserved_service_names" "''jira.corp'' \<notin> set metadata_hosts"
    by code_simp+
  then show "validate_rule demo_rule (pol_kind demo_policy) True (pol_internal demo_policy) = Inr []"
    by (simp add: validate_rule_def suffix_problems_def host_problems_def network_problems_def
        rule_networks_def demo_rule_def demo_policy_def default_policy_def route_kinds_def Let_def)
  show "in_net (V4 0x0A140005) (Net4 0x0A140000 24)" by code_simp
  show "loopback_net (Net4 0x0A140000 24) \<longrightarrow> allow_loopback demo_policy" by code_simp
qed (simp add: demo_rule_def)

text \<open>Narrowing never widens. A destination the narrowed policy lets through is let through, by the
  same rule, when the caller's declared rules are taken away; and an administrator's allowlist stays
  authoritative: the rule returned is one of its rules.\<close>

theorem narrowing_never_widens:
  assumes "check_destination idna policy host port label seam = Inr r"
  shows "check_destination idna (policy\<lparr>pol_narrow := []\<rparr>) host port label seam = Inr r \<and>
    set_option r \<subseteq> set (pol_rules policy)"
proof -
  have form: "check_form (policy\<lparr>pol_narrow := []\<rparr>) h = check_form policy h" for h
    by (cases policy; cases "parse_ip h") (simp_all add: check_form_def)
  have rules: "check_rules (policy\<lparr>pol_narrow := []\<rparr>) h l p = check_rules policy h l p" for h l p
    by (cases policy) (simp add: check_rules_def)
  have adm: "admit a (policy\<lparr>pol_narrow := []\<rparr>) x s = admit a policy x s" for a x s
    by (cases policy) (simp add: admit_def Let_def)
  have lab: "labelled e h (policy\<lparr>pol_narrow := []\<rparr>) l = labelled e h policy l" for e h l
    by (cases policy; cases e; cases l) (simp_all add: labelled_def)
  have sel: "admission (policy\<lparr>pol_narrow := []\<rparr>) = admission policy"
      "pol_narrow (policy\<lparr>pol_narrow := []\<rparr>) = []" by simp_all
  have "check_destination idna (policy\<lparr>pol_narrow := []\<rparr>) host port label seam = Inr r"
    using assms unfolding check_destination_def form rules adm lab sel
    by (auto split: sum.splits if_splits)
  moreover have "set_option r \<subseteq> set (pol_rules policy)"
    using assms by (rule check_destination_Inr) (auto split: option.splits)
  ultimately show ?thesis by blast
qed

theorem narrowing_never_widens_witness:
  "check_destination (\<lambda>_. None) (demo_policy\<lparr>pol_narrow := []\<rparr>) ''jira.corp'' 443 None None
      = Inr (Some demo_rule) \<and>
    set_option (Some demo_rule) \<subseteq> set (pol_rules demo_policy)"
  by (rule narrowing_never_widens [OF demo_check])

text \<open>An IPv4-mapped spelling decides nothing. Every address is classified, called local or global
  and admitted exactly as the address its mapped form stands for.\<close>

theorem mapped_spelling_equal:
  "classify (V6 (0xFFFF00000000 OR ucast a) s) = classify (V4 a) \<and>
   admit (V6 (0xFFFF00000000 OR ucast a) s) policy r None = admit (V4 a) policy r None"
proof -
  let ?w = "0xFFFF00000000 OR ucast a :: 128 word"
  have hi: "drop_bit 32 ?w = 0xFFFF"
  proof (rule bit_eqI)
    fix i
    have "drop_bit 32 (0xFFFF00000000 :: 128 word) = 0xFFFF" by simp
    moreover have "drop_bit 32 (ucast a :: 128 word) = 0"
      by (rule bit_eqI) (auto simp: bit_drop_bit_eq bit_ucast_iff dest: bit_imp_le_length)
    ultimately show "bit (drop_bit 32 ?w) i = bit (0xFFFF :: 128 word) i" by (simp add: drop_bit_or)
  qed
  have lo: "(ucast ?w :: 32 word) = a"
  proof (rule bit_word_eqI)
    fix i assume i: "i < LENGTH(32)"
    have "(0xFFFF00000000 :: 128 word) = push_bit 32 0xFFFF" by simp
    moreover have "\<not> bit (push_bit 32 (0xFFFF :: 128 word)) i"
      using i by (subst bit_push_bit_iff) simp
    ultimately have "\<not> bit (0xFFFF00000000 :: 128 word) i" by metis
    then show "bit (ucast ?w :: 32 word) i = bit a i" using i by (simp add: bit_ucast_iff bit_or_iff)
  qed
  have "unwrap (V6 ?w s) = V4 a" using hi lo by (simp add: unwrap_def)
  then show ?thesis by (metis admit_unwrap classify_unwrap)
qed

end
