(* ===== verification/EgressWire.thy ===== *)
theory EgressWire
  imports EgressPolicy
begin

text \<open>
  Route data of \<open>egress_policy.py\<close>: route names and contexts, the wire username a client
  presents to the egress proxy and its reading back, and the \<open>EgressRoute\<close> a call receives.
  A UUID value is kept as its canonical text. The lemmas give the round trip of the wire username,
  the claims a reading can produce, and what a constructed route guarantees.
\<close>

section \<open>Identifiers\<close>

definition passive_profile :: string where
  "passive_profile = ''passive''"

definition persona_contexts :: "string list" where
  "persona_contexts = [''run'', ''act'', ''stop'']"

definition integration_contexts :: "string list" where
  "integration_contexts =
     [''delivery'', ''lookup'', ''detonation'', ''embed'', ''wkd'', ''check'']"

definition lower_hex :: "char \<Rightarrow> bool" where
  "lower_hex c \<longleftrightarrow> (let n = code_point c in 48 \<le> n \<and> n \<le> 57 \<or> 97 \<le> n \<and> n \<le> 102)"

text \<open>\<open>_UUID\<close>, up to its \<open>$\<close>.\<close>

definition uuid_body :: "string \<Rightarrow> bool" where
  "uuid_body s \<longleftrightarrow>
     (let ws = split_on CHR ''-'' s in
      map length ws = [8, 4, 4, 4, 12] \<and> list_all (list_all lower_hex) ws)"

text \<open>
  \<open>canonical_uuid\<close>: the pattern admits a final newline, and \<open>UUID(text)\<close> then raises a
  \<open>ValueError\<close>, because the newline is a thirty-third character of its hex text.
\<close>

definition canonical_uuid :: "string \<Rightarrow> egress_error + string option" where
  "canonical_uuid text =
     (let t = lower text in
      if uuid_body t then Inr (Some t)
      else if matches_dollar uuid_body t
      then Inl (EgressValueError ''badly formed hexadecimal UUID string'')
      else Inr None)"

definition route_name_char :: "char \<Rightarrow> bool" where
  "route_name_char c \<longleftrightarrow> (let n = code_point c in
     97 \<le> n \<and> n \<le> 122 \<or> 48 \<le> n \<and> n \<le> 57 \<or> n = 45)"

definition lower_letter :: "char \<Rightarrow> bool" where
  "lower_letter c \<longleftrightarrow> 97 \<le> code_point c \<and> code_point c \<le> 122"

text \<open>\<open>^[a-z][a-z0-9-]{1,39}$\<close>\<close>

definition route_name_body :: "string \<Rightarrow> bool" where
  "route_name_body s \<longleftrightarrow>
     2 \<le> length s \<and> length s \<le> 40 \<and> lower_letter (hd s) \<and> list_all route_name_char (tl s)"

definition integration_name :: "string \<Rightarrow> bool" where
  "integration_name s \<longleftrightarrow> matches_dollar route_name_body s"

definition family_route_name :: "string \<Rightarrow> string \<Rightarrow> egress_error + string" where
  "family_route_name prefix key =
     (let name = prefix @ map (\<lambda>c. if c = CHR ''_'' then CHR ''-'' else c) key in
      if key = [] \<or> \<not> integration_name name
      then Inl (EgressValueError (py_repr prefix @ '' plus that key is not an integration route name''))
      else Inr name)"

definition context_sentence :: string where
  "context_sentence = ''a context is one of run, act, stop, delivery, lookup, detonation, embed, wkd or check, a colon and a uuid''"

definition parse_context :: "string \<Rightarrow> egress_error + string \<times> string" where
  "parse_context text =
     (case partition_on CHR '':'' text of
        (kind, sep, rest) \<Rightarrow>
          (case (if sep then canonical_uuid rest else Inr None) of
             Inl e \<Rightarrow> Inl e
           | Inr canonical \<Rightarrow>
               if kind \<notin> set (persona_contexts @ integration_contexts)
               then Inl (EgressValueError context_sentence)
               else (case canonical of
                       None \<Rightarrow> Inl (EgressValueError context_sentence)
                     | Some c \<Rightarrow> Inr (kind, c))))"

definition context_fits :: "string \<Rightarrow> string \<Rightarrow> bool" where
  "context_fits route_kind context_kind \<longleftrightarrow>
     context_kind \<in> set (if route_kind = ''persona'' then persona_contexts else integration_contexts)"

definition check_route_name :: "string \<Rightarrow> string \<Rightarrow> egress_error + string" where
  "check_route_name kind name =
     (if kind = ''persona''
      then if name = passive_profile then Inr name
           else (case canonical_uuid name of
                   Inl e \<Rightarrow> Inl e
                 | Inr c \<Rightarrow>
                     if c = Some name then Inr name
                     else Inl (EgressValueError (''a persona route is a canonical lower-case uuid or '' @ py_repr ''passive'')))
      else if kind = ''integration''
      then if integration_name name then Inr name
           else Inl (EgressValueError ''an integration route name is lower-case letters, digits and hyphens'')
      else Inl (EgressValueError (''unknown route kind '' @ py_repr kind)))"

section \<open>The wire username\<close>

definition wire_username_max :: nat where
  "wire_username_max = 128"

definition wire_username :: "string \<Rightarrow> string \<Rightarrow> string option \<Rightarrow> egress_error + string" where
  "wire_username kind name context =
     (case check_route_name kind name of
        Inl e \<Rightarrow> Inl e
      | Inr _ \<Rightarrow>
          let text = kind @ ''.'' @ name;
              finish = (\<lambda>t. if wire_username_max < length t
                then Inl (EgressValueError ''the wire username is longer than the proxy takes'')
                else Inr t)
          in (case context of
                None \<Rightarrow> finish text
              | Some c \<Rightarrow>
                  (case parse_context c of
                     Inl e \<Rightarrow> Inl e
                   | Inr (ckind, cid) \<Rightarrow>
                       if \<not> context_fits kind ckind
                       then Inl (EgressValueError (''a '' @ ckind @ '' context does not fit a '' @ kind @ '' route''))
                       else finish (text @ ''~'' @ ckind @ ''.'' @ cid))))"

record wire_claim =
  claim_kind :: string
  claim_name :: string
  claim_context :: "(string \<times> string) option"

definition route_auth_failed :: egress_error where
  "route_auth_failed = refusal ''route_auth_failed'' None None"

definition parse_wire_username :: "string \<Rightarrow> egress_error + wire_claim" where
  "parse_wire_username text =
     (if text = [] \<or> wire_username_max < length text \<or> \<not> is_ascii text
      then Inl route_auth_failed
      else case partition_on CHR ''~'' text of
        (route, tilde, context) \<Rightarrow>
          (case partition_on CHR ''.'' route of
             (kind, dot, name) \<Rightarrow>
               if \<not> dot then Inl route_auth_failed
               else if kind = ''probe''
               then if name \<noteq> ''readiness'' \<or> tilde then Inl route_auth_failed
                    else Inr \<lparr>claim_kind = ''probe'', claim_name = ''readiness'', claim_context = None\<rparr>
               else (case check_route_name kind name of
                   Inl _ \<Rightarrow> Inl route_auth_failed
                 | Inr _ \<Rightarrow>
                     if \<not> tilde
                     then Inr \<lparr>claim_kind = kind, claim_name = name, claim_context = None\<rparr>
                     else (case partition_on CHR ''.'' context of
                         (ckind, cdot, cid) \<Rightarrow>
                           if \<not> cdot \<or> \<not> context_fits kind ckind then Inl route_auth_failed
                           else (case canonical_uuid cid of
                               Inl e \<Rightarrow> Inl e
                             | Inr c \<Rightarrow>
                                 if c \<noteq> Some cid then Inl route_auth_failed
                                 else Inr \<lparr>claim_kind = kind, claim_name = name,
                                           claim_context = Some (ckind, cid)\<rparr>)))))"

section \<open>The route of one connection\<close>

record egress_route =
  route_kind :: string
  route_name :: string
  route_mode :: string
  route_policy :: route_policy
  route_context :: "string option"
  proxy_host :: "string option"
  proxy_port :: "int option"
  route_token :: "string option"
  route_note :: string

definition token_char :: "char \<Rightarrow> bool" where
  "token_char c \<longleftrightarrow> (let n = code_point c in
     65 \<le> n \<and> n \<le> 90 \<or> 97 \<le> n \<and> n \<le> 122 \<or> 48 \<le> n \<and> n \<le> 57 \<or> n = 46 \<or> n = 95 \<or> n = 45)"

definition token_body :: "string \<Rightarrow> bool" where
  "token_body s \<longleftrightarrow> 32 \<le> length s \<and> length s \<le> 128 \<and> list_all token_char s"

definition route_token_ok :: "string \<Rightarrow> bool" where
  "route_token_ok s \<longleftrightarrow> matches_dollar token_body s"

text \<open>The context of a route in its canonical spelling; \<open>__post_init__\<close> rewrites the field.\<close>

definition route_context_ok :: "egress_route \<Rightarrow> egress_error + string option" where
  "route_context_ok r =
     (case route_context r of
        None \<Rightarrow> Inr None
      | Some c \<Rightarrow>
          (case parse_context c of
             Inl e \<Rightarrow> Inl e
           | Inr (ckind, cid) \<Rightarrow>
               if \<not> context_fits (route_kind r) ckind
               then Inl (EgressValueError
                 (''a '' @ ckind @ '' context does not fit a '' @ route_kind r @ '' route''))
               else Inr (Some (ckind @ '':'' @ cid))))"

definition make_route :: "egress_route \<Rightarrow> egress_error + egress_route" where
  "make_route r =
     (if route_kind r \<notin> set route_kinds
      then Inl (EgressValueError (''unknown route kind '' @ py_repr (route_kind r)))
      else case check_route_name (route_kind r) (route_name r) of
        Inl e \<Rightarrow> Inl e
      | Inr _ \<Rightarrow>
      if route_mode r \<notin> {''DIRECT'', ''PROXY''}
      then Inl (EgressValueError (''a route mode is DIRECT or PROXY, not '' @ py_repr (route_mode r)))
      else if pol_kind (route_policy r) \<noteq> route_kind r
      then Inl (EgressValueError ''a route's policy is of the route's own kind'')
      else if admission (route_policy r) \<noteq> (if route_mode r = ''DIRECT'' then ''local'' else ''proxy'')
      then Inl (EgressValueError ''a DIRECT route admits locally and a PROXY route at the proxy'')
      else case route_context_ok r of
        Inl e \<Rightarrow> Inl e
      | Inr c \<Rightarrow>
      let r = r\<lparr>route_context := c\<rparr> in
      if route_mode r = ''DIRECT''
      then if proxy_host r \<noteq> None \<or> proxy_port r \<noteq> None \<or> route_token r \<noteq> None
           then Inl (EgressValueError ''a DIRECT route carries no proxy and no token'')
           else Inr r
      else if proxy_host r \<in> {None, Some []} \<or>
              (case proxy_port r of None \<Rightarrow> True | Some p \<Rightarrow> \<not> (1 \<le> p \<and> p \<le> 65535))
      then Inl (EgressValueError ''a PROXY route names the proxy's host and port'')
      else if (case route_token r of None \<Rightarrow> True | Some t \<Rightarrow> \<not> route_token_ok t)
      then Inl (EgressValueError ''a PROXY route carries its token'')
      else if route_kind r = ''persona'' \<and> route_context r = None
      then Inl (EgressValueError ''a persona route through the proxy needs its context'')
      else Inr r)"

definition direct_route ::
  "string \<Rightarrow> string \<Rightarrow> route_policy \<Rightarrow> string option \<Rightarrow> string \<Rightarrow> egress_error + egress_route" where
  "direct_route kind name policy context note =
     make_route \<lparr>route_kind = kind, route_name = name, route_mode = ''DIRECT'', route_policy = policy,
       route_context = context, proxy_host = None, proxy_port = None, route_token = None,
       route_note = note\<rparr>"

definition route_wire_username :: "egress_route \<Rightarrow> egress_error + string" where
  "route_wire_username r = wire_username (route_kind r) (route_name r) (route_context r)"

definition proxied :: "egress_route \<Rightarrow> bool" where
  "proxied r \<longleftrightarrow> route_mode r = ''PROXY''"

definition tagged :: "egress_route \<Rightarrow> string \<Rightarrow> egress_error + egress_route" where
  "tagged r context =
     (if route_kind r \<noteq> ''integration'' \<or> route_context r \<noteq> None
      then Inl (EgressValueError ''only an integration route without a context may be tagged'')
      else make_route (r\<lparr>route_context := Some context\<rparr>))"

definition permits :: "idna_encoder \<Rightarrow> egress_route \<Rightarrow> string \<Rightarrow> int \<Rightarrow> bool" where
  "permits idna r host port = is_ok (check_destination idna (route_policy r) host port None None)"

definition private_network :: "idna_encoder \<Rightarrow> egress_route \<Rightarrow> string \<Rightarrow> int \<Rightarrow> ipnet option" where
  "private_network idna r host port =
     (case check_destination idna (route_policy r) host port None None of
        Inl _ \<Rightarrow> None
      | Inr rl \<Rightarrow> find wholly_private (rule_networks rl))"

section \<open>Writing and reading the username\<close>

lemma canonical_uuid_Some: "canonical_uuid t = Inr (Some c) \<longleftrightarrow> c = lower t \<and> uuid_body c"
  by (auto simp: canonical_uuid_def Let_def)

lemma lower_hex_facts:
  "lower_hex c \<Longrightarrow> lower_char c = c \<and> code_point c < 128 \<and> c \<notin> {CHR ''~'', CHR ''.'', CHR '':''}"
  by (auto simp: lower_hex_def lower_char_def code_point_def Let_def)

lemma uuid_chars:
  assumes "uuid_body s" "c \<in> set s"
  shows "lower_hex c \<or> c = CHR ''-''"
  using split_on_chars [OF assms(2), of "CHR ''-''"] assms(1)
  by (auto simp: uuid_body_def Let_def list_all_iff)

lemma uuid_char_facts:
  assumes "uuid_body s" "c \<in> set s"
  shows "lower_char c = c \<and> code_point c < 128 \<and> c \<notin> {CHR ''~'', CHR ''.'', CHR '':''}"
  using uuid_chars [OF assms] lower_hex_facts [of c]
  by (auto simp: lower_char_def code_point_def)

lemma uuid_facts:
  assumes "uuid_body s"
  shows "lower s = s" "is_ascii s" "CHR ''~'' \<notin> set s" "CHR ''.'' \<notin> set s" "CHR '':'' \<notin> set s"
  using uuid_char_facts [OF assms] by (auto simp: is_ascii_def list_all_iff intro!: lower_none)

lemma canonical_uuid_self: "canonical_uuid s = Inr (Some s) \<longleftrightarrow> uuid_body s"
  using uuid_facts(1) [of s] by (auto simp: canonical_uuid_Some)

lemma matches_dollar_chars:
  assumes "matches_dollar p s" "c \<in> set s" "\<And>t. p t \<Longrightarrow> c \<in> set t \<Longrightarrow> Q" "c = newline \<Longrightarrow> Q"
  shows Q
proof (cases "p s")
  case False
  then have p: "p (butlast s)" and "s = butlast s @ [newline]"
    using assms(1) by (auto simp: matches_dollar_def) (metis append_butlast_last_id)
  then have "c \<in> set (butlast s) \<or> c = newline"
    using assms(2) by (metis Un_iff empty_iff insert_iff list.set set_append)
  then show ?thesis using assms(3,4) p by blast
qed (use assms in blast)

lemma integration_name_chars:
  assumes "integration_name s" "c \<in> set s"
  shows "code_point c < 128 \<and> c \<noteq> CHR ''~''"
proof (rule matches_dollar_chars [OF assms [unfolded integration_name_def]])
  fix t assume "route_name_body t" "c \<in> set t"
  then have "lower_letter c \<or> route_name_char c"
    by (cases t) (auto simp: route_name_body_def list_all_iff)
  then show ?thesis by (auto simp: lower_letter_def route_name_char_def code_point_def Let_def)
qed (simp add: newline_def code_point_def)

lemma check_route_name_Inr:
  "check_route_name kind name = Inr n \<longleftrightarrow>
     n = name \<and> (kind = ''persona'' \<and> (name = passive_profile \<or> uuid_body name)
               \<or> kind = ''integration'' \<and> integration_name name)"
  using canonical_uuid_self [of name]
  by (auto simp: check_route_name_def split: sum.splits)

lemma route_name_facts:
  assumes "check_route_name kind name = Inr n"
  shows "kind \<in> {''persona'', ''integration''}" "is_ascii name" "CHR ''~'' \<notin> set name"
proof -
  show "kind \<in> {''persona'', ''integration''}" using assms by (auto simp: check_route_name_Inr)
  have p: "is_ascii passive_profile" "CHR ''~'' \<notin> set passive_profile"
    by (simp_all add: is_ascii_def passive_profile_def code_point_def)
  show "is_ascii name" "CHR ''~'' \<notin> set name"
    using assms p uuid_facts [of name] integration_name_chars [of name]
    by (auto simp: check_route_name_Inr is_ascii_def list_all_iff)
qed

lemma parse_context_Inr:
  "parse_context text = Inr (k, c) \<longleftrightarrow>
     (\<exists>rest. partition_on CHR '':'' text = (k, True, rest) \<and> canonical_uuid rest = Inr (Some c)) \<and>
     k \<in> set (persona_contexts @ integration_contexts)"
  by (auto simp: parse_context_def split: prod.splits sum.splits option.splits if_splits)

lemma context_kind_facts:
  assumes "k \<in> set (persona_contexts @ integration_contexts)"
  shows "is_ascii k" "CHR ''~'' \<notin> set k" "CHR ''.'' \<notin> set k" "CHR '':'' \<notin> set k"
  using assms
  by (auto simp: persona_contexts_def integration_contexts_def is_ascii_def code_point_def)

lemma context_fits_kind: "context_fits kind k \<Longrightarrow> k \<in> set (persona_contexts @ integration_contexts)"
  by (auto simp: context_fits_def split: if_splits)

lemma is_ascii_Nil [simp]: "is_ascii []"
  by (simp add: is_ascii_def)

lemma is_ascii_append [simp]: "is_ascii (a @ b) \<longleftrightarrow> is_ascii a \<and> is_ascii b"
  by (simp add: is_ascii_def)

lemma is_ascii_Cons [simp]: "is_ascii (c # b) \<longleftrightarrow> code_point c < 128 \<and> is_ascii b"
  by (simp add: is_ascii_def)

text \<open>The text a claim is written as.\<close>

definition claim_text :: "wire_claim \<Rightarrow> string" where
  "claim_text c = claim_kind c @ ''.'' @ claim_name c @
     (case claim_context c of None \<Rightarrow> [] | Some (k, i) \<Rightarrow> ''~'' @ k @ ''.'' @ i)"

definition claim_form :: "wire_claim \<Rightarrow> bool" where
  "claim_form c \<longleftrightarrow>
     is_ok (check_route_name (claim_kind c) (claim_name c)) \<and>
     (case claim_context c of
        None \<Rightarrow> True
      | Some (k, i) \<Rightarrow> context_fits (claim_kind c) k \<and> uuid_body i) \<and>
     length (claim_text c) \<le> wire_username_max"

lemma kind_facts:
  assumes "kind \<in> {''persona'', ''integration''}"
  shows "CHR ''.'' \<notin> set kind" "CHR ''~'' \<notin> set kind" "is_ascii kind" "kind \<noteq> ''probe''"
    "kind \<noteq> []"
  using assms by (auto simp: is_ascii_def code_point_def)

lemma parse_claim_text:
  assumes "claim_form c"
  shows "parse_wire_username (claim_text c) = Inr c"
proof -
  obtain k n x where c: "c = \<lparr>claim_kind = k, claim_name = n, claim_context = x\<rparr>" by (cases c)
  from assms have name: "check_route_name k n = Inr n"
    by (auto simp: claim_form_def c is_ok_iff check_route_name_Inr)
  note nf = route_name_facts [OF name] and kf = kind_facts [OF route_name_facts(1) [OF name]]
  have ctx: "\<And>ck i. x = Some (ck, i) \<Longrightarrow> context_fits k ck \<and> uuid_body i"
    using assms by (simp add: claim_form_def c)
  have dot: "partition_on CHR ''.'' (k @ CHR ''.'' # n) = (k, True, n)" using kf(1) by simp
  have route: "CHR ''~'' \<notin> set (k @ CHR ''.'' # n)" using kf(2) nf(3) by simp
  have ascii: "is_ascii (claim_text c)"
    using kf(3) nf(2) ctx context_kind_facts(1) context_fits_kind uuid_facts(2)
    by (auto simp: claim_text_def c code_point_def split: option.split)
  have len: "length (claim_text c) \<le> wire_username_max" "claim_text c \<noteq> []"
    using assms by (auto simp: claim_form_def) (simp add: claim_text_def c)
  show ?thesis
  proof (cases x)
    case None
    then have t: "claim_text c = k @ CHR ''.'' # n" by (simp add: claim_text_def c)
    have "partition_on CHR ''~'' (claim_text c) = (k @ CHR ''.'' # n, False, [])"
      unfolding t by (rule partition_on_none [OF route])
    then show ?thesis
      using ascii len dot kf(4) name by (simp add: parse_wire_username_def c None)
  next
    case (Some p)
    then obtain ck i where p: "x = Some (ck, i)" by (cases p) auto
    have t: "claim_text c = (k @ CHR ''.'' # n) @ CHR ''~'' # (ck @ CHR ''.'' # i)"
      by (simp add: claim_text_def c p)
    have "partition_on CHR ''~'' (claim_text c) = (k @ CHR ''.'' # n, True, ck @ CHR ''.'' # i)"
      unfolding t by (rule partition_on_found [OF route])
    moreover have "partition_on CHR ''.'' (ck @ CHR ''.'' # i) = (ck, True, i)"
      using context_kind_facts(3) context_fits_kind ctx [OF p] by (intro partition_on_found) blast
    moreover have "canonical_uuid i = Inr (Some i)" using ctx [OF p] canonical_uuid_self by blast
    ultimately show ?thesis
      using ascii len dot kf(4) name ctx [OF p] by (simp add: parse_wire_username_def c p)
  qed
qed

definition probe_claim :: wire_claim where
  "probe_claim = \<lparr>claim_kind = ''probe'', claim_name = ''readiness'', claim_context = None\<rparr>"

lemma parse_wire_Inr:
  assumes "parse_wire_username t = Inr c"
  shows "c = probe_claim \<and> t = ''probe.readiness'' \<or> claim_form c \<and> t = claim_text c"
proof -
  obtain route tilde ctext where p1: "partition_on CHR ''~'' t = (route, tilde, ctext)"
    by (cases "partition_on CHR ''~'' t") auto
  obtain k dot n where p2: "partition_on CHR ''.'' route = (k, dot, n)"
    by (cases "partition_on CHR ''.'' route") auto
  obtain ck cdot i where p3: "partition_on CHR ''.'' ctext = (ck, cdot, i)"
    by (cases "partition_on CHR ''.'' ctext") auto
  note unf = parse_wire_username_def p1 p2 p3
  have dot: "dot" and len: "length t \<le> wire_username_max"
    using assms by (auto simp: unf split: if_splits)
  have route: "route = k @ CHR ''.'' # n" using p2 dot by (auto dest: partition_on_Some)
  have t: "t = (if tilde then route @ CHR ''~'' # ctext else route)"
    using p1 by (cases tilde) (auto dest: partition_on_Some partition_on_None)
  show ?thesis
  proof (cases "k = ''probe''")
    case True
    then have "c = probe_claim \<and> n = ''readiness'' \<and> \<not> tilde"
      using assms dot by (auto simp: unf probe_claim_def split: if_splits)
    then show ?thesis using True t route by simp
  next
    case False
    then have name: "is_ok (check_route_name k n)"
      using assms dot by (auto simp: unf split: if_splits sum.splits)
    then have n: "check_route_name k n = Inr n" by (auto simp: is_ok_iff check_route_name_Inr)
    show ?thesis
    proof (cases tilde)
      case False
      then have "c = \<lparr>claim_kind = k, claim_name = n, claim_context = None\<rparr>"
        using assms dot n \<open>k \<noteq> ''probe''\<close> by (auto simp: unf split: if_splits)
      then show ?thesis using False t route name len by (simp add: claim_form_def claim_text_def)
    next
      case True
      then have cd: "cdot" "context_fits k ck" "canonical_uuid i = Inr (Some i)"
        and c: "c = \<lparr>claim_kind = k, claim_name = n, claim_context = Some (ck, i)\<rparr>"
        using assms dot n \<open>k \<noteq> ''probe''\<close> by (auto simp: unf split: if_splits sum.splits)
      have "ctext = ck @ CHR ''.'' # i" using p3 cd(1) by (auto dest: partition_on_Some)
      then have "t = claim_text c" using t True route by (simp add: claim_text_def c)
      moreover have "claim_form c"
        using name cd canonical_uuid_self len calculation by (simp add: claim_form_def c)
      ultimately show ?thesis by blast
    qed
  qed
qed

lemma wire_username_Inr:
  assumes "wire_username kind name ctx = Inr t"
  obtains c where "claim_form c" "t = claim_text c" "claim_kind c = kind" "claim_name c = name"
    "case ctx of None \<Rightarrow> claim_context c = None | Some x \<Rightarrow> parse_context x = Inr (the (claim_context c))
       \<and> claim_context c \<noteq> None"
proof -
  have name: "check_route_name kind name = Inr name"
    using assms by (auto simp: wire_username_def check_route_name_Inr split: sum.splits)
  show ?thesis
  proof (cases ctx)
    case None
    then show ?thesis
      using assms name
      by (intro that [of "\<lparr>claim_kind = kind, claim_name = name, claim_context = None\<rparr>"])
        (auto simp: wire_username_def claim_form_def claim_text_def Let_def split: if_splits)
  next
    case (Some x)
    then obtain k i where p: "parse_context x = Inr (k, i)" and fits: "context_fits kind k"
      using assms name by (auto simp: wire_username_def Let_def split: sum.splits if_splits)
    have "uuid_body i" using p canonical_uuid_Some by (auto simp: parse_context_Inr)
    then show ?thesis
      using assms name p fits Some
      by (intro that [of "\<lparr>claim_kind = kind, claim_name = name, claim_context = Some (k, i)\<rparr>"])
        (auto simp: wire_username_def claim_form_def claim_text_def Let_def split: if_splits)
  qed
qed

section \<open>Properties\<close>

text \<open>C29: The wire username is read back as the claim it was written from. What \<open>wire_username\<close> writes
  for a kind, a name and a context, \<open>parse_wire_username\<close> reads as that kind, that name and that
  context, so no two different claims share a username.\<close>

theorem wire_username_roundtrip:
  assumes "wire_username kind name ctx = Inr t"
  shows "\<exists>c. parse_wire_username t = Inr c \<and> claim_kind c = kind \<and> claim_name c = name \<and>
    (case ctx of None \<Rightarrow> claim_context c = None
     | Some x \<Rightarrow> (\<exists>y. parse_context x = Inr y \<and> claim_context c = Some y))"
proof -
  obtain c where c: "claim_form c" "t = claim_text c" "claim_kind c = kind" "claim_name c = name"
    "case ctx of None \<Rightarrow> claim_context c = None | Some x \<Rightarrow> parse_context x = Inr (the (claim_context c))
       \<and> claim_context c \<noteq> None"
    using wire_username_Inr [OF assms] by metis
  then have "parse_wire_username t = Inr c" by (simp add: parse_claim_text)
  moreover have "case ctx of None \<Rightarrow> claim_context c = None
     | Some x \<Rightarrow> (\<exists>y. parse_context x = Inr y \<and> claim_context c = Some y)"
    using c(5) by (cases ctx) auto
  ultimately show ?thesis using c(3,4) by blast
qed

theorem wire_username_roundtrip_witness:
  "\<exists>c. parse_wire_username ''persona.passive'' = Inr c \<and> claim_kind c = ''persona'' \<and>
    claim_name c = ''passive'' \<and>
    (case None of None \<Rightarrow> claim_context c = None
     | Some x \<Rightarrow> (\<exists>y. parse_context x = Inr y \<and> claim_context c = Some y))"
  by (rule wire_username_roundtrip) code_simp

text \<open>A username that is accepted is the probe's, or the one text of a well-formed claim: a route the
  grammar names, with a context of that route's kind and a canonical identifier, within the length the
  proxy takes.\<close>

theorem accepted_username_form:
  assumes "parse_wire_username t = Inr c"
  shows "(c = probe_claim \<and> t = ''probe.readiness'') \<or> (claim_form c \<and> t = claim_text c)"
  using parse_wire_Inr [OF assms] by blast

theorem accepted_username_form_witness:
  "(\<lparr>claim_kind = ''persona'', claim_name = ''passive'', claim_context = None\<rparr> = probe_claim \<and>
      ''persona.passive'' = ''probe.readiness'') \<or>
   (claim_form \<lparr>claim_kind = ''persona'', claim_name = ''passive'', claim_context = None\<rparr> \<and>
      ''persona.passive'' = claim_text \<lparr>claim_kind = ''persona'', claim_name = ''passive'', claim_context = None\<rparr>)"
  by (rule accepted_username_form) code_simp

text \<open>The grammar refusal is not the only answer. A persona username whose context identifier is
  followed by a newline makes the reader raise a \<open>ValueError\<close> instead of the
  \<open>route_auth_failed\<close> refusal, before any token is checked.\<close>

theorem newline_context_escapes:
  assumes "uuid_body u" "k \<in> set persona_contexts"
  shows "parse_wire_username (''persona.passive~'' @ k @ ''.'' @ u @ [newline])
    = Inl (EgressValueError ''badly formed hexadecimal UUID string'')"
proof -
  have k: "k \<in> set (persona_contexts @ integration_contexts)" using assms(2) by simp
  have no: "newline \<noteq> CHR ''~''" "newline \<noteq> CHR ''-''" "\<not> lower_hex newline"
    "lower_char newline = newline" "code_point newline < 128"
    by (simp_all add: newline_def lower_hex_def lower_char_def code_point_def)
  have "newline \<in> set (u @ [newline])" by simp
  then have not_uuid: "\<not> uuid_body (u @ [newline])" using uuid_chars no by blast
  have lower: "lower (u @ [newline]) = u @ [newline]"
    using uuid_facts(1) [OF assms(1)] no by (simp add: lower_def)
  have cu: "canonical_uuid (u @ [newline]) = Inl (EgressValueError ''badly formed hexadecimal UUID string'')"
    using not_uuid assms(1) by (simp add: canonical_uuid_def lower Let_def matches_dollar_def)
  let ?t = "''persona.passive'' @ CHR ''~'' # (k @ CHR ''.'' # (u @ [newline]))"
  have "length u \<le> 40"
  proof -
    have "u = join_with ''-'' (split_on CHR ''-'' u)" by (simp add: join_split)
    moreover obtain a b c d e where s: "split_on CHR ''-'' u = [a, b, c, d, e]"
        "map length [a, b, c, d, e] = [8, 4, 4, 4, 12]"
      using assms(1) by (auto simp: uuid_body_def Let_def map_eq_Cons_conv)
    ultimately show ?thesis by simp
  qed
  moreover have "length k \<le> 4" using assms(2) by (auto simp: persona_contexts_def)
  ultimately have len: "length ?t \<le> wire_username_max" by (simp add: wire_username_max_def)
  have ascii: "is_ascii ?t"
    using context_kind_facts(1) [OF k] uuid_facts(2) [OF assms(1)] no(5)
    by (simp add: code_point_def)
  have p1: "partition_on CHR ''~'' ?t = (''persona.passive'', True, k @ CHR ''.'' # (u @ [newline]))"
    by (rule partition_on_found) simp
  have p2: "partition_on CHR ''.'' ''persona.passive'' = (''persona'', True, ''passive'')" by code_simp
  have p3: "partition_on CHR ''.'' (k @ CHR ''.'' # (u @ [newline])) = (k, True, u @ [newline])"
    by (rule partition_on_found) (rule context_kind_facts(3) [OF k])
  have name: "check_route_name ''persona'' ''passive'' = Inr ''passive''" by code_simp
  have fits: "context_fits ''persona'' k" using assms(2) by (simp add: context_fits_def)
  have "parse_wire_username ?t = Inl (EgressValueError ''badly formed hexadecimal UUID string'')"
    using len ascii unfolding parse_wire_username_def p1 prod.case p2 p3
    by (simp add: name fits cu)
  then show ?thesis by simp
qed

theorem newline_context_escapes_witness:
  "parse_wire_username (''persona.passive~'' @ ''run'' @ ''.'' @
      ''12345678-1234-1234-1234-123456789abc'' @ [newline])
    = Inl (EgressValueError ''badly formed hexadecimal UUID string'')"
  by (rule newline_context_escapes) (code_simp, simp add: persona_contexts_def)

text \<open>What a constructed route guarantees. A route that admits locally carries no proxy and no token; a
  route through the proxy names it and carries a token, and for a persona always the run, act or stop it
  serves; and the policy is of the route's own kind, admitted where its mode says.\<close>

theorem constructed_route:
  assumes "make_route r0 = Inr r"
  shows "pol_kind (route_policy r) = route_kind r \<and> is_ok (check_route_name (route_kind r) (route_name r)) \<and>
    (if proxied r
     then admission (route_policy r) = ''proxy'' \<and> proxy_host r \<notin> {None, Some []} \<and>
          (\<exists>p. proxy_port r = Some p \<and> 1 \<le> p \<and> p \<le> 65535) \<and>
          (\<exists>t. route_token r = Some t \<and> route_token_ok t) \<and>
          (route_kind r = ''persona'' \<longrightarrow>
             (\<exists>k i. route_context r = Some (k @ '':'' @ i) \<and> k \<in> set persona_contexts))
     else route_mode r = ''DIRECT'' \<and> admission (route_policy r) = ''local'' \<and>
          proxy_host r = None \<and> proxy_port r = None \<and> route_token r = None)"
proof -
  obtain c where c: "route_context_ok r0 = Inr c" and r: "r = r0\<lparr>route_context := c\<rparr>"
    and n: "is_ok (check_route_name (route_kind r0) (route_name r0))"
    using assms by (auto simp: make_route_def Let_def split: sum.splits if_splits)
  have persona: "\<exists>k i. x = k @ '':'' @ i \<and> k \<in> set persona_contexts"
    if px: "c = Some x" "route_kind r0 = ''persona''" for x
  proof -
    obtain a b where "x = a @ '':'' @ b" "a \<in> set persona_contexts"
      using c px
      by (auto simp: route_context_ok_def context_fits_def split: option.splits sum.splits if_splits)
    then show ?thesis by blast
  qed
  have k: "pol_kind (route_policy r0) = route_kind r0" "route_mode r0 \<in> {''DIRECT'', ''PROXY''}"
      "admission (route_policy r0) = (if route_mode r0 = ''DIRECT'' then ''local'' else ''proxy'')"
    using assms by (auto simp: make_route_def split: sum.splits if_splits)
  show ?thesis
  proof (cases "route_mode r0 = ''DIRECT''")
    case True
    then show ?thesis
      using assms k n c by (auto simp: r proxied_def make_route_def Let_def split: sum.splits if_splits)
  next
    case False
    then have m: "route_mode r0 = ''PROXY''" using k(2) by simp
    have "proxy_host r0 \<notin> {None, Some []} \<and> (\<exists>p. proxy_port r0 = Some p \<and> 1 \<le> p \<and> p \<le> 65535) \<and>
        (\<exists>t. route_token r0 = Some t \<and> route_token_ok t) \<and> (route_kind r0 = ''persona'' \<longrightarrow> c \<noteq> None)"
      using assms m c
      by (auto simp: make_route_def Let_def split: sum.splits if_splits option.splits)
    then show ?thesis using k m n persona by (auto simp: r proxied_def)
  qed
qed

definition demo_route :: egress_route where
  "demo_route = \<lparr>route_kind = ''persona'', route_name = ''passive'', route_mode = ''DIRECT'',
     route_policy = public_policy, route_context = None, proxy_host = None, proxy_port = None,
     route_token = None, route_note = []\<rparr>"

theorem constructed_route_witness:
  "pol_kind (route_policy demo_route) = route_kind demo_route \<and>
    is_ok (check_route_name (route_kind demo_route) (route_name demo_route)) \<and>
    (if proxied demo_route
     then admission (route_policy demo_route) = ''proxy'' \<and> proxy_host demo_route \<notin> {None, Some []} \<and>
          (\<exists>p. proxy_port demo_route = Some p \<and> 1 \<le> p \<and> p \<le> 65535) \<and>
          (\<exists>t. route_token demo_route = Some t \<and> route_token_ok t) \<and>
          (route_kind demo_route = ''persona'' \<longrightarrow>
             (\<exists>k i. route_context demo_route = Some (k @ '':'' @ i) \<and> k \<in> set persona_contexts))
     else route_mode demo_route = ''DIRECT'' \<and> admission (route_policy demo_route) = ''local'' \<and>
          proxy_host demo_route = None \<and> proxy_port demo_route = None \<and> route_token demo_route = None)"
proof (rule constructed_route [where ?r0.0 = demo_route])
  have "check_route_name ''persona'' ''passive'' = Inr ''passive''" by code_simp
  then show "make_route demo_route = Inr demo_route"
    by (simp add: make_route_def demo_route_def route_context_ok_def public_policy_def
        default_policy_def route_kinds_def Let_def)
qed

end
