(* ===== verification/RateLimit.thy ===== *)
theory RateLimit
  imports IpText
begin

text \<open>
  The rate limiter of \<open>ratelimit.py\<close>: the limits, the GCRA meter as a pure function, the
  in-process backend with its eviction, and the limiter that applies the catalogue and its policy
  on a backend failure. The clock is an argument in microseconds and SHA-256 is a parameter. What
  the limiter needs of a backend is the locale \<open>meter_backend\<close>, interpreted on the
  in-process backend; the bound on what a caller is granted is proved once inside it.
\<close>

section \<open>Limits\<close>

datatype on_backend_failure = DENY | ALLOW

datatype scope = USER | IP | CREDENTIAL

text \<open>
  \<open>per_seconds\<close> is a whole number of seconds, as every entry of the catalogue has it. The
  float quotient of \<open>emission_us\<close> is then truncated to the integer quotient: the exact
  quotient is below 2^53 and, where it is no integer, differs from the next one by at least
  1/quota, far more than half a unit in the last place.
\<close>

record limit =
  lim_name :: string
  quota :: int
  per_seconds :: int
  lim_scope :: scope
  burst :: "int option"
  failure_policy :: on_backend_failure
  audit_every_seconds :: int

datatype limit_error = LimitValueError string | LimitKeyError string

definition check_limit :: "limit \<Rightarrow> limit_error + limit" where
  "check_limit l =
     (if quota l \<le> 0 \<or> per_seconds l \<le> 0
      then Inl (LimitValueError (lim_name l @ '': quota and period must be positive''))
      else if (case burst l of Some b \<Rightarrow> b < 1 | None \<Rightarrow> False)
      then Inl (LimitValueError (lim_name l @ '': burst must be at least 1''))
      else Inr l)"

definition effective_burst :: "limit \<Rightarrow> int" where
  "effective_burst l = (case burst l of Some b \<Rightarrow> b | None \<Rightarrow> quota l)"

definition emission_us :: "limit \<Rightarrow> int" where
  "emission_us l = max 1 (per_seconds l * micros div quota l)"

definition tolerance_us :: "limit \<Rightarrow> int" where
  "tolerance_us l = emission_us l * effective_burst l"

section \<open>The meter\<close>

record raw_decision =
  raw_allowed :: bool
  retry_after_us :: int
  raw_remaining :: int
  reset_us :: int

text \<open>The decision, and the arrival time to store: nothing on a denial.\<close>

definition gcra :: "instant \<Rightarrow> instant option \<Rightarrow> int \<Rightarrow> int \<Rightarrow> raw_decision \<times> instant option" where
  "gcra now_us tat_us emission tolerance =
     (let tat = (case tat_us of None \<Rightarrow> now_us | Some t \<Rightarrow> if t < now_us then now_us else t);
          new_tat = tat + emission;
          allow_at = new_tat - tolerance
      in if now_us < allow_at
         then (\<lparr>raw_allowed = False, retry_after_us = allow_at - now_us, raw_remaining = 0,
                reset_us = max 0 (tat - now_us)\<rparr>, None)
         else let used_us = new_tat - now_us;
                  remaining = (tolerance - used_us) div emission
              in (\<lparr>raw_allowed = True, retry_after_us = 0, raw_remaining = max 0 remaining,
                   reset_us = used_us\<rparr>, Some new_tat))"

section \<open>The in-process backend\<close>

text \<open>
  The meters in insertion order, as the \<open>OrderedDict\<close> has them, and the audit claims.
  A measurement is atomic (the source holds a lock across it), so it is one step here.
\<close>

record in_process =
  meters :: "(string \<times> instant) list"
  claims :: "(string \<times> instant) list"
  max_keys :: nat

definition expired_dropped :: "instant \<Rightarrow> (string \<times> instant) list \<Rightarrow> (string \<times> instant) list" where
  "expired_dropped now ms = filter (\<lambda>(k, tat). \<not> tat \<le> now) ms"

text \<open>\<open>sorted(..., key=tat)[:overflow]\<close>: the stable sort, so ties go in insertion order.\<close>

definition evict :: "instant \<Rightarrow> in_process \<Rightarrow> in_process" where
  "evict now b =
     (let ms = expired_dropped now (meters b) in
      if length ms < max_keys b then b\<lparr>meters := ms\<rparr>
      else let overflow = length ms - max_keys b + 1;
               victims = map fst (take overflow (sort_key snd ms))
           in b\<lparr>meters := filter (\<lambda>(k, tat). k \<notin> set victims) ms\<rparr>)"

definition ip_measure :: "in_process \<Rightarrow> instant \<Rightarrow> string \<Rightarrow> int \<Rightarrow> int \<Rightarrow> raw_decision \<times> in_process" where
  "ip_measure b now key emission tolerance =
     (let b1 = (if map_of (meters b) key = None \<and> max_keys b \<le> length (meters b)
                then evict now b else b);
          (decision, new_tat) = gcra now (map_of (meters b1) key) emission tolerance
      in (decision, case new_tat of
            None \<Rightarrow> b1
          | Some t \<Rightarrow> b1\<lparr>meters := dict_set key t (meters b1)\<rparr>))"

definition ip_peek :: "in_process \<Rightarrow> instant \<Rightarrow> string \<Rightarrow> int \<Rightarrow> int \<Rightarrow> raw_decision" where
  "ip_peek b now key emission tolerance = fst (gcra now (map_of (meters b) key) emission tolerance)"

definition ip_claim_once :: "in_process \<Rightarrow> instant \<Rightarrow> string \<Rightarrow> int \<Rightarrow> bool \<times> in_process" where
  "ip_claim_once b now key window_seconds =
     (case map_of (claims b) key of
        Some expires \<Rightarrow>
          if now < expires then (False, b)
          else (True, b\<lparr>claims := dict_set key (now + window_seconds * micros)
                          (filter (\<lambda>(k, v). now < v) (claims b))\<rparr>)
      | None \<Rightarrow> (True, b\<lparr>claims := dict_set key (now + window_seconds * micros)
                          (filter (\<lambda>(k, v). now < v) (claims b))\<rparr>))"

section \<open>Subjects\<close>

text \<open>\<open>hashed\<close>: the first 32 characters of the SHA-256 hex digest, a parameter here.\<close>

definition hashed :: "(string \<Rightarrow> string) \<Rightarrow> string \<Rightarrow> string" where
  "hashed sha256_hex v = take 32 (sha256_hex v)"

definition ip_subject :: "(string \<Rightarrow> string) \<Rightarrow> string option \<Rightarrow> string" where
  "ip_subject sha256_hex address =
     (case address of
        None \<Rightarrow> ''ip:unknown''
      | Some text \<Rightarrow>
          if text = [] then ''ip:unknown''
          else (case parse_ip text of
              None \<Rightarrow> ''ip:unparseable''
            | Some parsed \<Rightarrow>
                (case unwrap parsed of
                   V6 a s \<Rightarrow> ''ip6:'' @ hashed sha256_hex
                     (format_ip (V6 (net_of a 64) (if net_of a 64 = a then s else None)) @ ''/64'')
                 | V4 a \<Rightarrow> ''ip4:'' @ hashed sha256_hex (format_ip (V4 a)))))"

section \<open>The catalogue\<close>

definition entry ::
  "string \<Rightarrow> int \<Rightarrow> int \<Rightarrow> scope \<Rightarrow> int option \<Rightarrow> on_backend_failure \<Rightarrow> int \<Rightarrow> string \<times> limit" where
  "entry name q per sc b failure audit =
     (name, \<lparr>lim_name = name, quota = q, per_seconds = per, lim_scope = sc, burst = b,
             failure_policy = failure, audit_every_seconds = audit\<rparr>)"

definition limits_core :: "(string \<times> limit) list" where
  "limits_core =
     [entry ''auth.login'' 120 60 IP (Some 20) DENY 60,
      entry ''auth.login_failed'' 30 300 IP (Some 15) DENY 60,
      entry ''auth.recovery_codes'' 5 3600 USER (Some 3) DENY 300,
      entry ''admin.credentials'' 60 3600 USER (Some 20) DENY 60,
      entry ''analytics.suite'' 30 300 USER (Some 10) DENY 300,
      entry ''analytics.key_player'' 10 300 USER (Some 4) DENY 300,
      entry ''search'' 120 60 USER (Some 40) DENY 300,
      entry ''evidence.export'' 30 3600 USER (Some 10) DENY 60,
      entry ''evidence.ingest'' 120 3600 USER (Some 30) DENY 300,
      entry ''capture'' 120 3600 USER (Some 30) DENY 300,
      entry ''merge'' 30 3600 USER (Some 10) DENY 300,
      entry ''request'' 600 60 CREDENTIAL (Some 200) ALLOW 600,
      entry ''request.source'' 3000 60 IP (Some 600) ALLOW 600,
      entry ''graph.view'' 240 60 USER (Some 80) DENY 300,
      entry ''graph.metrics'' 120 60 USER (Some 40) DENY 300,
      entry ''retention.destroy'' 10 3600 USER (Some 3) DENY 60,
      entry ''retention.lift'' 10 3600 USER (Some 3) DENY 60,
      entry ''retention.dry_run'' 30 300 USER (Some 10) DENY 300]"

definition limits_acts :: "(string \<times> limit) list" where
  "limits_acts =
     [entry ''ingest.submit'' 600 3600 CREDENTIAL (Some 120) DENY 300,
      entry ''comms.verify'' 60 3600 USER (Some 10) DENY 300,
      entry ''sample.download'' 120 300 IP (Some 30) DENY 300,
      entry ''analytics.one_mode'' 60 300 USER (Some 20) DENY 300,
      entry ''analytics.concor'' 10 300 USER (Some 4) DENY 300,
      entry ''analytics.rege'' 10 300 USER (Some 4) DENY 300,
      entry ''sample.triage'' 12 300 USER (Some 4) DENY 300,
      entry ''sample.similar'' 30 60 USER (Some 10) DENY 300,
      entry ''yara.ruleset'' 20 3600 USER (Some 5) DENY 300,
      entry ''yara.source'' 60 300 USER (Some 10) DENY 300,
      entry ''collection.config'' 60 3600 USER (Some 20) DENY 300,
      entry ''collection.authority'' 30 3600 USER (Some 10) DENY 300,
      entry ''admin.egress'' 60 3600 USER (Some 20) DENY 300,
      entry ''comms.key.lookup'' 20 3600 USER (Some 5) DENY 300,
      entry ''search.meaning'' 60 60 USER (Some 20) DENY 300,
      entry ''embedding.pass'' 30 3600 USER (Some 5) DENY 300,
      entry ''integration.write'' 60 3600 USER (Some 20) DENY 300,
      entry ''integration.test'' 20 3600 USER (Some 5) DENY 60,
      entry ''lookup.request'' 120 3600 USER (Some 20) DENY 300]"

definition limits_later :: "(string \<times> limit) list" where
  "limits_later =
     [entry ''lookup.plan'' 30 3600 USER (Some 10) DENY 300,
      entry ''screening.import'' 10 3600 USER (Some 3) DENY 300,
      entry ''screening.rescan'' 6 3600 USER (Some 2) DENY 300,
      entry ''sample.detonate'' 20 3600 USER (Some 5) DENY 300,
      entry ''collection.persona_act'' 20 3600 USER (Some 5) DENY 300]"

definition limits :: "(string \<times> limit) list" where
  "limits = limits_core @ limits_acts @ limits_later"

section \<open>The limiter\<close>

record decision =
  dec_allowed :: bool
  dec_limit :: limit
  remaining :: int
  retry_after_seconds :: int
  reset_seconds :: int
  degraded :: bool

text \<open>What the limiter calls on its backend; \<open>None\<close> is \<open>BackendUnavailable\<close>.\<close>

record 's backend =
  be_measure :: "'s \<Rightarrow> instant \<Rightarrow> string \<Rightarrow> int \<Rightarrow> int \<Rightarrow> (raw_decision \<times> 's) option"
  be_peek :: "'s \<Rightarrow> instant \<Rightarrow> string \<Rightarrow> int \<Rightarrow> int \<Rightarrow> raw_decision option"
  be_claim :: "'s \<Rightarrow> instant \<Rightarrow> string \<Rightarrow> int \<Rightarrow> (bool \<times> 's) option"

record limiter =
  rl_limits :: "(string \<times> limit) list"
  rl_enabled :: bool
  rl_prefix :: string

definition find_limit :: "limiter \<Rightarrow> string \<Rightarrow> limit_error + limit" where
  "find_limit rl name =
     (case map_of (rl_limits rl) name of
        Some l \<Rightarrow> Inr l
      | None \<Rightarrow> Inl (LimitKeyError (''unknown rate limit '' @ py_repr name)))"

definition ceil_seconds :: "int \<Rightarrow> int" where
  "ceil_seconds us = - ((- us) div micros)"

definition meter_key :: "limiter \<Rightarrow> string \<Rightarrow> string \<Rightarrow> string" where
  "meter_key rl name subject = rl_prefix rl @ '':'' @ name @ '':'' @ subject"

definition failed_decision :: "limit \<Rightarrow> decision" where
  "failed_decision l =
     (let allow = (failure_policy l = ALLOW) in
      \<lparr>dec_allowed = allow, dec_limit = l, remaining = 0,
       retry_after_seconds = (if allow then 0 else 5), reset_seconds = 0, degraded = True\<rparr>)"

definition told_decision :: "limit \<Rightarrow> raw_decision \<Rightarrow> decision" where
  "told_decision l raw =
     \<lparr>dec_allowed = raw_allowed raw, dec_limit = l, remaining = raw_remaining raw,
      retry_after_seconds = ceil_seconds (retry_after_us raw),
      reset_seconds = ceil_seconds (reset_us raw), degraded = False\<rparr>"

definition decide ::
  "'s backend \<Rightarrow> limiter \<Rightarrow> 's \<Rightarrow> instant \<Rightarrow> string \<Rightarrow> string \<Rightarrow> bool \<Rightarrow>
   limit_error + decision \<times> 's" where
  "decide be rl s now name subject consume =
     (case find_limit rl name of
        Inl e \<Rightarrow> Inl e
      | Inr l \<Rightarrow>
          if \<not> rl_enabled rl
          then Inr (\<lparr>dec_allowed = True, dec_limit = l, remaining = effective_burst l,
                     retry_after_seconds = 0, reset_seconds = 0, degraded = False\<rparr>, s)
          else let key = meter_key rl name subject in
            (case (if consume then be_measure be s now key (emission_us l) (tolerance_us l)
                   else map_option (\<lambda>d. (d, s)) (be_peek be s now key (emission_us l) (tolerance_us l))) of
               None \<Rightarrow> Inr (failed_decision l, s)
             | Some (raw, s') \<Rightarrow> Inr (told_decision l raw, s')))"

definition check_limit_now ::
  "'s backend \<Rightarrow> limiter \<Rightarrow> 's \<Rightarrow> instant \<Rightarrow> string \<Rightarrow> string \<Rightarrow> limit_error + decision \<times> 's" where
  "check_limit_now be rl s now name subject = decide be rl s now name subject True"

definition peek_limit ::
  "'s backend \<Rightarrow> limiter \<Rightarrow> 's \<Rightarrow> instant \<Rightarrow> string \<Rightarrow> string \<Rightarrow> limit_error + decision \<times> 's" where
  "peek_limit be rl s now name subject = decide be rl s now name subject False"

definition should_audit ::
  "'s backend \<Rightarrow> limiter \<Rightarrow> 's \<Rightarrow> instant \<Rightarrow> string \<Rightarrow> string \<Rightarrow> limit_error + bool \<times> 's" where
  "should_audit be rl s now name subject =
     (case find_limit rl name of
        Inl e \<Rightarrow> Inl e
      | Inr l \<Rightarrow>
          (case be_claim be s now (rl_prefix rl @ '':audit:'' @ name @ '':'' @ subject)
                  (audit_every_seconds l) of
             None \<Rightarrow> Inr (False, s)
           | Some (b, s') \<Rightarrow> Inr (b, s')))"

definition in_process_backend :: "in_process backend" where
  "in_process_backend =
     \<lparr>be_measure = \<lambda>s now k e t. Some (ip_measure s now k e t),
      be_peek = \<lambda>s now k e t. Some (ip_peek s now k e t),
      be_claim = \<lambda>s now k w. Some (ip_claim_once s now k w)\<rparr>"

text \<open>The advisory headers of a decision.\<close>

definition headers :: "decision \<Rightarrow> (string \<times> string) list" where
  "headers d =
     (let l = dec_limit d in
      [(''RateLimit-Limit'', int_text (quota l)),
       (''RateLimit-Remaining'', int_text (max 0 (remaining d))),
       (''RateLimit-Reset'', int_text (max 0 (reset_seconds d))),
       (''RateLimit-Policy'', int_text (quota l) @ '';w='' @ int_text (per_seconds l) @
          '';burst='' @ int_text (effective_burst l))] @
      (if dec_allowed d then [] else [(''Retry-After'', int_text (max 1 (retry_after_seconds d)))]))"

section \<open>The meter, exactly\<close>

text \<open>The credit still owed at an instant: how far the arrival time lies ahead.\<close>

definition owed :: "instant \<Rightarrow> instant option \<Rightarrow> int" where
  "owed now tat = (case tat of None \<Rightarrow> 0 | Some t \<Rightarrow> max 0 (t - now))"

lemma gcra_allowed_iff:
  "raw_allowed (fst (gcra now tat e tol)) \<longleftrightarrow> owed now tat + e \<le> tol"
  by (auto simp: gcra_def owed_def Let_def split: option.split)

lemma gcra_stored:
  "snd (gcra now tat e tol) = (if owed now tat + e \<le> tol then Some (now + owed now tat + e) else None)"
  by (auto simp: gcra_def owed_def Let_def split: option.split)

lemma gcra_retry:
  "\<not> raw_allowed (fst (gcra now tat e tol)) \<Longrightarrow>
   retry_after_us (fst (gcra now tat e tol)) = owed now tat + e - tol"
  by (auto simp: gcra_def owed_def Let_def split: option.split if_splits)

lemma gcra_remaining:
  "raw_allowed (fst (gcra now tat e tol)) \<Longrightarrow>
   raw_remaining (fst (gcra now tat e tol)) = max 0 ((tol - (owed now tat + e)) div e)"
  by (auto simp: gcra_def owed_def Let_def algebra_simps split: option.split if_splits)

lemma gcra_reset: "reset_us (fst (gcra now tat e tol)) =
    (if raw_allowed (fst (gcra now tat e tol)) then owed now tat + e else owed now tat)"
  by (auto simp: gcra_def owed_def Let_def split: option.split if_splits)

lemma owed_later: "now \<le> t \<Longrightarrow> owed t tat = max 0 (owed now tat - (t - now))"
  by (auto simp: owed_def split: option.split)

text \<open>Requests one after another at one instant.\<close>

fun burst_at :: "instant \<Rightarrow> int \<Rightarrow> int \<Rightarrow> nat \<Rightarrow> instant option \<Rightarrow> bool list" where
  "burst_at now e tol 0 tat = []"
| "burst_at now e tol (Suc n) tat =
     (let (d, t) = gcra now tat e tol in
      raw_allowed d # burst_at now e tol n (case t of Some v \<Rightarrow> Some v | None \<Rightarrow> tat))"

lemma burst_at_spec:
  assumes "0 < e"
  shows "burst_at now e tol n tat = map (\<lambda>i. owed now tat + int (Suc i) * e \<le> tol) [0..<n]"
proof (induction n arbitrary: tat)
  case (Suc n)
  have shift: "map f [0..<Suc n] = f 0 # map (\<lambda>i. f (Suc i)) [0..<n]" for f :: "nat \<Rightarrow> bool"
    by (simp add: upt_conv_Cons map_Suc_upt [symmetric] del: upt_Suc)
  show ?case
  proof (cases "owed now tat + e \<le> tol")
    case True
    have "owed now (Some (now + owed now tat + e)) = owed now tat + e"
      using assms by (simp add: owed_def split: option.split)
    then show ?thesis
      using True unfolding shift
      by (simp add: split_beta gcra_allowed_iff gcra_stored Suc.IH algebra_simps)
  next
    case False
    have no: "\<not> owed now tat + int i * e \<le> tol" if "0 < i" for i
      using False assms that mult_right_mono [of 1 "int i" e] by linarith
    have "map (\<lambda>i. owed now tat + int (Suc i) * e \<le> tol) [0..<k] = replicate k False" for k
      using no [of "Suc _"] by (intro replicate_eqI) (auto simp del: of_nat_Suc)
    then show ?thesis
      using False Suc.IH [of tat]
      by (simp add: split_beta gcra_allowed_iff gcra_stored replicate_append_same del: upt_Suc of_nat_Suc)
  qed
qed simp

section \<open>What the limiter needs of a backend\<close>

text \<open>The instants at which requests under one key were allowed, in a run of measurements.\<close>

fun granted ::
  "('s \<Rightarrow> instant \<Rightarrow> string \<Rightarrow> int \<Rightarrow> int \<Rightarrow> raw_decision \<times> 's) \<Rightarrow> (string \<Rightarrow> int) \<Rightarrow> (string \<Rightarrow> int) \<Rightarrow>
   's \<Rightarrow> string \<Rightarrow> (instant \<times> string) list \<Rightarrow> instant list" where
  "granted m em tol s k [] = []"
| "granted m em tol s k ((now, key) # es) =
     (let (d, s') = m s now key (em key) (tol key) in
      (if key = k \<and> raw_allowed d then [now] else []) @ granted m em tol s' k es)"

locale meter_backend =
  fixes measure :: "'s \<Rightarrow> instant \<Rightarrow> string \<Rightarrow> int \<Rightarrow> int \<Rightarrow> raw_decision \<times> 's"
    and tat :: "'s \<Rightarrow> string \<Rightarrow> instant option"
    and room :: "'s \<Rightarrow> string set \<Rightarrow> bool"
  assumes measure_decides: "fst (measure s now k e t) = fst (gcra now (tat s k) e t)"
    and measure_stores: "tat (snd (measure s now k e t)) k =
      (case snd (gcra now (tat s k) e t) of Some v \<Rightarrow> Some v | None \<Rightarrow> tat s k)"
    and measure_frame: "room s K \<Longrightarrow> k \<in> K \<Longrightarrow> k' \<noteq> k \<Longrightarrow>
      tat (snd (measure s now k e t)) k' = tat s k'"
    and measure_room: "room s K \<Longrightarrow> k \<in> K \<Longrightarrow> room (snd (measure s now k e t)) K"
begin

text \<open>
  With room for the keys in play, the grants under one key in any run span at least as much time
  as they cost beyond the tolerance: the rate and the burst hold together.
\<close>

lemma granted_cost:
  assumes "room s K" "snd ` set es \<subseteq> K" "k \<in> K" "granted measure em tol s k es = g" "g \<noteq> []"
  shows "hd g + owed (hd g) (tat s k) + int (length g) * em k \<le> last g + tol k"
  using assms
proof (induction es arbitrary: s g)
  case (Cons ev es)
  obtain now key where ev: "ev = (now, key)" by (cases ev)
  define s' where "s' = snd (measure s now key (em key) (tol key))"
  have key: "key \<in> K" using Cons.prems(2) by (simp add: ev)
  have room: "room s' K" using measure_room [OF Cons.prems(1) key] by (simp add: s'_def)
  have es: "snd ` set es \<subseteq> K" using Cons.prems(2) by simp
  let ?rest = "granted measure em tol s' k es"
  have allowed: "raw_allowed (fst (measure s now key (em key) (tol key))) \<longleftrightarrow>
      owed now (tat s key) + em key \<le> tol key"
    by (simp add: measure_decides gcra_allowed_iff)
  have g: "g = (if key = k \<and> owed now (tat s key) + em key \<le> tol key then [now] else []) @ ?rest"
    using Cons.prems(4) allowed by (simp add: ev s'_def split_beta Let_def)
  show ?case
  proof (cases "key = k \<and> owed now (tat s key) + em key \<le> tol key")
    case False
    then have "tat s' k = tat s k"
      using measure_frame [OF Cons.prems(1) key]
      by (cases "key = k") (simp_all add: s'_def measure_stores gcra_stored)
    then show ?thesis
      using Cons.IH [OF room es Cons.prems(3) refl] Cons.prems(5) False g by auto
  next
    case True
    then have "key = k" "owed now (tat s k) + em k \<le> tol k" by auto
    then have stored: "tat s' k = Some (now + owed now (tat s k) + em k)"
      by (simp add: s'_def measure_stores gcra_stored)
    show ?thesis
    proof (cases "?rest = []")
      case True
      then show ?thesis using \<open>key = k\<close> \<open>owed now (tat s k) + em k \<le> tol k\<close> g by simp
    next
      case False
      have "hd ?rest + owed (hd ?rest) (tat s' k) + int (length ?rest) * em k \<le> last ?rest + tol k"
        by (rule Cons.IH [OF room es Cons.prems(3) refl False])
      moreover have "now + owed now (tat s k) + em k \<le> hd ?rest + owed (hd ?rest) (tat s' k)"
        by (simp add: stored owed_def)
      ultimately show ?thesis
        using \<open>key = k\<close> \<open>owed now (tat s k) + em k \<le> tol k\<close> False g
        by (simp add: algebra_simps)
    qed
  qed
qed simp

lemma granted_bound:
  assumes "room s K" "snd ` set es \<subseteq> K" "k \<in> K" "granted measure em tol s k es \<noteq> []"
  shows "int (length (granted measure em tol s k es)) * em k
    \<le> (last (granted measure em tol s k es) - hd (granted measure em tol s k es)) + tol k"
  using granted_cost [OF assms(1-3) refl assms(4)] by (simp add: owed_def split: option.splits)

end

section \<open>The in-process backend is one\<close>

definition table_form :: "in_process \<Rightarrow> bool" where
  "table_form b \<longleftrightarrow> distinct (map fst (meters b)) \<and> length (meters b) \<le> max_keys b \<and> 0 < max_keys b"

definition has_room :: "in_process \<Rightarrow> string set \<Rightarrow> bool" where
  "has_room b K \<longleftrightarrow> distinct (map fst (meters b)) \<and> fst ` set (meters b) \<subseteq> K \<and> finite K \<and>
     card K \<le> max_keys b"

lemma has_room_no_evict:
  assumes "has_room b K" "k \<in> K" "map_of (meters b) k = None"
  shows "length (meters b) < max_keys b"
proof -
  have "fst ` set (meters b) \<subset> K"
    using assms by (auto simp: has_room_def map_of_eq_None_iff)
  then have "card (fst ` set (meters b)) < card K"
    using assms(1) by (intro psubset_card_mono) (auto simp: has_room_def)
  moreover have "card (fst ` set (meters b)) = length (meters b)"
    using assms(1) distinct_card [of "map fst (meters b)"] by (simp add: has_room_def)
  ultimately show ?thesis using assms(1) by (simp add: has_room_def)
qed

lemma map_of_filter_keys:
  "map_of (filter (\<lambda>(k, v). k \<notin> A) ms) k = (if k \<in> A then None else map_of ms k)"
  by (induction ms) auto

lemma evict_key: "map_of (meters b) k = None \<Longrightarrow> map_of (meters (evict now b)) k = None"
  by (auto simp: evict_def expired_dropped_def Let_def map_of_eq_None_iff)

lemma ip_measure_eq:
  assumes "has_room b K" "k \<in> K"
  shows "ip_measure b now k e t =
    (fst (gcra now (map_of (meters b) k) e t),
     case snd (gcra now (map_of (meters b) k) e t) of None \<Rightarrow> b
       | Some v \<Rightarrow> b\<lparr>meters := dict_set k v (meters b)\<rparr>)"
proof -
  have "\<not> (map_of (meters b) k = None \<and> max_keys b \<le> length (meters b))"
    using has_room_no_evict [OF assms] by auto
  then show ?thesis unfolding ip_measure_def by (simp only: if_False Let_def split_beta)
qed

interpretation ip_meter: meter_backend ip_measure "\<lambda>b. map_of (meters b)" has_room
proof
  fix s :: in_process and now k e t
  show "fst (ip_measure s now k e t) = fst (gcra now (map_of (meters s) k) e t)"
    by (auto simp: ip_measure_def split_beta Let_def evict_key)
next
  fix s :: in_process and now k e t
  show "map_of (meters (snd (ip_measure s now k e t))) k =
      (case snd (gcra now (map_of (meters s) k) e t) of Some v \<Rightarrow> Some v | None \<Rightarrow> map_of (meters s) k)"
    by (auto simp: ip_measure_def split_beta Let_def evict_key split: option.split)
next
  fix s :: in_process and K k k' now e t
  assume "has_room s K" "k \<in> K" "k' \<noteq> k"
  then show "map_of (meters (snd (ip_measure s now k e t))) k' = map_of (meters s) k'"
    by (auto simp: ip_measure_eq split: option.split)
next
  fix s :: in_process and K k now e t
  assume "has_room s K" "k \<in> K"
  moreover from this have "has_room (s\<lparr>meters := dict_set k v (meters s)\<rparr>) K" for v
    by (auto simp: has_room_def dict_set_distinct)
  ultimately show "has_room (snd (ip_measure s now k e t)) K"
    by (simp add: ip_measure_eq split: option.split)
qed

section \<open>Eviction\<close>

lemma evict_subset: "set (meters (evict now b)) \<subseteq> set (meters b)"
  by (auto simp: evict_def expired_dropped_def Let_def)

lemma distinct_filter_fst: "distinct (map fst ms) \<Longrightarrow> distinct (map fst (filter P ms))"
  by (induction ms) auto

lemma victims_in: "set (take n (sort_key f xs)) \<subseteq> set xs"
  using set_take_subset [of n "sort_key f xs"] by simp

lemma filter_not_take:
  assumes "distinct (map fst ms)" "n \<le> length ms"
  shows "length (filter (\<lambda>(k, v). k \<notin> set (map fst (take n (sort_key snd ms)))) ms) = length ms - n"
proof -
  let ?V = "take n (sort_key snd ms)"
  have d: "distinct ms" using assms(1) by (simp add: distinct_map)
  have keys: "fst p \<in> set (map fst ?V) \<longleftrightarrow> p \<in> set ?V" if "p \<in> set ms" for p
  proof
    assume "fst p \<in> set (map fst ?V)"
    then obtain q where q: "q \<in> set ?V" "fst q = fst p" by auto
    then have "q \<in> set ms" using victims_in [of n snd ms] by auto
    then show "p \<in> set ?V" using q that assms(1) by (metis distinct_map inj_onD)
  qed auto
  have "filter (\<lambda>(k, v). k \<notin> set (map fst ?V)) ms = filter (\<lambda>p. p \<notin> set ?V) ms"
    using keys by (intro filter_cong) (auto simp: split_beta)
  moreover have "length (filter (\<lambda>p. p \<notin> set ?V) ms) = card (set ms - set ?V)"
    using d by (metis (no_types) distinct_card distinct_filter set_diff_eq set_filter)
  moreover have "card (set ?V) = n"
    using d assms(2) distinct_card [of ?V] by (simp add: distinct_take)
  ultimately show ?thesis
    using d victims_in [of n snd ms] by (simp add: card_Diff_subset distinct_card)
qed

lemma evict_form:
  assumes "distinct (map fst (meters b))" "0 < max_keys b"
  shows "distinct (map fst (meters (evict now b))) \<and> length (meters (evict now b)) < max_keys b
    \<and> max_keys (evict now b) = max_keys b"
proof -
  let ?ms = "expired_dropped now (meters b)"
  have d: "distinct (map fst ?ms)"
    using assms(1) by (simp add: expired_dropped_def distinct_filter_fst)
  show ?thesis
  proof (cases "length ?ms < max_keys b")
    case True
    then show ?thesis using d by (simp add: evict_def Let_def)
  next
    case False
    then have "length ?ms - max_keys b + 1 \<le> length ?ms" using assms(2) by simp
    from filter_not_take [OF d this] False assms(2) d
    show ?thesis by (simp add: evict_def Let_def distinct_filter_fst)
  qed
qed

lemma evict_least:
  assumes "distinct (map fst (meters b))" "(k, t) \<in> set (meters (evict now b))"
    "(k', t') \<in> set (meters b)" "(k', t') \<notin> set (meters (evict now b))" "now < t'"
  shows "t' \<le> t"
proof -
  let ?ms = "expired_dropped now (meters b)"
  let ?n = "length ?ms - max_keys b + 1"
  have full: "\<not> length ?ms < max_keys b"
    using assms(3-5) by (auto simp: evict_def expired_dropped_def Let_def)
  have live: "(k', t') \<in> set ?ms" using assms(3,5) by (simp add: expired_dropped_def)
  have after: "meters (evict now b) =
      filter (\<lambda>(k, v). k \<notin> set (map fst (take ?n (sort_key snd ?ms)))) ?ms"
    using full by (simp add: evict_def Let_def)
  have kept: "(k, t) \<in> set ?ms" "(k, t) \<notin> set (take ?n (sort_key snd ?ms))"
    using assms(2) unfolding after by (auto simp: image_iff split_beta)
  then have drop: "(k, t) \<in> set (drop ?n (sort_key snd ?ms))"
    by (metis Un_iff append_take_drop_id set_append set_sort)
  obtain u where u: "(k', u) \<in> set (take ?n (sort_key snd ?ms))"
    using assms(4) live unfolding after by auto
  have "(k', u) \<in> set ?ms" using u victims_in [of ?n snd ?ms] by auto
  moreover have "distinct (map fst ?ms)"
    using assms(1) by (simp add: expired_dropped_def distinct_filter_fst)
  ultimately have "u = t'" using live by (meson eq_key_imp_eq_value)
  moreover have "sorted (map snd (take ?n (sort_key snd ?ms)) @ map snd (drop ?n (sort_key snd ?ms)))"
    by (simp flip: map_append)
  then have "\<forall>x\<in>set (take ?n (sort_key snd ?ms)). \<forall>y\<in>set (drop ?n (sort_key snd ?ms)). snd x \<le> snd y"
    by (simp only: sorted_append) auto
  ultimately show ?thesis using u drop by force
qed

section \<open>The audit throttle\<close>

text \<open>The instants at which a run of claims let an audit row through under one key.\<close>

fun claimed :: "(string \<Rightarrow> int) \<Rightarrow> in_process \<Rightarrow> string \<Rightarrow> (instant \<times> string) list \<Rightarrow> instant list" where
  "claimed win b k [] = []"
| "claimed win b k ((now, key) # es) =
     (let (ok, b') = ip_claim_once b now key (win key) in
      (if key = k \<and> ok then [now] else []) @ claimed win b' k es)"

lemma map_of_live:
  "map_of cs k = Some x \<Longrightarrow> now < x \<Longrightarrow> map_of (filter (\<lambda>(k, v). now < v) cs) k = Some (x :: int)"
  by (induction cs) (auto split: if_splits)

lemma claimed_times: "t \<in> set (claimed win b k es) \<Longrightarrow> t \<in> fst ` set es"
proof (induction es arbitrary: b)
  case (Cons ev es)
  then show ?case by (cases ev) (auto simp: split_beta Let_def split: if_splits)
qed simp

lemma claimed_spaced:
  assumes "sorted (map fst es)" "\<forall>e\<in>set es. t0 \<le> fst e" "map_of (claims b) k = Some x \<or> x \<le> t0"
  shows "successively (\<lambda>a c. a + win k * micros \<le> c) (claimed win b k es) \<and>
    (\<forall>t\<in>set (claimed win b k es). x \<le> t)"
  using assms
proof (induction es arbitrary: b t0 x)
  case (Cons ev es)
  obtain now key where ev: "ev = (now, key)" by (cases ev)
  obtain ok b' where step: "ip_claim_once b now key (win key) = (ok, b')"
    by (cases "ip_claim_once b now key (win key)")
  have rest: "sorted (map fst es)" "\<forall>e\<in>set es. now \<le> fst e" and t0: "t0 \<le> now"
    using Cons.prems by (auto simp: ev)
  have x: "map_of (claims b) k = Some x \<or> x \<le> now" using Cons.prems(3) t0 by auto
  have ok: "ok \<Longrightarrow> x \<le> now \<or> key \<noteq> k" and after: "ok \<Longrightarrow> key = k \<Longrightarrow>
      map_of (claims b') k = Some (now + win k * micros)"
    and keep: "key \<noteq> k \<or> \<not> ok \<Longrightarrow> map_of (claims b') k = Some x \<or> x \<le> now"
    using step x map_of_live [of "claims b" k x now]
    by (auto simp: ip_claim_once_def split: option.splits if_splits)
  have unfold: "claimed win b k (ev # es) = (if key = k \<and> ok then [now] else []) @ claimed win b' k es"
    by (simp add: ev step)
  show ?case
  proof (cases "key = k \<and> ok")
    case True
    then have "successively (\<lambda>a c. a + win k * micros \<le> c) (claimed win b' k es) \<and>
        (\<forall>t\<in>set (claimed win b' k es). now + win k * micros \<le> t)"
      using Cons.IH [OF rest, of b' "now + win k * micros"] after by blast
    moreover have "x \<le> now" using True ok by blast
    moreover have "\<forall>t\<in>set (claimed win b' k es). now \<le> t" using claimed_times rest(2) by fastforce
    ultimately show ?thesis
      using True unfolding unfold by (cases "claimed win b' k es") (auto intro: order.trans)
  next
    case False
    then show ?thesis
      using Cons.IH [OF rest, of b' x] keep unfolding unfold by auto
  qed
qed simp

section \<open>Properties\<close>

lemma valid_limit:
  "check_limit l = Inr l \<Longrightarrow> 0 < quota l \<and> 0 < emission_us l \<and> emission_us l \<le> tolerance_us l"
proof -
  assume "check_limit l = Inr l"
  then have "0 < quota l" "1 \<le> effective_burst l"
    by (auto simp: check_limit_def effective_burst_def split: if_splits option.splits)
  moreover have "0 < emission_us l" by (simp add: emission_us_def)
  moreover from this calculation have "emission_us l * 1 \<le> emission_us l * effective_burst l"
    by (intro mult_left_mono) simp_all
  ultimately show ?thesis by (simp add: tolerance_us_def)
qed

text \<open>C30: Whatever the requests and their instants, as long as the table has room for the keys in
  play, the requests the in-process backend allows under one key never exceed the burst plus what
  the emission interval yields over the time they span.\<close>

theorem in_process_bound:
  assumes "has_room b K" "snd ` set es \<subseteq> K" "k \<in> K" "check_limit l = Inr l"
    "granted ip_measure (\<lambda>_. emission_us l) (\<lambda>_. tolerance_us l) b k es \<noteq> []"
  shows "int (length (granted ip_measure (\<lambda>_. emission_us l) (\<lambda>_. tolerance_us l) b k es))
    \<le> effective_burst l +
      (last (granted ip_measure (\<lambda>_. emission_us l) (\<lambda>_. tolerance_us l) b k es) -
       hd (granted ip_measure (\<lambda>_. emission_us l) (\<lambda>_. tolerance_us l) b k es)) div emission_us l"
proof -
  let ?g = "granted ip_measure (\<lambda>_. emission_us l) (\<lambda>_. tolerance_us l) b k es"
  have e: "0 < emission_us l" using valid_limit [OF assms(4)] by simp
  have "int (length ?g) * emission_us l \<le> (last ?g - hd ?g) + tolerance_us l"
    by (rule ip_meter.granted_bound [OF assms(1-3,5)])
  then have "int (length ?g) \<le> ((last ?g - hd ?g) + emission_us l * effective_burst l) div emission_us l"
    using e zdiv_mono1 [of "int (length ?g) * emission_us l"] by (fastforce simp: tolerance_us_def)
  then show ?thesis using e by (simp add: add.commute)
qed

lemma le_div_iff_int: "0 < e \<Longrightarrow> n \<le> m div e \<longleftrightarrow> n * e \<le> (m :: int)"
proof
  assume e: "0 < e"
  show "n * e \<le> m" if "n \<le> m div e"
    using mult_right_mono [OF that, of e] e div_mult_mod_eq [of m e] pos_mod_sign [OF e, of m]
    by linarith
  show "n \<le> m div e" if "n * e \<le> m"
    using zdiv_mono1 [OF that e] e by simp
qed

lemma granted_first:
  "raw_allowed (fst (m s now k (em k) (tol k))) \<Longrightarrow> granted m em tol s k ((now, k) # es) \<noteq> []"
  by (simp add: split_beta Let_def)

text \<open>Concrete values for the witnesses.\<close>

definition demo_table :: in_process where
  "demo_table = \<lparr>meters = [], claims = [], max_keys = 4\<rparr>"

definition demo_limit :: limit where
  "demo_limit = snd (entry ''auth.login_failed'' 30 300 IP (Some 15) DENY 60)"

lemma demo_limit_values:
  "check_limit demo_limit = Inr demo_limit" "emission_us demo_limit = 10000000"
  "tolerance_us demo_limit = 150000000" "effective_burst demo_limit = 15"
  by (simp_all add: check_limit_def demo_limit_def entry_def emission_us_def tolerance_us_def
      effective_burst_def)

theorem in_process_bound_witness:
  "int (length (granted ip_measure (\<lambda>_. emission_us demo_limit) (\<lambda>_. tolerance_us demo_limit)
      demo_table ''a'' [(0, ''a''), (3, ''b''), (7, ''a'')]))
    \<le> effective_burst demo_limit +
      (last (granted ip_measure (\<lambda>_. emission_us demo_limit) (\<lambda>_. tolerance_us demo_limit)
        demo_table ''a'' [(0, ''a''), (3, ''b''), (7, ''a'')]) -
       hd (granted ip_measure (\<lambda>_. emission_us demo_limit) (\<lambda>_. tolerance_us demo_limit)
        demo_table ''a'' [(0, ''a''), (3, ''b''), (7, ''a'')])) div emission_us demo_limit"
proof (rule in_process_bound [where K = "{''a'', ''b''}"])
  show "granted ip_measure (\<lambda>_. emission_us demo_limit) (\<lambda>_. tolerance_us demo_limit)
      demo_table ''a'' [(0, ''a''), (3, ''b''), (7, ''a'')] \<noteq> []"
    by (rule granted_first)
      (simp add: ip_meter.measure_decides gcra_allowed_iff owed_def demo_table_def demo_limit_values)
qed (simp_all add: demo_limit_values has_room_def demo_table_def)

text \<open>The wait a denial announces is exact. A request that finds the meter untouched is allowed
  from the instant it names and not before; the whole seconds of \<open>Retry-After\<close> are never short.\<close>

theorem retry_after_exact:
  assumes "check_limit l = Inr l" "raw = fst (gcra now tat (emission_us l) (tolerance_us l))"
    "\<not> raw_allowed raw" "now \<le> t"
  shows "(raw_allowed (fst (gcra t tat (emission_us l) (tolerance_us l))) \<longleftrightarrow>
      now + retry_after_us raw \<le> t) \<and>
    retry_after_us raw \<le> retry_after_seconds (told_decision l raw) * micros \<and>
    retry_after_seconds (told_decision l raw) * micros < retry_after_us raw + micros"
proof -
  have "retry_after_us raw = owed now tat + emission_us l - tolerance_us l"
    using assms(2,3) by (simp add: gcra_retry)
  then have "raw_allowed (fst (gcra t tat (emission_us l) (tolerance_us l))) \<longleftrightarrow>
      now + retry_after_us raw \<le> t"
    using valid_limit [OF assms(1)] owed_later [OF assms(4), of tat]
    by (auto simp: gcra_allowed_iff)
  moreover have "us \<le> ceil_seconds us * micros \<and> ceil_seconds us * micros < us + micros" for us
    using div_mult_mod_eq [of "- us" micros] pos_mod_bound [of micros "- us"]
      pos_mod_sign [of micros "- us"] unfolding ceil_seconds_def by linarith
  ultimately show ?thesis by (simp add: told_decision_def)
qed

theorem retry_after_exact_witness:
  "(raw_allowed (fst (gcra 20 (Some 150000000) (emission_us demo_limit) (tolerance_us demo_limit)))
      \<longleftrightarrow> 7 + retry_after_us (fst (gcra 7 (Some 150000000) (emission_us demo_limit) (tolerance_us demo_limit))) \<le> 20)
    \<and> retry_after_us (fst (gcra 7 (Some 150000000) (emission_us demo_limit) (tolerance_us demo_limit)))
      \<le> retry_after_seconds (told_decision demo_limit (fst (gcra 7 (Some 150000000) (emission_us demo_limit) (tolerance_us demo_limit)))) * micros
    \<and> retry_after_seconds (told_decision demo_limit (fst (gcra 7 (Some 150000000) (emission_us demo_limit) (tolerance_us demo_limit)))) * micros
      < retry_after_us (fst (gcra 7 (Some 150000000) (emission_us demo_limit) (tolerance_us demo_limit))) + micros"
  by (rule retry_after_exact [OF demo_limit_values(1) refl])
    (simp_all add: demo_limit_values gcra_def)

text \<open>The remaining count is exact: after an allowed request that reports \<open>r\<close> remaining,
  exactly \<open>r\<close> more requests of the same instant are allowed and the next is denied.\<close>

theorem remaining_exact:
  assumes "check_limit l = Inr l"
    "gcra now tat (emission_us l) (tolerance_us l) = (d, Some t)"
  shows "burst_at now (emission_us l) (tolerance_us l) (nat (raw_remaining d) + 1) (Some t)
    = replicate (nat (raw_remaining d)) True @ [False]"
proof -
  let ?e = "emission_us l" and ?tol = "tolerance_us l"
  have e: "0 < ?e" using valid_limit [OF assms(1)] by simp
  have d: "d = fst (gcra now tat ?e ?tol)" "Some t = snd (gcra now tat ?e ?tol)"
    using assms(2) by simp_all
  then have ok: "owed now tat + ?e \<le> ?tol" and t: "t = now + owed now tat + ?e"
    by (simp_all add: gcra_stored split: if_splits)
  define r where "r = (?tol - (owed now tat + ?e)) div ?e"
  have r: "0 \<le> r" "raw_remaining d = r"
    using ok e d(1) by (simp_all add: r_def gcra_remaining gcra_allowed_iff pos_imp_zdiv_nonneg_iff)
  have owed: "owed now (Some t) = owed now tat + ?e"
    using e by (simp add: t owed_def split: option.split)
  have fits: "owed now (Some t) + int (Suc i) * ?e \<le> ?tol \<longleftrightarrow> i < nat r" for i
  proof -
    have "int (Suc i) * ?e \<le> ?tol - (owed now tat + ?e) \<longleftrightarrow> int (Suc i) \<le> r"
      unfolding r_def using le_div_iff_int [OF e] by blast
    then show ?thesis using r(1) unfolding owed by linarith
  qed
  have "burst_at now ?e ?tol (nat r + 1) (Some t) = map (\<lambda>i. i < nat r) [0..<nat r + 1]"
    unfolding burst_at_spec [OF e] fits ..
  also have "\<dots> = map (\<lambda>i. i < nat r) [0..<nat r] @ [False]" by simp
  also have "map (\<lambda>i. i < nat r) [0..<nat r] = replicate (nat r) True"
    by (intro replicate_eqI) auto
  finally show ?thesis unfolding r(2) .
qed

theorem remaining_exact_witness:
  "burst_at 7 (emission_us demo_limit) (tolerance_us demo_limit)
     (nat (raw_remaining (fst (gcra 7 None (emission_us demo_limit) (tolerance_us demo_limit)))) + 1)
     (Some 10000007)
   = replicate (nat (raw_remaining (fst (gcra 7 None (emission_us demo_limit) (tolerance_us demo_limit))))) True
     @ [False]"
  by (rule remaining_exact [OF demo_limit_values(1), where tat = None])
    (simp add: gcra_def demo_limit_values)

lemma expired_None: "map_of (meters b) k = None \<Longrightarrow> map_of (expired_dropped now (meters b)) k = None"
  by (auto simp: expired_dropped_def map_of_eq_None_iff)

lemma ip_measure_form:
  assumes "table_form b"
  shows "table_form (snd (ip_measure b now k e t))"
proof -
  have step: "table_form (c\<lparr>meters := dict_set k v (meters c)\<rparr>)"
    if "table_form c" "map_of (meters c) k = None \<Longrightarrow> length (meters c) < max_keys c" for c v
    using that by (auto simp: table_form_def dict_set_distinct dict_set_length)
  have evicted: "table_form (evict now b) \<and> length (meters (evict now b)) < max_keys (evict now b)"
    using evict_form [of b now] assms by (auto simp: table_form_def)
  show ?thesis
  proof (cases "map_of (meters b) k = None \<and> max_keys b \<le> length (meters b)")
    case True
    then have "ip_measure b now k e t = (fst (gcra now (map_of (meters (evict now b)) k) e t),
        case snd (gcra now (map_of (meters (evict now b)) k) e t) of None \<Rightarrow> evict now b
          | Some v \<Rightarrow> (evict now b)\<lparr>meters := dict_set k v (meters (evict now b))\<rparr>)"
      unfolding ip_measure_def by (simp only: if_True Let_def split_beta simp_thms)
    then show ?thesis using evicted step [of "evict now b"] by (auto split: option.split)
  next
    case False
    then have "ip_measure b now k e t = (fst (gcra now (map_of (meters b) k) e t),
        case snd (gcra now (map_of (meters b) k) e t) of None \<Rightarrow> b
          | Some v \<Rightarrow> b\<lparr>meters := dict_set k v (meters b)\<rparr>)"
      unfolding ip_measure_def by (simp only: if_False Let_def split_beta)
    then show ?thesis using False assms step [of b] by (auto split: option.split)
  qed
qed

text \<open>The meter table keeps its form (no repeated key, never more than \<open>max_keys\<close>), a denied
  request leaves it as it was, and a live meter is dropped only for one that is at least as
  throttled: every other meter that stays has a later arrival time.\<close>

theorem measure_table:
  assumes "table_form b" "e \<le> tol" "ip_measure b now k e tol = (d, b')"
  shows "table_form b' \<and> (\<not> raw_allowed d \<longrightarrow> b' = b) \<and>
    (\<forall>k' t'. (k', t') \<in> set (meters b) \<and> map_of (meters b') k' = None \<and> now < t' \<longrightarrow>
       (\<forall>k'' t''. (k'', t'') \<in> set (meters b') \<and> k'' \<noteq> k \<longrightarrow> t' \<le> t''))"
proof -
  define b1 where
    "b1 = (if map_of (meters b) k = None \<and> max_keys b \<le> length (meters b) then evict now b else b)"
  have b': "b' = (case snd (gcra now (map_of (meters b1) k) e tol) of None \<Rightarrow> b1
      | Some v \<Rightarrow> b1\<lparr>meters := dict_set k v (meters b1)\<rparr>)"
    and d: "d = fst (gcra now (map_of (meters b1) k) e tol)"
    using assms(3) unfolding ip_measure_def b1_def [symmetric] by (auto simp: Let_def split_beta)
  have "table_form b'" using ip_measure_form [OF assms(1), of now k e tol] assms(3) by simp
  moreover have "b' = b" if no: "\<not> raw_allowed d"
  proof -
    have "\<not> owed now (map_of (meters b1) k) + e \<le> tol" using no d by (simp add: gcra_allowed_iff)
    then have "map_of (meters b1) k \<noteq> None"
      using assms(2) by (cases "map_of (meters b1) k") (simp_all add: owed_def)
    then have "b1 = b" using evict_key [of b k now] by (auto simp: b1_def split: if_splits)
    then show ?thesis using no d b' by (simp add: gcra_stored gcra_allowed_iff)
  qed
  moreover have "t' \<le> t''"
    if old: "(k', t') \<in> set (meters b)" "map_of (meters b') k' = None" "now < t'"
      and new: "(k'', t'') \<in> set (meters b')" "k'' \<noteq> k" for k' t' k'' t''
  proof -
    have gone: "map_of (meters b1) k' = None" using old(2) b' by (auto split: option.splits if_splits)
    have "map_of (meters b) k' \<noteq> None" using old(1) by (metis map_of_eq_None_iff fst_conv image_eqI)
    then have ev: "b1 = evict now b" using gone by (auto simp: b1_def split: if_splits)
    have d1: "distinct (map fst (meters b1))"
      using assms(1) evict_form [of b now] by (auto simp: ev table_form_def)
    have "map_of (meters b') k'' = Some t''"
      using new(1) \<open>table_form b'\<close> by (simp add: table_form_def)
    then have "map_of (meters b1) k'' = Some t''" using b' new(2) by (auto split: option.splits)
    then have kept: "(k'', t'') \<in> set (meters (evict now b))" by (simp add: ev map_of_SomeD)
    have "(k', t') \<notin> set (meters (evict now b))"
      using gone unfolding ev map_of_eq_None_iff by force
    then show ?thesis
      using evict_least [of b k'' t'' now k' t'] assms(1) kept old by (simp add: table_form_def)
  qed
  ultimately show ?thesis by blast
qed

definition full_table :: in_process where
  "full_table = \<lparr>meters = [(''a'', 50), (''b'', 90)], claims = [], max_keys = 2\<rparr>"

theorem measure_table_witness:
  "table_form (snd (ip_measure full_table 7 ''c'' 10 100)) \<and>
   map_of (meters (snd (ip_measure full_table 7 ''c'' 10 100))) ''a'' = None \<and>
   map_of (meters (snd (ip_measure full_table 7 ''c'' 10 100))) ''b'' = Some 90"
proof -
  have "table_form (snd (ip_measure full_table 7 ''c'' 10 100))"
    by (rule measure_table [of full_table 10 100, THEN conjunct1])
      (simp_all add: table_form_def full_table_def prod_eq_iff)
  moreover have "map_of (meters (snd (ip_measure full_table 7 ''c'' 10 100))) ''a'' = None \<and>
      map_of (meters (snd (ip_measure full_table 7 ''c'' 10 100))) ''b'' = Some 90"
    by code_simp
  ultimately show ?thesis by simp
qed

text \<open>The catalogue: no name twice, every limit well formed under its own name, and two that fail open.\<close>

lemma catalogue_entries:
  "list_all (\<lambda>(n, l). lim_name l = n \<and> check_limit l = Inr l \<and> 0 < audit_every_seconds l \<and>
      (failure_policy l = ALLOW \<longleftrightarrow> n \<in> {''request'', ''request.source''})) limits"
  by code_simp

lemma catalogue_names: "distinct (map fst limits)"
  by code_simp

text \<open>With the catalogue and a backend that cannot be reached, a check consumes nothing and is
  allowed for the two blanket ceilings only; every other limit refuses, and an unknown name raises.\<close>

theorem failure_policy_closed:
  assumes "rl_limits rl = limits" "rl_enabled rl" "\<And>k e t. be_measure be s now k e t = None"
  shows "check_limit_now be rl s now name subject =
    (case map_of limits name of
       None \<Rightarrow> Inl (LimitKeyError (''unknown rate limit '' @ py_repr name))
     | Some l \<Rightarrow> Inr (\<lparr>dec_allowed = name \<in> {''request'', ''request.source''}, dec_limit = l,
         remaining = 0, retry_after_seconds = (if name \<in> {''request'', ''request.source''} then 0 else 5),
         reset_seconds = 0, degraded = True\<rparr>, s))"
proof (cases "map_of limits name")
  case (Some l)
  then have "failure_policy l = ALLOW \<longleftrightarrow> name \<in> {''request'', ''request.source''}"
    using catalogue_entries by (auto simp: list_all_iff dest: map_of_SomeD)
  then show ?thesis
    using assms Some
    by (simp add: check_limit_now_def decide_def find_limit_def failed_decision_def)
qed (simp add: assms check_limit_now_def decide_def find_limit_def)

definition dead_backend :: "unit backend" where
  "dead_backend =
     \<lparr>be_measure = \<lambda>_ _ _ _ _. None, be_peek = \<lambda>_ _ _ _ _. None, be_claim = \<lambda>_ _ _ _. None\<rparr>"

definition catalogue_limiter :: limiter where
  "catalogue_limiter = \<lparr>rl_limits = limits, rl_enabled = True, rl_prefix = ''rl''\<rparr>"

theorem failure_policy_closed_witness:
  "check_limit_now dead_backend catalogue_limiter () 7 ''auth.login'' ''ip4:x'' =
    (case map_of limits ''auth.login'' of
       None \<Rightarrow> Inl (LimitKeyError (''unknown rate limit '' @ py_repr ''auth.login''))
     | Some l \<Rightarrow> Inr (\<lparr>dec_allowed = ''auth.login'' \<in> {''request'', ''request.source''}, dec_limit = l,
         remaining = 0,
         retry_after_seconds = (if ''auth.login'' \<in> {''request'', ''request.source''} then 0 else 5),
         reset_seconds = 0, degraded = True\<rparr>, ()))"
  by (rule failure_policy_closed) (simp_all add: dead_backend_def catalogue_limiter_def)

text \<open>At most one audit row per window. In any run of claims on a clock that does not go back,
  two claims let through under one key lie at least the key's window apart.\<close>

theorem audit_once_per_window:
  assumes "sorted (map fst es)"
  shows "successively (\<lambda>a c. a + win k * micros \<le> c) (claimed win b k es)"
proof (cases es)
  case (Cons e es')
  then have "\<forall>x\<in>set es. fst e \<le> fst x" using assms by auto
  moreover have "map_of (claims b) k = Some (fst e) \<or> fst e \<le> fst e" by simp
  ultimately show ?thesis using claimed_spaced [OF assms] by blast
qed simp

theorem audit_once_per_window_witness:
  "successively (\<lambda>a c. a + 60 * micros \<le> c)
     (claimed (\<lambda>_. 60) demo_table ''rl:audit:auth.login:x''
        [(0, ''rl:audit:auth.login:x''), (5, ''rl:audit:auth.login:x''), (90000000, ''rl:audit:auth.login:x'')])"
  by (rule audit_once_per_window) simp

end
