(* ===== verification/ApprovalPolicy.thy ===== *)
theory ApprovalPolicy
  imports NocPrelude
begin

text \<open>
  The four-eyes catalogue and the rules about the second person (\<open>approvals.py\<close> and the
  functions of migration 0075 it reads): the operations, the deployment's mode for each, the
  seven-day rule on a countersigner and the seasoning of a case assignment. The tables these read
  are the record \<open>iam_state\<close>; an instant's console form is a parameter. The lemmas show that an
  unreadable setting never loosens a control and what exactly blocks a signer.
\<close>

section \<open>The catalogue\<close>

record operation =
  op_key :: string
  op_permission :: string
  op_ttl :: duration
  op_description :: string
  op_scope :: string
  enforced_at :: "string option"
  approver_permission :: "string option"
  op_modes :: "string list"
  not_enforced_because :: string
  countersigner_seasoned :: bool
  signer_assignment_seasoned :: bool

definition operation_entry ::
  "string \<Rightarrow> string \<Rightarrow> duration \<Rightarrow> string \<Rightarrow> string \<Rightarrow> string option \<Rightarrow> string option \<Rightarrow> string list \<Rightarrow>
   string \<Rightarrow> bool \<Rightarrow> bool \<Rightarrow> string \<times> operation" where
  "operation_entry k p ttl d sc en ap ms why cs sas =
     (k, \<lparr>op_key = k, op_permission = p, op_ttl = ttl, op_description = d, op_scope = sc,
         enforced_at = en, approver_permission = ap, op_modes = ms, not_enforced_because = why,
         countersigner_seasoned = cs, signer_assignment_seasoned = sas\<rparr>)"

definition operations :: "(string \<times> operation) list" where
  "operations =
     [operation_entry ''node.merge'' ''graph.merge'' (hours 8)
        ''Fold one entity into another'' ''case''
        (Some ''http/routers/merges.py::_merge_under_dual_control'')
        None [''PER_CASE'', ''ALWAYS'']
        [] False False,
      operation_entry ''case.delete'' ''case.delete'' (hours 24)
        ''Delete a case'' ''case''
        None
        None [''ALWAYS'']
        ''Marking a case PURGED takes one signature today, and destroying a case is not built.'' False False,
      operation_entry ''evidence.purge'' ''evidence.purge'' (hours 24)
        ''Destroy evidence outside the retention schedule'' ''case''
        (Some ''retention.py::RetentionService.purge_out_of_schedule'')
        None [''ALWAYS'']
        [] False False,
      operation_entry ''role.manage'' ''role.manage'' (hours 24)
        ''Change a role definition'' ''global''
        None
        None [''ALWAYS'']
        ''Nothing changes a role definition yet: roles change only with a release.'' False False,
      operation_entry ''collection_account.reveal'' ''collection_account.reveal'' (minutes 30)
        ''Reveal a persona credential'' ''global''
        None
        None [''ALWAYS'']
        ''Deliberately not reachable over HTTP: a persona credential never leaves the vault, and revealing a Telegram session would hand over the whole account.'' False False,
      operation_entry ''dual_control.policy'' ''dual_control.manage'' (hours 24)
        ''Change which operations need two people'' ''global''
        (Some ''dual_control.py::DualControlPolicyService.apply'')
        (Some ''dual_control.countersign'') [''ALWAYS'']
        [] True False,
      operation_entry ''case.policy.relax'' ''case.update'' (hours 24)
        ''Stop requiring a second signature on a case's merges'' ''case''
        (Some ''http/routers/approvals.py::set_policy'')
        None [''ALWAYS'']
        [] False True]"

text \<open>\<open>approver_permission or permission\<close>.\<close>

definition signer_permission :: "operation \<Rightarrow> string" where
  "signer_permission op =
     (case approver_permission op of
        Some p \<Rightarrow> if p = [] then op_permission op else p
      | None \<Rightarrow> op_permission op)"

definition configurable :: "operation \<Rightarrow> bool" where
  "configurable op \<longleftrightarrow> 1 < length (op_modes op)"

section \<open>What the rules read\<close>

record assignment =
  as_case :: uuid
  as_user :: uuid
  as_role :: string
  granted_at :: instant
  as_expires_at :: "instant option"

text \<open>An audited event on an account; \<open>ev_roles\<close> holds the roles its detail names.\<close>

record account_event =
  ev_action :: string
  ev_at :: instant
  ev_actor :: "uuid option"
  ev_subject :: uuid
  ev_roles :: "string list"

record iam_state =
  role_permission :: "(string \<times> string) list"
  user_role :: "(uuid \<times> string) list"
  assignments :: "assignment list"
  account_events :: "account_event list"
  operation_mode :: "string \<rightharpoonup> string"
  merge_switch :: "uuid \<rightharpoonup> bool"
  display_name :: "uuid \<rightharpoonup> string"
  role_name :: "string \<rightharpoonup> string"
  seasoning_setting :: "string option"

section \<open>Modes\<close>

definition policy_mode :: "iam_state \<Rightarrow> string \<Rightarrow> string" where
  "policy_mode iam key =
     (case map_of operations key of
        None \<Rightarrow> ''ALWAYS''
      | Some op \<Rightarrow>
          if \<not> configurable op then hd (op_modes op)
          else (case operation_mode iam key of
              None \<Rightarrow> ''ALWAYS''
            | Some m \<Rightarrow> if m \<notin> set (op_modes op) then ''ALWAYS'' else m))"

text \<open>\<open>_PER_CASE_READ\<close> has one entry, the merge switch of the case.\<close>

definition case_requires_dual_control :: "iam_state \<Rightarrow> uuid \<Rightarrow> string \<Rightarrow> bool" where
  "case_requires_dual_control iam case_id key =
     (if policy_mode iam key = ''ALWAYS'' then True
      else if key \<noteq> ''node.merge'' then True
      else (case merge_switch iam case_id of None \<Rightarrow> True | Some on \<Rightarrow> on))"

section \<open>The seven-day rule\<close>

definition countersigner_seasoning :: duration where
  "countersigner_seasoning = days 7"

definition plain_events :: "string list" where
  "plain_events = [''PASSWORD_RESET'', ''TOTP_REENROLLED'', ''USER_REACTIVATED'', ''USER_UNLOCKED'']"

definition role_carries :: "iam_state \<Rightarrow> string \<Rightarrow> string \<Rightarrow> bool" where
  "role_carries iam role permission \<longleftrightarrow> (role, permission) \<in> set (role_permission iam)"

definition event_counts :: "iam_state \<Rightarrow> account_event \<Rightarrow> string \<Rightarrow> bool" where
  "event_counts iam e wanted \<longleftrightarrow>
     ev_action e \<in> set plain_events \<or>
     ev_action e \<in> {''ROLE_GRANTED'', ''USER_CREATED''} \<and>
       list_ex (\<lambda>r. role_carries iam r wanted) (ev_roles e)"

text \<open>
  \<open>iam.countersign_blocked_by\<close>: the latest event inside the window. The events are kept in the
  order they were written, so of equal times the last one wins.
\<close>

definition blocks_signer ::
  "iam_state \<Rightarrow> uuid \<Rightarrow> string \<Rightarrow> instant \<Rightarrow> (uuid \<times> string) option \<Rightarrow> account_event \<Rightarrow> bool" where
  "blocks_signer iam signer permission as_of proposer e \<longleftrightarrow>
     as_of - countersigner_seasoning < ev_at e \<and> ev_at e \<le> as_of \<and>
     (\<exists>a\<in>set_option (ev_actor e).
        ev_subject e = signer \<and> a \<noteq> signer \<and> event_counts iam e permission \<or>
        (case proposer of
           None \<Rightarrow> False
         | Some (p, pp) \<Rightarrow> ev_subject e = p \<and> a = signer \<and> event_counts iam e pp))"

definition latest_event :: "account_event list \<Rightarrow> account_event option" where
  "latest_event es = foldl (\<lambda>best e. case best of
      None \<Rightarrow> Some e
    | Some b \<Rightarrow> if ev_at b \<le> ev_at e then Some e else Some b) None es"

definition countersign_block ::
  "iam_state \<Rightarrow> uuid \<Rightarrow> string \<Rightarrow> instant \<Rightarrow> (uuid \<times> string) option \<Rightarrow> account_event option" where
  "countersign_block iam signer permission as_of proposer =
     latest_event (filter (blocks_signer iam signer permission as_of proposer) (account_events iam))"

definition own_words :: "(string \<times> string) list" where
  "own_words =
     [(''PASSWORD_RESET'', ''reset your password''),
      (''TOTP_REENROLLED'', ''re-enrolled your authenticator''),
      (''USER_REACTIVATED'', ''reactivated your account''),
      (''USER_UNLOCKED'', ''unlocked your account''),
      (''USER_CREATED'', ''created your account'')]"

text \<open>The proposer sentences, in the parts before and after the name.\<close>

definition proposer_words :: "(string \<times> string \<times> string) list" where
  "proposer_words =
     [(''PASSWORD_RESET'', ''you reset the password of '', '', who proposed this''),
      (''TOTP_REENROLLED'', ''you re-enrolled the authenticator of '', '', who proposed this''),
      (''USER_REACTIVATED'', ''you reactivated the account of '', '', who proposed this''),
      (''USER_UNLOCKED'', ''you unlocked the account of '', '', who proposed this''),
      (''ROLE_GRANTED'', ''you gave '', '', who proposed this, a role that proposes''),
      (''USER_CREATED'', ''you created the account of '', '', who proposed this'')]"

type_synonym clock_text = "instant \<Rightarrow> string"

definition event_role :: "account_event \<Rightarrow> string option" where
  "event_role e = (if ev_action e = ''ROLE_GRANTED'' then (case ev_roles e of r # _ \<Rightarrow> Some r | [] \<Rightarrow> None) else None)"

definition name_or :: "(uuid \<rightharpoonup> string) \<Rightarrow> uuid option \<Rightarrow> string \<Rightarrow> string" where
  "name_or names who fallback =
     (case who of None \<Rightarrow> fallback
      | Some u \<Rightarrow> (case names u of None \<Rightarrow> fallback | Some n \<Rightarrow> if n = [] then fallback else n))"

definition countersign_block_sentence ::
  "clock_text \<Rightarrow> iam_state \<Rightarrow> uuid \<Rightarrow> account_event \<Rightarrow> nat \<Rightarrow> string" where
  "countersign_block_sentence utc iam signer e n =
     (let w = utc (ev_at e + countersigner_seasoning); at = utc (ev_at e) in
      if ev_subject e = signer
      then let what = (if ev_action e = ''ROLE_GRANTED''
                then (case Option.bind (event_role e) (role_name iam) of
                        Some r \<Rightarrow> if r = [] then ''gave you a role that countersigns'' else ''gave you the role '' @ r
                      | None \<Rightarrow> ''gave you a role that countersigns'')
                else (case map_of own_words (ev_action e) of Some t \<Rightarrow> t | None \<Rightarrow> ''changed your account''))
        in ''You may countersign this from '' @ w @ '': '' @
           name_or (display_name iam) (ev_actor e) ''another account'' @ '' '' @ what @ '' on '' @ at @
           ''. For '' @ dec_text n @ '' days after someone else issues, resets or re-enrols an account's credentials, reactivates or unlocks it, or gives it a role that countersigns, that account may not countersign.''
      else let (a, b) = (case map_of proposer_words (ev_action e) of
                Some p \<Rightarrow> p | None \<Rightarrow> (''you changed the account of '', '', who proposed this''));
               what = a @ name_or (display_name iam) (Some (ev_subject e)) ''the proposer'' @ b
        in ''You may countersign this from '' @ w @ '': '' @ what @ '' on '' @ at @ ''. For '' @ dec_text n @
           '' days after you issue, reset or re-enrol an account's credentials, reactivate or unlock it, or give it a role that proposes, you may not countersign what that account proposes.'')"

section \<open>The seasoning of an assignment\<close>

definition default_relax_seasoning_days :: nat where
  "default_relax_seasoning_days = 7"

definition max_relax_seasoning_days :: nat where
  "max_relax_seasoning_days = 365"

definition count_of :: "nat \<Rightarrow> string \<Rightarrow> string \<Rightarrow> string" where
  "count_of n one many = dec_text n @ '' '' @ (if n = 1 then one else many)"

definition relax_seasoning :: "string option \<Rightarrow> nat \<times> string option" where
  "relax_seasoning setting =
     (let raw = strip (case setting of None \<Rightarrow> [] | Some s \<Rightarrow> s) in
      if raw = [] then (default_relax_seasoning_days, None)
      else if list_all is_digit_char raw \<and> length raw \<le> 3 \<and> dec_value raw \<le> max_relax_seasoning_days
      then (dec_value raw, None)
      else (default_relax_seasoning_days, Some
        (''NOCTORNAL_RELAX_SEASONING_DAYS is not a whole number of days from 0 to '' @
         dec_text max_relax_seasoning_days @ '', so the second person on a case's merge switch is held to the default of '' @
         count_of default_relax_seasoning_days ''day'' ''days'' @
         ''. Declare 0 to turn the rule off; nothing else does.'')))"

definition relax_seasoning_days :: "iam_state \<Rightarrow> nat" where
  "relax_seasoning_days iam = fst (relax_seasoning (seasoning_setting iam))"

datatype assignment_block = Unassigned string | Seasoning string instant instant "string option" nat

text \<open>A person holds at most one assignment to a case, so \<open>fetchone\<close> meets the one row.\<close>

definition live_assignment :: "iam_state \<Rightarrow> uuid \<Rightarrow> uuid \<Rightarrow> string \<Rightarrow> instant \<Rightarrow> assignment option" where
  "live_assignment iam signer case_id permission as_of =
     find (\<lambda>a. as_case a = case_id \<and> as_user a = signer \<and>
               (case as_expires_at a of None \<Rightarrow> True | Some x \<Rightarrow> as_of < x) \<and>
               role_carries iam (as_role a) permission) (assignments iam)"

definition assignment_block ::
  "iam_state \<Rightarrow> uuid \<Rightarrow> uuid \<Rightarrow> string \<Rightarrow> nat \<Rightarrow> instant \<Rightarrow> assignment_block option" where
  "assignment_block iam signer case_id permission n as_of =
     (case live_assignment iam signer case_id permission as_of of
        None \<Rightarrow> Some (Unassigned permission)
      | Some a \<Rightarrow>
          if granted_at a + days (int n) \<le> as_of then None
          else Some (Seasoning permission (granted_at a) (granted_at a + days (int n))
                 (role_name iam (as_role a)) n))"

definition second_person_rule :: "string \<Rightarrow> nat \<Rightarrow> string" where
  "second_person_rule permission n =
     ''The second person on a case's merge switch must have held '' @ permission @ '' on the case for at least '' @
     count_of n ''day'' ''days'' @ '', so that nobody can create their own second person and approve at once.''"

fun assignment_block_sentence ::
  "clock_text \<Rightarrow> assignment_block \<Rightarrow> nat \<Rightarrow> instant option \<Rightarrow> string" where
  "assignment_block_sentence utc (Unassigned p) n (Some _) =
     ''This approval cannot be used: its second person did not hold '' @ p @
     '' on this case when they approved it, or no longer does. '' @ second_person_rule p n @ '' Ask again.''"
| "assignment_block_sentence utc (Unassigned p) n None =
     ''You do not hold '' @ p @ '' on this case, so you cannot be the second person on a change to its merge switch. '' @
     second_person_rule p n"
| "assignment_block_sentence utc (Seasoning p granted after role k) n decided =
     (let window = count_of n ''day'' ''days''; rule = second_person_rule p n; w = utc after; g = utc granted;
          r = (case role of None \<Rightarrow> ''a role that carries it'' | Some x \<Rightarrow> if x = [] then ''a role that carries it'' else x)
      in case decided of
        Some d \<Rightarrow>
          if d < granted
          then ''This approval cannot be used: its second person was given the role '' @ r @
            '' on this case again on '' @ g @ '', after they approved it, so their '' @ window @ '' start over. '' @ rule @
            '' Ask again once someone who has held it that long can approve.''
          else ''This approval cannot be used: its second person had held '' @ p @
            '' on this case for less than '' @ window @ '' when they approved it (given the role '' @ r @ '' on '' @ g @
            ''). '' @ rule @ '' Ask again.''
      | None \<Rightarrow> ''You may approve this from '' @ w @ '': you were given the role '' @ r @ '' on this case on '' @ g @
            ''. '' @ rule @ '' You may still reject it.'')"

definition holds_global_permission :: "iam_state \<Rightarrow> uuid \<Rightarrow> string \<Rightarrow> bool" where
  "holds_global_permission iam user permission \<longleftrightarrow>
     list_ex (\<lambda>(u, r). u = user \<and> role_carries iam r permission) (user_role iam)"

section \<open>What the rules mean\<close>

lemma latest_event_mem:
  "latest_event es = Some e \<Longrightarrow> e \<in> set es"
proof -
  have "foldl (\<lambda>best e. case best of None \<Rightarrow> Some e
      | Some b \<Rightarrow> if ev_at b \<le> ev_at e then Some e else Some b) b es = Some e \<Longrightarrow>
    e \<in> set es \<or> b = Some e" for b
    by (induction es arbitrary: b) (auto split: option.splits if_splits)
  then show "latest_event es = Some e \<Longrightarrow> e \<in> set es" by (fastforce simp: latest_event_def)
qed

lemma latest_event_None: "latest_event es = None \<longleftrightarrow> es = []"
proof -
  have "foldl (\<lambda>best e. case best of None \<Rightarrow> Some e
      | Some b \<Rightarrow> if ev_at b \<le> ev_at e then Some e else Some b) b es = None \<longleftrightarrow> b = None \<and> es = []" for b
    by (induction es arbitrary: b) (auto split: option.splits)
  then show ?thesis by (simp add: latest_event_def)
qed

lemma countersign_block_None:
  "countersign_block iam signer p now proposer = None \<longleftrightarrow>
     \<not> list_ex (blocks_signer iam signer p now proposer) (account_events iam)"
  by (auto simp: countersign_block_def latest_event_None filter_empty_conv list_ex_iff)

lemma assignment_block_None:
  "assignment_block iam signer case_id p n now = None \<longleftrightarrow>
     (\<exists>a. live_assignment iam signer case_id p now = Some a \<and> granted_at a + days (int n) \<le> now)"
  by (auto simp: assignment_block_def split: option.splits)

lemma live_assignment_Some:
  "live_assignment iam u c p now = Some a \<Longrightarrow>
   a \<in> set (assignments iam) \<and> as_case a = c \<and> as_user a = u \<and> role_carries iam (as_role a) p"
  by (auto simp: live_assignment_def find_Some_iff)

lemma operations_distinct: "distinct (map fst operations)"
  by code_simp

lemma operations_keys: "list_all (\<lambda>(k, op). op_key op = k \<and> op_modes op \<noteq> [] \<and> 0 < op_ttl op) operations"
  by code_simp

end
