(* ===== verification/CanonicalJson.thy ===== *)
theory CanonicalJson
  imports IpText "HOL-Library.List_Lexorder" "HOL-Library.Char_ord"
begin

text \<open>
  The canonical form of a payload (\<open>approvals.canonical_payload\<close>): what
  \<open>json.dumps(payload, sort_keys=True, separators=(",", ":"), default=str)\<close> writes, ASCII only,
  and the hash over operation, case and payload that binds an approval to one action. Numbers with
  a fraction are not modelled, and neither are keys that are not strings: no payload the program
  builds has either. The lemmas show that the text decides the payload up to the order of keys.
\<close>

section \<open>Values\<close>

text \<open>
  A dictionary is its items in insertion order. \<open>JOther t\<close> is an object \<open>json\<close> does not know (a
  UUID, an instant), and \<open>t\<close> is its \<open>str\<close>.
\<close>

datatype json =
    JNull
  | JBool bool
  | JInt int
  | JStr string
  | JOther string
  | JList "json list"
  | JObj "(string \<times> json) list"

section \<open>Writing\<close>

definition escape_char :: "char \<Rightarrow> string" where
  "escape_char c =
     (let n = code_point c in
      if c = CHR 0x22 \<or> c = CHR 0x5C then [CHR 0x5C, c]
      else if n = 10 then [CHR 0x5C, CHR ''n'']
      else if n = 13 then [CHR 0x5C, CHR ''r'']
      else if n = 9 then [CHR 0x5C, CHR ''t'']
      else if n = 8 then [CHR 0x5C, CHR ''b'']
      else if n = 12 then [CHR 0x5C, CHR ''f'']
      else if 32 \<le> n \<and> n \<le> 126 then [c]
      else CHR 0x5C # ''u00'' @ [hex_char (n div 16), hex_char (n mod 16)])"

definition escape_body :: "string \<Rightarrow> string" where
  "escape_body s = concat (map escape_char s)"

definition quoted :: "string \<Rightarrow> string" where
  "quoted s = CHR 0x22 # escape_body s @ [CHR 0x22]"

fun canonical_payload :: "json \<Rightarrow> string" where
  "canonical_payload JNull = ''null''"
| "canonical_payload (JBool b) = (if b then ''true'' else ''false'')"
| "canonical_payload (JInt i) = int_text i"
| "canonical_payload (JStr s) = quoted s"
| "canonical_payload (JOther t) = quoted t"
| "canonical_payload (JList vs) = ''['' @ join_with '','' (map canonical_payload vs) @ '']''"
| "canonical_payload (JObj kvs) =
     ''{'' @ join_with '','' (map (\<lambda>(k, t). quoted k @ '':'' @ t)
       (sort_key fst (map (\<lambda>(k, v). (k, canonical_payload v)) kvs))) @ ''}''"

section \<open>The hash of an action\<close>

text \<open>\<open>str(uuid)\<close>, and the hashed text; \<open>uuid\<close> is the 128-bit number.\<close>

definition hex_fixed :: "nat \<Rightarrow> nat \<Rightarrow> string" where
  "hex_fixed w n = map (\<lambda>i. hex_char (n div 16 ^ (w - 1 - i) mod 16)) [0..<w]"

definition uuid_text :: "uuid \<Rightarrow> string" where
  "uuid_text u = (let h = hex_fixed 32 u in
     take 8 h @ ''-'' @ take 4 (drop 8 h) @ ''-'' @ take 4 (drop 12 h) @ ''-'' @
     take 4 (drop 16 h) @ ''-'' @ drop 20 h)"

definition hash_material :: "string \<Rightarrow> uuid option \<Rightarrow> json \<Rightarrow> string" where
  "hash_material operation case_id payload =
     operation @ [CHR 0x1F] @ (case case_id of None \<Rightarrow> ''-'' | Some c \<Rightarrow> uuid_text c) @ [CHR 0x1F] @
     canonical_payload payload"

definition payload_hash :: "(string \<Rightarrow> string) \<Rightarrow> string \<Rightarrow> uuid option \<Rightarrow> json \<Rightarrow> string" where
  "payload_hash sha256 operation case_id payload = sha256 (hash_material operation case_id payload)"

section \<open>What the text decides\<close>

text \<open>The value with its keys sorted and every other object replaced by its text.\<close>

fun normal :: "json \<Rightarrow> json" where
  "normal (JOther t) = JStr t"
| "normal (JList vs) = JList (map normal vs)"
| "normal (JObj kvs) = JObj (sort_key fst (map (\<lambda>(k, v). (k, normal v)) kvs))"
| "normal v = v"

text \<open>Writing without sorting, for values already in normal form.\<close>

fun plain :: "json \<Rightarrow> string" where
  "plain JNull = ''null''"
| "plain (JBool b) = (if b then ''true'' else ''false'')"
| "plain (JInt i) = int_text i"
| "plain (JStr s) = quoted s"
| "plain (JOther t) = quoted t"
| "plain (JList vs) = ''['' @ join_with '','' (map plain vs) @ '']''"
| "plain (JObj kvs) =
     ''{'' @ join_with '','' (map (\<lambda>(k, v). quoted k @ '':'' @ plain v) kvs) @ ''}''"

lemma insort_key_map:
  "insort_key fst (k, f v) (map (\<lambda>(k, v). (k, f v)) xs) = map (\<lambda>(k, v). (k, f v)) (insort_key fst (k, v) xs)"
  by (induction xs) auto

lemma sort_key_map:
  "sort_key fst (map (\<lambda>(k, v). (k, f v)) xs) = map (\<lambda>(k, v). (k, f v)) (sort_key fst xs)"
  by (induction xs) (auto simp: insort_key_map)

lemma canonical_plain: "canonical_payload v = plain (normal v)"
proof (induction v rule: canonical_payload.induct)
  case (6 vs)
  then show ?case by (auto cong: map_cong simp: comp_def)
next
  case (7 kvs)
  have "map (\<lambda>(k, v). (k, canonical_payload v)) kvs = map (\<lambda>(k, v). (k, plain (normal v))) kvs"
    using 7 by auto
  then show ?case
    by (simp only: canonical_payload.simps normal.simps plain.simps sort_key_map)
       (simp add: comp_def case_prod_beta')
qed auto

section \<open>Reading it back\<close>

definition unescape :: "string \<Rightarrow> char \<times> string" where
  "unescape s =
     (if hd s \<noteq> CHR 0x5C then (hd s, tl s)
      else let d = s ! 1; r = drop 2 s in
        if d = CHR ''n'' then (CHR 0x0A, r)
        else if d = CHR ''r'' then (CHR 0x0D, r)
        else if d = CHR ''t'' then (CHR 0x09, r)
        else if d = CHR ''b'' then (CHR 0x08, r)
        else if d = CHR ''f'' then (CHR 0x0C, r)
        else if d = CHR ''u'' then (char_of (16 * hex_val (s ! 4) + hex_val (s ! 5)), drop 6 s)
        else (d, r))"

lemma code_point_eq: "code_point c = code_point d \<longleftrightarrow> c = d"
  by (simp add: code_point_def)

lemma code_point_lt: "code_point c < 256"
  by (simp add: code_point_def)

lemma unescape_unicode:
  assumes "a < 16" "b < 16"
  shows "unescape (CHR 0x5C # ''u00'' @ [hex_char a, hex_char b] @ s) = (char_of (16 * a + b), s)"
  using assms by (simp add: unescape_def Let_def)

lemma unescape_escape: "unescape (escape_char c @ s) = (c, s)"
proof -
  have c: "char_of (16 * (code_point c div 16) + code_point c mod 16) = c"
    unfolding mult_div_mod_eq by (simp add: code_point_def)
  have lt: "code_point c div 16 < 16"
    using code_point_lt [of c] by simp
  consider "c = CHR 0x22 \<or> c = CHR 0x5C"
    | "c \<in> {CHR 0x08, CHR 0x09, CHR 0x0A, CHR 0x0C, CHR 0x0D}"
    | "c \<noteq> CHR 0x22" "c \<noteq> CHR 0x5C" "32 \<le> code_point c" "code_point c \<le> 126"
    | "c \<noteq> CHR 0x22" "c \<noteq> CHR 0x5C" "\<not> (32 \<le> code_point c \<and> code_point c \<le> 126)"
      "c \<notin> {CHR 0x08, CHR 0x09, CHR 0x0A, CHR 0x0C, CHR 0x0D}"
    by blast
  then show ?thesis
  proof cases
    case 1
    then show ?thesis by (auto simp: escape_char_def unescape_def Let_def)
  next
    case 2
    then show ?thesis
      by (elim insertE emptyE) (simp_all add: escape_char_def unescape_def Let_def code_point_def)
  next
    case 3
    then show ?thesis by (simp add: escape_char_def unescape_def Let_def)
  next
    case 4
    have no: "code_point c \<noteq> 10" "code_point c \<noteq> 13" "code_point c \<noteq> 9" "code_point c \<noteq> 8"
        "code_point c \<noteq> 12"
      using 4(4) code_point_eq [of c "CHR 0x0A"] code_point_eq [of c "CHR 0x0D"]
        code_point_eq [of c "CHR 0x09"] code_point_eq [of c "CHR 0x08"] code_point_eq [of c "CHR 0x0C"]
      by (simp_all add: code_point_def)
    have e: "escape_char c =
        CHR 0x5C # ''u00'' @ [hex_char (code_point c div 16), hex_char (code_point c mod 16)]"
      unfolding escape_char_def Let_def using 4(1-3) no by (simp only: if_False simp_thms)
    have "unescape (escape_char c @ s) = unescape (CHR 0x5C # ''u00'' @
        [hex_char (code_point c div 16), hex_char (code_point c mod 16)] @ s)"
      unfolding e by simp
    also have "\<dots> = (c, s)"
      using unescape_unicode [OF lt, of "code_point c mod 16" s] c by simp
    finally show ?thesis .
  qed
qed

lemma escape_char_hd: "escape_char c = x # xs \<Longrightarrow> x \<noteq> CHR 0x22"
  by (auto simp: escape_char_def Let_def split: if_splits)

lemma escape_char_not_Nil [simp]: "escape_char c \<noteq> []"
  by (auto simp: escape_char_def Let_def)

lemma escape_char_prefix:
  assumes "escape_char c @ s = escape_char d @ t"
  shows "c = d \<and> s = t"
  using arg_cong [OF assms, of unescape] unfolding unescape_escape by simp

lemma escape_body_simps [simp]:
  "escape_body [] = []" "escape_body (c # s) = escape_char c @ escape_body s"
  by (simp_all add: escape_body_def)

lemma escape_body_prefix:
  "escape_body a @ CHR 0x22 # s = escape_body b @ CHR 0x22 # t \<Longrightarrow> a = b \<and> s = t"
proof (induction a arbitrary: b)
  case Nil
  then show ?case
    by (cases b) (use escape_char_hd [OF sym] in \<open>auto simp: Cons_eq_append_conv\<close>)
next
  case (Cons c a)
  show ?case
  proof (cases b)
    case Nil
    with Cons.prems show ?thesis
      using escape_char_hd by (auto simp: append_eq_Cons_conv)
  next
    case (Cons d b')
    with Cons.prems have "escape_char c @ (escape_body a @ CHR 0x22 # s) =
        escape_char d @ (escape_body b' @ CHR 0x22 # t)"
      by simp
    from escape_char_prefix [OF this] Cons.IH Cons show ?thesis by auto
  qed
qed

lemma quoted_prefix: "quoted a @ s = quoted b @ t \<Longrightarrow> a = b \<and> s = t"
  using escape_body_prefix [of a s b t] by (simp add: quoted_def)

text \<open>What may follow a value inside a text.\<close>

definition stops :: "string \<Rightarrow> bool" where
  "stops s \<longleftrightarrow> s = [] \<or> hd s \<in> {CHR '','', CHR '']'', CHR ''}''}"

definition number_char :: "char \<Rightarrow> bool" where
  "number_char c \<longleftrightarrow> is_digit_char c \<or> c = CHR ''-''"

lemma int_text_chars: "c \<in> set (int_text i) \<Longrightarrow> number_char c"
  using dec_text_digits by (auto simp: int_text_def number_char_def split: if_splits)

lemma int_text_hd: "int_text i @ s = c # r \<Longrightarrow> number_char c"
  using int_text_chars [of c i] by (cases "int_text i") auto

lemma number_char_others:
  "\<not> number_char (CHR ''n'')" "\<not> number_char (CHR ''t'')" "\<not> number_char (CHR ''f'')"
  "\<not> number_char (CHR 0x22)" "\<not> number_char (CHR ''['')" "\<not> number_char (CHR ''{'')"
  "\<not> number_char (CHR '','')" "\<not> number_char (CHR '']'')" "\<not> number_char (CHR ''}'')"
  by (simp_all add: number_char_def is_digit_char_def code_point_def)

lemma int_text_prefix:
  assumes "int_text i @ s = int_text j @ t" "stops s" "stops t"
  shows "i = j \<and> s = t"
proof -
  have tw: "takeWhile number_char (int_text k @ r) = int_text k" if "stops r" for k r
  proof -
    have "takeWhile number_char r = []"
      using that number_char_others by (cases r) (auto simp: stops_def)
    then show ?thesis using int_text_chars by (simp add: takeWhile_append)
  qed
  from tw [of s i] tw [of t j] assms have "int_text i = int_text j" by simp
  with assms(1) int_text_inj show ?thesis by auto
qed

text \<open>Sequences between separators and a closing character.\<close>

definition tail_text :: "('a \<Rightarrow> string) \<Rightarrow> 'a list \<Rightarrow> string" where
  "tail_text f xs = concat (map (\<lambda>x. CHR '','' # f x) xs)"

lemma tail_text_simps [simp]:
  "tail_text f [] = []" "tail_text f (x # xs) = CHR '','' # f x @ tail_text f xs"
  by (simp_all add: tail_text_def)

lemma join_tail: "join_with '','' (map f (x # xs)) = f x @ tail_text f xs"
  by (induction xs arbitrary: x) auto

lemma tail_text_prefix:
  assumes elem: "\<And>x y s t. x \<in> set xs \<Longrightarrow> y \<in> set ys \<Longrightarrow> stops s \<Longrightarrow> stops t \<Longrightarrow>
      f x @ s = f y @ t \<Longrightarrow> x = y \<and> s = t"
    and c: "c \<in> {CHR '']'', CHR ''}''}"
    and eq: "tail_text f xs @ c # s = tail_text f ys @ c # t"
  shows "xs = ys \<and> s = t"
  using elem eq
proof (induction xs arbitrary: ys)
  case Nil
  then show ?case using c by (cases ys) auto
next
  case (Cons x xs)
  show ?case
  proof (cases ys)
    case Nil
    with Cons.prems c show ?thesis by auto
  next
    case ys: (Cons y ys')
    have st: "stops (tail_text f zs @ c # r)" for zs r
      using c by (cases zs) (auto simp: stops_def)
    have "f x @ (tail_text f xs @ c # s) = f y @ (tail_text f ys' @ c # t)"
      using Cons.prems(2) ys by simp
    then have "x = y" "tail_text f xs @ c # s = tail_text f ys' @ c # t"
      using Cons.prems(1) [of x y] ys st by auto
    moreover have "xs = ys' \<and> s = t"
      using Cons.IH [of ys'] Cons.prems(1) ys calculation(2) by auto
    ultimately show ?thesis using ys by simp
  qed
qed

lemma join_prefix:
  assumes elem: "\<And>x y s t. x \<in> set xs \<Longrightarrow> y \<in> set ys \<Longrightarrow> stops s \<Longrightarrow> stops t \<Longrightarrow>
      f x @ s = f y @ t \<Longrightarrow> x = y \<and> s = t"
    and c: "c \<in> {CHR '']'', CHR ''}''}"
    and hd: "\<And>x r. x \<in> set xs \<union> set ys \<Longrightarrow> f x @ r \<noteq> c # r'"
      "\<And>x r. x \<in> set xs \<union> set ys \<Longrightarrow> f x @ r \<noteq> c # r''"
    and eq: "join_with '','' (map f xs) @ c # s = join_with '','' (map f ys) @ c # t"
    and rs: "r' = s" "r'' = t"
  shows "xs = ys \<and> s = t"
proof (cases xs; cases ys)
  fix x xs' y ys'
  assume l: "xs = x # xs'" "ys = y # ys'"
  have "tail_text f (x # xs') @ c # s = tail_text f (y # ys') @ c # t"
    using eq unfolding l join_tail by simp
  then show ?thesis using tail_text_prefix [OF elem c] l by blast
next
  fix y ys'
  assume l: "xs = []" "ys = y # ys'"
  then show ?thesis using eq hd(1) [of y "tail_text f ys' @ c # t"] rs
    unfolding l join_tail by (simp add: eq_commute)
next
  fix x xs'
  assume l: "xs = x # xs'" "ys = []"
  then show ?thesis using eq hd(2) [of x "tail_text f xs' @ c # s"] rs
    unfolding l join_tail by simp
next
  assume "xs = []" "ys = []"
  then show ?thesis using eq by simp
qed

text \<open>Values in which every object is one \<open>json\<close> knows.\<close>

fun no_other :: "json \<Rightarrow> bool" where
  "no_other (JOther t) = False"
| "no_other (JList vs) = list_all no_other vs"
| "no_other (JObj kvs) = list_all (\<lambda>(k, v). no_other v) kvs"
| "no_other _ = True"

lemma number_text_hd:
  "number_char c = False \<Longrightarrow> int_text i @ s \<noteq> c # t"
  "number_char c = False \<Longrightarrow> c # t \<noteq> int_text i @ s"
  using int_text_hd [of i s c t] by auto

lemma plain_hd:
  assumes "c \<in> {CHR '']'', CHR ''}''}"
  shows "plain v @ r \<noteq> c # s"
  using assms by (cases v) (auto simp: quoted_def number_text_hd number_char_others)

lemma plain_prefix:
  "no_other v \<Longrightarrow> no_other w \<Longrightarrow> stops s \<Longrightarrow> stops t \<Longrightarrow> plain v @ s = plain w @ t \<Longrightarrow> v = w \<and> s = t"
proof (induction v arbitrary: w s t rule: plain.induct)
  case 1
  then show ?case
    by (cases w) (auto simp: quoted_def number_text_hd number_char_others split: if_splits)
next
  case (2 b)
  then show ?case
    by (cases w) (auto simp: quoted_def number_text_hd number_char_others split: if_splits)
next
  case (3 i)
  then show ?case
    using int_text_prefix [of i s _ t]
    by (cases w) (auto simp: quoted_def number_text_hd number_char_others split: if_splits)
next
  case (4 a)
  then show ?case
    using quoted_prefix [of a s _ t]
    by (cases w) (auto simp: quoted_def number_text_hd number_char_others split: if_splits)
next
  case (5 a)
  then show ?case by simp
next
  case (6 vs)
  show ?case
  proof (cases w)
    case (JList ws)
    have "vs = ws \<and> s = t"
    proof (rule join_prefix [where f = plain and c = "CHR '']''", OF _ _ _ _ _ refl refl])
      fix x y s t
      assume "x \<in> set vs" "y \<in> set ws" "stops s" "stops t" "plain x @ s = plain y @ t"
      then show "x = y \<and> s = t"
        using "6.IH" [of x y s t] "6.prems"(1,2) JList by (auto simp: list_all_iff)
    qed (use "6.prems" JList plain_hd in \<open>simp_all\<close>)
    with JList show ?thesis by simp
  qed (use "6.prems" in \<open>auto simp: quoted_def number_text_hd number_char_others split: if_splits\<close>)
next
  case (7 kvs)
  show ?case
  proof (cases w)
    case (JObj kws)
    let ?f = "\<lambda>(k, v). quoted k @ '':'' @ plain v"
    have "kvs = kws \<and> s = t"
    proof (rule join_prefix [where f = ?f and c = "CHR ''}''", OF _ _ _ _ _ refl refl])
      fix x y s t
      assume xy: "x \<in> set kvs" "y \<in> set kws" "stops s" "stops t" "?f x @ s = ?f y @ t"
      obtain a v b u where p: "x = (a, v)" "y = (b, u)" by (cases x; cases y) auto
      have q: "quoted a @ ('':'' @ plain v @ s) = quoted b @ ('':'' @ plain u @ t)"
        using xy(5) p by simp
      have "a = b" "plain v @ s = plain u @ t"
        using quoted_prefix [OF q] by auto
      then show "x = y \<and> s = t"
        using "7.IH" [of x a v u s t] "7.prems"(1,2) JObj xy p by (auto simp: list_all_iff)
    next
      show "join_with '','' (map ?f kvs) @ CHR ''}'' # s = join_with '','' (map ?f kws) @ CHR ''}'' # t"
        using "7.prems" JObj by simp
    qed (auto simp: quoted_def)
    with JObj show ?thesis by simp
  qed (use "7.prems" in \<open>auto simp: quoted_def number_text_hd number_char_others split: if_splits\<close>)
qed

lemma normal_no_other: "no_other (normal v)"
  by (induction v rule: normal.induct) (auto simp: list_all_iff)

section \<open>The text and the payload\<close>

text \<open>
  The text decides the payload up to the order of the keys of its dictionaries (and up to an object
  standing for its \<open>str\<close>): no two different payloads share a text.
\<close>

lemma canonical_injective:
  "canonical_payload p = canonical_payload q \<Longrightarrow> normal p = normal q"
  using plain_prefix [OF normal_no_other normal_no_other, of "[]" "[]" p q]
  by (simp add: canonical_plain stops_def)

lemma sort_key_same_items:
  assumes "distinct (map fst xs)" "distinct (map fst ys)" "set xs = set ys"
  shows "sort_key fst xs = sort_key fst (ys :: (string \<times> 'a) list)"
proof (rule map_sorted_distinct_set_unique [where f = fst])
  show "inj_on fst (set (sort_key fst xs) \<union> set (sort_key fst ys))"
    using assms by (simp add: distinct_map)
  have d: "distinct (map fst (sort_key fst zs))" if "distinct (map fst zs)" for zs :: "(string \<times> 'a) list"
    using that by (simp add: distinct_map)
  show "distinct (map fst (sort_key fst xs))" "distinct (map fst (sort_key fst ys))"
    using assms d by auto
qed (use assms in simp_all)

lemma normal_same_items:
  assumes "distinct (map fst kvs)" "distinct (map fst kws)" "set kvs = set kws"
  shows "normal (JObj kvs) = normal (JObj kws)"
proof -
  have m: "map fst (map (\<lambda>(k, v). (k, normal v)) zs) = map fst zs" for zs
    by auto
  have "distinct (map fst (map (\<lambda>(k, v). (k, normal v)) kvs))"
      "distinct (map fst (map (\<lambda>(k, v). (k, normal v)) kws))"
    unfolding m by (rule assms)+
  then show ?thesis
    unfolding normal.simps using assms(3) by (intro arg_cong [where f = JObj] sort_key_same_items) (assumption+, simp)
qed

lemma hex_fixed_Suc: "hex_fixed (Suc w) n = hex_fixed w (n div 16) @ [hex_char (n mod 16)]"
proof -
  have "n div 16 ^ (w - i) = n div 16 div 16 ^ (w - 1 - i)" if "i < w" for i
  proof -
    have "w - i = Suc (w - 1 - i)" using that by simp
    then show ?thesis by (simp add: div_mult2_eq)
  qed
  then show ?thesis by (simp add: hex_fixed_def)
qed

lemma hex_value_fixed: "hex_value (hex_fixed w n) = n mod 16 ^ w"
proof (induction w arbitrary: n)
  case (Suc w)
  have "16 * (n div 16 mod 16 ^ w) + n mod 16 = n mod 16 ^ Suc w"
    by (simp add: mod_mult2_eq)
  with Suc show ?case by (simp add: hex_fixed_Suc hex_value_def)
qed (simp add: hex_fixed_def hex_value_def)

lemma hex_fixed_chars: "c \<in> set (hex_fixed w n) \<Longrightarrow> is_hex_char c"
  by (auto simp: hex_fixed_def)

lemma hex_fixed_length [simp]: "length (hex_fixed w n) = w"
  by (simp add: hex_fixed_def)

lemma is_hex_others: "\<not> is_hex_char (CHR ''-'')" "\<not> is_hex_char (CHR 0x1F)"
  by (simp_all add: is_hex_char_def code_point_def Let_def)

lemma uuid_text_hex: "filter (\<lambda>c. c \<noteq> CHR ''-'') (uuid_text u) = hex_fixed 32 u"
proof -
  let ?h = "hex_fixed 32 u" and ?P = "\<lambda>c. c \<noteq> CHR ''-''"
  have f: "filter ?P s = s" if "set s \<subseteq> set ?h" for s
    using that hex_fixed_chars is_hex_others(1) by (intro filter_True) blast
  have t: "take 4 (drop k ?h) @ drop (4 + k) ?h = drop k ?h" for k
    using append_take_drop_id [of 4 "drop k ?h"] by simp
  have "filter ?P (take n (drop k ?h)) = take n (drop k ?h)" for n k
    by (rule f) (meson set_drop_subset set_take_subset subset_trans)
  moreover have "filter ?P (take n ?h) = take n ?h" "filter ?P (drop n ?h) = drop n ?h" for n
    by (rule f, rule set_take_subset, rule f, rule set_drop_subset)
  ultimately have "filter ?P (uuid_text u) =
      take 8 ?h @ take 4 (drop 8 ?h) @ take 4 (drop 12 ?h) @ take 4 (drop 16 ?h) @ drop 20 ?h"
    by (simp add: uuid_text_def Let_def)
  also have "\<dots> = ?h"
    using t [of 8] t [of 12] t [of 16] append_take_drop_id [of 8 ?h] by simp
  finally show ?thesis .
qed

lemma uuid_text_inj: "uuid_text u = uuid_text v \<Longrightarrow> u < 2 ^ 128 \<Longrightarrow> v < 2 ^ 128 \<Longrightarrow> u = v"
proof -
  assume a: "uuid_text u = uuid_text v" "u < 2 ^ 128" "v < 2 ^ 128"
  have p: "(16 :: nat) ^ 32 = 2 ^ 128" by simp
  have "hex_value (hex_fixed 32 u) = hex_value (hex_fixed 32 v)"
    using a(1) uuid_text_hex by metis
  with a(2,3) show ?thesis unfolding hex_value_fixed p by simp
qed

lemma uuid_text_facts: "CHR 0x1F \<notin> set (uuid_text u)" "uuid_text u \<noteq> ''-''"
proof -
  have "filter (\<lambda>c. c \<noteq> CHR ''-'') (uuid_text u) \<noteq> []"
    unfolding uuid_text_hex by (metis hex_fixed_length list.size(3) zero_neq_numeral)
  then show "uuid_text u \<noteq> ''-''" by auto
  show "CHR 0x1F \<notin> set (uuid_text u)"
  proof
    assume "CHR 0x1F \<in> set (uuid_text u)"
    then have "CHR 0x1F \<in> set (filter (\<lambda>c. c \<noteq> CHR ''-'') (uuid_text u))" by simp
    then show False unfolding uuid_text_hex using hex_fixed_chars is_hex_others(2) by blast
  qed
qed

lemma separated_prefix:
  "CHR 0x1F \<notin> set a \<Longrightarrow> CHR 0x1F \<notin> set b \<Longrightarrow> a @ CHR 0x1F # s = b @ CHR 0x1F # t \<Longrightarrow> a = b \<and> s = t"
proof (induction a arbitrary: b)
  case (Cons x a)
  then show ?case by (cases b) auto
qed (auto simp: Cons_eq_append_conv)

lemma hash_material_injective:
  assumes eq: "hash_material a c p = hash_material b d q"
    and op: "CHR 0x1F \<notin> set a" "CHR 0x1F \<notin> set b"
    and ids: "\<forall>u\<in>set_option c \<union> set_option d. u < 2 ^ 128"
  shows "a = b \<and> c = d \<and> normal p = normal q"
proof -
  let ?t = "\<lambda>c. case c of None \<Rightarrow> ''-'' | Some c \<Rightarrow> uuid_text c"
  have e: "a @ CHR 0x1F # (?t c @ CHR 0x1F # canonical_payload p) =
      b @ CHR 0x1F # (?t d @ CHR 0x1F # canonical_payload q)"
    using eq by (simp add: hash_material_def)
  have n: "CHR 0x1F \<notin> set (?t c)" for c
    using uuid_text_facts(1) by (cases c) auto
  have "a = b" and e2: "?t c @ CHR 0x1F # canonical_payload p = ?t d @ CHR 0x1F # canonical_payload q"
    using separated_prefix [OF op e] by auto
  then have t: "?t c = ?t d" and "canonical_payload p = canonical_payload q"
    using separated_prefix [OF n n e2] by auto
  moreover have "c = d"
  proof (cases c)
    case None
    then show ?thesis using t uuid_text_facts(2) by (cases d) (auto simp: eq_commute [of "''-''"])
  next
    case (Some u)
    show ?thesis
    proof (cases d)
      case None
      then show ?thesis using Some t uuid_text_facts(2) [of u] by simp
    next
      case (Some v)
      have "uuid_text u = uuid_text v" "u < 2 ^ 128" "v < 2 ^ 128"
        using \<open>c = Some u\<close> Some t ids by simp_all
      from uuid_text_inj [OF this] show ?thesis using \<open>c = Some u\<close> Some by simp
    qed
  qed
  ultimately show ?thesis using \<open>a = b\<close> canonical_injective [of p q] by blast
qed

end
