(* ===== verification/Approvals.thy ===== *)
theory Approvals
  imports ApprovalPolicy CanonicalJson Access
begin

text \<open>
  The life of a four-eyes approval: \<open>ApprovalService\<close> of \<open>approvals.py\<close> over the table
  \<open>core.approval_request\<close> with its constraints (migration 0028) and its guard trigger (migration
  0074), and the audit rows it writes, on the caller's connection or beside it (migration 0150).
  An operation takes the two clocks it reads (the API's and the database's) and the world, and
  returns its outcome with the world it leaves. The lemmas show that a request is decided by a
  second person, moves one way, and is spent at most once on exactly what was approved.
\<close>

section \<open>The table\<close>

datatype approval_state = PENDING | APPROVED | REJECTED | WITHDRAWN | CONSUMED

fun state_name :: "approval_state \<Rightarrow> string" where
  "state_name PENDING = ''PENDING''"
| "state_name APPROVED = ''APPROVED''"
| "state_name REJECTED = ''REJECTED''"
| "state_name WITHDRAWN = ''WITHDRAWN''"
| "state_name CONSUMED = ''CONSUMED''"

text \<open>The columns the service reads back (\<open>_COLUMNS\<close>), the row and the record of the API.\<close>

record approval_columns =
  ap_id :: uuid
  ap_case :: "uuid option"
  ap_operation :: string
  ap_payload :: json
  ap_justification :: string
  requested_by :: uuid
  requested_at :: instant
  ap_expires_at :: instant
  ap_state :: approval_state
  decided_by :: "uuid option"
  decided_at :: "instant option"
  decision_note :: "string option"
  consumed_at :: "instant option"
  result_ref :: "uuid option"

record approval_row = approval_columns +
  row_hash :: string

record approval_request = approval_columns +
  approvers_notified :: "nat option"
  requester_notified :: "bool option"

definition to_record :: "approval_row \<Rightarrow> approval_request" where
  "to_record r = approval_columns.extend (approval_columns.truncate r)
     \<lparr>approvers_notified = None, requester_notified = None\<rparr>"

definition is_expired :: "approval_request \<Rightarrow> instant \<Rightarrow> bool" where
  "is_expired r now \<longleftrightarrow> ap_expires_at r \<le> now"

definition is_actionable :: "approval_request \<Rightarrow> instant \<Rightarrow> bool" where
  "is_actionable r now \<longleftrightarrow> ap_state r = PENDING \<and> \<not> is_expired r now"

datatype db_error =
    UniqueViolation
  | CheckViolation
  | InsufficientPrivilege
  | RaiseException string

text \<open>The CHECK constraints; a state outside the five has no representation.\<close>

definition check_row :: "approval_row \<Rightarrow> bool" where
  "check_row r \<longleftrightarrow>
     decided_by r \<noteq> Some (requested_by r) \<and>
     (decided_at r = None) = (decided_by r = None) \<and>
     (ap_state r \<in> {APPROVED, REJECTED, CONSUMED}) = (decided_by r \<noteq> None) \<and>
     (ap_state r = CONSUMED) = (consumed_at r \<noteq> None) \<and>
     list_ex (\<lambda>c. c \<noteq> CHR '' '') (ap_justification r) \<and>
     requested_at r < ap_expires_at r"

text \<open>The partial unique index \<open>approval_one_pending_per_payload\<close>.\<close>

definition one_pending :: "approval_row list \<Rightarrow> bool" where
  "one_pending rows \<longleftrightarrow>
     distinct (map (\<lambda>r. (ap_operation r, row_hash r)) (filter (\<lambda>r. ap_state r = PENDING) rows))"

text \<open>\<open>core.guard_approval_request\<close>: what it raises, if anything.\<close>

definition guard_insert :: "approval_row \<Rightarrow> string option" where
  "guard_insert r =
     (if ap_state r \<noteq> PENDING \<or> decided_by r \<noteq> None \<or> decided_at r \<noteq> None \<or>
         decision_note r \<noteq> None \<or> consumed_at r \<noteq> None \<or> result_ref r \<noteq> None
      then Some ''an approval request is created pending and undecided''
      else None)"

definition guard_update :: "instant \<Rightarrow> approval_row \<Rightarrow> approval_row \<Rightarrow> string option" where
  "guard_update now old new =
     (let deciding = ap_state old = PENDING \<and> ap_state new \<in> {APPROVED, REJECTED};
          consuming = ap_state old = APPROVED \<and> ap_state new = CONSUMED in
      if (ap_operation new, ap_case new, ap_payload new, row_hash new, ap_justification new, requested_by new) \<noteq>
         (ap_operation old, ap_case old, ap_payload old, row_hash old, ap_justification old, requested_by old)
      then Some ''what an approval request asks for is fixed when it is raised: raise a new one''
      else if requested_at old < requested_at new \<or> ap_expires_at old < ap_expires_at new
      then Some ''an approval request never gains time: raise a new one''
      else if ap_state new \<noteq> ap_state old \<and>
         \<not> (ap_state old = PENDING \<and> ap_state new \<in> {APPROVED, REJECTED, WITHDRAWN} \<or>
            ap_state old = APPROVED \<and> ap_state new = CONSUMED)
      then Some ''an approval request moves from pending to decided or withdrawn, and from approved to consumed, and never back''
      else if (decided_by new, decided_at new, decision_note new) \<noteq>
         (decided_by old, decided_at old, decision_note old) \<and> \<not> deciding
      then Some ''a decision on an approval request is made once''
      else if deciding \<and> decided_at new \<noteq> Some now
      then Some ''a decision on an approval request is recorded at the time it is made''
      else if consumed_at new \<noteq> consumed_at old \<and> \<not> consuming
      then Some ''an approval is spent once''
      else if consuming \<and> consumed_at new \<noteq> Some now
      then Some ''an approval is spent at the time it is used''
      else if result_ref new \<noteq> result_ref old \<and> (result_ref old \<noteq> None \<or> ap_state new \<noteq> CONSUMED)
      then Some ''what an approval produced is recorded once, after it is spent''
      else None)"

definition db_insert :: "approval_row \<Rightarrow> approval_row list \<Rightarrow> db_error + approval_row list" where
  "db_insert r rows =
     (case guard_insert r of
        Some m \<Rightarrow> Inl (RaiseException m)
      | None \<Rightarrow>
          if \<not> check_row r then Inl CheckViolation
          else if ap_id r \<in> ap_id ` set rows \<or> \<not> one_pending (rows @ [r]) then Inl UniqueViolation
          else Inr (rows @ [r]))"

text \<open>
  \<open>UPDATE \<dots> SET f WHERE wanted RETURNING\<close>: the trigger sees each row it touches, the
  constraints the result. The statement either changes every row it names or raises and changes
  none.
\<close>

fun guard_rows :: "instant \<Rightarrow> (approval_row \<Rightarrow> approval_row) \<Rightarrow> approval_row list \<Rightarrow> string option" where
  "guard_rows now f [] = None"
| "guard_rows now f (r # rs) =
     (case guard_update now r (f r) of Some m \<Rightarrow> Some m | None \<Rightarrow> guard_rows now f rs)"

definition db_update ::
  "instant \<Rightarrow> (approval_row \<Rightarrow> bool) \<Rightarrow> (approval_row \<Rightarrow> approval_row) \<Rightarrow> approval_row list \<Rightarrow>
   db_error + approval_row list \<times> approval_row list" where
  "db_update now wanted f rows =
     (let touched = filter wanted rows; rows' = map (\<lambda>r. if wanted r then f r else r) rows in
      case guard_rows now f touched of
        Some m \<Rightarrow> Inl (RaiseException m)
      | None \<Rightarrow>
          if \<not> list_all check_row (map f touched) then Inl CheckViolation
          else if \<not> one_pending rows' then Inl UniqueViolation
          else Inr (rows', map f touched))"

section \<open>The audit trail\<close>

datatype detail = DText string | DNote "string option" | DUuid uuid | DTime instant | DNat nat

record audit_event =
  ae_actor :: "uuid option"
  ae_action :: string
  ae_object :: uuid
  ae_case :: "uuid option"
  ae_denied :: bool
  ae_detail :: "(string \<times> detail) list"

text \<open>
  A connection: whom row security binds it to and whether it is exempt, the holder of a ticket it
  spent, whether its transaction holds the audit chain lock, and how a second connection fares.
\<close>

record connection =
  bound_to :: "uuid option"
  exempt :: bool
  ticket_holder :: "uuid option"
  holds_chain :: bool
  side_opens :: bool
  chain_free :: bool

text \<open>
  Approvals, the audit rows of the caller's connection and those beside it, the accounts, and the
  labels of the cases and of their nodes.
\<close>

type_synonym labels = "tlp \<times> string set"

record world =
  approvals :: "approval_row list"
  audit :: "audit_event list"
  side_audit :: "audit_event list"
  iam :: iam_state
  active_users :: "uuid list"
  case_labels :: "uuid \<rightharpoonup> labels"
  node_labels :: "uuid \<rightharpoonup> uuid \<times> labels"

text \<open>\<open>audit.pin_attribution\<close>; \<open>None\<close> is its \<open>insufficient_privilege\<close>.\<close>

definition demoted :: "audit_event \<Rightarrow> audit_event" where
  "demoted e = (case ae_actor e of
       None \<Rightarrow> e
     | Some a \<Rightarrow> e\<lparr>ae_actor := None, ae_detail := ae_detail e @ [(''unverified_actor_id'', DUuid a)]\<rparr>)"

definition pin_attribution :: "connection \<Rightarrow> audit_event \<Rightarrow> audit_event option" where
  "pin_attribution conn e =
     (if exempt conn then Some e
      else if ae_actor e = None then Some e
      else if bound_to conn = ae_actor e then Some e
      else if bound_to conn \<noteq> None then None
      else if ticket_holder conn = ae_actor e then Some e
      else Some (demoted e))"

text \<open>\<open>_audit\<close>: a plain insert on the caller's connection, raising what the trigger raises.\<close>

definition audit_row ::
  "connection \<Rightarrow> approval_request \<Rightarrow> string \<Rightarrow> uuid \<Rightarrow> (string \<times> detail) list \<Rightarrow> world \<Rightarrow> world option" where
  "audit_row conn r action actor details w =
     (case pin_attribution conn \<lparr>ae_actor = Some actor, ae_action = action, ae_object = ap_id r,
         ae_case = ap_case r, ae_denied = False, ae_detail = details\<rparr> of
        None \<Rightarrow> None
      | Some e \<Rightarrow> Some (w\<lparr>audit := audit w @ [e]\<rparr>))"

definition claims :: "audit_event \<Rightarrow> audit_event list" where
  "claims e = e # (if ae_actor e \<noteq> None then [demoted e] else [])"

fun write_first_vouched :: "('c \<Rightarrow> 'r option) \<Rightarrow> 'c list \<Rightarrow> 'r option" where
  "write_first_vouched write [] = None"
| "write_first_vouched write (c # cs) =
     (case write c of Some r \<Rightarrow> Some r | None \<Rightarrow> write_first_vouched write cs)"

text \<open>\<open>record_out_of_band\<close>: never raises, on the caller's connection only when it must.\<close>

definition record_out_of_band :: "connection \<Rightarrow> audit_event \<Rightarrow> world \<Rightarrow> world" where
  "record_out_of_band conn e w =
     (if holds_chain conn
      then (case write_first_vouched (pin_attribution conn) (claims e) of
          None \<Rightarrow> w
        | Some e' \<Rightarrow> w\<lparr>audit := audit w @ [e']\<rparr>)
      else if \<not> side_opens conn \<or> \<not> chain_free conn then w
      else (case write_first_vouched (pin_attribution conn) (claims e) of
          None \<Rightarrow> w
        | Some e' \<Rightarrow> w\<lparr>side_audit := side_audit w @ [e']\<rparr>))"

text \<open>What a rolled-back transaction leaves: the rows beside it.\<close>

definition rolled_back :: "world \<Rightarrow> world \<Rightarrow> world" where
  "rolled_back before w = before\<lparr>side_audit := side_audit w\<rparr>"

definition refusal_row ::
  "string \<Rightarrow> uuid \<Rightarrow> uuid \<Rightarrow> uuid option \<Rightarrow> (string \<times> detail) list \<Rightarrow> audit_event" where
  "refusal_row action actor request_id case_id details =
     \<lparr>ae_actor = Some actor, ae_action = action, ae_object = request_id, ae_case = case_id,
      ae_denied = True, ae_detail = details\<rparr>"

section \<open>Outcomes\<close>

datatype approval_error = ApprovalError string | DatabaseError db_error

type_synonym 'a outcome = "(approval_error + 'a) \<times> world"

text \<open>What the model takes from the libraries: the hash and the console's form of an instant.\<close>

record library =
  sha256 :: "string \<Rightarrow> string"
  utc_text :: "instant \<Rightarrow> string"

definition find_operation :: "string \<Rightarrow> approval_error + operation" where
  "find_operation key =
     (case map_of operations key of
        Some op \<Rightarrow> Inr op
      | None \<Rightarrow> Inl (ApprovalError (''unknown operation '' @ py_repr key @
          ''; four-eyes operations are registered in approvals.OPERATIONS'')))"

section \<open>Raising a request\<close>

text \<open>
  \<open>request\<close>. The API's clock is \<open>now\<close>, \<open>fresh\<close> the id the database draws, \<open>reach\<close> what the
  notification layer answered (\<open>None\<close>: it raised).
\<close>

definition new_row ::
  "library \<Rightarrow> operation \<Rightarrow> string \<Rightarrow> uuid option \<Rightarrow> json \<Rightarrow> string \<Rightarrow> uuid \<Rightarrow> instant \<Rightarrow> uuid \<Rightarrow> approval_row" where
  "new_row lib op key case_id payload why who now fresh =
     \<lparr>ap_id = fresh, ap_case = case_id, ap_operation = key, ap_payload = payload,
      ap_justification = strip why, requested_by = who, requested_at = now,
      ap_expires_at = now + op_ttl op, ap_state = PENDING, decided_by = None, decided_at = None,
      decision_note = None, consumed_at = None, result_ref = None,
      row_hash = payload_hash (sha256 lib) key case_id payload\<rparr>"

definition request_approval ::
  "library \<Rightarrow> connection \<Rightarrow> string \<Rightarrow> uuid option \<Rightarrow> json \<Rightarrow> string \<Rightarrow> uuid \<Rightarrow> instant \<Rightarrow> uuid \<Rightarrow>
   nat option \<Rightarrow> world \<Rightarrow> approval_request outcome" where
  "request_approval lib conn key case_id payload why who now fresh reach w =
     (case find_operation key of
        Inl e \<Rightarrow> (Inl e, w)
      | Inr op \<Rightarrow>
          if op_scope op = ''case'' \<and> case_id = None
          then (Inl (ApprovalError (op_description op @ '' is raised in a case'')), w)
          else if op_scope op = ''global'' \<and> case_id \<noteq> None
          then (Inl (ApprovalError (op_description op @ '' is deployment-wide and takes no case'')), w)
          else if strip why = []
          then (Inl (ApprovalError ''a request for a second signature has to say what it is for: the justification is the only thing the approver has to work from''), w)
          else
            (let row = new_row lib op key case_id payload why who now fresh in
             case db_insert row (approvals w) of
               Inl UniqueViolation \<Rightarrow>
                 (Inl (ApprovalError ''an identical request is already awaiting a decision''), w)
             | Inl e \<Rightarrow> (Inl (DatabaseError e), w)
             | Inr rows \<Rightarrow>
                 (let rec = to_record row; w1 = w\<lparr>approvals := rows\<rparr> in
                  case audit_row conn rec ''APPROVAL_REQUESTED'' who
                      [(''operation'', DText key), (''justification'', DText (ap_justification rec)),
                       (''expires_at'', DTime (ap_expires_at rec))] w1 of
                    None \<Rightarrow> (Inl (DatabaseError InsufficientPrivilege), w1)
                  | Some w2 \<Rightarrow> (Inr (rec\<lparr>approvers_notified := reach\<rparr>), w2))))"

section \<open>Deciding\<close>

definition get_approval :: "uuid \<Rightarrow> world \<Rightarrow> approval_request option" where
  "get_approval i w = map_option to_record (find (\<lambda>r. ap_id r = i) (approvals w))"

definition assignment_refusal_detail :: "operation \<Rightarrow> assignment_block \<Rightarrow> nat \<Rightarrow> (string \<times> detail) list" where
  "assignment_refusal_detail op b n =
     (case b of
        Seasoning p granted after role k \<Rightarrow>
          [(''reason'', DText ''assignment_seasoning''), (''operation'', DText (op_key op)),
           (''permission'', DText p), (''window_days'', DNat n),
           (''granted_at'', DTime granted), (''may_sign_after'', DTime after)]
      | Unassigned p \<Rightarrow>
          [(''reason'', DText ''assignment_missing''), (''operation'', DText (op_key op)),
           (''permission'', DText p), (''window_days'', DNat n)])"

text \<open>
  The checks of the second person: the sentence of a refusal, and the world with its record. \<open>now\<close>
  is the database's.
\<close>

definition refuse_unseasoned_assignment ::
  "library \<Rightarrow> connection \<Rightarrow> approval_request \<Rightarrow> operation \<Rightarrow> uuid \<Rightarrow> uuid \<Rightarrow> instant \<Rightarrow> world \<Rightarrow> string option \<times> world" where
  "refuse_unseasoned_assignment lib conn current op case_id who now w =
     (let n = relax_seasoning_days (iam w) in
      if n = 0 then (None, w)
      else (case assignment_block (iam w) who case_id (signer_permission op) n now of
          None \<Rightarrow> (None, w)
        | Some b \<Rightarrow>
            (Some (assignment_block_sentence (utc_text lib) b n None),
             record_out_of_band conn (refusal_row ''DUAL_CONTROL_COUNTERSIGN_REFUSED'' who (ap_id current)
               (ap_case current) (assignment_refusal_detail op b n)) w)))"

definition refuse_seasoned_countersigner ::
  "library \<Rightarrow> connection \<Rightarrow> approval_request \<Rightarrow> operation \<Rightarrow> uuid \<Rightarrow> instant \<Rightarrow> world \<Rightarrow> string option \<times> world" where
  "refuse_seasoned_countersigner lib conn current op who now w =
     (if \<not> countersigner_seasoned op then (None, w)
      else (case countersign_block (iam w) who (signer_permission op) now
            (Some (requested_by current, op_permission op)) of
          None \<Rightarrow> (None, w)
        | Some b \<Rightarrow>
            (Some (countersign_block_sentence (utc_text lib) (iam w) who b 7),
             record_out_of_band conn (refusal_row ''DUAL_CONTROL_COUNTERSIGN_REFUSED'' who (ap_id current)
               (ap_case current)
               [(''reason'', DText ''countersigner_seasoning''), (''operation'', DText (op_key op)),
                (''event_action'', DText (ev_action b)), (''event_at'', DTime (ev_at b)),
                (''event_by'', case ev_actor b of None \<Rightarrow> DText ''None'' | Some a \<Rightarrow> DUuid a),
                (''event_subject'', DUuid (ev_subject b)),
                (''may_sign_after'', DTime (ev_at b + countersigner_seasoning))]) w)))"

definition refuse_unless_second_person ::
  "library \<Rightarrow> connection \<Rightarrow> approval_request \<Rightarrow> operation \<Rightarrow> uuid \<Rightarrow> instant \<Rightarrow> world \<Rightarrow> string option \<times> world" where
  "refuse_unless_second_person lib conn current op who now w =
     (if approver_permission op \<noteq> None \<and> holds_global_permission (iam w) who (op_permission op)
      then (Some (''You can also propose this ('' @ lower (op_description op) @
              ''), so your countersignature would be the same person twice. It has to come from someone who holds '' @
              signer_permission op @ '' and not '' @ op_permission op @ ''.''),
            record_out_of_band conn (refusal_row ''DUAL_CONTROL_COUNTERSIGN_REFUSED'' who (ap_id current)
              (ap_case current)
              [(''reason'', DText ''countersigner_can_propose''), (''operation'', DText (op_key op)),
               (''holds'', DText (op_permission op))]) w)
      else
        (case (if signer_assignment_seasoned op
               then (case ap_case current of
                   Some c \<Rightarrow> refuse_unseasoned_assignment lib conn current op c who now w
                 | None \<Rightarrow> (None, w))
               else (None, w)) of
           (Some m, w') \<Rightarrow> (Some m, w')
         | (None, w') \<Rightarrow> refuse_seasoned_countersigner lib conn current op who now w'))"

text \<open>The guarded write, apart from the checks: another decision may come between.\<close>

definition decided_row ::
  "uuid \<Rightarrow> bool \<Rightarrow> string option \<Rightarrow> instant \<Rightarrow> approval_row \<Rightarrow> approval_row" where
  "decided_row who approve note now r =
     (let text = strip (case note of None \<Rightarrow> [] | Some t \<Rightarrow> t) in
      r\<lparr>ap_state := if approve then APPROVED else REJECTED, decided_by := Some who,
        decided_at := Some now, decision_note := if text = [] then None else Some text\<rparr>)"

definition decide_write ::
  "connection \<Rightarrow> uuid \<Rightarrow> uuid \<Rightarrow> bool \<Rightarrow> string option \<Rightarrow> bool option \<Rightarrow> instant \<Rightarrow> world \<Rightarrow>
   approval_request outcome" where
  "decide_write conn i who approve note told now w =
     (case db_update now (\<lambda>r. ap_id r = i \<and> ap_state r = PENDING) (decided_row who approve note now)
          (approvals w) of
        Inl e \<Rightarrow> (Inl (DatabaseError e), w)
      | Inr (rows, []) \<Rightarrow> (Inl (ApprovalError ''this request was decided by someone else first''), w)
      | Inr (rows, r # _) \<Rightarrow>
          (let rec = to_record r; w1 = w\<lparr>approvals := rows\<rparr> in
           case audit_row conn rec (if approve then ''APPROVAL_GRANTED'' else ''APPROVAL_REFUSED'') who
               [(''operation'', DText (ap_operation rec)), (''requested_by'', DUuid (requested_by rec)),
                (''note'', DNote (decision_note rec))] w1 of
             None \<Rightarrow> (Inl (DatabaseError InsufficientPrivilege), w1)
           | Some w2 \<Rightarrow> (Inr (rec\<lparr>requester_notified := told\<rparr>), w2)))"

definition decide_checks ::
  "library \<Rightarrow> connection \<Rightarrow> uuid \<Rightarrow> uuid \<Rightarrow> bool \<Rightarrow> instant \<Rightarrow> instant \<Rightarrow> world \<Rightarrow> string option \<times> world" where
  "decide_checks lib conn i who approve api_now now w =
     (case get_approval i w of
        None \<Rightarrow> (Some ''no such approval request'', w)
      | Some current \<Rightarrow>
          if ap_state current \<noteq> PENDING
          then (Some (''this request is already '' @ lower (state_name (ap_state current)) @
                 ''; a decision cannot be revisited, raise a new request''), w)
          else if is_expired current api_now
          then (Some ''this request has expired; raise a new one so the approver is looking at current facts'', w)
          else if who = requested_by current
          then (Some ''dual control means two distinct humans: you cannot approve your own request'', w)
          else (case map_of operations (ap_operation current) of
              None \<Rightarrow> (None, w)
            | Some op \<Rightarrow> if approve then refuse_unless_second_person lib conn current op who now w else (None, w)))"

definition decide ::
  "library \<Rightarrow> connection \<Rightarrow> uuid \<Rightarrow> uuid \<Rightarrow> bool \<Rightarrow> string option \<Rightarrow> bool option \<Rightarrow> instant \<Rightarrow> instant \<Rightarrow>
   world \<Rightarrow> approval_request outcome" where
  "decide lib conn i who approve note told api_now now w =
     (case decide_checks lib conn i who approve api_now now w of
        (Some m, w') \<Rightarrow> (Inl (ApprovalError m), w')
      | (None, w') \<Rightarrow> decide_write conn i who approve note told now w')"

section \<open>Spending\<close>

text \<open>\<open>refuse_unseasoned_spend\<close>: the assignment rule again, judged at the decision.\<close>

definition refuse_unseasoned_spend ::
  "library \<Rightarrow> connection \<Rightarrow> approval_request \<Rightarrow> uuid \<Rightarrow> world \<Rightarrow> string option \<times> world" where
  "refuse_unseasoned_spend lib conn req actor w =
     (case (map_of operations (ap_operation req), ap_case req, decided_by req, decided_at req) of
        (Some op, Some c, Some who, Some at) \<Rightarrow>
          if \<not> signer_assignment_seasoned op then (None, w)
          else
            (let n = relax_seasoning_days (iam w) in
             if n = 0 then (None, w)
             else (case assignment_block (iam w) who c (signer_permission op) n at of
                 None \<Rightarrow> (None, w)
               | Some b \<Rightarrow>
                   (Some (assignment_block_sentence (utc_text lib) b n (Some at)),
                    record_out_of_band conn (refusal_row ''DUAL_CONTROL_APPLY_REFUSED'' actor (ap_id req)
                      (ap_case req) (assignment_refusal_detail op b n @
                        [(''requested_by'', DUuid (requested_by req))])) w)))
      | _ \<Rightarrow> (None, w))"

definition may_sign_after :: "assignment_block \<Rightarrow> instant option" where
  "may_sign_after b = (case b of Seasoning p g after r k \<Rightarrow> Some after | Unassigned p \<Rightarrow> None)"

definition signer_block_for ::
  "library \<Rightarrow> approval_request \<Rightarrow> uuid \<Rightarrow> instant \<Rightarrow> instant \<Rightarrow> world \<Rightarrow> (string \<times> instant option) option" where
  "signer_block_for lib req viewer api_now now w =
     (case (map_of operations (ap_operation req), ap_case req) of
        (Some op, Some c) \<Rightarrow>
          if \<not> signer_assignment_seasoned op \<or> ap_state req \<noteq> PENDING \<or> is_expired req api_now \<or>
             viewer = requested_by req
          then None
          else
            (let n = relax_seasoning_days (iam w) in
             if n = 0 then None
             else (case assignment_block (iam w) viewer c (signer_permission op) n now of
                 None \<Rightarrow> None
               | Some b \<Rightarrow> Some (assignment_block_sentence (utc_text lib) b n None, may_sign_after b)))
      | _ \<Rightarrow> None)"

definition withdraw_where ::
  "connection \<Rightarrow> uuid \<Rightarrow> uuid \<Rightarrow> (approval_row \<Rightarrow> bool) \<Rightarrow> instant \<Rightarrow> world \<Rightarrow> approval_request outcome" where
  "withdraw_where conn i actor in_scope now w =
     (case db_update now
          (\<lambda>r. ap_id r = i \<and> ap_state r = PENDING \<and> requested_by r = actor \<and> in_scope r)
          (\<lambda>r. r\<lparr>ap_state := WITHDRAWN\<rparr>) (approvals w) of
        Inl e \<Rightarrow> (Inl (DatabaseError e), w)
      | Inr (rows, []) \<Rightarrow> (Inl (ApprovalError ''no pending request of yours with that id''), w)
      | Inr (rows, r # _) \<Rightarrow>
          (let rec = to_record r; w1 = w\<lparr>approvals := rows\<rparr> in
           case audit_row conn rec ''APPROVAL_WITHDRAWN'' actor [(''operation'', DText (ap_operation rec))] w1 of
             None \<Rightarrow> (Inl (DatabaseError InsufficientPrivilege), w1)
           | Some w2 \<Rightarrow> (Inr rec, w2)))"

definition withdraw ::
  "connection \<Rightarrow> uuid \<Rightarrow> uuid \<Rightarrow> string option \<Rightarrow> uuid option \<Rightarrow> instant \<Rightarrow> world \<Rightarrow>
   approval_request outcome" where
  "withdraw conn i actor scope case_id now w =
     (case scope of
        None \<Rightarrow> withdraw_where conn i actor (\<lambda>r. True) now w
      | Some s \<Rightarrow>
          if s = ''global'' then withdraw_where conn i actor (\<lambda>r. ap_case r = None) now w
          else if s = ''case'' then withdraw_where conn i actor (\<lambda>r. case_id \<noteq> None \<and> ap_case r = case_id) now w
          else (Inl (ApprovalError (''unknown scope '' @ py_repr s)), w))"

text \<open>Which condition failed goes to the audit trail; the caller reads one sentence.\<close>

definition consume_failure_reason ::
  "uuid \<Rightarrow> uuid \<Rightarrow> string \<Rightarrow> uuid option \<Rightarrow> string \<Rightarrow> instant \<Rightarrow> world \<Rightarrow> string" where
  "consume_failure_reason i actor key case_id digest now w =
     (case find (\<lambda>r. ap_id r = i) (approvals w) of
        None \<Rightarrow> ''no_such_request''
      | Some r \<Rightarrow>
          if ap_state r \<noteq> APPROVED then ''state_'' @ lower (state_name (ap_state r))
          else if ap_expires_at r \<le> now then ''expired''
          else if requested_by r \<noteq> actor then ''not_the_requester''
          else if ap_operation r \<noteq> key \<or> ap_case r \<noteq> case_id then ''wrong_operation_or_case''
          else if row_hash r \<noteq> digest then ''payload_mismatch''
          else ''unknown'')"

definition explain_consume_failure ::
  "connection \<Rightarrow> uuid \<Rightarrow> uuid \<Rightarrow> string \<Rightarrow> uuid option \<Rightarrow> string \<Rightarrow> instant \<Rightarrow> world \<Rightarrow> approval_error \<times> world" where
  "explain_consume_failure conn i actor key case_id digest now w =
     (ApprovalError ''this approval cannot be used for this operation: it may have expired, already been used, belong to someone else, or have been granted for different parameters'',
      record_out_of_band conn (refusal_row ''APPROVAL_CONSUME_REFUSED'' actor i case_id
        [(''reason'', DText (consume_failure_reason i actor key case_id digest now w)),
         (''operation'', DText key)]) w)"

definition consume ::
  "library \<Rightarrow> connection \<Rightarrow> uuid \<Rightarrow> uuid \<Rightarrow> string \<Rightarrow> uuid option \<Rightarrow> json \<Rightarrow> instant \<Rightarrow> world \<Rightarrow>
   approval_request outcome" where
  "consume lib conn i actor key case_id payload now w =
     (let digest = payload_hash (sha256 lib) key case_id payload in
      case db_update now
          (\<lambda>r. ap_id r = i \<and> ap_state r = APPROVED \<and> now < ap_expires_at r \<and> requested_by r = actor \<and>
               ap_operation r = key \<and> ap_case r = case_id \<and> row_hash r = digest)
          (\<lambda>r. r\<lparr>ap_state := CONSUMED, consumed_at := Some now\<rparr>) (approvals w) of
        Inl e \<Rightarrow> (Inl (DatabaseError e), w)
      | Inr (rows, []) \<Rightarrow>
          (let (e, w1) = explain_consume_failure conn i actor key case_id digest now w in (Inl e, w1))
      | Inr (rows, r # _) \<Rightarrow>
          (let rec = to_record r; w1 = w\<lparr>approvals := rows\<rparr> in
           case audit_row conn rec ''APPROVAL_CONSUMED'' actor
               [(''operation'', DText (ap_operation rec)),
                (''approved_by'', case decided_by rec of None \<Rightarrow> DText ''None'' | Some a \<Rightarrow> DUuid a)] w1 of
             None \<Rightarrow> (Inl (DatabaseError InsufficientPrivilege), w1)
           | Some w2 \<Rightarrow> (Inr rec, w2)))"

text \<open>\<open>attach_result\<close> swallows what the database raises.\<close>

definition attach_result :: "uuid \<Rightarrow> uuid \<Rightarrow> instant \<Rightarrow> world \<Rightarrow> world" where
  "attach_result i ref now w =
     (case db_update now (\<lambda>r. ap_id r = i) (\<lambda>r. r\<lparr>result_ref := Some ref\<rparr>) (approvals w) of
        Inl e \<Rightarrow> w
      | Inr (rows, _) \<Rightarrow> w\<lparr>approvals := rows\<rparr>)"

section \<open>Reads\<close>

text \<open>\<open>ORDER BY requested_at DESC LIMIT n\<close>; rows of equal times are taken in table order.\<close>

definition newest :: "nat \<Rightarrow> approval_row list \<Rightarrow> approval_request list" where
  "newest n rows = map to_record (take n (sort_key (\<lambda>r. - requested_at r) rows))"

definition list_for_case :: "uuid \<Rightarrow> approval_state option \<Rightarrow> nat \<Rightarrow> world \<Rightarrow> approval_request list" where
  "list_for_case c state n w =
     newest n (filter (\<lambda>r. ap_case r = Some c \<and>
       (case state of None \<Rightarrow> True | Some s \<Rightarrow> ap_state r = s)) (approvals w))"

text \<open>The \<open>state\<close> of a global listing is a text: \<open>OPEN\<close> is what can still move.\<close>

definition list_global :: "string list \<Rightarrow> string option \<Rightarrow> nat \<Rightarrow> world \<Rightarrow> approval_request list" where
  "list_global keys state n w =
     (if keys = [] then []
      else newest n (filter (\<lambda>r. ap_case r = None \<and> ap_operation r \<in> set keys \<and>
        (case state of
           None \<Rightarrow> True
         | Some s \<Rightarrow>
             if s = ''OPEN'' then ap_state r = PENDING \<or> ap_state r = APPROVED \<and> consumed_at r = None
             else state_name (ap_state r) = s)) (approvals w)))"

definition eligible_signer :: "world \<Rightarrow> string \<Rightarrow> string \<Rightarrow> uuid \<Rightarrow> bool" where
  "eligible_signer w signer requester user \<longleftrightarrow>
     user \<in> set (active_users w) \<and> holds_global_permission (iam w) user signer \<and>
     (signer = requester \<or> \<not> holds_global_permission (iam w) user requester)"

definition awaiting_global_signature :: "uuid \<Rightarrow> instant \<Rightarrow> world \<Rightarrow> nat" where
  "awaiting_global_signature user now w =
     sum_list (map (\<lambda>(k, op). length (filter (\<lambda>r. ap_case r = None \<and> ap_operation r = op_key op \<and>
         ap_state r = PENDING \<and> now < ap_expires_at r \<and> requested_by r \<noteq> user \<and>
         eligible_signer w (signer_permission op) (op_permission op) user) (approvals w)))
       (filter (\<lambda>(k, op). op_scope op = ''global'') operations))"

text \<open>A payload key read as a UUID, or nothing when it is not one (\<open>_PAYLOAD_UUID\<close>).\<close>

definition uuid_of_text :: "string \<Rightarrow> uuid option" where
  "uuid_of_text s =
     (let ws = split_on (CHR ''-'') s in
      if map length ws = [8, 4, 4, 4, 12] \<and> list_all (list_all is_hex_char) ws
      then Some (hex_value (concat ws)) else None)"

definition payload_uuid :: "string \<Rightarrow> json \<Rightarrow> uuid option" where
  "payload_uuid key payload =
     (case payload of
        JObj kvs \<Rightarrow>
          (case map_of (rev kvs) key of
             Some (JStr s) \<Rightarrow> uuid_of_text s
           | Some (JOther s) \<Rightarrow> uuid_of_text s
           | _ \<Rightarrow> None)
      | _ \<Rightarrow> None)"

definition dominated :: "tlp \<Rightarrow> string set \<Rightarrow> labels \<Rightarrow> bool" where
  "dominated clearance compartments l \<longleftrightarrow> fst l \<le> clearance \<and> snd l \<subseteq> compartments"

definition sees_node :: "world \<Rightarrow> tlp \<Rightarrow> string set \<Rightarrow> uuid \<Rightarrow> uuid option \<Rightarrow> bool" where
  "sees_node w clearance compartments c n =
     (case Option.bind n (node_labels w) of
        Some (c', l) \<Rightarrow> c' = c \<and> dominated clearance compartments l
      | None \<Rightarrow> False)"

definition could_sign :: "uuid \<Rightarrow> tlp \<Rightarrow> string set \<Rightarrow> instant \<Rightarrow> world \<Rightarrow> uuid \<Rightarrow> approval_row \<Rightarrow> bool" where
  "could_sign user clearance compartments now w c r \<longleftrightarrow>
     ap_case r = Some c \<and>
     (case case_labels w c of None \<Rightarrow> False | Some l \<Rightarrow> dominated clearance compartments l) \<and>
     (case map_of operations (ap_operation r) of
        None \<Rightarrow> False
      | Some op \<Rightarrow> op_scope op = ''case'' \<and>
          list_ex (\<lambda>a. as_case a = c \<and> as_user a = user \<and>
              (case as_expires_at a of None \<Rightarrow> True | Some x \<Rightarrow> now < x) \<and>
              role_carries (iam w) (as_role a) (signer_permission op)) (assignments (iam w))) \<and>
     ap_state r = PENDING \<and> now < ap_expires_at r \<and> requested_by r \<noteq> user \<and>
     (ap_operation r \<noteq> ''node.merge'' \<or>
      sees_node w clearance compartments c (payload_uuid ''source_node_id'' (ap_payload r)) \<and>
      sees_node w clearance compartments c (payload_uuid ''target_node_id'' (ap_payload r)))"

text \<open>The rows of the \<open>GROUP BY\<close>: the cases with something to sign, and how much.\<close>

definition awaiting_signature ::
  "uuid \<Rightarrow> tlp \<Rightarrow> string set \<Rightarrow> instant \<Rightarrow> world \<Rightarrow> (uuid \<times> nat) list" where
  "awaiting_signature user clearance compartments now w =
     (let mine = (\<lambda>c. filter (could_sign user clearance compartments now w c) (approvals w)) in
      map (\<lambda>c. (c, length (mine c)))
        (filter (\<lambda>c. mine c \<noteq> []) (remdups (List.map_filter ap_case (approvals w)))))"

section \<open>The table's rules\<close>

text \<open>What may have happened to a row between two looks at it.\<close>

definition state_moves :: "approval_state \<Rightarrow> approval_state list" where
  "state_moves s = (case s of
       PENDING \<Rightarrow> [PENDING, APPROVED, REJECTED, WITHDRAWN, CONSUMED]
     | APPROVED \<Rightarrow> [APPROVED, CONSUMED]
     | REJECTED \<Rightarrow> [REJECTED]
     | WITHDRAWN \<Rightarrow> [WITHDRAWN]
     | CONSUMED \<Rightarrow> [CONSUMED])"

definition later :: "approval_row \<Rightarrow> approval_row \<Rightarrow> bool" where
  "later r r' \<longleftrightarrow>
     ap_id r' = ap_id r \<and>
     (ap_operation r', ap_case r', ap_payload r', row_hash r', ap_justification r', requested_by r') =
     (ap_operation r, ap_case r, ap_payload r, row_hash r, ap_justification r, requested_by r) \<and>
     requested_at r' \<le> requested_at r \<and> ap_expires_at r' \<le> ap_expires_at r \<and>
     ap_state r' \<in> set (state_moves (ap_state r)) \<and>
     (ap_state r \<noteq> PENDING \<longrightarrow>
        (decided_by r', decided_at r', decision_note r') = (decided_by r, decided_at r, decision_note r)) \<and>
     (ap_state r = CONSUMED \<longrightarrow> consumed_at r' = consumed_at r) \<and>
     (result_ref r \<noteq> None \<longrightarrow> result_ref r' = result_ref r)"

lemma later_refl [simp]: "later r r"
  by (cases "ap_state r") (simp_all add: later_def state_moves_def)

lemma later_trans: "later a b \<Longrightarrow> later b c \<Longrightarrow> later a c"
  unfolding later_def
  by (cases "ap_state a"; cases "ap_state b"; simp add: state_moves_def; fastforce)

lemma guard_update_later:
  assumes "guard_update now r r' = None" "ap_id r' = ap_id r"
  shows "later r r'"
  using assms unfolding guard_update_def Let_def later_def
  by (cases "ap_state r"; cases "ap_state r'") (auto simp: state_moves_def split: if_splits)

lemma guard_rows_None:
  "guard_rows now f rs = None \<longleftrightarrow> (\<forall>r\<in>set rs. guard_update now r (f r) = None)"
  by (induction rs) (auto split: option.splits)

lemma db_update_Inr:
  "db_update now wanted f rows = Inr (rows', touched) \<longleftrightarrow>
     rows' = map (\<lambda>r. if wanted r then f r else r) rows \<and> touched = map f (filter wanted rows) \<and>
     (\<forall>r\<in>set rows. wanted r \<longrightarrow> guard_update now r (f r) = None \<and> check_row (f r)) \<and> one_pending rows'"
proof (cases "guard_rows now f (filter wanted rows)")
  case None
  then show ?thesis
    using guard_rows_None [of now f "filter wanted rows"] by (auto simp: db_update_def Let_def list_all_iff)
next
  case (Some m)
  then have "\<not> (\<forall>r\<in>set rows. wanted r \<longrightarrow> guard_update now r (f r) = None)"
    using guard_rows_None [of now f "filter wanted rows"] by auto
  with Some show ?thesis by (auto simp: db_update_def Let_def)
qed

lemma db_insert_Inr:
  "db_insert r rows = Inr rows' \<longleftrightarrow>
     rows' = rows @ [r] \<and> guard_insert r = None \<and> check_row r \<and> ap_id r \<notin> ap_id ` set rows \<and> one_pending rows'"
  by (auto simp: db_insert_def split: option.splits)

text \<open>The invariant of the table: its keys, its constraints, and what each row was raised with.\<close>

definition raised_properly :: "library \<Rightarrow> approval_row \<Rightarrow> bool" where
  "raised_properly lib r \<longleftrightarrow>
     row_hash r = payload_hash (sha256 lib) (ap_operation r) (ap_case r) (ap_payload r) \<and>
     (case map_of operations (ap_operation r) of
        None \<Rightarrow> False
      | Some op \<Rightarrow> (op_scope op = ''case'') = (ap_case r \<noteq> None))"

definition table_ok :: "library \<Rightarrow> approval_row list \<Rightarrow> bool" where
  "table_ok lib rows \<longleftrightarrow>
     distinct (map ap_id rows) \<and> list_all check_row rows \<and> one_pending rows \<and> list_all (raised_properly lib) rows"

lemma raised_properly_later: "raised_properly lib r \<Longrightarrow> later r r' \<Longrightarrow> raised_properly lib r'"
  unfolding raised_properly_def later_def by (simp split: option.splits)

lemma table_ok_insert [step_inv]:
  "table_ok lib rows \<Longrightarrow> db_insert r rows = Inr rows' \<Longrightarrow> raised_properly lib r \<Longrightarrow> table_ok lib rows'"
  by (auto simp: table_ok_def db_insert_Inr list_all_iff)

lemma table_ok_update [step_inv]:
  assumes ok: "table_ok lib rows" and up: "db_update now wanted f rows = Inr (rows', touched)"
    and keep: "\<And>r. ap_id (f r) = ap_id r"
  shows "table_ok lib rows'"
proof -
  let ?g = "\<lambda>r. if wanted r then f r else r"
  have l: "later r (?g r)" if "r \<in> set rows" for r
    using up that keep guard_update_later [of now r "f r"] by (auto simp: db_update_Inr)
  have ids: "map ap_id rows' = map ap_id rows"
    using up keep by (auto simp: db_update_Inr)
  have checks: "list_all check_row rows'"
    using up ok by (auto simp: db_update_Inr table_ok_def list_all_iff)
  have "raised_properly lib (?g r)" if "r \<in> set rows" for r
    using ok l [OF that] that raised_properly_later by (auto simp: table_ok_def list_all_iff)
  then have "list_all (raised_properly lib) (map ?g rows)"
    unfolding list.pred_map unfolding comp_def list_all_iff by blast
  moreover have "rows' = map ?g rows"
    using up by (simp only: db_update_Inr)
  moreover have "one_pending rows'" "distinct (map ap_id rows)"
    using up ok by (auto simp: db_update_Inr table_ok_def)
  ultimately show ?thesis
    unfolding table_ok_def ids using checks by simp
qed

lemma db_update_later:
  assumes "db_update now wanted f rows = Inr (rows', touched)" "\<And>r. ap_id (f r) = ap_id r" "r \<in> set rows"
  shows "\<exists>r'\<in>set rows'. later r r'"
proof -
  let ?g = "\<lambda>r. if wanted r then f r else r"
  have "later r (?g r)"
    using assms guard_update_later [of now r "f r"] by (auto simp: db_update_Inr)
  moreover have "?g r \<in> set rows'"
    using assms(1,3) by (auto simp: db_update_Inr)
  ultimately show ?thesis by blast
qed

section \<open>The audit rows of a step\<close>

lemma demoted_facts [simp]:
  "ae_action (demoted e) = ae_action e" "ae_object (demoted e) = ae_object e"
  "ae_denied (demoted e) = ae_denied e" "ae_actor (demoted e) = None" "ae_case (demoted e) = ae_case e"
  by (auto simp: demoted_def split: option.splits)

lemma pin_attribution_Some:
  "pin_attribution conn e = Some e' \<Longrightarrow>
     ae_action e' = ae_action e \<and> ae_object e' = ae_object e \<and> ae_denied e' = ae_denied e \<and>
     ae_case e' = ae_case e \<and> (ae_actor e' = ae_actor e \<or> ae_actor e' = None)"
  by (auto simp: pin_attribution_def split: if_splits)

text \<open>A demoted claim is always accepted, so a claim is never lost to its attribution.\<close>

lemma vouched:
  obtains e' where "write_first_vouched (pin_attribution conn) (claims e) = Some e'"
    "ae_action e' = ae_action e" "ae_object e' = ae_object e" "ae_denied e' = ae_denied e"
    "ae_case e' = ae_case e" "ae_actor e' = ae_actor e \<or> ae_actor e' = None"
proof (cases "pin_attribution conn e")
  case (Some e')
  with that pin_attribution_Some [OF Some] show ?thesis by (auto simp: claims_def)
next
  case None
  then have "ae_actor e \<noteq> None" by (auto simp: pin_attribution_def split: if_splits)
  with None that [of "demoted e"] show ?thesis by (simp add: claims_def pin_attribution_def)
qed

lemma out_of_band_keeps [simp]:
  "approvals (record_out_of_band conn e w) = approvals w"
  "iam (record_out_of_band conn e w) = iam w"
  by (auto simp: record_out_of_band_def split: option.splits)

lemma out_of_band_audit:
  "\<exists>es. audit (record_out_of_band conn e w) = audit w @ es \<and> (\<forall>x\<in>set es. ae_action x = ae_action e)"
proof -
  obtain e' where "write_first_vouched (pin_attribution conn) (claims e) = Some e'"
      "ae_action e' = ae_action e"
    using vouched by metis
  then show ?thesis by (auto simp: record_out_of_band_def)
qed

lemma audit_row_Some:
  assumes "audit_row conn r action actor details w = Some w'"
  obtains e where "w' = w\<lparr>audit := audit w @ [e]\<rparr>" "ae_action e = action" "ae_object e = ap_id r"
    "ae_actor e = Some actor \<or> ae_actor e = None" "\<not> ae_denied e" "ae_case e = ap_case r"
  using assms pin_attribution_Some
  by (auto simp: audit_row_def split: option.splits) (metis (no_types, lifting) audit_event.select_convs)

section \<open>Steps\<close>

text \<open>
  What every operation does to the table and the trail, in one of four ways: nothing but audit
  rows, a new request, a change that spends nothing, a spend.
\<close>

abbreviation spend_action :: string where
  "spend_action \<equiv> ''APPROVAL_CONSUMED''"

inductive effect :: "library \<Rightarrow> world \<Rightarrow> world \<Rightarrow> bool" for lib where
  quiet: "approvals w' = approvals w \<Longrightarrow> audit w' = audit w @ es \<Longrightarrow>
    \<forall>e\<in>set es. ae_action e \<noteq> spend_action \<Longrightarrow> effect lib w w'"
| raised: "db_insert r (approvals w) = Inr (approvals w') \<Longrightarrow> raised_properly lib r \<Longrightarrow>
    audit w' = audit w @ es \<Longrightarrow> \<forall>e\<in>set es. ae_action e \<noteq> spend_action \<Longrightarrow> effect lib w w'"
| changed: "db_update now wanted f (approvals w) = Inr (approvals w', touched) \<Longrightarrow>
    \<forall>r. ap_id (f r) = ap_id r \<Longrightarrow> \<forall>r. wanted r \<longrightarrow> ap_state (f r) = CONSUMED \<longrightarrow> ap_state r = CONSUMED \<Longrightarrow>
    audit w' = audit w @ es \<Longrightarrow> \<forall>e\<in>set es. ae_action e \<noteq> spend_action \<Longrightarrow> effect lib w w'"
| spent: "db_update now (\<lambda>r. ap_id r = i \<and> ap_state r = APPROVED \<and> wanted r)
      (\<lambda>r. r\<lparr>ap_state := CONSUMED, consumed_at := Some now\<rparr>) (approvals w) = Inr (approvals w', r # rs) \<Longrightarrow>
    \<forall>r. wanted r \<longrightarrow> requested_by r = actor \<Longrightarrow>
    audit w' = audit w @ es \<Longrightarrow> length es \<le> 1 \<Longrightarrow>
    \<forall>e\<in>set es. ae_object e = i \<and> (ae_actor e = Some actor \<or> ae_actor e = None) \<Longrightarrow> effect lib w w'"

lemma quiet_refl: "effect lib w w"
  by (rule quiet [where es = "[]"]) simp_all

lemma quiet_out_of_band: "ae_action e \<noteq> spend_action \<Longrightarrow> effect lib w (record_out_of_band conn e w)"
  using out_of_band_audit [of conn e w] by (auto intro: quiet)

lemma request_raised_properly:
  assumes "find_operation key = Inr op" "\<not> (op_scope op = ''case'' \<and> c = None)"
    "\<not> (op_scope op = ''global'' \<and> c \<noteq> None)"
  shows "raised_properly lib (new_row lib op key c p why who now fresh)"
proof -
  have m: "map_of operations key = Some op"
    using assms(1) by (simp add: find_operation_def split: option.splits)
  have "list_all (\<lambda>(k, op). op_scope op = ''case'' \<or> op_scope op = ''global'') operations"
    by code_simp
  then have "op_scope op = ''case'' \<or> op_scope op = ''global''"
    using map_of_SomeD [OF m] by (auto simp: list_all_iff)
  with assms(2,3) m show ?thesis
    by (auto simp: raised_properly_def new_row_def)
qed

lemma request_effect:
  assumes "request_approval lib conn key c p why who now fresh reach w = (res, w')"
  shows "effect lib w w'"
proof (cases "w' = w")
  case False
  then obtain op rows where op: "find_operation key = Inr op"
      "\<not> (op_scope op = ''case'' \<and> c = None)" "\<not> (op_scope op = ''global'' \<and> c \<noteq> None)"
    and ins: "db_insert (new_row lib op key c p why who now fresh) (approvals w) = Inr rows"
    using assms by (auto simp: request_approval_def Let_def split: sum.splits db_error.splits if_splits option.splits)
  let ?row = "new_row lib op key c p why who now fresh"
  have "strip why \<noteq> []"
    using assms op False by (auto simp: request_approval_def)
  with assms op ins have a: "w' = w\<lparr>approvals := rows\<rparr> \<or>
      (\<exists>w2 ds. audit_row conn (to_record ?row) ''APPROVAL_REQUESTED'' who ds (w\<lparr>approvals := rows\<rparr>) = Some w2 \<and> w' = w2)"
    by (auto simp: request_approval_def Let_def split: option.splits)
  then have "\<exists>es. approvals w' = rows \<and> audit w' = audit w @ es \<and> (\<forall>e\<in>set es. ae_action e \<noteq> spend_action)"
    by (auto elim!: audit_row_Some)
  with ins request_raised_properly [OF op] show ?thesis by (auto intro: raised)
qed (simp add: quiet_refl)

lemma refuse_effect:
  "effect lib w (snd (refuse_unseasoned_assignment lib' conn cur op c who now w))"
  "effect lib w (snd (refuse_seasoned_countersigner lib' conn cur op who now w))"
  "effect lib w (snd (refuse_unseasoned_spend lib' conn cur who w))"
  by (auto simp: refuse_unseasoned_assignment_def refuse_seasoned_countersigner_def
      refuse_unseasoned_spend_def Let_def refusal_row_def
      intro!: quiet_refl quiet_out_of_band split: option.splits)

lemma refuse_assignment_None:
  "refuse_unseasoned_assignment lib conn cur op c who now w = (None, w') \<Longrightarrow> w' = w"
  by (auto simp: refuse_unseasoned_assignment_def Let_def split: option.splits if_splits)

lemma refuse_countersigner_None:
  "refuse_seasoned_countersigner lib conn cur op who now w = (None, w') \<Longrightarrow> w' = w"
  by (auto simp: refuse_seasoned_countersigner_def split: option.splits if_splits)

lemma second_person_None:
  assumes "refuse_unless_second_person lib conn cur op who now w = (None, w')"
  shows "w' = w"
  using assms refuse_assignment_None refuse_countersigner_None
  by (fastforce simp: refuse_unless_second_person_def split: if_splits option.splits prod.splits)

lemma checks_None:
  assumes "decide_checks lib conn i who approve api now w = (None, w')"
  shows "w' = w"
  using assms second_person_None
  by (fastforce simp: decide_checks_def split: option.splits if_splits)

lemma second_person_effect: "effect lib w (snd (refuse_unless_second_person lib' conn cur op who now w))"
proof -
  have "effect lib w (snd (case p of (Some m, w') \<Rightarrow> (Some m, w')
      | (None, w') \<Rightarrow> refuse_seasoned_countersigner lib' conn cur op who now w'))"
    if "effect lib w (snd p)" "fst p = None \<longrightarrow> snd p = w" for p
    using that refuse_effect(2) by (cases p) (auto split: option.splits)
  moreover have "fst q = None \<longrightarrow> snd q = w" "effect lib w (snd q)"
    if "q = (if signer_assignment_seasoned op
        then (case ap_case cur of Some c \<Rightarrow> refuse_unseasoned_assignment lib' conn cur op c who now w
          | None \<Rightarrow> (None, w)) else (None, w))" for q
    using that refuse_assignment_None refuse_effect(1) quiet_refl
    by (auto split: option.splits if_splits) (metis prod.collapse)
  ultimately show ?thesis
    by (auto simp: refuse_unless_second_person_def refusal_row_def intro!: quiet_out_of_band)
qed

lemma checks_effect: "effect lib w (snd (decide_checks lib' conn i who approve api now w))"
  using quiet_refl second_person_effect
  by (auto simp: decide_checks_def split: option.splits)

text \<open>The three guarded writes have one shape.\<close>

lemma audited_write:
  assumes "w' = w1 \<or> audit_row conn rec act who ds w1 = Some w'" "act \<noteq> spend_action"
  shows "\<exists>es. approvals w' = approvals w1 \<and> audit w' = audit w1 @ es \<and> (\<forall>e\<in>set es. ae_action e \<noteq> spend_action)"
  using assms by (auto elim!: audit_row_Some)

lemma guarded_write_effect:
  assumes up: "db_update now wanted f (approvals w) = Inr (rows, touched)"
    and f: "\<forall>r. ap_id (f r) = ap_id r" "\<forall>r. ap_state (f r) \<noteq> CONSUMED"
    and w': "w' = w1 \<or> audit_row conn rec act who ds w1 = Some w'" "act \<noteq> spend_action"
    and w1: "w1 = w\<lparr>approvals := rows\<rparr>"
  shows "effect lib w w'"
proof -
  from audited_write [OF w'] w1 obtain es where "approvals w' = rows" "audit w' = audit w @ es"
      "\<forall>e\<in>set es. ae_action e \<noteq> spend_action"
    by auto
  with up f show ?thesis by (intro changed [where f = f]) auto
qed

lemma decide_write_effect:
  assumes "decide_write conn i who approve note told now w = (res, w')"
  shows "effect lib w w'"
proof (cases "db_update now (\<lambda>r. ap_id r = i \<and> ap_state r = PENDING) (decided_row who approve note now) (approvals w)")
  case (Inl e)
  with assms show ?thesis by (simp add: decide_write_def quiet_refl)
next
  case (Inr p)
  obtain rows touched where p: "p = (rows, touched)" by (cases p)
  show ?thesis
  proof (cases touched)
    case Nil
    with assms Inr p show ?thesis by (simp add: decide_write_def quiet_refl)
  next
    case (Cons r rs)
    with assms Inr p have "w' = w\<lparr>approvals := rows\<rparr> \<or>
        audit_row conn (to_record r) (if approve then ''APPROVAL_GRANTED'' else ''APPROVAL_REFUSED'') who
          [(''operation'', DText (ap_operation (to_record r))), (''requested_by'', DUuid (requested_by (to_record r))),
           (''note'', DNote (decision_note (to_record r)))] (w\<lparr>approvals := rows\<rparr>) = Some w'"
      by (auto simp: decide_write_def Let_def split: option.splits)
    from guarded_write_effect [OF Inr [unfolded p] _ _ this] show ?thesis
      by (simp add: decided_row_def Let_def)
  qed
qed

lemma decide_effect:
  assumes "decide lib' conn i who approve note told api now w = (res, w')"
  shows "effect lib w w'"
proof -
  obtain m w1 where c: "decide_checks lib' conn i who approve api now w = (m, w1)"
    by (cases "decide_checks lib' conn i who approve api now w")
  show ?thesis
  proof (cases m)
    case None
    with c checks_None have "w1 = w" by blast
    with None c assms have "decide_write conn i who approve note told now w = (res, w')"
      by (simp add: decide_def)
    then show ?thesis by (rule decide_write_effect)
  next
    case (Some x)
    with c assms checks_effect [of lib w lib' conn i who approve api now] show ?thesis
      by (simp add: decide_def)
  qed
qed

lemma withdraw_where_effect:
  assumes "withdraw_where conn i actor in_scope now w = (res, w')"
  shows "effect lib w w'"
proof (cases "db_update now (\<lambda>r. ap_id r = i \<and> ap_state r = PENDING \<and> requested_by r = actor \<and> in_scope r)
    (\<lambda>r. r\<lparr>ap_state := WITHDRAWN\<rparr>) (approvals w)")
  case (Inl e)
  with assms show ?thesis by (simp add: withdraw_where_def quiet_refl)
next
  case (Inr p)
  obtain rows touched where p: "p = (rows, touched)" by (cases p)
  show ?thesis
  proof (cases touched)
    case Nil
    with assms Inr p show ?thesis by (simp add: withdraw_where_def quiet_refl)
  next
    case (Cons r rs)
    with assms Inr p have "w' = w\<lparr>approvals := rows\<rparr> \<or>
        audit_row conn (to_record r) ''APPROVAL_WITHDRAWN'' actor [(''operation'', DText (ap_operation (to_record r)))]
          (w\<lparr>approvals := rows\<rparr>) = Some w'"
      by (auto simp: withdraw_where_def Let_def split: option.splits)
    from guarded_write_effect [OF Inr [unfolded p] _ _ this] show ?thesis by simp
  qed
qed

lemma withdraw_effect:
  "withdraw conn i actor scope c now w = (res, w') \<Longrightarrow> effect lib w w'"
  by (auto simp: withdraw_def quiet_refl dest: withdraw_where_effect split: option.splits if_splits)

lemma consume_effect:
  assumes "consume lib' conn i actor key c payload now w = (res, w')"
  shows "effect lib w w'"
proof -
  let ?digest = "payload_hash (sha256 lib') key c payload"
  let ?wanted = "\<lambda>r. now < ap_expires_at r \<and> requested_by r = actor \<and> ap_operation r = key \<and>
      ap_case r = c \<and> row_hash r = ?digest"
  let ?up = "db_update now (\<lambda>r. ap_id r = i \<and> ap_state r = APPROVED \<and> ?wanted r)
      (\<lambda>r. r\<lparr>ap_state := CONSUMED, consumed_at := Some now\<rparr>) (approvals w)"
  show ?thesis
  proof (cases ?up)
    case (Inl e)
    with assms show ?thesis by (simp add: consume_def quiet_refl)
  next
    case (Inr p)
    obtain rows touched where p: "p = (rows, touched)" by (cases p)
    show ?thesis
    proof (cases touched)
      case Nil
      with assms Inr p show ?thesis
        by (auto simp: consume_def explain_consume_failure_def refusal_row_def intro!: quiet_out_of_band)
    next
      case (Cons r rs)
      have "r \<in> set touched" using Cons by simp
      with Inr p have id: "ap_id r = i" by (auto simp: db_update_Inr)
      with assms Inr p Cons have "w' = w\<lparr>approvals := rows\<rparr> \<or>
          (\<exists>ds. audit_row conn (to_record r) spend_action actor ds (w\<lparr>approvals := rows\<rparr>) = Some w')"
        by (auto simp: consume_def Let_def split: option.splits)
      moreover have "ap_id (to_record r) = i"
        using id by (simp add: to_record_def approval_columns.defs)
      ultimately have "\<exists>es. approvals w' = rows \<and> audit w' = audit w @ es \<and> length es \<le> 1 \<and>
          (\<forall>e\<in>set es. ae_object e = i \<and> (ae_actor e = Some actor \<or> ae_actor e = None))"
        by (auto elim!: audit_row_Some)
      then show ?thesis
        using Inr p Cons by (auto intro!: spent [where wanted = ?wanted])
    qed
  qed
qed

lemma attach_effect: "effect lib w (attach_result i ref now w)"
proof (cases "db_update now (\<lambda>r. ap_id r = i) (\<lambda>r. r\<lparr>result_ref := Some ref\<rparr>) (approvals w)")
  case (Inl e)
  then show ?thesis by (simp add: attach_result_def quiet_refl)
next
  case (Inr p)
  then show ?thesis
    by (cases p) (auto simp: attach_result_def intro!: changed [where es = "[]"])
qed

text \<open>
  Any number of people and sessions, in any order, with any clocks; a decision's write may come
  long after its checks, a transaction may be rolled back, and the rest of the program may change
  the accounts and write audit rows of its own.
\<close>

inductive approval_step :: "library \<Rightarrow> world \<Rightarrow> world \<Rightarrow> bool" for lib where
  step_request: "request_approval lib conn key c p why who now fresh reach w = (res, w') \<Longrightarrow> approval_step lib w w'"
| step_decide: "decide lib conn i who approve note told api now w = (res, w') \<Longrightarrow> approval_step lib w w'"
| step_late_decision: "decide_write conn i who approve note told now w = (res, w') \<Longrightarrow> approval_step lib w w'"
| step_withdraw: "withdraw conn i actor scope c now w = (res, w') \<Longrightarrow> approval_step lib w w'"
| step_spend_check: "refuse_unseasoned_spend lib conn req actor w = (res, w') \<Longrightarrow> approval_step lib w w'"
| step_consume: "consume lib conn i actor key c payload now w = (res, w') \<Longrightarrow> approval_step lib w w'"
| step_attach: "attach_result i ref now w = w' \<Longrightarrow> approval_step lib w w'"
| step_rollback: "approval_step lib w w1 \<Longrightarrow> approval_step lib w (rolled_back w w1)"
| step_elsewhere: "approvals w' = approvals w \<Longrightarrow> audit w' = audit w @ es \<Longrightarrow>
    \<forall>e\<in>set es. ae_action e \<noteq> spend_action \<Longrightarrow> approval_step lib w w'"

inductive approvals_reachable :: "library \<Rightarrow> world \<Rightarrow> bool" for lib where
  start: "approvals w = [] \<Longrightarrow> audit w = [] \<Longrightarrow> approvals_reachable lib w"
| more: "approvals_reachable lib w \<Longrightarrow> approval_step lib w w' \<Longrightarrow> approvals_reachable lib w'"

lemma step_effect: "approval_step lib w w' \<Longrightarrow> effect lib w w'"
proof (induction rule: approval_step.induct)
  case (step_spend_check conn req actor w res w')
  with refuse_effect(3) show ?case by (metis snd_conv)
next
  case (step_rollback w w1)
  show ?case by (rule quiet [where es = "[]"]) (simp_all add: rolled_back_def)
qed (auto intro: request_effect decide_effect decide_write_effect withdraw_effect consume_effect
    attach_effect quiet)

text \<open>How often the trail says an approval was spent.\<close>

definition spends :: "uuid \<Rightarrow> world \<Rightarrow> nat" where
  "spends i w = length (filter (\<lambda>e. ae_action e = spend_action \<and> ae_object e = i) (audit w))"

definition is_spent :: "uuid \<Rightarrow> world \<Rightarrow> bool" where
  "is_spent i w \<longleftrightarrow> (\<exists>r\<in>set (approvals w). ap_id r = i \<and> ap_state r = CONSUMED)"

definition spends_ok :: "world \<Rightarrow> bool" where
  "spends_ok w \<longleftrightarrow>
     (\<forall>i. spends i w \<le> (if is_spent i w then 1 else 0)) \<and>
     (\<forall>e\<in>set (audit w). ae_action e = spend_action \<longrightarrow>
        (\<exists>r\<in>set (approvals w). ap_id r = ae_object e \<and> ap_state r = CONSUMED \<and>
           (ae_actor e = Some (requested_by r) \<or> ae_actor e = None)))"

lemma effect_table [step_inv]: "effect lib w w' \<Longrightarrow> table_ok lib (approvals w) \<Longrightarrow> table_ok lib (approvals w')"
  by (induction rule: effect.induct) (auto intro: table_ok_insert table_ok_update)

lemma effect_later:
  "effect lib w w' \<Longrightarrow> r \<in> set (approvals w) \<Longrightarrow> \<exists>r'\<in>set (approvals w'). later r r'"
proof (induction rule: effect.induct)
  case (quiet w' w es)
  then show ?case by (auto intro: bexI [where x = r])
next
  case (raised r' w w' es)
  then show ?case by (auto simp: db_insert_Inr intro: bexI [where x = r])
next
  case (changed now wanted f w w' touched es)
  then show ?case using db_update_later by blast
next
  case (spent now i wanted w w' r' rs actor es)
  then show ?case using db_update_later [OF spent(1) _ spent(6)] by auto
qed

lemma later_consumed: "later r r' \<Longrightarrow> ap_state r = CONSUMED \<Longrightarrow> ap_state r' = CONSUMED"
  by (auto simp: later_def state_moves_def)

lemma spender_stays:
  assumes "effect lib w w'" "r \<in> set (approvals w)" "ap_state r = CONSUMED"
  shows "\<exists>r'\<in>set (approvals w'). ap_id r' = ap_id r \<and> ap_state r' = CONSUMED \<and> requested_by r' = requested_by r"
proof -
  obtain r' where r': "r' \<in> set (approvals w')" "later r r'"
    using effect_later [OF assms(1,2)] by blast
  have "ap_id r' = ap_id r" "requested_by r' = requested_by r"
    using r'(2) by (simp_all add: later_def)
  with later_consumed [OF r'(2) assms(3)] r'(1) show ?thesis by blast
qed

lemma effect_still_spent: "effect lib w w' \<Longrightarrow> is_spent i w \<Longrightarrow> is_spent i w'"
  using spender_stays unfolding is_spent_def by metis

lemma spends_append:
  "audit w' = audit w @ es \<Longrightarrow>
   spends i w' = spends i w + length (filter (\<lambda>e. ae_action e = spend_action \<and> ae_object e = i) es)"
  by (simp add: spends_def)

lemma filter_empty: "\<forall>e\<in>set es. \<not> P e \<Longrightarrow> filter P es = []"
  by (simp add: filter_empty_conv)

lemma spends_ok_quiet:
  assumes eff: "effect lib w w'" and ok: "spends_ok w"
    and au: "audit w' = audit w @ es" "\<forall>e\<in>set es. ae_action e \<noteq> spend_action"
  shows "spends_ok w'"
proof -
  have "spends i w' = spends i w" for i
    using spends_append [OF au(1)] filter_empty [of es] au(2) by simp
  then show ?thesis
    using ok effect_still_spent [OF eff] spender_stays [OF eff] au
    unfolding spends_ok_def by (auto split: if_splits) (metis+)
qed

lemma spent_row:
  assumes up: "db_update now (\<lambda>r. ap_id r = i \<and> ap_state r = APPROVED \<and> wanted r)
      (\<lambda>r. r\<lparr>ap_state := CONSUMED, consumed_at := Some now\<rparr>) rows = Inr (rows', t # ts)"
    and d: "distinct (map ap_id rows)"
  obtains r where "r \<in> set rows" "ap_id r = i" "ap_state r = APPROVED" "wanted r"
    "r\<lparr>ap_state := CONSUMED, consumed_at := Some now\<rparr> \<in> set rows'"
    "\<forall>x\<in>set rows. ap_id x = i \<longrightarrow> x = r"
proof -
  let ?P = "\<lambda>r. ap_id r = i \<and> ap_state r = APPROVED \<and> wanted r"
  have "t \<in> set (t # ts)" by simp
  with up obtain r where r: "r \<in> set rows" "?P r" by (auto simp: db_update_Inr)
  moreover have "r\<lparr>ap_state := CONSUMED, consumed_at := Some now\<rparr> \<in> set rows'"
    using up r by (auto simp: db_update_Inr)
  moreover have "\<forall>x\<in>set rows. ap_id x = i \<longrightarrow> x = r"
    using d r by (auto simp: distinct_map inj_on_def)
  ultimately show ?thesis using that by blast
qed

lemma effect_spends [step_inv]:
  assumes "effect lib w w'" "spends_ok w" "table_ok lib (approvals w)"
  shows "spends_ok w'"
  using assms
proof (cases rule: effect.cases)
  case (spent now i wanted t ts actor es)
  have "distinct (map ap_id (approvals w))" using assms(3) by (simp add: table_ok_def)
  from spent_row [OF spent(1) this] obtain r where r: "r \<in> set (approvals w)" "ap_id r = i"
      "ap_state r = APPROVED" "wanted r" and new: "r\<lparr>ap_state := CONSUMED, consumed_at := Some now\<rparr> \<in> set (approvals w')"
    and one: "\<forall>x\<in>set (approvals w). ap_id x = i \<longrightarrow> x = r"
    by blast
  have "\<not> is_spent i w" using one r(3) by (auto simp: is_spent_def)
  then have zero: "spends i w = 0" using assms(2) by (auto simp: spends_ok_def split: if_splits)
  have spent': "is_spent i w'" unfolding is_spent_def using r(2) by (intro bexI [OF _ new]) simp
  have others: "spends j w' = spends j w" if "j \<noteq> i" for j
    using spends_append [OF spent(3), of j] filter_empty [of es] spent(5) that by simp
  have "spends i w' \<le> 1"
    unfolding spends_append [OF spent(3), of i] zero using le_trans [OF length_filter_le spent(4)] by simp
  then have "spends j w' \<le> (if is_spent j w' then 1 else 0)" for j
    using others [of j] spent' assms(2) effect_still_spent [OF assms(1), of j]
    by (cases "j = i") (auto simp: spends_ok_def split: if_splits)
  moreover have "\<exists>r'\<in>set (approvals w'). ap_id r' = ae_object e \<and> ap_state r' = CONSUMED \<and>
      (ae_actor e = Some (requested_by r') \<or> ae_actor e = None)"
    if e: "e \<in> set (audit w')" "ae_action e = spend_action" for e
  proof (cases "e \<in> set (audit w)")
    case True
    then obtain q where "q \<in> set (approvals w)" "ap_id q = ae_object e" "ap_state q = CONSUMED"
        "ae_actor e = Some (requested_by q) \<or> ae_actor e = None"
      using e(2) assms(2) by (auto simp: spends_ok_def)
    with spender_stays [OF assms(1), of q] show ?thesis by auto
  next
    case False
    with e(1) spent(3,5) have "ae_object e = i" "ae_actor e = Some actor \<or> ae_actor e = None" by auto
    moreover have "requested_by r = actor" using spent(2) r(4) by simp
    ultimately show ?thesis using new r(2) by (intro bexI [OF _ new]) auto
  qed
  ultimately show ?thesis by (simp add: spends_ok_def)
qed (use assms(1) in \<open>auto intro: spends_ok_quiet\<close>)

lemma reachable_ok: "approvals_reachable lib w \<Longrightarrow> table_ok lib (approvals w) \<and> spends_ok w"
proof (induction rule: approvals_reachable.induct)
  case (start w)
  then show ?case by (simp add: table_ok_def one_pending_def spends_ok_def spends_def)
next
  case (more w w')
  then show ?case using step_effect effect_table effect_spends by blast
qed

section \<open>When a guarded write goes through\<close>

text \<open>A connection that may name \<open>actor\<close> in an audit row.\<close>

definition may_name :: "connection \<Rightarrow> uuid \<Rightarrow> bool" where
  "may_name conn actor \<longleftrightarrow> exempt conn \<or> bound_to conn = None \<or> bound_to conn = Some actor"

lemma audit_row_ok: "may_name conn actor \<Longrightarrow> \<exists>w'. audit_row conn r act actor ds w = Some w'"
  by (auto simp: audit_row_def pin_attribution_def may_name_def split: option.splits)

lemma audit_row_None: "\<not> may_name conn actor \<Longrightarrow> audit_row conn r act actor ds w = None"
  by (auto simp: audit_row_def pin_attribution_def may_name_def split: option.splits)

lemma one_pending_fewer:
  assumes "one_pending rows" "\<forall>r\<in>set rows. ap_state (g r) = PENDING \<longrightarrow>
      ap_state r = PENDING \<and> ap_operation (g r) = ap_operation r \<and> row_hash (g r) = row_hash r"
  shows "one_pending (map g rows)"
  using assms
proof (induction rows)
  case (Cons r rows)
  let ?k = "\<lambda>r. (ap_operation r, row_hash r)" and ?P = "\<lambda>r. ap_state r = PENDING"
  have "?k (g x) \<in> ?k ` set (filter ?P rows)" if "x \<in> set rows" "?P (g x)" for x
    using Cons.prems(2) that by (intro image_eqI [where x = x]) auto
  then have "set (map ?k (filter ?P (map g rows))) \<subseteq> set (map ?k (filter ?P rows))"
    by (auto simp del: prod.inject)
  moreover have "one_pending (map g rows)"
    using Cons by (auto simp: one_pending_def split: if_splits)
  ultimately show ?case
    using Cons.prems by (auto simp: one_pending_def split: if_splits)
qed simp

lemma unique_row:
  assumes "table_ok lib rows" "r \<in> set rows" "r' \<in> set rows" "ap_id r = ap_id r'"
  shows "r = r'"
  using assms by (auto simp: table_ok_def distinct_map inj_on_def)

lemma find_row:
  "table_ok lib rows \<Longrightarrow> r \<in> set rows \<Longrightarrow> find (\<lambda>x. ap_id x = ap_id r) rows = Some r"
proof -
  assume "table_ok lib rows" "r \<in> set rows"
  then have "distinct (map ap_id rows)" "r \<in> set rows" by (simp_all add: table_ok_def)
  then show ?thesis by (induction rows) force+
qed

lemma pinpoints:
  assumes "table_ok lib rows" "r \<in> set rows" "P r" "\<forall>x. P x \<longrightarrow> ap_id x = ap_id r" "x \<in> set rows"
  shows "P x \<longleftrightarrow> x = r"
  using unique_row [OF assms(1,5,2)] assms(3,4) by metis

lemma only_one: "distinct xs \<Longrightarrow> x \<in> set xs \<Longrightarrow> filter (\<lambda>y. y = x) xs = [x]"
  by (induction xs) (auto simp: filter_empty_conv)

lemma filter_row:
  assumes "table_ok lib rows" "r \<in> set rows" "P r" "\<forall>x. P x \<longrightarrow> ap_id x = ap_id r"
  shows "filter P rows = [r]"
proof -
  have "distinct rows" using assms(1) by (auto simp: table_ok_def distinct_map)
  have "P x \<longleftrightarrow> x = r" if "x \<in> set rows" for x
    by (rule pinpoints [OF assms that])
  then have "filter P rows = filter (\<lambda>x. x = r) rows" by (intro filter_cong) auto
  with only_one [OF \<open>distinct rows\<close> assms(2)] show ?thesis by simp
qed

lemma check_row_of: "table_ok lib rows \<Longrightarrow> r \<in> set rows \<Longrightarrow> check_row r"
  by (auto simp: table_ok_def list_all_iff)

text \<open>The write of one row: what the trigger, the constraints and the index ask of it.\<close>

lemma db_update_row:
  assumes "table_ok lib rows" "r \<in> set rows" "wanted r" "\<forall>x. wanted x \<longrightarrow> ap_id x = ap_id r"
    and "guard_update now r (f r) = None" "check_row (f r)" "ap_state (f r) \<noteq> PENDING"
  shows "db_update now wanted f rows = Inr (map (\<lambda>x. if wanted x then f x else x) rows, [f r])"
proof -
  have w: "wanted x \<longleftrightarrow> x = r" if "x \<in> set rows" for x
    by (rule pinpoints [OF assms(1-4) that])
  have "one_pending (map (\<lambda>x. if wanted x then f x else x) rows)"
    using assms(1,7) w by (intro one_pending_fewer) (auto simp: table_ok_def)
  then show ?thesis
    using filter_row [OF assms(1-4)] w assms(5,6) by (simp add: db_update_Inr)
qed

lemma guard_decided:
  assumes "ap_state r = PENDING" "check_row r" "who \<noteq> requested_by r"
  shows "guard_update now r (decided_row who approve note now r) = None"
    "check_row (decided_row who approve note now r)"
    "ap_state (decided_row who approve note now r) \<noteq> PENDING"
  using assms by (auto simp: guard_update_def decided_row_def Let_def check_row_def)

lemma guard_spent:
  assumes "ap_state r = APPROVED" "check_row r"
  shows "guard_update now r (r\<lparr>ap_state := CONSUMED, consumed_at := Some now\<rparr>) = None"
    "check_row (r\<lparr>ap_state := CONSUMED, consumed_at := Some now\<rparr>)"
  using assms by (auto simp: guard_update_def Let_def check_row_def)

lemma to_record_simps [simp]:
  "ap_id (to_record r) = ap_id r" "ap_case (to_record r) = ap_case r"
  "ap_operation (to_record r) = ap_operation r" "ap_payload (to_record r) = ap_payload r"
  "requested_by (to_record r) = requested_by r" "ap_state (to_record r) = ap_state r"
  "decided_by (to_record r) = decided_by r" "decided_at (to_record r) = decided_at r"
  "ap_expires_at (to_record r) = ap_expires_at r" "consumed_at (to_record r) = consumed_at r"
  by (simp_all add: to_record_def approval_columns.defs)

section \<open>A worked life\<close>

definition demo_library :: library where
  "demo_library = \<lparr>sha256 = (\<lambda>s. s), utc_text = (\<lambda>t. [])\<rparr>"

definition demo_connection :: "uuid \<Rightarrow> connection" where
  "demo_connection u = \<lparr>bound_to = Some u, exempt = False, ticket_holder = None,
     holds_chain = False, side_opens = True, chain_free = True\<rparr>"

definition demo_iam :: iam_state where
  "demo_iam = \<lparr>role_permission = [(''OWNER'', ''case.update'')], user_role = [],
     assignments = [\<lparr>as_case = 7, as_user = 2, as_role = ''OWNER'', granted_at = 0, as_expires_at = None\<rparr>],
     account_events = [], operation_mode = Map.empty, merge_switch = Map.empty,
     display_name = Map.empty, role_name = Map.empty, seasoning_setting = None\<rparr>"

definition demo_world :: world where
  "demo_world = \<lparr>approvals = [], audit = [], side_audit = [], iam = demo_iam, active_users = [1, 2],
     case_labels = Map.empty, node_labels = Map.empty\<rparr>"

definition demo_now :: instant where
  "demo_now = days 8"

definition demo_raised :: world where
  "demo_raised = snd (request_approval demo_library (demo_connection 1) ''role.manage'' None (JObj [])
     ''needed'' 1 demo_now 11 (Some 1) demo_world)"

definition demo_approved :: world where
  "demo_approved = snd (decide demo_library (demo_connection 2) 11 2 True None (Some True)
     (demo_now + 1) (demo_now + 1) demo_raised)"

definition demo_spent :: world where
  "demo_spent = snd (consume demo_library (demo_connection 1) 11 1 ''role.manage'' None (JObj [])
     (demo_now + 2) demo_approved)"

definition demo_row :: approval_row where
  "demo_row = \<lparr>ap_id = 11, ap_case = None, ap_operation = ''role.manage'', ap_payload = JObj [],
     ap_justification = ''needed'', requested_by = 1, requested_at = 691200000000,
     ap_expires_at = 777600000000, ap_state = PENDING, decided_by = None, decided_at = None,
     decision_note = None, consumed_at = None, result_ref = None,
     row_hash = hash_material ''role.manage'' None (JObj [])\<rparr>"

lemma demo_raised_rows: "approvals demo_raised = [demo_row]"
  by code_simp

lemma demo_approved_rows:
  "approvals demo_approved = [demo_row\<lparr>ap_state := APPROVED, decided_by := Some 2, decided_at := Some 691200000001\<rparr>]"
  by code_simp

lemma demo_spent_rows:
  "approvals demo_spent = [demo_row\<lparr>ap_state := CONSUMED, decided_by := Some 2,
     decided_at := Some 691200000001, consumed_at := Some 691200000002\<rparr>]"
  by code_simp

lemma demo_spent_audit: "spends 11 demo_spent = 1"
  by code_simp

lemma demo_reachable:
  "approvals_reachable demo_library demo_world" "approvals_reachable demo_library demo_raised"
  "approvals_reachable demo_library demo_approved" "approvals_reachable demo_library demo_spent"
proof -
  show a: "approvals_reachable demo_library demo_world"
    by (rule start) (simp_all add: demo_world_def)
  show b: "approvals_reachable demo_library demo_raised"
    by (rule more [OF a]) (rule step_request, simp add: demo_raised_def prod_eq_iff)
  show c: "approvals_reachable demo_library demo_approved"
    by (rule more [OF b]) (rule step_decide, simp add: demo_approved_def prod_eq_iff)
  show "approvals_reachable demo_library demo_spent"
    by (rule more [OF c]) (rule step_consume, simp add: demo_spent_def prod_eq_iff)
qed

section \<open>Properties\<close>

text \<open>C22: In every reachable world an approval is spent at most once; a spent one was decided by someone other than its requester, is recorded as spent, and is bound by its hash to the operation, case and payload in its row.\<close>

theorem approval_spent_once:
  assumes "approvals_reachable lib w"
  shows "spends i w \<le> 1 \<and> (spends i w = 1 \<longrightarrow>
     (\<exists>r d. r \<in> set (approvals w) \<and> ap_id r = i \<and> ap_state r = CONSUMED \<and>
        decided_by r = Some d \<and> d \<noteq> requested_by r \<and>
        row_hash r = payload_hash (sha256 lib) (ap_operation r) (ap_case r) (ap_payload r)))"
proof -
  have t: "table_ok lib (approvals w)" and s: "spends_ok w"
    using reachable_ok [OF assms] by auto
  have "spends i w \<le> (if is_spent i w then 1 else 0)" using s by (simp add: spends_ok_def)
  moreover have "\<exists>d. decided_by r = Some d \<and> d \<noteq> requested_by r"
    if "r \<in> set (approvals w)" "ap_state r = CONSUMED" for r
    using check_row_of [OF t that(1)] that(2) by (auto simp: check_row_def)
  ultimately show ?thesis
    using t by (auto simp: is_spent_def table_ok_def list_all_iff raised_properly_def split: if_splits)
qed

theorem approval_spent_once_witness:
  "\<exists>r d. r \<in> set (approvals demo_spent) \<and> ap_id r = 11 \<and> ap_state r = CONSUMED \<and>
     decided_by r = Some d \<and> d \<noteq> requested_by r"
  using approval_spent_once [OF demo_reachable(4), of 11] demo_spent_audit by blast

text \<open>C24: Over any number of steps a request keeps what it asks for, gains no time, moves only from pending to decided or withdrawn and from approved to spent, and a decision, a spend and a result, once made, never change.\<close>

theorem approval_history:
  assumes "rtranclp (approval_step lib) w w'" "r \<in> set (approvals w)"
  shows "\<exists>r'\<in>set (approvals w'). later r r'"
  using assms
proof (induction rule: rtranclp_induct)
  case base
  then show ?case using later_refl by blast
next
  case (step v w')
  then obtain r1 where "r1 \<in> set (approvals v)" "later r r1" by blast
  with effect_later [OF step_effect [OF step(2)]] later_trans show ?case by blast
qed

theorem approval_history_witness: "\<exists>r'\<in>set (approvals demo_approved). later demo_row r'"
proof -
  have "approval_step demo_library demo_raised demo_approved"
    by (rule step_decide, simp add: demo_approved_def prod_eq_iff)
  then show ?thesis
    using approval_history [of demo_library demo_raised demo_approved demo_row]
    by (simp add: demo_raised_rows r_into_rtranclp)
qed

text \<open>C23: Spending succeeds exactly when the approval is approved, unexpired by the database's clock, presented by its requester, for its operation and case, with a payload of the same hash.\<close>

theorem consume_exact:
  assumes t: "table_ok lib (approvals w)" and c: "may_name conn actor"
  shows "is_ok (fst (consume lib conn i actor key c payload now w)) =
    (\<exists>r\<in>set (approvals w). ap_id r = i \<and> ap_state r = APPROVED \<and> now < ap_expires_at r \<and>
       requested_by r = actor \<and> ap_operation r = key \<and> ap_case r = c \<and>
       row_hash r = payload_hash (sha256 lib) key c payload)"
    (is "_ = (\<exists>r\<in>set (approvals w). ?W r)")
proof (cases "\<exists>r\<in>set (approvals w). ?W r")
  case True
  then obtain r where r: "r \<in> set (approvals w)" "?W r" by blast
  let ?f = "\<lambda>r. r\<lparr>ap_state := CONSUMED, consumed_at := Some now\<rparr>"
  have "guard_update now r (?f r) = None" "check_row (?f r)"
    using guard_spent check_row_of [OF t r(1)] r(2) by auto
  with db_update_row [where wanted = ?W and f = ?f and now = now, OF t r] r(2)
  have "db_update now ?W ?f (approvals w) = Inr (map (\<lambda>x. if ?W x then ?f x else x) (approvals w), [?f r])"
    by simp
  with True audit_row_ok [OF c] show ?thesis
    by (auto simp: consume_def Let_def split: option.splits)
next
  case False
  then have "filter ?W (approvals w) = []" by (auto simp: filter_empty_conv)
  then have "\<nexists>rows r rs. db_update now ?W (\<lambda>r. r\<lparr>ap_state := CONSUMED, consumed_at := Some now\<rparr>) (approvals w) =
      Inr (rows, r # rs)"
    by (auto simp: db_update_Inr)
  with False show ?thesis
    by (auto simp: consume_def explain_consume_failure_def Let_def is_ok_iff split: sum.splits list.splits)
qed

theorem consume_exact_witness:
  "is_ok (fst (consume demo_library (demo_connection 1) 11 1 ''role.manage'' None (JObj []) (demo_now + 2)
     demo_approved))"
proof -
  have t: "table_ok demo_library (approvals demo_approved)"
    using reachable_ok demo_reachable(3) by blast
  have c: "may_name (demo_connection 1) 1" by (simp add: may_name_def demo_connection_def)
  show ?thesis
    unfolding consume_exact [OF t c] demo_approved_rows
    by (simp add: demo_row_def demo_library_def demo_now_def payload_hash_def)
qed

text \<open>What is spent is what was approved: unless the hash collides on these two texts, a spend for another operation, another case or another payload (up to the order of keys) fails.\<close>

theorem approval_binds_action:
  assumes t: "table_ok lib (approvals w)"
    and ok: "consume lib conn i actor key c payload now w = (Inr rec, w')"
    and ids: "\<forall>u\<in>set_option c. u < 2 ^ 128"
    and coll: "sha256 lib (hash_material key c payload) =
        sha256 lib (hash_material (ap_operation rec) (ap_case rec) (ap_payload rec)) \<longrightarrow>
      hash_material key c payload = hash_material (ap_operation rec) (ap_case rec) (ap_payload rec)"
  shows "ap_operation rec = key \<and> ap_case rec = c \<and> normal (ap_payload rec) = normal payload \<and>
    requested_by rec = actor \<and> ap_state rec = CONSUMED \<and> (\<exists>d. decided_by rec = Some d \<and> d \<noteq> actor)"
proof -
  let ?W = "\<lambda>r. ap_id r = i \<and> ap_state r = APPROVED \<and> now < ap_expires_at r \<and> requested_by r = actor \<and>
      ap_operation r = key \<and> ap_case r = c \<and> row_hash r = payload_hash (sha256 lib) key c payload"
  let ?f = "\<lambda>r. r\<lparr>ap_state := CONSUMED, consumed_at := Some now\<rparr>"
  obtain rows r rs where up: "db_update now ?W ?f (approvals w) = Inr (rows, r # rs)" and rec: "rec = to_record r"
    using ok by (auto simp: consume_def Let_def split: sum.splits list.splits option.splits prod.splits)
  have "r \<in> set (map ?f (filter ?W (approvals w)))"
    using up unfolding db_update_Inr by (metis list.set_intros(1))
  then obtain r0 where r0: "r0 \<in> set (approvals w)" "?W r0" "r = ?f r0" by auto
  have h: "payload_hash (sha256 lib) key c payload = payload_hash (sha256 lib) key c (ap_payload r0)"
    using t r0 by (auto simp: table_ok_def list_all_iff raised_properly_def)
  have "list_all (\<lambda>(k, op). CHR 0x1F \<notin> set k) operations" by code_simp
  moreover have "map_of operations key \<noteq> None"
    using t r0 by (auto simp: table_ok_def list_all_iff raised_properly_def split: option.splits)
  ultimately have k: "CHR 0x1F \<notin> set key"
    unfolding list_all_iff by (fastforce dest: map_of_SomeD)
  have "hash_material key c payload = hash_material key c (ap_payload r0)"
    using h coll rec r0 by (simp add: payload_hash_def)
  from hash_material_injective [OF this k k] ids have "normal payload = normal (ap_payload r0)"
    by blast
  moreover have "\<exists>d. decided_by r0 = Some d \<and> d \<noteq> actor"
    using check_row_of [OF t r0(1)] r0(2) by (auto simp: check_row_def)
  ultimately show ?thesis using rec r0 by simp
qed

theorem approval_binds_action_witness:
  "\<exists>rec w'. consume demo_library (demo_connection 1) 11 1 ''role.manage'' None (JObj []) (demo_now + 2)
     demo_approved = (Inr rec, w') \<and> normal (ap_payload rec) = normal (JObj []) \<and> ap_operation rec = ''role.manage''"
proof -
  let ?c = "consume demo_library (demo_connection 1) 11 1 ''role.manage'' None (JObj []) (demo_now + 2) demo_approved"
  have t: "table_ok demo_library (approvals demo_approved)"
    using reachable_ok demo_reachable(3) by blast
  have "is_ok (fst ?c)" by code_simp
  then obtain rec where c: "?c = (Inr rec, snd ?c)" by (metis is_ok_iff prod.collapse)
  have "sha256 demo_library = (\<lambda>s. s)" by (simp add: demo_library_def)
  with approval_binds_action [OF t c] c show ?thesis by auto
qed

definition demo_relax :: world where
  "demo_relax = demo_world\<lparr>approvals := [demo_row\<lparr>ap_id := 12, ap_case := Some 7,
     ap_operation := ''case.policy.relax'', row_hash := []\<rparr>]\<rparr>"

text \<open>C25: Whoever approves is a second person: not the requester, holding no permission to propose where the signer is another kind of person, past the seven-day rule and past the seasoning of their assignment where these apply; and the request was pending and in time.\<close>

theorem approver_is_second_person:
  assumes ok: "decide lib conn i who True note told api now w = (Inr rec, w')"
    and cur: "get_approval i w = Some cur" and op: "map_of operations (ap_operation cur) = Some op"
  shows "who \<noteq> requested_by cur \<and> ap_state cur = PENDING \<and> api < ap_expires_at cur \<and>
    (approver_permission op \<noteq> None \<longrightarrow> \<not> holds_global_permission (iam w) who (op_permission op)) \<and>
    (countersigner_seasoned op \<longrightarrow>
       countersign_block (iam w) who (signer_permission op) now (Some (requested_by cur, op_permission op)) = None) \<and>
    (signer_assignment_seasoned op \<longrightarrow> relax_seasoning_days (iam w) \<noteq> 0 \<longrightarrow>
       (\<forall>c. ap_case cur = Some c \<longrightarrow>
          assignment_block (iam w) who c (signer_permission op) (relax_seasoning_days (iam w)) now = None))"
proof -
  obtain w1 where c: "decide_checks lib conn i who True api now w = (None, w1)"
    using ok by (auto simp: decide_def split: prod.splits option.splits)
  then have base: "ap_state cur = PENDING" "api < ap_expires_at cur" "who \<noteq> requested_by cur"
    and r: "refuse_unless_second_person lib conn cur op who now w = (None, w1)"
    using cur op by (auto simp: decide_checks_def is_expired_def split: if_splits)
  from second_person_None [OF r] have [simp]: "w1 = w" .
  have h: "\<not> (approver_permission op \<noteq> None \<and> holds_global_permission (iam w) who (op_permission op))"
    using r by (auto simp: refuse_unless_second_person_def split: if_splits)
  define p where "p = (if signer_assignment_seasoned op
      then (case ap_case cur of Some c \<Rightarrow> refuse_unseasoned_assignment lib conn cur op c who now w
        | None \<Rightarrow> (None, w)) else (None, w))"
  have p: "(case p of (Some m, w') \<Rightarrow> (Some m, w')
      | (None, w') \<Rightarrow> refuse_seasoned_countersigner lib conn cur op who now w') = (None, w)"
    using r h unfolding refuse_unless_second_person_def p_def by auto
  then obtain w2 where p1: "p = (None, w2)"
    and s: "refuse_seasoned_countersigner lib conn cur op who now w2 = (None, w)"
    by (cases p) (auto split: option.splits)
  have w2: "w2 = w" using refuse_countersigner_None [OF s] by simp
  have "countersigner_seasoned op \<longrightarrow>
      countersign_block (iam w) who (signer_permission op) now (Some (requested_by cur, op_permission op)) = None"
    using s unfolding w2 by (auto simp: refuse_seasoned_countersigner_def split: option.splits)
  moreover have "signer_assignment_seasoned op \<longrightarrow> relax_seasoning_days (iam w) \<noteq> 0 \<longrightarrow>
      (\<forall>c. ap_case cur = Some c \<longrightarrow>
        assignment_block (iam w) who c (signer_permission op) (relax_seasoning_days (iam w)) now = None)"
    using p1 unfolding p_def by (auto simp: refuse_unseasoned_assignment_def Let_def split: option.splits)
  ultimately show ?thesis using base h by auto
qed

theorem approver_is_second_person_witness:
  "\<exists>rec w' cur op. decide demo_library (demo_connection 2) 12 2 True None None (demo_now + 1) (demo_now + 1)
     demo_relax = (Inr rec, w') \<and> get_approval 12 demo_relax = Some cur \<and>
     map_of operations (ap_operation cur) = Some op \<and> signer_assignment_seasoned op \<and>
     assignment_block (iam demo_relax) 2 7 (signer_permission op) (relax_seasoning_days (iam demo_relax))
       (demo_now + 1) = None"
proof -
  let ?d = "decide demo_library (demo_connection 2) 12 2 True None None (demo_now + 1) (demo_now + 1) demo_relax"
  have "is_ok (fst ?d)" by code_simp
  then obtain rec where d: "?d = (Inr rec, snd ?d)" by (metis is_ok_iff prod.collapse)
  obtain cur where cur: "get_approval 12 demo_relax = Some cur" "ap_operation cur = ''case.policy.relax''"
      "ap_case cur = Some 7"
  proof -
    have "case get_approval 12 demo_relax of None \<Rightarrow> False
        | Some cur \<Rightarrow> ap_operation cur = ''case.policy.relax'' \<and> ap_case cur = Some 7"
      by code_simp
    then show thesis using that by (auto split: option.splits)
  qed
  have "case map_of operations ''case.policy.relax'' of None \<Rightarrow> False | Some op \<Rightarrow> signer_assignment_seasoned op"
    by code_simp
  then obtain op where op: "map_of operations ''case.policy.relax'' = Some op" "signer_assignment_seasoned op"
    by (auto split: option.splits)
  have "relax_seasoning_days (iam demo_relax) \<noteq> 0" by code_simp
  with approver_is_second_person [OF d cur(1)] op cur d show ?thesis by auto
qed

text \<open>Refusing is the safe direction: whoever is not the requester may reject a pending request in time, whatever the rules say about the signer.\<close>

theorem reject_never_blocked:
  assumes t: "table_ok lib (approvals w)" and r: "r \<in> set (approvals w)"
    and open_request: "ap_state r = PENDING" "api < ap_expires_at r" "who \<noteq> requested_by r"
    and c: "may_name conn who"
  shows "\<exists>rec w'. decide lib conn (ap_id r) who False note told api now w = (Inr rec, w') \<and>
    ap_state rec = REJECTED \<and> ap_id rec = ap_id r \<and> decided_by rec = Some who \<and> decided_at rec = Some now"
proof -
  let ?f = "decided_row who False note now" and ?W = "\<lambda>x. ap_id x = ap_id r \<and> ap_state x = PENDING"
  have checks: "decide_checks lib conn (ap_id r) who False api now w = (None, w)"
    using find_row [OF t r] open_request
    by (simp add: decide_checks_def get_approval_def is_expired_def split: option.split)
  have "?W r" using open_request by simp
  from db_update_row [where wanted = ?W and f = ?f and now = now, OF t r this]
    guard_decided [OF open_request(1) check_row_of [OF t r] open_request(3)]
  have up: "db_update now ?W ?f (approvals w) = Inr (map (\<lambda>x. if ?W x then ?f x else x) (approvals w), [?f r])"
    by simp
  obtain w2 where "audit_row conn (to_record (?f r)) ''APPROVAL_REFUSED'' who
      [(''operation'', DText (ap_operation (to_record (?f r)))), (''requested_by'', DUuid (requested_by (to_record (?f r)))),
       (''note'', DNote (decision_note (to_record (?f r))))]
      (w\<lparr>approvals := map (\<lambda>x. if ?W x then ?f x else x) (approvals w)\<rparr>) = Some w2"
    using audit_row_ok [OF c] by blast
  with up checks have "decide lib conn (ap_id r) who False note told api now w =
      (Inr ((to_record (?f r))\<lparr>requester_notified := told\<rparr>), w2)"
    by (simp add: decide_def decide_write_def Let_def)
  then show ?thesis by (simp add: decided_row_def Let_def)
qed

theorem reject_never_blocked_witness:
  "\<exists>rec w'. decide demo_library (demo_connection 2) 11 2 False None None demo_now demo_now demo_raised = (Inr rec, w') \<and>
     ap_state rec = REJECTED"
proof -
  have t: "table_ok demo_library (approvals demo_raised)"
    using reachable_ok demo_reachable(2) by blast
  have c: "may_name (demo_connection 2) 2" by (simp add: may_name_def demo_connection_def)
  have r: "demo_row \<in> set (approvals demo_raised)" by (simp add: demo_raised_rows)
  show ?thesis
    using reject_never_blocked [OF t r _ _ _ c, of demo_now None None demo_now]
    by (auto simp: demo_row_def demo_now_def)
qed

lemma strip_not_blank: "strip s \<noteq> [] \<Longrightarrow> \<exists>c\<in>set (strip s). \<not> is_space c"
proof -
  assume "strip s \<noteq> []"
  let ?d = "dropWhile is_space (rev (lstrip s))"
  have "?d \<noteq> []" using \<open>strip s \<noteq> []\<close> by (simp add: strip_def rstrip_def)
  then have "\<not> is_space (hd ?d)" "hd ?d \<in> set ?d"
    by (rule hd_dropWhile, simp)
  moreover have "set ?d = set (strip s)" by (simp only: strip_def rstrip_def set_rev)
  ultimately show ?thesis by blast
qed

lemma is_space_blank: "is_space (CHR '' '')"
  by (simp add: is_space_def code_point_def)

text \<open>A pending request that has expired stands in the way: nobody can decide it, and yet an identical request is refused as already awaiting a decision.\<close>

theorem expired_request_blocks:
  assumes t: "table_ok lib (approvals w)" and r: "r \<in> set (approvals w)"
    and stale: "ap_state r = PENDING" "ap_expires_at r \<le> api"
    and same: "find_operation (ap_operation r) = Inr op" "strip why \<noteq> []" "fresh \<notin> ap_id ` set (approvals w)"
    and ttl: "0 < op_ttl op"
  shows "decide lib conn (ap_id r) who approve note told api now w =
      (Inl (ApprovalError ''this request has expired; raise a new one so the approver is looking at current facts''), w) \<and>
    request_approval lib conn (ap_operation r) (ap_case r) (ap_payload r) why who' api fresh reach w =
      (Inl (ApprovalError ''an identical request is already awaiting a decision''), w)"
proof
  show "decide lib conn (ap_id r) who approve note told api now w =
      (Inl (ApprovalError ''this request has expired; raise a new one so the approver is looking at current facts''), w)"
    using find_row [OF t r] stale
    by (simp add: decide_def decide_checks_def get_approval_def is_expired_def)
  let ?row = "new_row lib op (ap_operation r) (ap_case r) (ap_payload r) why who' api fresh"
  have ok: "raised_properly lib r" using t r by (simp add: table_ok_def list_all_iff)
  have m: "map_of operations (ap_operation r) = Some op"
    using same(1) by (simp add: find_operation_def split: option.splits)
  have scope: "\<not> (op_scope op = ''case'' \<and> ap_case r = None)" "\<not> (op_scope op = ''global'' \<and> ap_case r \<noteq> None)"
    using ok m by (auto simp: raised_properly_def)
  have "\<exists>c\<in>set (strip why). c \<noteq> CHR '' ''"
    using strip_not_blank [OF same(2)] is_space_blank by metis
  then have check: "check_row ?row" "guard_insert ?row = None"
    using ttl by (auto simp: check_row_def new_row_def guard_insert_def list_ex_iff)
  have "(ap_operation ?row, row_hash ?row) \<in>
      set (map (\<lambda>r. (ap_operation r, row_hash r)) (filter (\<lambda>r. ap_state r = PENDING) (approvals w)))"
    using ok r stale(1) by (auto simp: new_row_def raised_properly_def intro!: image_eqI [where x = r])
  then have "\<not> one_pending (approvals w @ [?row])"
    by (auto simp: one_pending_def new_row_def)
  with check have "db_insert ?row (approvals w) = Inl UniqueViolation"
    by (simp add: db_insert_def)
  with same scope show "request_approval lib conn (ap_operation r) (ap_case r) (ap_payload r) why who' api fresh reach w =
      (Inl (ApprovalError ''an identical request is already awaiting a decision''), w)"
    by (simp add: request_approval_def)
qed

theorem expired_request_blocks_witness:
  "request_approval demo_library (demo_connection 3) ''role.manage'' None (JObj []) ''again'' 3
     (demo_now + hours 25) 13 None demo_raised =
   (Inl (ApprovalError ''an identical request is already awaiting a decision''), demo_raised)"
proof -
  have t: "table_ok demo_library (approvals demo_raised)"
    using reachable_ok demo_reachable(2) by blast
  have r: "demo_row \<in> set (approvals demo_raised)" by (simp add: demo_raised_rows)
  obtain op where op: "find_operation ''role.manage'' = Inr op" "0 < op_ttl op"
    by (simp add: find_operation_def operations_def operation_entry_def)
  show ?thesis
    using expired_request_blocks [OF t r, of "demo_now + hours 25" op "''again''" 13 "demo_connection 3" 1 True None None
      demo_now 3 None] op
    by (simp add: demo_row_def demo_now_def demo_raised_rows strip_none is_space_def code_point_def)
qed

text \<open>A refused spend leaves a denied row beside the caller's transaction, which a rollback of it does not take, and the row names the person who tried or nobody.\<close>

theorem refused_spend_recorded:
  assumes "consume lib conn i actor key c payload now w = (Inl (ApprovalError m), w')"
    and "\<not> holds_chain conn" "side_opens conn" "chain_free conn"
  shows "\<exists>e. side_audit (rolled_back w w') = side_audit w @ [e] \<and> ae_action e = ''APPROVAL_CONSUME_REFUSED'' \<and>
    ae_denied e \<and> ae_object e = i \<and> ae_case e = c \<and> (ae_actor e = Some actor \<or> ae_actor e = None) \<and>
    approvals w' = approvals w"
proof -
  let ?e = "refusal_row ''APPROVAL_CONSUME_REFUSED'' actor i c
      [(''reason'', DText (consume_failure_reason i actor key c (payload_hash (sha256 lib) key c payload) now w)),
       (''operation'', DText key)]"
  have w': "w' = record_out_of_band conn ?e w"
    using assms(1) unfolding consume_def Let_def explain_consume_failure_def
    by (auto split: sum.splits list.splits option.splits)
  obtain e' where "write_first_vouched (pin_attribution conn) (claims ?e) = Some e'"
      "ae_action e' = ae_action ?e" "ae_object e' = ae_object ?e" "ae_denied e' = ae_denied ?e"
      "ae_case e' = ae_case ?e" "ae_actor e' = ae_actor ?e \<or> ae_actor e' = None"
    by (rule vouched)
  with assms(2-4) show ?thesis
    unfolding w' by (auto simp: record_out_of_band_def rolled_back_def refusal_row_def)
qed

theorem refused_spend_recorded_witness:
  "\<exists>e. side_audit (rolled_back demo_spent (snd (consume demo_library (demo_connection 1) 11 1 ''role.manage'' None
       (JObj []) (demo_now + 3) demo_spent))) = side_audit demo_spent @ [e] \<and> ae_denied e"
proof -
  let ?c = "consume demo_library (demo_connection 1) 11 1 ''role.manage'' None (JObj []) (demo_now + 3) demo_spent"
  have "case fst ?c of Inl (ApprovalError m) \<Rightarrow> True | _ \<Rightarrow> False" by code_simp
  then obtain m where "fst ?c = Inl (ApprovalError m)"
    by (simp split: sum.splits approval_error.splits)
  then have "?c = (Inl (ApprovalError m), snd ?c)" by (simp add: prod_eq_iff)
  from refused_spend_recorded [OF this] show ?thesis by (auto simp: demo_connection_def)
qed

text \<open>The canonical text of a payload decides it up to the order of its keys (and up to an object standing for its text): equal texts mean equal payloads in normal form, and conversely.\<close>

theorem canonical_payload_decides: "canonical_payload p = canonical_payload q \<longleftrightarrow> normal p = normal q"
  using canonical_injective [of p q] by (auto simp: canonical_plain)

end
