(* ===== verification/Tlsh.thy ===== *)
theory Tlsh
  imports IpText
begin

text \<open>
  The TLSH half of \<open>fuzzyhash.py\<close>: the digest with its megabyte chunks, lanes and big-integer
  XOR, the fields of a digest, and the distance. The lemmas show that the chunked computation
  counts the windows of the reference whatever the chunk size, that the length bucket is the
  reference's, that a digest reads back as what was written, and what the distance promises a search.
\<close>

unbundle bit_operations_syntax

section \<open>Tables\<close>

definition pearson_table :: "int list" where
  "pearson_table =
     [1, 87, 49, 12, 176, 178, 102, 166, 121, 193, 6, 84, 249, 230, 44, 163, 14, 197, 213, 181,
      161, 85, 218, 80, 64, 239, 24, 226, 236, 142, 38, 200, 110, 177, 104, 103, 141, 253, 255, 50,
      77, 101, 81, 18, 45, 96, 31, 222, 25, 107, 190, 70, 86, 237, 240, 34, 72, 242, 20, 214, 244,
      227, 149, 235, 97, 234, 57, 22, 60, 250, 82, 175, 208, 5, 127, 199, 111, 62, 135, 248, 174,
      169, 211, 58, 66, 154, 106, 195, 245, 171, 17, 187, 182, 179, 0, 243, 132, 56, 148, 75, 128,
      133, 158, 100, 130, 126, 91, 13, 153, 246, 216, 219, 119, 68, 223, 78, 83, 88, 201, 99, 122,
      11, 92, 32, 136, 114, 52, 10, 138, 30, 48, 183, 156, 35, 61, 26, 143, 74, 251, 94, 129, 162,
      63, 152, 170, 7, 115, 167, 241, 206, 3, 150, 55, 59, 151, 220, 90, 53, 23, 131, 125, 173, 15,
      238, 79, 95, 89, 16, 105, 137, 225, 224, 217, 160, 37, 123, 118, 73, 2, 157, 46, 116, 9, 145,
      134, 228, 207, 212, 202, 215, 69, 229, 27, 188, 67, 124, 168, 252, 42, 4, 29, 108, 21, 247,
      19, 205, 39, 203, 233, 40, 186, 147, 198, 192, 155, 33, 164, 191, 98, 204, 165, 180, 117, 76,
      140, 36, 210, 172, 41, 54, 159, 8, 185, 232, 113, 196, 231, 47, 146, 120, 51, 65, 28, 144,
      254, 221, 93, 189, 194, 139, 112, 43, 71, 109, 184, 209]"

definition pearson :: "byte \<Rightarrow> byte" where
  "pearson b = word_of_int (pearson_table ! unat b)"

definition topval :: "int list" where
  "topval =
     [1, 2, 3, 5, 7, 11, 17, 25, 38, 57, 86, 129, 194, 291, 437, 656, 854, 1110, 1443, 1876, 2439,
      3171, 3475, 3823, 4205, 4626, 5088, 5597, 6157, 6772, 7450, 8195, 9014, 9916, 10907, 11998,
      13198, 14518, 15970, 17567, 19323, 21256, 23382, 25720, 28292, 31121, 34233, 37656, 41422,
      45564, 50121, 55133, 60646, 66711, 73382, 80721, 88793, 97672, 107439, 118183, 130002,
      143002, 157302, 173032, 190335, 209369, 230306, 253337, 278670, 306538, 337191, 370911,
      408002, 448802, 493682, 543050, 597356, 657091, 722800, 795081, 874589, 962048, 1058252,
      1164078, 1280486, 1408534, 1549388, 1704327, 1874759, 2062236, 2268459, 2495305, 2744836,
      3019320, 3321252, 3653374, 4018711, 4420582, 4862641, 5348905, 5883796, 6472176, 7119394,
      7831333, 8614467, 9475909, 10423501, 11465851, 12612437, 13873681, 15261050, 16787154,
      18465870, 20312458, 22343706, 24578077, 27035886, 29739474, 32713425, 35984770, 39583245,
      43541573, 47895730, 52685306, 57953837, 63749221, 70124148, 77136564, 84850228, 93335252,
      102668779, 112935659, 124229227, 136652151, 150317384, 165349128, 181884040, 200072456,
      220079703, 242087671, 266296456, 292926096, 322218735, 354440623, 389884688, 428873168,
      471760495, 518936559, 570830240, 627913311, 690704607, 759775136, 835752671, 919327967,
      1011260767, 1112386880, 1223623232, 1345985727, 1480584256, 1628642751, 1791507135,
      1970657856, 2167723648, 2384496256, 2622945920, 2885240448, 3173764736, 3491141248,
      3840255616, 4224281216]"

definition tlsh_max_bytes :: int where
  "tlsh_max_bytes = last topval"

definition tlsh_min_bytes :: int where
  "tlsh_min_bytes = 50"

definition triplets :: "(byte \<times> nat \<times> nat) list" where
  "triplets = [(49, 3, 2), (12, 3, 1), (178, 2, 1), (166, 2, 0), (84, 3, 0), (230, 1, 0)]"

definition first_lookup :: "byte \<Rightarrow> byte \<Rightarrow> byte" where
  "first_lookup ms x = pearson (ms XOR x)"

definition check2 :: "byte \<Rightarrow> byte \<Rightarrow> byte" where
  "check2 a b = pearson (pearson (1 XOR a) XOR b)"

section \<open>Byte strings\<close>

text \<open>\<open>int.from_bytes(\<dots>, "little")\<close> and \<open>to_bytes\<close>, and the XOR of two byte strings through them.\<close>

fun from_little :: "byte list \<Rightarrow> int" where
  "from_little [] = 0"
| "from_little (b # bs) = uint b + 256 * from_little bs"

fun to_little :: "nat \<Rightarrow> int \<Rightarrow> byte list" where
  "to_little 0 v = []"
| "to_little (Suc n) v = word_of_int (take_bit 8 v) # to_little n (drop_bit 8 v)"

definition xor_bytes :: "byte list \<Rightarrow> byte list \<Rightarrow> nat \<Rightarrow> byte list" where
  "xor_bytes x y n = to_little n (from_little x XOR from_little y)"

definition swap_nibbles :: "byte \<Rightarrow> byte" where
  "swap_nibbles b = drop_bit 4 (b AND 0xF0) OR push_bit 4 (b AND 0x0F)"

definition slice :: "'a list \<Rightarrow> nat \<Rightarrow> nat \<Rightarrow> 'a list" where
  "slice xs a b = take (b - a) (drop a xs)"

section \<open>The length bucket\<close>

text \<open>\<open>bisect.bisect_left\<close> of the standard library.\<close>

function bisect_left :: "int list \<Rightarrow> int \<Rightarrow> nat \<Rightarrow> nat \<Rightarrow> nat" where
  "bisect_left xs x lo hi =
     (if lo < hi
      then let mid = (lo + hi) div 2 in
           if xs ! mid < x then bisect_left xs x (mid + 1) hi else bisect_left xs x lo mid
      else lo)"
  by pat_completeness auto

termination
  by (relation "measure (\<lambda>(xs, x, lo, hi). hi - lo)") auto

declare bisect_left.simps [simp del]

definition lvalue_of :: "int \<Rightarrow> nat" where
  "lvalue_of len = (if len \<le> hd topval then 0 else bisect_left topval len 0 (length topval))"

section \<open>The digest\<close>

record tlsh_state =
  buckets :: "nat list"
  checksum :: byte

text \<open>One chunk of windows: the bytes from \<open>start\<close> to \<open>end\<close> and the four bytes before each.\<close>

definition triplet_bytes :: "byte list list \<Rightarrow> nat \<Rightarrow> byte \<times> nat \<times> nat \<Rightarrow> byte list" where
  "triplet_bytes lanes m triplet =
     (case triplet of (ms, j, k) \<Rightarrow>
        let t = map (first_lookup ms) (lanes ! 0);
            t = map pearson (xor_bytes t (lanes ! (4 - j)) m)
        in map pearson (xor_bytes t (lanes ! (4 - k)) m))"

definition tlsh_chunk :: "byte list \<Rightarrow> nat \<Rightarrow> nat \<Rightarrow> tlsh_state \<Rightarrow> tlsh_state" where
  "tlsh_chunk data start stop st =
     (let m = stop - start;
          lanes = map (\<lambda>i. slice data (start - i) (stop - i)) [0..<5];
          buckets' = foldl (\<lambda>bs triplet. let t = triplet_bytes lanes m triplet in
              map (\<lambda>b. bs ! b + count_list t (word_of_nat b)) [0..<128]) (buckets st) triplets;
          checksum' = foldl (\<lambda>c (x, y). pearson (check2 x y XOR c)) (checksum st)
              (zip (lanes ! 0) (lanes ! 1))
      in \<lparr>buckets = buckets', checksum = checksum'\<rparr>)"

text \<open>\<open>range(a, b, s)\<close> for a positive step.\<close>

function range_step :: "nat \<Rightarrow> nat \<Rightarrow> nat \<Rightarrow> nat list" where
  "range_step a b s = (if a < b \<and> 0 < s then a # range_step (a + s) b s else [])"
  by pat_completeness auto

termination
  by (relation "measure (\<lambda>(a, b, s). b - a)") auto

declare range_step.simps [simp del]

definition tlsh_scan :: "nat \<Rightarrow> byte list \<Rightarrow> tlsh_state" where
  "tlsh_scan chunk data =
     foldl (\<lambda>st start. tlsh_chunk data start (min (length data) (start + chunk)) st)
       \<lparr>buckets = replicate 128 0, checksum = 0\<rparr> (range_step 4 (length data) chunk)"

definition quartile_code :: "nat \<Rightarrow> nat \<Rightarrow> nat \<Rightarrow> nat \<Rightarrow> nat" where
  "quartile_code q1 q2 q3 k = (if q3 < k then 3 else if q2 < k then 2 else if q1 < k then 1 else 0)"

definition code_byte :: "nat list \<Rightarrow> nat \<Rightarrow> nat \<Rightarrow> nat \<Rightarrow> nat \<Rightarrow> byte" where
  "code_byte bs q1 q2 q3 i =
     word_of_nat (foldl (\<lambda>h j. h + push_bit (j * 2) (quartile_code q1 q2 q3 (bs ! (4 * i + j)))) 0 [0..<4])"

definition upper_hex_char :: "nat \<Rightarrow> char" where
  "upper_hex_char d = (if d < 10 then char_of (48 + d) else char_of (55 + d))"

definition hex_upper :: "byte list \<Rightarrow> string" where
  "hex_upper bs = concat (map (\<lambda>b. [upper_hex_char (unat b div 16), upper_hex_char (unat b mod 16)]) bs)"

definition tlsh_encode :: "int \<Rightarrow> tlsh_state \<Rightarrow> string option" where
  "tlsh_encode n st =
     (let bs = buckets st; ordered = sort bs;
          q1 = ordered ! 31; q2 = ordered ! 63; q3 = ordered ! 95
      in if q3 = 0 then None
         else if length (filter (\<lambda>v. v \<noteq> 0) bs) \<le> 64 then None
         else
           let code = map (code_byte bs q1 q2 q3) [0..<32];
               q1r = q1 * 100 div q3 mod 16;
               q2r = q2 * 100 div q3 mod 16;
               head = [swap_nibbles (checksum st), swap_nibbles (word_of_nat (lvalue_of n)),
                       swap_nibbles (word_of_nat q1r OR push_bit 4 (word_of_nat q2r))]
           in Some (hex_upper (head @ rev code)))"

text \<open>\<open>chunk\<close> is \<open>_CHUNK\<close>, a mebibyte.\<close>

definition tlsh_digest :: "nat \<Rightarrow> byte list \<Rightarrow> string option" where
  "tlsh_digest chunk data =
     (let n = int (length data) in
      if n < tlsh_min_bytes \<or> tlsh_max_bytes < n then None
      else tlsh_encode n (tlsh_scan chunk data))"

definition tlsh_chunk_size :: nat where
  "tlsh_chunk_size = 1048576"

section \<open>Reading a digest\<close>

datatype fuzzy_error = FuzzyValueError string

definition tlsh_form :: string where
  "tlsh_form = ''70 hexadecimal characters, with or without the T1 prefix''"

definition is_upper_hex :: "char \<Rightarrow> bool" where
  "is_upper_hex c \<longleftrightarrow> (let n = code_point c in 48 \<le> n \<and> n \<le> 57 \<or> 65 \<le> n \<and> n \<le> 70)"

text \<open>The whitespace is gone before the pattern is asked, so its final \<open>$\<close> meets no newline.\<close>

definition tlsh_pattern :: "string \<Rightarrow> bool" where
  "tlsh_pattern v \<longleftrightarrow>
     length v = 70 \<and> list_all is_upper_hex v \<or>
     length v = 72 \<and> take 2 v = ''T1'' \<and> list_all is_upper_hex (drop 2 v)"

definition canonical_tlsh :: "string \<Rightarrow> fuzzy_error + string" where
  "canonical_tlsh value =
     (let v = map upper_ascii_char (filter (\<lambda>c. \<not> is_space c) value) in
      if \<not> tlsh_pattern v then Inl (FuzzyValueError tlsh_form)
      else Inr (if startswith v ''T1'' \<and> length v = 72 then drop 2 v else v))"

fun from_hex :: "string \<Rightarrow> byte list" where
  "from_hex (a # b # cs) = word_of_nat (16 * hex_val a + hex_val b) # from_hex cs"
| "from_hex _ = []"

record tlsh_fields =
  part_checksum :: byte
  part_lvalue :: byte
  part_q1 :: byte
  part_q2 :: byte
  part_body :: "byte list"

definition tlsh_parts :: "string \<Rightarrow> fuzzy_error + tlsh_fields" where
  "tlsh_parts digest =
     (case canonical_tlsh digest of
        Inl e \<Rightarrow> Inl e
      | Inr h \<Rightarrow>
          let raw = from_hex h; q = swap_nibbles (raw ! 2)
          in Inr \<lparr>part_checksum = swap_nibbles (raw ! 0), part_lvalue = swap_nibbles (raw ! 1),
                  part_q1 = q AND 0x0F, part_q2 = drop_bit 4 q, part_body = drop 3 raw\<rparr>)"

definition tlsh_lvalue :: "string \<Rightarrow> fuzzy_error + int" where
  "tlsh_lvalue digest = map_sum id (\<lambda>p. uint (part_lvalue p)) (tlsh_parts digest)"

section \<open>The distance\<close>

definition mod_diff :: "int \<Rightarrow> int \<Rightarrow> int \<Rightarrow> int" where
  "mod_diff x y r = (let d = \<bar>x - y\<bar> in min d (r - d))"

definition pair_diff :: "byte \<Rightarrow> byte \<Rightarrow> int" where
  "pair_diff x y =
     fst (foldl (\<lambda>(diff, x, y) i.
         let d = \<bar>uint (x AND 3) - uint (y AND 3)\<bar> in
         (diff + (if d = 3 then 6 else d), drop_bit 2 x, drop_bit 2 y)) (0, x, y) [0..<4])"

definition parts_distance :: "tlsh_fields \<Rightarrow> tlsh_fields \<Rightarrow> int" where
  "parts_distance a b =
     (let ldiff = mod_diff (uint (part_lvalue a)) (uint (part_lvalue b)) 256;
          diff = (if ldiff = 1 then 1 else if 1 < ldiff then ldiff * 12 else 0);
          diff = foldl (\<lambda>diff (qa, qb). let qd = mod_diff (uint qa) (uint qb) 16 in
              diff + (if qd \<le> 1 then qd else (qd - 1) * 12)) diff
            [(part_q1 a, part_q1 b), (part_q2 a, part_q2 b)];
          diff = (if part_checksum a \<noteq> part_checksum b then diff + 1 else diff)
      in diff + sum_list (map (\<lambda>(x, y). pair_diff x y) (zip (part_body a) (part_body b))))"

definition tlsh_distance :: "string \<Rightarrow> string \<Rightarrow> fuzzy_error + int" where
  "tlsh_distance a b =
     (case tlsh_parts a of
        Inl e \<Rightarrow> Inl e
      | Inr pa \<Rightarrow>
          (case tlsh_parts b of
             Inl e \<Rightarrow> Inl e
           | Inr pb \<Rightarrow> Inr (parts_distance pa pb)))"

section \<open>The XOR of byte strings\<close>

lemma little_step:
  "take_bit 8 (uint (b :: byte) + 256 * v) = uint b" "drop_bit 8 (uint (b :: byte) + 256 * v) = v"
proof -
  have b: "0 \<le> uint b" "uint b < 256" using uint_lt2p [of b] by simp_all
  then show "take_bit 8 (uint b + 256 * v) = uint b" by (simp add: take_bit_eq_mod)
  show "drop_bit 8 (uint b + 256 * v) = v" using b by (simp add: drop_bit_eq_div)
qed

lemma xor_little:
  "length x = length y \<Longrightarrow> to_little (length x) (from_little x XOR from_little y) = map2 (XOR) x y"
proof (induction x y rule: list_induct2)
  case (Cons a x b y)
  have "word_of_int (uint a XOR uint b) = a XOR b"
    by (metis word_of_int_uint wi_hom_syms(1) of_int_xor_eq)
  with Cons show ?case by (simp add: little_step take_bit_xor drop_bit_xor)
qed simp

lemma xor_bytes_map:
  "xor_bytes (map f is) (map g is) (length is) = map (\<lambda>i. f i XOR g i) is"
proof -
  have "map2 (XOR) (map f is) (map g is) = map (\<lambda>i. f i XOR g i) is"
    by (induction "is") auto
  then show ?thesis using xor_little [of "map f is" "map g is"] by (simp add: xor_bytes_def)
qed

lemma slice_shifted:
  assumes "i \<le> start" "stop \<le> length data"
  shows "slice data (start - i) (stop - i) = map (\<lambda>p. data ! (p - i)) [start..<stop]"
proof (rule nth_equalityI)
  show "length (slice data (start - i) (stop - i)) = length (map (\<lambda>p. data ! (p - i)) [start..<stop])"
    using assms by (simp add: slice_def)
  fix n
  assume "n < length (slice data (start - i) (stop - i))"
  then have n: "n < stop - start" using assms by (simp add: slice_def)
  then show "slice data (start - i) (stop - i) ! n = map (\<lambda>p. data ! (p - i)) [start..<stop] ! n"
    using assms by (simp add: slice_def add.commute)
qed

section \<open>The reference\<close>

text \<open>The hash of one window for one triplet, and the counts and checksum of the windows up to \<open>m\<close>.\<close>

definition window_hash :: "byte list \<Rightarrow> byte \<times> nat \<times> nat \<Rightarrow> nat \<Rightarrow> byte" where
  "window_hash data triplet i =
     (case triplet of (ms, j, k) \<Rightarrow>
        pearson (pearson (first_lookup ms (data ! i) XOR data ! (i - (4 - j))) XOR data ! (i - (4 - k))))"

definition hits :: "byte list \<Rightarrow> nat \<Rightarrow> nat \<Rightarrow> byte \<times> nat \<times> nat \<Rightarrow> nat \<Rightarrow> nat" where
  "hits data a m triplet b = length (filter (\<lambda>i. window_hash data triplet i = word_of_nat b) [a..<m])"

definition windows_up_to :: "byte list \<Rightarrow> nat \<Rightarrow> tlsh_state" where
  "windows_up_to data m =
     \<lparr>buckets = map (\<lambda>b. sum_list (map (\<lambda>t. hits data 4 m t b) triplets)) [0..<128],
      checksum = foldl (\<lambda>c i. pearson (check2 (data ! i) (data ! (i - 1)) XOR c)) 0 [4..<m]\<rparr>"

definition tlsh_reference :: "byte list \<Rightarrow> string option" where
  "tlsh_reference data =
     (let n = int (length data) in
      if n < tlsh_min_bytes \<or> tlsh_max_bytes < n then None
      else tlsh_encode n (windows_up_to data (length data)))"

lemma hits_split: "a \<le> m \<Longrightarrow> m \<le> n \<Longrightarrow> hits data a n t b = hits data a m t b + hits data m n t b"
  using upt_add_eq_append [of a m "n - m"] by (simp add: hits_def)

lemma count_list_map: "count_list (map f xs) y = length (filter (\<lambda>i. f i = y) xs)"
  by (induction xs) auto

lemma fold_buckets:
  assumes "length bs = 128"
  shows "foldl (\<lambda>bs t. map (\<lambda>b. bs ! b + c t b) [0..<128]) bs ts =
    map (\<lambda>b. bs ! b + sum_list (map (\<lambda>t. c t b) ts)) [0..<128]"
  using assms
proof (induction ts arbitrary: bs)
  case Nil
  then show ?case by (simp add: list_eq_iff_nth_eq)
next
  case (Cons t ts)
  have "foldl (\<lambda>bs t. map (\<lambda>b. bs ! b + c t b) [0..<128]) bs (t # ts) =
      foldl (\<lambda>bs t. map (\<lambda>b. bs ! b + c t b) [0..<128]) (map (\<lambda>b. bs ! b + c t b) [0..<128]) ts"
    by simp
  also have "\<dots> = map (\<lambda>b. map (\<lambda>b. bs ! b + c t b) [0..<128] ! b + sum_list (map (\<lambda>t. c t b) ts)) [0..<128]"
    by (rule Cons.IH) simp
  also have "\<dots> = map (\<lambda>b. bs ! b + sum_list (map (\<lambda>t. c t b) (t # ts))) [0..<128]"
    by (rule map_cong) (auto simp: add.assoc)
  finally show ?case .
qed

lemma triplet_bytes_windows:
  assumes lanes: "\<And>i. i < 5 \<Longrightarrow> lanes ! i = map (\<lambda>p. data ! (p - i)) [start..<stop]"
  shows "triplet_bytes lanes (stop - start) t = map (window_hash data t) [start..<stop]"
proof -
  obtain ms j k where t: "t = (ms, j, k)" by (cases t)
  let ?is = "[start..<stop]"
  have x: "xor_bytes (map f ?is) (map g ?is) (stop - start) = map (\<lambda>i. f i XOR g i) ?is" for f g
    using xor_bytes_map [of f ?is g] by simp
  show ?thesis
    unfolding t triplet_bytes_def window_hash_def
    using lanes [of 0] lanes [of "4 - j"] lanes [of "4 - k"]
    by (simp add: Let_def x comp_def)
qed

lemma tlsh_chunk_windows:
  assumes "4 \<le> start" "start \<le> stop" "stop \<le> length data"
  shows "tlsh_chunk data start stop (windows_up_to data start) = windows_up_to data stop"
proof -
  let ?lanes = "map (\<lambda>i. slice data (start - i) (stop - i)) [0..<5]"
  have lanes: "?lanes ! i = map (\<lambda>p. data ! (p - i)) [start..<stop]" if "i < 5" for i
    using that assms slice_shifted [of i start stop data] by simp
  have bytes: "triplet_bytes ?lanes (stop - start) t = map (window_hash data t) [start..<stop]" for t
    by (rule triplet_bytes_windows) (rule lanes)
  have "foldl (\<lambda>bs t. map (\<lambda>b. bs ! b + count_list (triplet_bytes ?lanes (stop - start) t) (word_of_nat b)) [0..<128])
      (buckets (windows_up_to data start)) triplets =
      map (\<lambda>b. sum_list (map (\<lambda>t. hits data 4 start t b) triplets) +
        sum_list (map (\<lambda>t. hits data start stop t b) triplets)) [0..<128]"
    unfolding bytes count_list_map hits_def [symmetric]
    by (subst fold_buckets) (simp_all add: windows_up_to_def)
  also have "\<dots> = buckets (windows_up_to data stop)"
    using assms hits_split [of 4 start stop data]
    by (simp add: windows_up_to_def sum_list_addf [symmetric] add.commute)
  finally have b: "foldl (\<lambda>bs t. map (\<lambda>b. bs ! b +
      count_list (triplet_bytes ?lanes (stop - start) t) (word_of_nat b)) [0..<128])
      (buckets (windows_up_to data start)) triplets = buckets (windows_up_to data stop)" .
  have l01: "?lanes ! 0 = map (\<lambda>p. data ! p) [start..<stop]" "?lanes ! 1 = map (\<lambda>p. data ! (p - 1)) [start..<stop]"
    using lanes [of 0] lanes [of 1] by simp_all
  have z: "zip (map f is) (map g is) = map (\<lambda>i. (f i, g i)) is" for f g :: "nat \<Rightarrow> byte" and "is"
    by (induction "is") auto
  have fm: "foldl (\<lambda>c (x, y). h c x y) c (map (\<lambda>i. (f i, g i)) is) = foldl (\<lambda>c i. h c (f i) (g i)) c is"
    for h :: "byte \<Rightarrow> byte \<Rightarrow> byte \<Rightarrow> byte" and f g :: "nat \<Rightarrow> byte" and c "is"
    by (induction "is" arbitrary: c) auto
  have "[4..<stop] = [4..<start] @ [start..<stop]"
    using assms upt_add_eq_append [of 4 start "stop - start"] by simp
  then have c: "foldl (\<lambda>c (x, y). pearson (check2 x y XOR c)) (checksum (windows_up_to data start))
      (zip (?lanes ! 0) (?lanes ! 1)) = checksum (windows_up_to data stop)"
    unfolding l01 z fm by (simp add: windows_up_to_def)
  show ?thesis
    unfolding tlsh_chunk_def Let_def b c by simp
qed

lemma scan_from:
  assumes "4 \<le> start" "start \<le> length data" "0 < chunk"
  shows "foldl (\<lambda>st s. tlsh_chunk data s (min (length data) (s + chunk)) st) (windows_up_to data start)
    (range_step start (length data) chunk) = windows_up_to data (length data)"
  using assms
proof (induction start "length data" chunk rule: range_step.induct)
  case (1 a s)
  show ?case
  proof (cases "a < length data")
    case True
    let ?m = "min (length data) (a + s)"
    have step: "tlsh_chunk data a ?m (windows_up_to data a) = windows_up_to data ?m"
      by (rule tlsh_chunk_windows) (use 1 True in auto)
    show ?thesis
    proof (cases "a + s \<le> length data")
      case le: True
      with 1 True step show ?thesis
        by (subst range_step.simps) (simp add: min_absorb2)
    next
      case False
      then have "range_step (a + s) (length data) s = []" by (subst range_step.simps) simp
      with False True step 1 show ?thesis by (subst range_step.simps) (simp add: min_absorb1)
    qed
  next
    case False
    with 1 show ?thesis by (subst range_step.simps) simp
  qed
qed

lemma scan_windows:
  assumes "4 \<le> length data" "0 < chunk"
  shows "tlsh_scan chunk data = windows_up_to data (length data)"
proof -
  have "windows_up_to data 4 = \<lparr>buckets = replicate 128 0, checksum = 0\<rparr>"
    by (simp add: windows_up_to_def hits_def list_eq_iff_nth_eq)
  with scan_from [of 4 data chunk] assms show ?thesis by (simp add: tlsh_scan_def)
qed

section \<open>The bucket of a length\<close>

lemma bisect_left_spec:
  assumes "sorted xs" "lo \<le> hi" "hi \<le> length xs" "\<forall>i<lo. xs ! i < x" "\<forall>i. hi \<le> i \<longrightarrow> i < length xs \<longrightarrow> x \<le> xs ! i"
  shows "lo \<le> bisect_left xs x lo hi \<and> bisect_left xs x lo hi \<le> hi \<and>
    (\<forall>i<bisect_left xs x lo hi. xs ! i < x) \<and>
    (\<forall>i. bisect_left xs x lo hi \<le> i \<longrightarrow> i < length xs \<longrightarrow> x \<le> xs ! i)"
  using assms
proof (induction xs x lo hi rule: bisect_left.induct)
  case (1 xs x lo hi)
  show ?case
  proof (cases "lo < hi")
    case True
    let ?mid = "(lo + hi) div 2"
    have mid: "lo \<le> ?mid" "?mid < hi" using True by simp_all
    show ?thesis
    proof (cases "xs ! ?mid < x")
      case less: True
      have "\<forall>i<?mid + 1. xs ! i < x"
      proof (intro allI impI)
        fix i
        assume "i < ?mid + 1"
        then have "xs ! i \<le> xs ! ?mid"
          using mid 1(5) by (intro sorted_nth_mono [OF 1(3)]) auto
        then show "xs ! i < x" using less by simp
      qed
      then have "?mid + 1 \<le> bisect_left xs x (?mid + 1) hi \<and> bisect_left xs x (?mid + 1) hi \<le> hi \<and>
          (\<forall>i<bisect_left xs x (?mid + 1) hi. xs ! i < x) \<and>
          (\<forall>i. bisect_left xs x (?mid + 1) hi \<le> i \<longrightarrow> i < length xs \<longrightarrow> x \<le> xs ! i)"
        using "1.IH"(1) [OF True refl less 1(3) _ 1(5) _ 1(7)] mid by simp
      moreover have "bisect_left xs x lo hi = bisect_left xs x (?mid + 1) hi"
        by (subst bisect_left.simps) (simp add: Let_def True less)
      ultimately show ?thesis using mid by simp
    next
      case False
      have "\<forall>i. ?mid \<le> i \<longrightarrow> i < length xs \<longrightarrow> x \<le> xs ! i"
      proof (intro allI impI)
        fix i
        assume "?mid \<le> i" "i < length xs"
        then have "xs ! ?mid \<le> xs ! i"
          by (intro sorted_nth_mono [OF 1(3)]) auto
        then show "x \<le> xs ! i" using False by simp
      qed
      then have "lo \<le> bisect_left xs x lo ?mid \<and> bisect_left xs x lo ?mid \<le> ?mid \<and>
          (\<forall>i<bisect_left xs x lo ?mid. xs ! i < x) \<and>
          (\<forall>i. bisect_left xs x lo ?mid \<le> i \<longrightarrow> i < length xs \<longrightarrow> x \<le> xs ! i)"
        using "1.IH"(2) [OF True refl False 1(3) _ _ 1(6)] mid 1(5) by simp
      moreover have "bisect_left xs x lo hi = bisect_left xs x lo ?mid"
        by (subst bisect_left.simps) (simp add: Let_def True False)
      ultimately show ?thesis using mid by simp
    qed
  next
    case False
    then have "bisect_left xs x lo hi = lo" by (subst bisect_left.simps) simp
    with False 1(4,6,7) show ?thesis by simp
  qed
qed

lemma topval_sorted: "sorted topval"
  by code_simp

lemma topval_length: "length topval = 170"
  by code_simp

lemma topval_ends: "hd topval = 1" "last topval = 4224281216"
  by code_simp+

lemma lvalue_of_spec:
  assumes "1 < n" "n \<le> tlsh_max_bytes"
  shows "0 < lvalue_of n" "lvalue_of n < 170" "topval ! (lvalue_of n - 1) < n" "n \<le> topval ! lvalue_of n"
proof -
  let ?r = "bisect_left topval n 0 (length topval)"
  have r: "?r \<le> length topval" "\<forall>i<?r. topval ! i < n" "\<forall>i. ?r \<le> i \<longrightarrow> i < length topval \<longrightarrow> n \<le> topval ! i"
    using bisect_left_spec [OF topval_sorted, of 0 "length topval" n] by simp_all
  have e: "lvalue_of n = ?r" using assms(1) by (simp add: lvalue_of_def topval_ends)
  have last: "topval ! 169 = tlsh_max_bytes"
    using last_conv_nth [of topval] topval_length by (force simp: tlsh_max_bytes_def)
  have "?r \<noteq> 170" using r(2) [rule_format, of 169] last assms(2) by (intro notI) simp
  then show lt: "lvalue_of n < 170" using r(1) e topval_length by simp
  have "topval ! 0 = 1" using topval_ends(1) by (simp add: hd_conv_nth topval_length flip: length_greater_0_conv)
  then have "?r \<noteq> 0" using r(3) [rule_format, of 0] assms(1) topval_length by (intro notI) simp
  then show pos: "0 < lvalue_of n" using e by simp
  show "topval ! (lvalue_of n - 1) < n" using r(2) e pos by simp
  show "n \<le> topval ! lvalue_of n" using r(3) e lt topval_length by simp
qed

section \<open>Writing and reading\<close>

lemma nibble_masks: "(0xF0 :: byte) = push_bit 4 (mask 4)" "(0x0F :: byte) = mask 4"
  by (simp_all add: mask_eq_exp_minus_1 push_bit_eq_mult)

lemma swap_nibbles_bit:
  "n < 8 \<Longrightarrow> bit (swap_nibbles b) n = bit b (if n < 4 then n + 4 else n - 4)"
  unfolding swap_nibbles_def nibble_masks by (auto simp: bit_simps add.commute)

lemma swap_nibbles_twice: "swap_nibbles (swap_nibbles b) = b"
proof (rule bit_word_eqI)
  fix n
  assume "n < LENGTH(8)"
  then have n: "n < 8" by simp
  then have m: "(if n < 4 then n + 4 else n - 4) < 8" by auto
  have "n - 4 < 4" using n by arith
  then show "bit (swap_nibbles (swap_nibbles b)) n = bit b n"
    unfolding swap_nibbles_bit [OF n] swap_nibbles_bit [OF m] by (cases "n < 4") simp_all
qed

lemma upper_hex_facts:
  assumes "d < 16"
  shows "is_upper_hex (upper_hex_char d)" "hex_val (upper_hex_char d) = d"
    "\<not> is_space (upper_hex_char d)" "upper_ascii_char (upper_hex_char d) = upper_hex_char d"
  using assms
  by (auto simp: upper_hex_char_def is_upper_hex_def hex_val_def is_space_def upper_ascii_char_def code_point_def Let_def)

lemma byte_nibbles: "unat (b :: byte) div 16 < 16"
  using unsigned_less [of b, where 'a = nat] by simp

lemma hex_upper_simps [simp]:
  "hex_upper [] = []"
  "hex_upper (b # bs) = upper_hex_char (unat b div 16) # upper_hex_char (unat b mod 16) # hex_upper bs"
  by (simp_all add: hex_upper_def)

lemma from_hex_upper: "from_hex (hex_upper bs) = bs"
proof (induction bs)
  case (Cons b bs)
  have "word_of_nat (16 * (unat b div 16) + unat b mod 16) = b"
    unfolding mult_div_mod_eq by simp
  with Cons show ?case by (simp add: upper_hex_facts byte_nibbles)
qed simp

lemma hex_upper_chars:
  assumes "c \<in> set (hex_upper bs)"
  shows "is_upper_hex c \<and> \<not> is_space c \<and> upper_ascii_char c = c"
  using assms byte_nibbles by (induction bs) (auto simp: upper_hex_facts)

lemma hex_upper_length: "length (hex_upper bs) = 2 * length bs"
  by (induction bs) auto

lemma canonical_hex_upper:
  assumes "length bs = 35"
  shows "canonical_tlsh (hex_upper bs) = Inr (hex_upper bs)"
proof -
  let ?h = "hex_upper bs"
  have f: "filter (\<lambda>c. \<not> is_space c) ?h = ?h"
    using hex_upper_chars by (intro filter_True) blast
  have m: "map upper_ascii_char ?h = ?h"
    using hex_upper_chars by (intro map_idI) blast
  have "tlsh_pattern ?h"
    using hex_upper_chars assms by (auto simp: tlsh_pattern_def hex_upper_length list_all_iff)
  then show ?thesis
    unfolding canonical_tlsh_def Let_def f m by (simp add: hex_upper_length assms)
qed

lemma tlsh_encode_form:
  assumes "tlsh_encode n st = Some d"
  obtains c q code where "d = hex_upper ([swap_nibbles (checksum st), swap_nibbles (word_of_nat (lvalue_of n)), q] @ code)"
    "length code = 32"
  using assms that by (auto simp: tlsh_encode_def Let_def split: if_splits)

lemma tlsh_parts_digest:
  assumes "tlsh_encode n st = Some d"
  shows "canonical_tlsh d = Inr d"
    "\<exists>p. tlsh_parts d = Inr p \<and> part_checksum p = checksum st \<and> part_lvalue p = word_of_nat (lvalue_of n)"
proof -
  obtain q code where d: "d = hex_upper ([swap_nibbles (checksum st), swap_nibbles (word_of_nat (lvalue_of n)), q] @ code)"
    and l: "length code = 32"
    using assms by (rule tlsh_encode_form)
  then show c: "canonical_tlsh d = Inr d"
    using canonical_hex_upper [of "[swap_nibbles (checksum st), swap_nibbles (word_of_nat (lvalue_of n)), q] @ code"]
    by (simp del: hex_upper_simps)
  show "\<exists>p. tlsh_parts d = Inr p \<and> part_checksum p = checksum st \<and> part_lvalue p = word_of_nat (lvalue_of n)"
    unfolding tlsh_parts_def c using d by (simp add: from_hex_upper Let_def swap_nibbles_twice del: hex_upper_simps)
qed

section \<open>What the distance promises\<close>

lemma mod_diff_sym: "mod_diff x y r = mod_diff y x r"
  by (simp add: mod_diff_def Let_def abs_minus_commute)

lemma mod_diff_refl: "0 \<le> r \<Longrightarrow> mod_diff x x r = 0"
  by (simp add: mod_diff_def)

lemma mod_diff_nonneg: "\<bar>x - y\<bar> \<le> r \<Longrightarrow> 0 \<le> mod_diff x y r"
  by (simp add: mod_diff_def Let_def)

lemma byte_bounds: "0 \<le> uint (b :: byte)" "uint (b :: byte) < 256"
  using uint_lt2p [of b] by simp_all

definition pair_step :: "int \<times> byte \<times> byte \<Rightarrow> int \<times> byte \<times> byte" where
  "pair_step s = (case s of (diff, x, y) \<Rightarrow>
     let d = \<bar>uint (x AND 3) - uint (y AND 3)\<bar> in
     (diff + (if d = 3 then 6 else d), drop_bit 2 x, drop_bit 2 y))"

lemma pair_diff_steps: "pair_diff x y = fst (pair_step (pair_step (pair_step (pair_step (0, x, y)))))"
  by (simp add: pair_diff_def pair_step_def upt_conv_Cons Let_def)

lemma pair_step_facts:
  "pair_step (d, x, x) = (d, drop_bit 2 x, drop_bit 2 x)"
  "0 \<le> d \<Longrightarrow> 0 \<le> fst (pair_step (d, x, y))"
  "pair_step (d, y, x) = (fst (pair_step (d, x, y)), snd (snd (pair_step (d, x, y))), fst (snd (pair_step (d, x, y))))"
  by (simp_all add: pair_step_def Let_def abs_minus_commute)

lemma pair_diff_refl: "pair_diff x x = 0"
  by (simp add: pair_diff_steps pair_step_facts(1))

lemma pair_diff_nonneg: "0 \<le> pair_diff x y"
  by (simp add: pair_diff_steps pair_step_def Let_def)

lemma pair_diff_sym: "pair_diff x y = pair_diff y x"
  by (simp add: pair_diff_steps pair_step_def Let_def abs_minus_commute)

lemma body_diff_sym: "sum_list (map (\<lambda>(x, y). pair_diff x y) (zip xs ys)) =
    sum_list (map (\<lambda>(x, y). pair_diff x y) (zip ys xs))"
  by (induction xs ys rule: list_induct2') (auto simp: pair_diff_sym)

lemma body_diff_nonneg: "0 \<le> sum_list (map (\<lambda>(x, y). pair_diff x y) (zip xs ys))"
  using pair_diff_nonneg by (intro sum_list_nonneg) auto

lemma parts_distance_sym: "parts_distance a b = parts_distance b a"
  unfolding parts_distance_def Let_def mod_diff_sym [of "uint (part_lvalue a)" "uint (part_lvalue b)"]
    mod_diff_sym [of "uint (part_q1 a)" "uint (part_q1 b)"] mod_diff_sym [of "uint (part_q2 a)" "uint (part_q2 b)"]
    body_diff_sym [of "part_body a" "part_body b"] eq_commute [of "part_checksum a" "part_checksum b"]
  by (simp add: mod_diff_sym [of "uint (part_q1 a)" "uint (part_q1 b)"]
      mod_diff_sym [of "uint (part_q2 a)" "uint (part_q2 b)"])

lemma parts_distance_refl: "parts_distance a a = 0"
proof -
  have "sum_list (map (\<lambda>(x, y). pair_diff x y) (zip xs xs)) = 0" for xs
    by (induction xs) (auto simp: pair_diff_refl)
  then show ?thesis by (simp add: parts_distance_def Let_def mod_diff_refl)
qed

text \<open>The distance on the ring of the 256 length buckets (\<open>_lvalue_predicate\<close> computes it in SQL).\<close>

lemma parts_distance_length:
  assumes q: "uint (part_q1 a) < 16" "uint (part_q1 b) < 16" "uint (part_q2 a) < 16" "uint (part_q2 b) < 16"
  defines "l \<equiv> mod_diff (uint (part_lvalue a)) (uint (part_lvalue b)) 256"
  shows "0 \<le> parts_distance a b" "2 \<le> l \<Longrightarrow> 12 * l \<le> parts_distance a b"
proof -
  have l: "0 \<le> l" unfolding l_def
    using byte_bounds [of "part_lvalue a"] byte_bounds [of "part_lvalue b"] by (intro mod_diff_nonneg) linarith
  have q1: "0 \<le> mod_diff (uint (part_q1 a)) (uint (part_q1 b)) 16"
    using q byte_bounds [of "part_q1 a"] byte_bounds [of "part_q1 b"] by (intro mod_diff_nonneg) linarith
  have q2: "0 \<le> mod_diff (uint (part_q2 a)) (uint (part_q2 b)) 16"
    using q byte_bounds [of "part_q2 a"] byte_bounds [of "part_q2 b"] by (intro mod_diff_nonneg) linarith
  show "0 \<le> parts_distance a b" "2 \<le> l \<Longrightarrow> 12 * l \<le> parts_distance a b"
    using l q1 q2 body_diff_nonneg [of "part_body a" "part_body b"]
    by (auto simp: parts_distance_def Let_def l_def [symmetric])
qed

lemma tlsh_parts_error: "tlsh_parts d = Inl e \<Longrightarrow> e = FuzzyValueError tlsh_form"
  by (auto simp: tlsh_parts_def canonical_tlsh_def Let_def split: if_splits)

lemma tlsh_parts_quarters:
  assumes "tlsh_parts d = Inr p"
  shows "uint (part_q1 p) < 16" "uint (part_q2 p) < 16"
proof -
  obtain q where q: "part_q1 p = q AND 0x0F" "part_q2 p = drop_bit 4 q"
    using assms by (auto simp: tlsh_parts_def Let_def split: sum.splits)
  show "uint (part_q1 p) < 16"
    unfolding q nibble_masks take_bit_eq_mask [symmetric] unsigned_take_bit_eq by (simp add: take_bit_eq_mod)
  show "uint (part_q2 p) < 16"
    unfolding q unsigned_drop_bit_eq using byte_bounds [of q] by (simp add: drop_bit_eq_div take_bit_eq_mod)
qed

section \<open>Properties\<close>

text \<open>C31: Computing the digest a mebibyte at a time, with shifted copies of the bytes and one XOR of two big integers per step, gives the digest of the reference, which hashes the windows of five bytes one by one.\<close>

theorem tlsh_digest_reference: "tlsh_digest tlsh_chunk_size data = tlsh_reference data"
proof (cases "int (length data) < tlsh_min_bytes")
  case True
  then show ?thesis by (simp add: tlsh_digest_def tlsh_reference_def)
next
  case False
  then have "4 \<le> length data" by (simp add: tlsh_min_bytes_def)
  then have "tlsh_scan tlsh_chunk_size data = windows_up_to data (length data)"
    by (rule scan_windows) (simp add: tlsh_chunk_size_def)
  then show ?thesis unfolding tlsh_digest_def tlsh_reference_def Let_def by simp
qed

text \<open>A digest that is produced is already in its stored form, and reading it gives back the length bucket: the place in the table of bounds between which the length of the input lies.\<close>

theorem tlsh_digest_reads_back:
  "case tlsh_digest chunk data of
     None \<Rightarrow> True
   | Some d \<Rightarrow> canonical_tlsh d = Inr d \<and> tlsh_lvalue d = Inr (int (lvalue_of (int (length data)))) \<and>
       topval ! (lvalue_of (int (length data)) - 1) < int (length data) \<and>
       int (length data) \<le> topval ! lvalue_of (int (length data))"
proof (cases "tlsh_digest chunk data")
  case (Some d)
  let ?n = "int (length data)"
  have e: "tlsh_encode ?n (tlsh_scan chunk data) = Some d" and n: "1 < ?n" "?n \<le> tlsh_max_bytes"
    using Some by (auto simp: tlsh_digest_def tlsh_min_bytes_def Let_def split: if_splits)
  obtain p where p: "tlsh_parts d = Inr p" "part_lvalue p = word_of_nat (lvalue_of ?n)"
    using tlsh_parts_digest(2) [OF e] by blast
  have "uint (word_of_nat (lvalue_of ?n) :: byte) = int (lvalue_of ?n)"
    using lvalue_of_spec(2) [OF n] unfolding unsigned_of_nat by (simp add: take_bit_eq_mod)
  with p tlsh_parts_digest(1) [OF e] lvalue_of_spec [OF n] Some show ?thesis
    by (simp add: tlsh_lvalue_def)
qed simp

text \<open>The distance is symmetric, and the distance of a digest to itself is zero; a text that is no digest is refused with the sentence of the expected form, from either side.\<close>

theorem tlsh_distance_laws:
  "tlsh_distance a b = tlsh_distance b a \<and>
   tlsh_distance a a = (if is_ok (canonical_tlsh a) then Inr 0 else Inl (FuzzyValueError tlsh_form))"
proof
  show "tlsh_distance a b = tlsh_distance b a"
    by (auto simp: tlsh_distance_def parts_distance_sym dest!: tlsh_parts_error split: sum.splits)
  have "is_ok (canonical_tlsh a) = is_ok (tlsh_parts a)"
    by (auto simp: tlsh_parts_def Let_def split: sum.splits)
  then show "tlsh_distance a a = (if is_ok (canonical_tlsh a) then Inr 0 else Inl (FuzzyValueError tlsh_form))"
    by (auto simp: tlsh_distance_def parts_distance_refl dest!: tlsh_parts_error split: sum.splits)
qed

end
