(* ===== verification/Ssdeep.thy ===== *)
theory Ssdeep
  imports Tlsh "HOL-Library.List_Lexorder" "HOL-Library.Char_ord"
begin

text \<open>
  The ssdeep half of \<open>fuzzyhash.py\<close> and the forms a similarity search accepts: the rolling scan
  and the triggers of each block size, the digest, the comparison with its edit distance, and the
  tokens of the indexed filter. The lemmas show that the scan records exactly the triggers of a
  window of seven bytes, that the row-by-row distance is the least cost of an edit script, and
  that digests without a common token never score.
\<close>

section \<open>Constants\<close>

abbreviation rolling_window :: nat where
  "rolling_window \<equiv> 7"

abbreviation spamsum_length :: nat where
  "spamsum_length \<equiv> 64"

definition b64 :: string where
  "b64 = ''ABCDEFGHIJKLMNOPQRSTUVWXYZabcdefghijklmnopqrstuvwxyz0123456789+/''"

definition mask32 :: "int \<Rightarrow> int" where
  "mask32 x = x AND 0xFFFFFFFF"

definition ssdeep_max_bytes :: int where
  "ssdeep_max_bytes = push_bit 30 3 * 64"

text \<open>A step of the partial FNV hash on six bits (the table \<open>_FNV\<close>), and \<open>_fnv\<close>.\<close>

definition fnv_step :: "int \<Rightarrow> byte \<Rightarrow> int" where
  "fnv_step h c = ((h * 0x01000193) XOR (uint c AND 0x3F)) AND 0x3F"

definition fnv :: "byte list \<Rightarrow> nat \<Rightarrow> nat \<Rightarrow> int" where
  "fnv view start stop = foldl fnv_step 0x27 (slice view start stop)"

definition b64_char :: "int \<Rightarrow> char" where
  "b64_char h = b64 ! nat h"

section \<open>The scan\<close>

record level =
  lv_count :: nat
  lv_first :: "nat list"
  lv_last :: int

definition fresh_level :: level where
  "fresh_level = \<lparr>lv_count = 0, lv_first = [], lv_last = -1\<rparr>"

definition bump :: "nat \<Rightarrow> level \<Rightarrow> level" where
  "bump t lev =
     \<lparr>lv_count = lv_count lev + 1,
      lv_first = (if lv_count lev < 64 then lv_first lev @ [t] else lv_first lev),
      lv_last = int t\<rparr>"

record rolling =
  h1 :: int
  h2 :: int
  h3 :: int

definition roll_step :: "rolling \<Rightarrow> byte \<Rightarrow> byte \<Rightarrow> rolling" where
  "roll_step r c gone =
     (let h2' = h2 r + 7 * uint c - h1 r;
          h1' = h1 r + uint c - uint gone;
          h3' = mask32 (push_bit 5 (h3 r)) XOR uint c
      in \<lparr>h1 = h1', h2 = h2', h3 = h3'\<rparr>)"

definition roll_sum :: "rolling \<Rightarrow> int" where
  "roll_sum r = h1 r + h2 r + h3 r"

fun bit_length :: "nat \<Rightarrow> nat" where
  "bit_length n = (if n = 0 then 0 else Suc (bit_length (n div 2)))"

declare bit_length.simps [simp del]

definition trailing_zeros :: "int \<Rightarrow> nat" where
  "trailing_zeros q = bit_length (nat (q AND - q)) - 1"

record scan_state =
  rolling_hash :: rolling
  hist :: "nat list"
  levels :: "level list"

definition scan_step :: "nat \<Rightarrow> nat \<Rightarrow> scan_state \<Rightarrow> nat \<times> byte \<times> byte \<Rightarrow> scan_state" where
  "scan_step lo high st entry =
     (case entry of (t, c, gone) \<Rightarrow>
        let r = roll_step (rolling_hash st) c gone;
            horg = mask32 (roll_sum r + 1);
            st = st\<lparr>rolling_hash := r\<rparr>
        in if horg mod 3 \<noteq> 0 \<or> horg = 0 then st
           else
             let q = horg div 3;
                 tz = trailing_zeros q;
                 tz = (if high < tz then high else tz);
                 st = st\<lparr>hist := (hist st)[tz := hist st ! tz + 1]\<rparr>
             in if lo \<le> tz
                then st\<lparr>levels := foldl (\<lambda>ls i. ls[i := bump t (ls ! i)]) (levels st) [lo..<tz + 1]\<rparr>
                else st)"

definition scan_start :: "nat \<Rightarrow> scan_state" where
  "scan_start high =
     \<lparr>rolling_hash = \<lparr>h1 = 0, h2 = 0, h3 = 0\<rparr>, hist = replicate (high + 2) 0,
      levels = replicate (high + 1) fresh_level\<rparr>"

definition scan_entries :: "byte list \<Rightarrow> (nat \<times> byte \<times> byte) list" where
  "scan_entries data = zip [0..<length data] (zip data (replicate rolling_window 0 @ data))"

text \<open>The running sums from the highest, as the loop builds them.\<close>

definition counts_of :: "nat \<Rightarrow> nat list \<Rightarrow> nat list" where
  "counts_of high hs =
     snd (foldl (\<lambda>(running, counts) i. let running = running + hs ! i in (running, counts[i := running]))
       (0, replicate (high + 1) 0) (rev [0..<high + 1]))"

definition scan :: "byte list \<Rightarrow> nat \<Rightarrow> nat \<Rightarrow> nat list \<times> level list \<times> int" where
  "scan data lo high =
     (let st = foldl (scan_step lo high) (scan_start high) (scan_entries data)
      in (counts_of high (hist st), levels st, mask32 (roll_sum (rolling_hash st))))"

section \<open>The digest\<close>

text \<open>The two loops over block sizes; both stop because a block size outgrows the input.\<close>

lemma block_outgrows: "192 * 2 ^ i < n \<Longrightarrow> i < (n :: nat)"
  using less_exp [of i] by linarith

function first_guess :: "nat \<Rightarrow> nat \<Rightarrow> nat" where
  "first_guess n guess = (if (3 * 2 ^ guess) * spamsum_length < n then first_guess n (guess + 1) else guess)"
  by pat_completeness auto

termination
  by (relation "measure (\<lambda>(n, guess). n - guess)") (auto dest!: block_outgrows intro!: diff_less_mono2)

function largest_block :: "nat \<Rightarrow> nat \<Rightarrow> nat" where
  "largest_block n bi =
     (if (3 * 2 ^ bi) * spamsum_length < n
      then if bi + 1 = 29 then bi + 1 else largest_block n (bi + 1)
      else bi)"
  by pat_completeness auto

termination
  by (relation "measure (\<lambda>(n, bi). n - bi)") (auto dest!: block_outgrows intro!: diff_less_mono2)

declare first_guess.simps [simp del] largest_block.simps [simp del]

function last_block :: "nat list \<Rightarrow> nat \<Rightarrow> nat \<Rightarrow> nat" where
  "last_block counts high k = (if k < high \<and> 0 < counts ! k then last_block counts high (k + 1) else k)"
  by pat_completeness auto

termination
  by (relation "measure (\<lambda>(counts, high, k). high - k)") auto

declare last_block.simps [simp del]

fun pick_block :: "nat list \<Rightarrow> nat \<Rightarrow> nat" where
  "pick_block counts 0 = 0"
| "pick_block counts (Suc k) = (if counts ! Suc k < 32 then pick_block counts k else Suc k)"

definition digest_part :: "byte list \<Rightarrow> level \<Rightarrow> nat \<Rightarrow> int \<Rightarrow> bool \<Rightarrow> string" where
  "digest_part view lev keep roll full =
     (let n = length view;
          (chars, start) = foldl (\<lambda>(chars, start) pos.
              (chars @ [b64_char (fnv view start (pos + 1))], pos + 1)) ([], 0) (take keep (lv_first lev))
      in if full
         then chars @ (if roll \<noteq> 0 then [b64_char (fnv view start n)]
                       else if 63 < lv_count lev then [b64_char (fnv view start (nat (lv_last lev + 1)))]
                       else [])
         else
           let half_start = (if 31 \<le> lv_count lev then lv_first lev ! 30 + 1 else start)
           in chars @ (if roll \<noteq> 0 then [b64_char (fnv view half_start n)]
                       else if 32 \<le> lv_count lev then [b64_char (fnv view half_start (nat (lv_last lev + 1)))]
                       else []))"

definition ssdeep_digest :: "byte list \<Rightarrow> fuzzy_error + string" where
  "ssdeep_digest data =
     (let n = length data in
      if ssdeep_max_bytes < int n then Inl (FuzzyValueError ''input too large for ssdeep'')
      else
        let high = largest_block n 0 + 1;
            guess = first_guess n 0;
            lo = min guess high - 2;
            (counts, levels, roll) = scan data lo high;
            last = last_block counts high 0;
            pick = pick_block counts (min guess last);
            levels = (if pick < lo then fst (snd (scan data pick high)) else levels)
        in Inr (int_text (3 * 2 ^ pick) @ '':'' @ digest_part data (levels ! pick) 63 roll True @ '':'' @
             (if pick < last then digest_part data (levels ! (pick + 1)) 31 roll False
              else if roll \<noteq> 0 then [b64_char (fnv data 0 n)] else [])))"

section \<open>The comparison\<close>

text \<open>\<open>_eliminate\<close>: runs are cut to three, and \<open>None\<close> when more than 64 characters are left.\<close>

fun eliminate_from :: "char option \<Rightarrow> nat \<Rightarrow> string \<Rightarrow> string \<Rightarrow> string option" where
  "eliminate_from prev seq out [] = Some out"
| "eliminate_from prev seq out (ch # cs) =
     (if Some ch = prev
      then if 3 \<le> seq + 1 then eliminate_from prev 3 out cs
           else if spamsum_length < length (out @ [ch]) then None
           else eliminate_from prev (seq + 1) (out @ [ch]) cs
      else if spamsum_length < length (out @ [ch]) then None
      else eliminate_from (Some ch) 0 (out @ [ch]) cs)"

definition eliminate :: "string \<Rightarrow> string option" where
  "eliminate part = eliminate_from None 0 [] part"

definition grams :: "string \<Rightarrow> string list" where
  "grams s = map (\<lambda>i. slice s i (i + rolling_window)) [0..<length s - rolling_window + 1]"

definition has_common_substring :: "string \<Rightarrow> string \<Rightarrow> bool" where
  "has_common_substring s1 s2 =
     (if length s1 < rolling_window \<or> length s2 < rolling_window then False
      else list_ex (\<lambda>g. g \<in> set (grams s1)) (grams s2))"

definition edit_row :: "string \<Rightarrow> nat list \<Rightarrow> nat \<times> char \<Rightarrow> nat list" where
  "edit_row s2 prev entry =
     (case entry of (i1, a) \<Rightarrow>
        foldl (\<lambda>cur (i2, b). cur @ [min (min (prev ! (i2 + 1) + 1) (cur ! i2 + 1))
                                        (prev ! i2 + (if a = b then 0 else 2))])
          [i1 + 1] (enumerate 0 s2))"

definition edit_distance :: "string \<Rightarrow> string \<Rightarrow> nat" where
  "edit_distance s1 s2 = last (foldl (edit_row s2) [0..<length s2 + 1] (enumerate 0 s1))"

definition score_strings :: "string \<Rightarrow> string \<Rightarrow> int \<Rightarrow> int" where
  "score_strings s1 s2 block_size =
     (if length s1 < rolling_window \<or> length s2 < rolling_window then 0
      else if \<not> has_common_substring s1 s2 then 0
      else
        let score = int (edit_distance s1 s2);
            score = score * 64 div (int (length s1) + int (length s2));
            score = 100 * score div 64;
            score = 100 - score
        in if (99 + 7) div 7 * 3 \<le> block_size then score
           else min score (block_size div 3 * int (min (length s1) (length s2))))"

text \<open>\<open>int(text)\<close>: whitespace around, a sign, and single underscores between digits.\<close>

definition py_int :: "string \<Rightarrow> int option" where
  "py_int text =
     (let t = strip text;
          (negative, d) = (case t of
              [] \<Rightarrow> (False, [])
            | c # r \<Rightarrow> if c = CHR ''-'' then (True, r) else if c = CHR ''+'' then (False, r) else (False, t));
          groups = split_on (CHR ''_'') d
      in if list_all (\<lambda>g. g \<noteq> [] \<and> list_all is_digit_char g) groups
         then Some (if negative then - int (dec_value (concat groups)) else int (dec_value (concat groups)))
         else None)"

definition split_digest :: "string \<Rightarrow> (int \<times> string \<times> string) option" where
  "split_digest digest =
     (case split_on (CHR '':'') digest of
        [sz, p1, p2] \<Rightarrow> map_option (\<lambda>bs. (bs, p1, p2)) (py_int sz)
      | _ \<Rightarrow> None)"

definition ssdeep_compare :: "string \<Rightarrow> string \<Rightarrow> int" where
  "ssdeep_compare a b =
     (case (split_digest a, split_digest b) of
        (Some (bs1, a1, a2), Some (bs2, b1, b2)) \<Rightarrow>
          if bs1 \<noteq> bs2 \<and> bs1 * 2 \<noteq> bs2 \<and> (bs1 mod 2 = 1 \<or> bs1 div 2 \<noteq> bs2) then 0
          else (case (eliminate a1, eliminate a2, eliminate b1, eliminate b2) of
              (Some s1b1, Some s1b2, Some s2b1, Some s2b2) \<Rightarrow>
                if bs1 = bs2 \<and> s1b1 = s2b1 \<and> s1b2 = s2b2 then 100
                else if bs1 = bs2
                then max (score_strings s1b1 s2b1 bs1) (score_strings s1b2 s2b2 (bs1 * 2))
                else if bs1 * 2 = bs2 then score_strings s2b1 s1b2 bs2
                else score_strings s1b1 s2b2 bs1
            | _ \<Rightarrow> -1)
      | _ \<Rightarrow> -1)"

definition ssdeep_is_degenerate :: "string \<Rightarrow> bool" where
  "ssdeep_is_degenerate digest =
     (case split_digest digest of
        None \<Rightarrow> True
      | Some (bs, p1, p2) \<Rightarrow> (case eliminate p1 of None \<Rightarrow> True | Some s \<Rightarrow> s = []))"

definition or_empty :: "string option \<Rightarrow> string" where
  "or_empty s = (case s of None \<Rightarrow> [] | Some t \<Rightarrow> t)"

definition token_set :: "int \<Rightarrow> string \<Rightarrow> string \<Rightarrow> string list" where
  "token_set bs s1 s2 =
     (int_text bs @ ''#'' @ s1 @ ''|'' @ s2) #
     concat (map (\<lambda>(sz, part). if length part < rolling_window then []
        else map (\<lambda>g. int_text sz @ '':'' @ g) (grams part)) [(bs, s1), (bs * 2, s2)])"

text \<open>The text of the \<open>ValueError\<close> of a malformed digest is Python's own, and left empty.\<close>

definition ssdeep_tokens :: "string \<Rightarrow> fuzzy_error + string list" where
  "ssdeep_tokens digest =
     (case split_digest digest of
        None \<Rightarrow> Inl (FuzzyValueError [])
      | Some (bs, p1, p2) \<Rightarrow>
          Inr (sort (remdups (token_set bs (or_empty (eliminate p1)) (or_empty (eliminate p2))))))"

section \<open>The forms a search accepts\<close>

definition hex32_form :: string where
  "hex32_form = ''32 hexadecimal characters''"

definition ssdeep_form :: string where
  "ssdeep_form = ''blocksize:hash:hash, where the block size is 3 times a power of two and each hash is at most 64 base64 characters''"

definition is_lower_hex :: "char \<Rightarrow> bool" where
  "is_lower_hex c \<longleftrightarrow> (let n = code_point c in 48 \<le> n \<and> n \<le> 57 \<or> 97 \<le> n \<and> n \<le> 102)"

text \<open>The values are stripped before the patterns are asked, so a final \<open>$\<close> meets no newline.\<close>

definition canonical_imphash :: "string \<Rightarrow> fuzzy_error + string" where
  "canonical_imphash value =
     (let v = lower (strip value) in
      if length v = 32 \<and> list_all is_lower_hex v then Inr v else Inl (FuzzyValueError hex32_form))"

definition ssdeep_pattern :: "string \<Rightarrow> bool" where
  "ssdeep_pattern v =
     (case split_on (CHR '':'') v of
        [sz, p1, p2] \<Rightarrow>
          1 \<le> length sz \<and> length sz \<le> 10 \<and> list_all is_digit_char sz \<and>
          1 \<le> length p1 \<and> length p1 \<le> 64 \<and> list_all (\<lambda>c. c \<in> set b64) p1 \<and>
          length p2 \<le> 64 \<and> list_all (\<lambda>c. c \<in> set b64) p2
      | _ \<Rightarrow> False)"

definition canonical_ssdeep :: "string \<Rightarrow> fuzzy_error + string" where
  "canonical_ssdeep value =
     (let v = strip value in
      if \<not> ssdeep_pattern v then Inl (FuzzyValueError ssdeep_form)
      else
        let sz = int (dec_value (hd (split_on (CHR '':'') v))); unit = sz div 3 in
        if sz < 3 \<or> push_bit 30 3 < sz \<or> sz mod 3 \<noteq> 0 then Inl (FuzzyValueError ssdeep_form)
        else if unit AND (unit - 1) \<noteq> 0 then Inl (FuzzyValueError ssdeep_form)
        else Inr v)"

section \<open>Trailing zeros\<close>

lemma and_minus_even: "(2 * r) AND - (2 * r) = 2 * (r AND - r)" for r :: int
proof -
  have "- (2 * r) div 2 = - r" by (simp add: minus_mult_right del: mult_minus_right)
  then show ?thesis by (subst and_int_rec) simp
qed

lemma and_minus_odd: "odd q \<Longrightarrow> q AND - q = 1" for q :: int
proof -
  assume "odd q"
  then obtain k where k: "q = 2 * k + 1" by (elim oddE)
  have "(- (2 * k + 1)) div 2 = NOT k" by (simp add: not_int_def)
  then have "q AND - q = 1 + 2 * (k AND NOT k)"
    unfolding k by (subst and_int_rec) simp
  then show ?thesis by simp
qed

lemma and_minus_pos: "0 < q \<Longrightarrow> 0 < q AND - q" for q :: int
proof (induction "nat q" arbitrary: q rule: less_induct)
  case less
  show ?case
  proof (cases "even q")
    case True
    then obtain r where r: "q = 2 * r" by (elim evenE)
    then have "0 < r AND - r" using less by simp
    then show ?thesis unfolding r and_minus_even by simp
  qed (simp add: and_minus_odd)
qed

lemma bit_length_double: "0 < n \<Longrightarrow> bit_length (2 * n) = Suc (bit_length n)"
  by (subst bit_length.simps) simp

lemma bit_length_pos: "0 < n \<Longrightarrow> 0 < bit_length n"
  by (subst bit_length.simps) simp

lemma trailing_zeros_even: "0 < r \<Longrightarrow> trailing_zeros (2 * r) = Suc (trailing_zeros r)"
  using and_minus_pos [of r] bit_length_pos [of "nat (r AND - r)"]
  unfolding trailing_zeros_def and_minus_even by (simp add: nat_mult_distrib bit_length_double)

lemma trailing_zeros_odd: "odd q \<Longrightarrow> trailing_zeros q = 0"
  unfolding trailing_zeros_def by (simp add: and_minus_odd bit_length.simps)

lemma trailing_zeros_dvd: "0 < q \<Longrightarrow> i \<le> trailing_zeros q \<longleftrightarrow> 2 ^ i dvd q"
proof (induction "nat q" arbitrary: q i rule: less_induct)
  case less
  show ?case
  proof (cases "even q")
    case True
    then obtain r where r: "q = 2 * r" by (elim evenE)
    with less have rp: "0 < r" "nat r < nat q" by auto
    show ?thesis
    proof (cases i)
      case (Suc j)
      then show ?thesis using less.hyps [OF rp(2) rp(1), of j] rp(1) by (simp add: r trailing_zeros_even)
    qed simp
  next
    case False
    then show ?thesis
      by (cases i) (auto simp: trailing_zeros_odd dest: dvd_mult_left)
  qed
qed

section \<open>The rolling hash sees seven bytes\<close>

definition roll3_step :: "int \<Rightarrow> byte \<Rightarrow> int" where
  "roll3_step h c = mask32 (push_bit 5 h) XOR uint c"

text \<open>The rolling sums of one window, oldest byte first.\<close>

definition roll_of :: "byte list \<Rightarrow> rolling" where
  "roll_of w =
     \<lparr>h1 = sum_list (map uint w),
      h2 = sum_list (map (\<lambda>i. int (i + 1) * uint (w ! i)) [0..<length w]),
      h3 = foldl roll3_step 0 w\<rparr>"

text \<open>The seven bytes before position \<open>k\<close>, zeros before the start.\<close>

definition window_before :: "byte list \<Rightarrow> nat \<Rightarrow> byte list" where
  "window_before data k = slice (replicate rolling_window 0 @ data) k (k + rolling_window)"

lemma mask32_take_bit: "mask32 x = take_bit 32 x"
  by (simp add: mask32_def take_bit_eq_mask mask_eq_exp_minus_1)

lemma roll3_shift:
  assumes "bs \<noteq> []"
  shows "foldl roll3_step h bs = take_bit 32 (push_bit (5 * length bs) h) XOR foldl roll3_step 0 bs"
  using assms
proof (induction bs rule: rev_induct)
  case (snoc c bs)
  show ?case
  proof (cases "bs = []")
    case True
    then show ?thesis by (simp add: roll3_step_def mask32_take_bit)
  next
    case False
    let ?x = "take_bit 32 (push_bit (5 * length bs) h)" and ?y = "foldl roll3_step 0 bs"
    have "take_bit 32 (push_bit 5 ?x) = take_bit 32 (push_bit (5 * length (bs @ [c])) h)"
      by (simp add: push_bit_take_bit take_bit_take_bit add.commute)
    moreover have "push_bit 5 (?x XOR ?y) = push_bit 5 ?x XOR push_bit 5 ?y"
      by (simp add: push_bit_xor)
    ultimately show ?thesis
      using snoc.IH [OF False]
      by (simp add: roll3_step_def mask32_take_bit take_bit_xor xor.assoc)
  qed
qed simp

lemma roll3_forgets: "length bs = 7 \<Longrightarrow> foldl roll3_step h bs = foldl roll3_step 0 bs"
proof -
  assume l: "length bs = 7"
  have "take_bit 32 (push_bit 35 h) = 0"
    by (rule bit_eqI) (simp add: bit_simps)
  then show ?thesis using roll3_shift [of bs h] l by (cases bs) simp_all
qed

lemma window_length: "k \<le> length data \<Longrightarrow> length (window_before data k) = 7"
  by (simp add: window_before_def slice_def)

lemma window_next:
  assumes "k < length data"
  shows "window_before data k = (replicate 7 0 @ data) ! k # tl (window_before data k)"
    "window_before data (k + 1) = tl (window_before data k) @ [data ! k]"
proof -
  let ?old = "replicate 7 0 @ data"
  have l: "length ?old = 7 + length data" by simp
  have d: "drop k ?old = ?old ! k # drop (Suc k) ?old"
    using assms by (intro Cons_nth_drop_Suc [symmetric]) simp
  then show "window_before data k = (replicate 7 0 @ data) ! k # tl (window_before data k)"
    by (simp add: window_before_def slice_def)
  have t: "tl (window_before data k) = take 6 (drop (Suc k) ?old)"
    unfolding window_before_def slice_def using d by simp
  have "take 7 (drop (Suc k) ?old) = take 6 (drop (Suc k) ?old) @ [drop (Suc k) ?old ! 6]"
    using take_Suc_conv_app_nth [of 6 "drop (Suc k) ?old"] assms l by simp
  moreover have "drop (Suc k) ?old ! 6 = data ! k"
  proof -
    have "drop (Suc k) ?old ! 6 = ?old ! (Suc k + 6)"
      using assms by (intro nth_drop) simp
    moreover have "Suc k + 6 = length (replicate 7 (0 :: byte)) + k" by simp
    ultimately show ?thesis by (simp only: nth_append_length_plus)
  qed
  ultimately show "window_before data (k + 1) = tl (window_before data k) @ [data ! k]"
    unfolding t by (simp add: window_before_def slice_def)
qed

lemma weighted_sum_shift:
  "sum_list (map (\<lambda>i. int (i + 1) * uint ((w @ [c]) ! i)) [0..<Suc (length w)]) =
   sum_list (map (\<lambda>i. int (i + 1) * uint (w ! i)) [0..<length w]) + int (length w + 1) * uint (c :: byte)"
proof -
  have "map (\<lambda>i. int (i + 1) * uint ((w @ [c]) ! i)) [0..<length w] = map (\<lambda>i. int (i + 1) * uint (w ! i)) [0..<length w]"
    by (rule map_cong) (auto simp: nth_append)
  then show ?thesis by (simp only: upt_Suc_append le0 map_append sum_list_append) (simp add: nth_append)
qed

lemma weighted_sum_tail:
  "sum_list (map (\<lambda>i. int (i + 1) * uint ((g # w) ! i)) [0..<Suc (length w)]) =
   sum_list (map (\<lambda>i. int (i + 1) * uint (w ! i)) [0..<length w]) + sum_list (map uint (g # w :: byte list))"
proof (induction w rule: rev_induct)
  case (snoc c w)
  have a: "(\<lambda>i. int (i + 1) * uint ((g # w @ [c]) ! i)) = (\<lambda>i. int (i + 1) * uint (((g # w) @ [c]) ! i))"
    by simp
  show ?case
    unfolding a using weighted_sum_shift [of "g # w" c] weighted_sum_shift [of w c] snoc
    by (simp add: algebra_simps)
qed simp

lemma roll_step_window:
  assumes "k < length data"
  shows "roll_step (roll_of (window_before data k)) (data ! k) ((replicate 7 0 @ data) ! k) =
    roll_of (window_before data (k + 1))"
proof -
  obtain g w where w: "window_before data k = g # w" "g = (replicate 7 0 @ data) ! k"
    "window_before data (k + 1) = w @ [data ! k]"
    using window_next [OF assms] by (metis list.sel(3))
  have l: "length w = 6" using window_length [of k data] w(1) assms by simp
  have h3: "foldl roll3_step (foldl roll3_step 0 (g # w)) [data ! k] = foldl roll3_step 0 (w @ [data ! k])"
  proof -
    have "foldl roll3_step 0 (g # (w @ [data ! k])) = foldl roll3_step (roll3_step 0 g) (w @ [data ! k])"
      by simp
    also have "\<dots> = foldl roll3_step 0 (w @ [data ! k])"
      by (rule roll3_forgets) (simp add: l)
    finally show ?thesis by simp
  qed
  have h2: "sum_list (map (\<lambda>i. int (i + 1) * uint ((w @ [data ! k]) ! i)) [0..<length (w @ [data ! k])]) =
      sum_list (map (\<lambda>i. int (i + 1) * uint ((g # w) ! i)) [0..<length (g # w)]) + 7 * uint (data ! k) -
      sum_list (map uint (g # w))"
    using weighted_sum_shift [of w "data ! k"] weighted_sum_tail [of g w] l by simp
  show ?thesis
    unfolding w(1,3) w(2) [symmetric] roll_step_def roll_of_def Let_def using h2 h3
    by (simp add: roll3_step_def)
qed

lemma roll_start: "roll_of (window_before data 0) = \<lparr>h1 = 0, h2 = 0, h3 = 0\<rparr>"
proof -
  have w: "window_before data 0 = replicate 7 0" by (simp add: window_before_def slice_def)
  have "foldl roll3_step 0 (replicate n 0) = 0" for n
    by (induction n) (simp_all add: roll3_step_def mask32_def)
  moreover have "map (\<lambda>i. int (i + 1) * uint (replicate 7 (0 :: byte) ! i)) [0..<7] = map (\<lambda>i. 0) [0..<7]"
    by (rule map_cong) auto
  then have "sum_list (map (\<lambda>i. int (i + 1) * uint (replicate 7 (0 :: byte) ! i)) [0..<7]) = 0"
    by (simp only: sum_list_0)
  ultimately show ?thesis unfolding w roll_of_def
    by (simp only: length_replicate map_replicate sum_list_replicate) simp
qed

section \<open>What the scan records\<close>

text \<open>
  Position \<open>t\<close> triggers block size \<open>3 * 2 ^ i\<close> when the sum of its window plus one, on 32 bits, is
  not zero and divisible by that size.
\<close>

definition window_sum :: "byte list \<Rightarrow> nat \<Rightarrow> int" where
  "window_sum data t = mask32 (roll_sum (roll_of (window_before data (t + 1))) + 1)"

definition triggers :: "byte list \<Rightarrow> nat \<Rightarrow> nat \<Rightarrow> bool" where
  "triggers data i t \<longleftrightarrow> window_sum data t \<noteq> 0 \<and> 3 * 2 ^ i dvd window_sum data t"

definition trigger_positions :: "byte list \<Rightarrow> nat \<Rightarrow> nat \<Rightarrow> nat list" where
  "trigger_positions data i k = filter (triggers data i) [0..<k]"

definition level_of :: "nat list \<Rightarrow> level" where
  "level_of ts = \<lparr>lv_count = length ts, lv_first = take 64 ts, lv_last = (if ts = [] then -1 else int (last ts))\<rparr>"

lemma bump_level: "bump t (level_of ts) = level_of (ts @ [t])"
  by (simp add: bump_def level_of_def)

lemma window_sum_nonneg: "0 \<le> window_sum data t"
  by (simp add: window_sum_def mask32_take_bit)

lemma coprime_power_dvd:
  assumes "3 dvd (s :: int)"
  shows "3 * 2 ^ i dvd s \<longleftrightarrow> 2 ^ i dvd s div 3"
  using assms by (elim dvdE) simp

text \<open>The highest block size a position triggers, when it triggers any.\<close>

definition level_hit :: "byte list \<Rightarrow> nat \<Rightarrow> nat \<Rightarrow> nat option" where
  "level_hit data high t =
     (if triggers data 0 t then Some (min high (trailing_zeros (window_sum data t div 3))) else None)"

lemma level_hit_triggers:
  "i \<le> high \<Longrightarrow> triggers data i t \<longleftrightarrow> (\<exists>z. level_hit data high t = Some z \<and> i \<le> z)"
proof -
  assume i: "i \<le> high"
  let ?s = "window_sum data t"
  show ?thesis
  proof (cases "triggers data 0 t")
    case True
    then have s: "?s \<noteq> 0" "3 dvd ?s" by (simp_all add: triggers_def)
    then have q: "0 < ?s div 3" using window_sum_nonneg [of data t] by (auto elim!: dvdE)
    show ?thesis
      using True i s trailing_zeros_dvd [OF q, of i] coprime_power_dvd [OF s(2), of i]
      by (auto simp: level_hit_def triggers_def)
  next
    case False
    moreover have "triggers data i t \<Longrightarrow> triggers data 0 t"
      by (auto simp: triggers_def dest: dvd_mult_left)
    ultimately show ?thesis by (auto simp: level_hit_def)
  qed
qed

definition hits_at :: "byte list \<Rightarrow> nat \<Rightarrow> nat \<Rightarrow> nat \<Rightarrow> nat" where
  "hits_at data high z k = length (filter (\<lambda>t. level_hit data high t = Some z) [0..<k])"

definition scanned :: "byte list \<Rightarrow> nat \<Rightarrow> nat \<Rightarrow> nat \<Rightarrow> scan_state \<Rightarrow> bool" where
  "scanned data lo high k st \<longleftrightarrow>
     rolling_hash st = roll_of (window_before data k) \<and>
     length (hist st) = high + 2 \<and> length (levels st) = high + 1 \<and>
     (\<forall>z\<le>high. hist st ! z = hits_at data high z k) \<and>
     (\<forall>i\<le>high. levels st ! i = level_of (if lo \<le> i then trigger_positions data i k else []))"

lemma bump_levels:
  "length ls = high + 1 \<Longrightarrow> z \<le> high \<Longrightarrow>
   foldl (\<lambda>ls i. ls[i := bump t (ls ! i)]) ls [lo..<z + 1] =
   map (\<lambda>i. if lo \<le> i \<and> i \<le> z then bump t (ls ! i) else ls ! i) [0..<high + 1]"
proof (induction z)
  case 0
  have "foldl (\<lambda>ls i. ls[i := bump t (ls ! i)]) ls [lo..<0 + 1] = (if lo = 0 then ls[0 := bump t (ls ! 0)] else ls)"
    by (cases lo) simp_all
  with 0 show ?case by (simp only:) (auto simp: list_eq_iff_nth_eq nth_list_update simp del: upt_Suc)
next
  case (Suc z)
  show ?case
  proof (cases "lo \<le> Suc z")
    case True
    then have "[lo..<Suc z + 1] = [lo..<z + 1] @ [Suc z]" by simp
    then have "foldl (\<lambda>ls i. ls[i := bump t (ls ! i)]) ls [lo..<Suc z + 1] =
        (foldl (\<lambda>ls i. ls[i := bump t (ls ! i)]) ls [lo..<z + 1])[Suc z :=
           bump t ((foldl (\<lambda>ls i. ls[i := bump t (ls ! i)]) ls [lo..<z + 1]) ! Suc z)]"
      by (simp only: foldl_append foldl_Cons foldl_Nil)
    also have "\<dots> = map (\<lambda>i. if lo \<le> i \<and> i \<le> Suc z then bump t (ls ! i) else ls ! i) [0..<high + 1]"
      using Suc True by (auto simp: list_eq_iff_nth_eq nth_list_update le_Suc_eq simp del: upt_Suc)
    finally show ?thesis .
  next
    case False
    with Suc.prems show ?thesis by (auto simp: list_eq_iff_nth_eq simp del: upt_Suc)
  qed
qed

lemma scan_step_scanned:
  assumes sc: "scanned data lo high k st" and k: "k < length data"
  shows "scanned data lo high (Suc k)
    (scan_step lo high st (k, data ! k, (replicate rolling_window 0 @ data) ! k))"
proof -
  let ?g = "(replicate rolling_window 0 @ data) ! k"
  let ?r = "roll_of (window_before data (Suc k))"
  have r: "roll_step (rolling_hash st) (data ! k) ?g = ?r"
    using sc roll_step_window [OF k] by (simp add: scanned_def)
  have horg: "mask32 (roll_sum ?r + 1) = window_sum data k" by (simp add: window_sum_def)
  have none: "window_sum data k mod 3 \<noteq> 0 \<or> window_sum data k = 0 \<longleftrightarrow> level_hit data high k = None"
    by (auto simp: level_hit_def triggers_def dvd_eq_mod_eq_0)
  have hits: "hits_at data high z (Suc k) = hits_at data high z k + (if level_hit data high k = Some z then 1 else 0)"
    for z by (simp add: hits_at_def)
  have pos: "trigger_positions data i (Suc k) = trigger_positions data i k @ (if triggers data i k then [k] else [])"
    for i by (simp add: trigger_positions_def)
  show ?thesis
  proof (cases "level_hit data high k")
    case None
    then have "scan_step lo high st (k, data ! k, ?g) = st\<lparr>rolling_hash := ?r\<rparr>"
      using none by (simp only: scan_step_def prod.case Let_def r horg) simp
    with None sc show ?thesis
      using level_hit_triggers [of _ high data k] by (auto simp: scanned_def hits pos)
  next
    case (Some z)
    let ?tz = "trailing_zeros (window_sum data k div 3)"
    have z: "z = (if high < ?tz then high else ?tz)" "z \<le> high"
      using Some by (auto simp: level_hit_def split: if_splits)
    let ?st = "st\<lparr>rolling_hash := ?r, hist := (hist st)[z := hist st ! z + 1]\<rparr>"
    have step: "scan_step lo high st (k, data ! k, ?g) =
        (if lo \<le> z then ?st\<lparr>levels := foldl (\<lambda>ls i. ls[i := bump k (ls ! i)]) (levels st) [lo..<z + 1]\<rparr> else ?st)"
      using none Some by (simp only: scan_step_def prod.case Let_def r horg z(1) [symmetric]) simp
    have lev: "levels (scan_step lo high st (k, data ! k, ?g)) =
        map (\<lambda>i. if lo \<le> i \<and> i \<le> z then bump k (levels st ! i) else levels st ! i) [0..<high + 1]"
    proof (cases "lo \<le> z")
      case True
      then show ?thesis using bump_levels [of "levels st" high z k lo] sc z(2) by (simp add: step scanned_def)
    next
      case False
      then show ?thesis using sc by (auto simp: step scanned_def list_eq_iff_nth_eq simp del: upt_Suc)
    qed
    have hist: "hist (scan_step lo high st (k, data ! k, ?g)) = (hist st)[z := hist st ! z + 1]"
      "rolling_hash (scan_step lo high st (k, data ! k, ?g)) = ?r"
      by (simp_all add: step)
    have trig: "triggers data i k \<longleftrightarrow> i \<le> z" if "i \<le> high" for i
      using level_hit_triggers [OF that, of data k] Some by simp
    have "levels (scan_step lo high st (k, data ! k, ?g)) ! i =
        level_of (if lo \<le> i then trigger_positions data i (Suc k) else [])" if "i \<le> high" for i
      using sc that trig [OF that] bump_level by (simp add: lev pos scanned_def del: upt_Suc)
    moreover have "hist (scan_step lo high st (k, data ! k, ?g)) ! y = hits_at data high y (Suc k)" if "y \<le> high" for y
      using sc that z(2) Some by (auto simp: hist hits scanned_def nth_list_update)
    ultimately show ?thesis
      using sc lev hist by (simp add: scanned_def)
  qed
qed

lemma scan_entries_upto: "scan_entries data =
    map (\<lambda>k. (k, data ! k, (replicate rolling_window 0 @ data) ! k)) [0..<length data]"
  by (rule nth_equalityI) (auto simp: scan_entries_def)

lemma scan_scanned:
  "scanned data lo high (length data) (foldl (scan_step lo high) (scan_start high) (scan_entries data))"
proof -
  let ?e = "\<lambda>k. (k, data ! k, (replicate rolling_window 0 @ data) ! k)"
  have "scanned data lo high k (foldl (scan_step lo high) (scan_start high) (map ?e [0..<k]))" if "k \<le> length data" for k
    using that
  proof (induction k)
    case 0
    show ?case
      by (auto simp: scanned_def scan_start_def roll_start hits_at_def trigger_positions_def level_of_def
          fresh_level_def nth_replicate less_Suc_eq_le simp del: replicate.simps)
  next
    case (Suc k)
    then show ?case using scan_step_scanned [of data lo high k] by simp
  qed
  then show ?thesis unfolding scan_entries_upto by simp
qed

text \<open>The running sums.\<close>

lemma counts_of_sums:
  assumes S: "S (high + 1) = 0" "\<And>j. j \<le> high \<Longrightarrow> S j = S (Suc j) + hs ! j" and j: "j \<le> high + 1"
  shows "foldl (\<lambda>(running, counts) i. let running = running + hs ! i in (running, counts[i := running]))
      (0, replicate (high + 1) 0) (rev [j..<high + 1]) =
    (S j, map (\<lambda>i. if j \<le> i then S i else 0) [0..<high + 1])"
  using j
proof (induction "high + 1 - j" arbitrary: j)
  case 0
  then have "j = high + 1" by simp
  then show ?case
    using S(1) by (auto simp: list_eq_iff_nth_eq nth_replicate simp del: replicate.simps upt_Suc)
next
  case (Suc n)
  then have j: "j < high + 1" by simp
  then have u: "[j..<high + 1] = j # [Suc j..<high + 1]" by (simp add: upt_conv_Cons)
  have s: "S (Suc j) + hs ! j = S j" using S(2) [of j] j by simp
  have "(map (\<lambda>i. if Suc j \<le> i then S i else 0) [0..<high + 1])[j := S j] =
      map (\<lambda>i. if j \<le> i then S i else 0) [0..<high + 1]"
    using j by (auto simp: list_eq_iff_nth_eq nth_list_update simp del: upt_Suc)
  with Suc.hyps(1) [of "Suc j"] Suc.hyps(2) j show ?case
    unfolding u by (simp add: s Let_def del: upt_Suc)
qed

lemma counts_of_nth:
  assumes "i \<le> high"
  shows "counts_of high hs ! i = sum ((!) hs) {i..<high + 1}"
proof -
  define S where "S j = sum ((!) hs) {j..<high + 1}" for j
  have end_sum: "S (high + 1) = 0" by (simp add: S_def)
  have step: "S j = S (Suc j) + hs ! j" if "j \<le> high" for j
    using that unfolding S_def by (intro trans [OF sum.atLeast_Suc_lessThan add.commute]) simp
  from counts_of_sums [of S, OF end_sum step, of 0]
  have "counts_of high hs = map S [0..<high + 1]" by (simp add: counts_of_def del: upt_Suc replicate.simps)
  then show ?thesis using assms by (simp add: S_def del: upt_Suc sum.op_ivl_Suc)
qed

lemma hits_sum:
  assumes "i \<le> high"
  shows "sum (\<lambda>z. hits_at data high z k) {i..<high + 1} = length (trigger_positions data i k)"
proof (induction k)
  case (Suc k)
  have "sum (\<lambda>z. if level_hit data high k = Some z then 1 else 0) {i..<high + 1} = (if triggers data i k then 1 else (0 :: nat))"
  proof (cases "level_hit data high k")
    case None
    then show ?thesis using level_hit_triggers [OF assms, of data k] by simp
  next
    case (Some z)
    then have "z \<le> high" by (auto simp: level_hit_def split: if_splits)
    with Some show ?thesis using level_hit_triggers [OF assms, of data k] by (simp add: sum.delta)
  qed
  moreover have "hits_at data high z (Suc k) = hits_at data high z k + (if level_hit data high k = Some z then 1 else 0)" for z
    by (simp add: hits_at_def)
  ultimately show ?case using Suc by (simp add: sum.distrib trigger_positions_def)
qed (simp add: hits_at_def trigger_positions_def)

lemma counts_of_length: "length (counts_of high hs) = high + 1"
proof -
  have "length (snd (foldl (\<lambda>(running, counts) i. let running = running + hs ! i in (running, counts[i := running]))
      (r, cs) is)) = length cs" for r cs "is"
    by (induction "is" arbitrary: r cs) (simp_all add: Let_def)
  then show ?thesis by (simp add: counts_of_def del: upt_Suc replicate.simps)
qed

text \<open>One pass of the rolling hash (\<open>_scan\<close>) records, for every block size up to the highest, how
  many positions trigger it, and for every block size from \<open>lo\<close> on the count, the first 64 and the last
  of these positions; a position triggers a block size exactly when the sum of the seven bytes that
  end there, plus one, is a non-zero multiple of it on 32 bits. The running sums are those of the
  last seven bytes, whatever came before.\<close>

theorem scan_triggers:
  "scan data lo high =
     (map (\<lambda>i. length (trigger_positions data i (length data))) [0..<high + 1],
      map (\<lambda>i. level_of (if lo \<le> i then trigger_positions data i (length data) else [])) [0..<high + 1],
      mask32 (roll_sum (roll_of (window_before data (length data)))))"
proof -
  define st where "st = foldl (scan_step lo high) (scan_start high) (scan_entries data)"
  have s: "scanned data lo high (length data) st" unfolding st_def by (rule scan_scanned)
  have "counts_of high (hist st) = map (\<lambda>i. length (trigger_positions data i (length data))) [0..<high + 1]"
  proof (rule nth_equalityI)
    fix i assume "i < length (counts_of high (hist st))"
    then have i: "i \<le> high" by (simp add: counts_of_length)
    have "counts_of high (hist st) ! i = sum (\<lambda>z. hits_at data high z (length data)) {i..<high + 1}"
      unfolding counts_of_nth [OF i] using s by (intro sum.cong) (auto simp: scanned_def)
    then show "counts_of high (hist st) ! i = map (\<lambda>i. length (trigger_positions data i (length data))) [0..<high + 1] ! i"
      using i by (simp only: hits_sum [OF i]) (simp del: upt_Suc)
  qed (simp add: counts_of_length)
  moreover have "levels st = map (\<lambda>i. level_of (if lo \<le> i then trigger_positions data i (length data) else [])) [0..<high + 1]"
    using s by (auto simp: scanned_def list_eq_iff_nth_eq simp del: upt_Suc)
  ultimately show ?thesis
    using s unfolding scan_def st_def [symmetric] Let_def by (simp only: scanned_def)
qed

section \<open>The distance is the cheapest edit\<close>

text \<open>The scripts that turn one text into another: keep, remove (1), insert (1) and replace (2).\<close>

inductive edit :: "string \<Rightarrow> string \<Rightarrow> nat \<Rightarrow> bool" where
  edit_done: "edit [] [] 0"
| edit_keep: "edit s t n \<Longrightarrow> edit (c # s) (c # t) n"
| edit_remove: "edit s t n \<Longrightarrow> edit (c # s) t (n + 1)"
| edit_insert: "edit s t n \<Longrightarrow> edit s (c # t) (n + 1)"
| edit_replace: "edit s t n \<Longrightarrow> edit (c # s) (d # t) (n + 2)"

lemma edit_append: "edit s t n \<Longrightarrow> edit s' t' m \<Longrightarrow> edit (s @ s') (t @ t') (n + m)"
  by (induction rule: edit.induct) (auto intro: edit.intros dest: edit_remove edit_insert edit_replace)

lemma edit_rev: "edit s t n \<Longrightarrow> edit (rev s) (rev t) n"
proof (induction rule: edit.induct)
  case (edit_keep s t n c)
  then show ?case using edit_append [OF _ edit.edit_keep [OF edit_done, of c]] by fastforce
next
  case (edit_remove s t n c)
  then show ?case using edit_append [OF _ edit.edit_remove [OF edit_done, of c]] by fastforce
next
  case (edit_insert s t n c)
  then show ?case using edit_append [OF _ edit.edit_insert [OF edit_done, of c]] by fastforce
next
  case (edit_replace s t n c d)
  then show ?case using edit_append [OF _ edit.edit_replace [OF edit_done, of c d]] by fastforce
qed (simp add: edit_done)

lemma edit_sym: "edit s t n \<Longrightarrow> edit t s n"
  by (induction rule: edit.induct) (auto intro: edit_done edit_keep dest: edit_remove edit_insert edit_replace)

text \<open>The least cost, by recursion on the texts.\<close>

fun least_edit :: "string \<Rightarrow> string \<Rightarrow> nat" where
  "least_edit [] t = length t"
| "least_edit s [] = length s"
| "least_edit (a # s) (b # t) =
     min (min (least_edit s (b # t) + 1) (least_edit (a # s) t + 1)) (least_edit s t + (if a = b then 0 else 2))"

lemma least_edit_nil [simp]: "least_edit s [] = length s"
  by (cases s) simp_all

lemma least_edit_script: "edit s t (least_edit s t)"
proof (induction s t rule: least_edit.induct)
  case (1 t)
  show ?case by (induction t) (auto intro: edit_done dest: edit_insert)
next
  case (2 a s)
  show ?case by (induction "a # s" arbitrary: a s) (metis edit_done edit_remove least_edit_nil length_Cons add_0 Suc_eq_plus1 list.size(3) neq_Nil_conv)
next
  case (3 a s b t)
  then show ?case
    using edit_keep [of s t "least_edit s t" b] edit_remove [of s "b # t" _ a]
      edit_insert [of "a # s" t _ b] edit_replace [of s t _ a b]
    by (auto simp: min_def)
qed

lemma least_edit_remove: "least_edit (c # s) t \<le> least_edit s t + 1"
  by (cases t) auto

lemma least_edit_insert: "least_edit s (c # t) \<le> least_edit s t + 1"
  by (cases s) auto

lemma least_edit_least: "edit s t n \<Longrightarrow> least_edit s t \<le> n"
proof (induction rule: edit.induct)
  case (edit_remove s t n c)
  then show ?case using least_edit_remove [of c s t] by simp
next
  case (edit_insert s t n c)
  then show ?case using least_edit_insert [of s c t] by simp
qed auto

lemma least_edit_rev: "least_edit (rev s) (rev t) = least_edit s t"
  by (rule antisym)
    (use least_edit_least edit_rev least_edit_script rev_rev_ident in metis)+

text \<open>The rows: entry \<open>j\<close> of row \<open>i\<close> is the distance of the prefixes of these lengths.\<close>

definition prefix_edit :: "string \<Rightarrow> string \<Rightarrow> nat \<Rightarrow> nat \<Rightarrow> nat" where
  "prefix_edit s t i j = least_edit (rev (take i s)) (rev (take j t))"

lemma prefix_edit_step:
  assumes "i < length s" "j < length t"
  shows "prefix_edit s t (Suc i) (Suc j) =
    min (min (prefix_edit s t i (Suc j) + 1) (prefix_edit s t (Suc i) j + 1))
      (prefix_edit s t i j + (if s ! i = t ! j then 0 else 2))"
  using assms by (simp add: prefix_edit_def take_Suc_conv_app_nth)

lemma edit_row_prefix:
  assumes i: "i < length s"
  shows "edit_row t (map (prefix_edit s t i) [0..<length t + 1]) (i, s ! i) =
    map (prefix_edit s t (Suc i)) [0..<length t + 1]"
proof -
  define prev where "prev = map (prefix_edit s t i) [0..<length t + 1]"
  have prev: "prev ! j = prefix_edit s t i j" if "j \<le> length t" for j
    using that by (simp add: prev_def del: upt_Suc)
  let ?f = "\<lambda>cur (i2, b). cur @ [min (min (prev ! (i2 + 1) + 1) (cur ! i2 + 1)) (prev ! i2 + (if s ! i = b then 0 else 2))]"
  have "foldl ?f [i + 1] (map (\<lambda>j. (j, t ! j)) [0..<k]) = map (prefix_edit s t (Suc i)) [0..<Suc k]"
    if "k \<le> length t" for k
    using that
  proof (induction k)
    case 0
    then show ?case using i by (simp add: prefix_edit_def)
  next
    case (Suc k)
    then have k: "k < length t" and IH: "foldl ?f [i + 1] (map (\<lambda>j. (j, t ! j)) [0..<k]) = map (prefix_edit s t (Suc i)) [0..<Suc k]"
      by simp_all
    have "foldl ?f [i + 1] (map (\<lambda>j. (j, t ! j)) [0..<Suc k]) =
        ?f (map (prefix_edit s t (Suc i)) [0..<Suc k]) (k, t ! k)"
      by (simp only: upt_Suc_append le0 map_append list.map foldl_append foldl_Cons foldl_Nil IH)
    also have "\<dots> = map (prefix_edit s t (Suc i)) [0..<Suc (Suc k)]"
      using k by (simp add: prefix_edit_step [OF i] prev upt_Suc_append [of 0 "Suc k"] del: upt_Suc)
    finally show ?case .
  qed
  moreover have "enumerate 0 t = map (\<lambda>j. (j, t ! j)) [0..<length t]"
    by (rule nth_equalityI) (auto simp: nth_enumerate_eq)
  ultimately show ?thesis by (simp add: edit_row_def prev_def)
qed

lemma edit_distance_least_edit: "edit_distance s t = least_edit s t"
proof -
  have "foldl (edit_row t) [0..<length t + 1] (map (\<lambda>i. (i, s ! i)) [0..<k]) =
      map (prefix_edit s t k) [0..<length t + 1]" if "k \<le> length s" for k
    using that
  proof (induction k)
    case 0
    then show ?case by (auto simp: prefix_edit_def list_eq_iff_nth_eq simp del: upt_Suc)
  next
    case (Suc k)
    then show ?case using edit_row_prefix [of k s t] by (simp del: upt_Suc add: upt_Suc_append)
  qed
  moreover have "enumerate 0 s = map (\<lambda>i. (i, s ! i)) [0..<length s]"
    by (rule nth_equalityI) (auto simp: nth_enumerate_eq)
  ultimately show ?thesis
    by (simp add: edit_distance_def prefix_edit_def least_edit_rev)
qed

lemma edit_distance_sym: "edit_distance s t = edit_distance t s"
  unfolding edit_distance_least_edit
  by (rule antisym) (use least_edit_least edit_sym least_edit_script in metis)+

lemma edit_distance_bound: "edit_distance s t \<le> length s + length t"
  unfolding edit_distance_least_edit by (induction s t rule: least_edit.induct) auto

lemma edit_zero: "edit s t n \<Longrightarrow> n = 0 \<Longrightarrow> s = t"
  by (induction rule: edit.induct) auto

lemma edit_self: "edit s s 0"
  by (induction s) (auto intro: edit_done edit_keep)

text \<open>The row-by-row distance is the cost of the cheapest script of keeping, removing (1), inserting (1)
  and replacing (2) characters that turns one text into the other; so it is symmetric, zero exactly
  for equal texts, and at most the sum of the lengths.\<close>

theorem edit_distance_cheapest:
  "edit_distance s t = (LEAST n. edit s t n) \<and>
   edit_distance s t = edit_distance t s \<and>
   (edit_distance s t = 0 \<longleftrightarrow> s = t) \<and>
   edit_distance s t \<le> length s + length t"
proof (intro conjI)
  show "edit_distance s t = (LEAST n. edit s t n)"
    unfolding edit_distance_least_edit
    by (rule Least_equality [symmetric]) (auto intro: least_edit_script least_edit_least)
  show "edit_distance s t = 0 \<longleftrightarrow> s = t"
    unfolding edit_distance_least_edit
    using edit_zero [OF least_edit_script] least_edit_least [OF edit_self] by fastforce
qed (rule edit_distance_sym edit_distance_bound)+

section \<open>The comparison\<close>

lemma grams_length: "length s < 7 \<Longrightarrow> length (grams s) \<le> 1"
  by (simp add: grams_def)

lemma common_substring_iff:
  "has_common_substring s t \<longleftrightarrow>
     7 \<le> length s \<and> 7 \<le> length t \<and> set (grams s) \<inter> set (grams t) \<noteq> {}"
  by (auto simp: has_common_substring_def list_ex_iff)

lemma score_strings_sym: "score_strings s t bs = score_strings t s bs"
  by (auto simp: score_strings_def common_substring_iff edit_distance_sym [of s t] Let_def Int_commute
      min.commute add.commute)

lemma score_strings_range:
  assumes "0 \<le> bs"
  shows "0 \<le> score_strings s t bs"
proof -
  let ?d = "int (edit_distance s t)"
  define l where "l = int (length s) + int (length t)"
  have "?d * 64 div l \<le> 64"
  proof (cases "l = 0")
    case False
    then have l: "0 < l" by (simp add: l_def)
    have "?d * 64 \<le> 64 * l" using edit_distance_bound [of s t] by (simp add: l_def)
    then have "?d * 64 div l \<le> 64 * l div l" using l by (rule zdiv_mono1)
    then show ?thesis using l by simp
  qed simp
  then have "100 * (?d * 64 div l) div 64 \<le> 100" by simp
  then show ?thesis
    using assms by (simp add: score_strings_def Let_def l_def pos_imp_zdiv_nonneg_iff)
qed

lemma score_strings_le: "score_strings s t bs \<le> 100"
proof -
  have "0 \<le> int (edit_distance s t * 64 div (length s + length t))" by simp
  then have "0 \<le> int (edit_distance s t) * 64 div (int (length s) + int (length t))"
    by (simp add: zdiv_int)
  then have "0 \<le> 100 * (int (edit_distance s t) * 64 div (int (length s) + int (length t))) div 64"
    by simp
  then show ?thesis unfolding score_strings_def Let_def by (simp only: split: if_split) linarith
qed

lemma score_strings_common:
  "0 < score_strings s t bs \<Longrightarrow> 7 \<le> length s \<and> 7 \<le> length t \<and> set (grams s) \<inter> set (grams t) \<noteq> {}"
  using common_substring_iff [of s t] by (auto simp: score_strings_def split: if_splits)

lemma eliminate_from_fits:
  "length out + length s \<le> 64 \<Longrightarrow> eliminate_from prev seq out s \<noteq> None"
  by (induction prev seq out s rule: eliminate_from.induct) auto

lemma eliminate_fits: "length s \<le> 64 \<Longrightarrow> eliminate s \<noteq> None"
  by (simp add: eliminate_def eliminate_from_fits del: not_None_eq)

lemma related_blocks:
  "bs1 * 2 \<noteq> bs2 \<and> (bs1 mod 2 = 1 \<or> bs1 div 2 \<noteq> bs2) \<longleftrightarrow> bs1 * 2 \<noteq> bs2 \<and> bs2 * 2 \<noteq> bs1" for bs1 bs2 :: int
proof -
  have "bs1 mod 2 = 1 \<or> bs1 div 2 \<noteq> bs2 \<longleftrightarrow> bs2 * 2 \<noteq> bs1" by (metis mod_0_imp_dvd dvd_mult_div_cancel mult.commute mod2_eq_if nonzero_mult_div_cancel_right mod_mult_self2_is_0 zero_neq_numeral zero_neq_one)
  then show ?thesis by simp
qed

lemma ssdeep_compare_sym: "ssdeep_compare a b = ssdeep_compare b a"
proof (cases "split_digest a")
  case None
  then show ?thesis by (auto simp: ssdeep_compare_def split: option.splits)
next
  case (Some x)
  obtain bs1 a1 a2 where x: "x = (bs1, a1, a2)" by (cases x)
  show ?thesis
  proof (cases "split_digest b")
    case None
    then show ?thesis by (auto simp: ssdeep_compare_def split: option.splits)
  next
    case (Some y)
    obtain bs2 b1 b2 where y: "y = (bs2, b1, b2)" by (cases y)
    show ?thesis
      unfolding ssdeep_compare_def \<open>split_digest a = Some x\<close> Some x y
      by (cases "eliminate a1"; cases "eliminate a2"; cases "eliminate b1"; cases "eliminate b2")
        (auto simp: related_blocks score_strings_sym)
  qed
qed

lemma digits_py_int:
  assumes "t \<noteq> []" "list_all is_digit_char t"
  shows "py_int t = Some (int (dec_value t))"
proof -
  have d: "is_digit_char c" if "c \<in> set t" for c using assms(2) that by (simp add: list_all_iff)
  have "\<not> is_space c" if "c \<in> set t" for c
    using d [OF that] by (auto simp: is_digit_char_def is_space_def Let_def)
  then have s: "strip t = t" by (intro strip_none) blast
  have "CHR ''_'' \<notin> set t" using d [of "CHR ''_''"] by (auto simp: is_digit_char_def code_point_def)
  then have g: "split_on (CHR ''_'') t = [t]" by (rule split_on_none)
  obtain c r where t: "t = c # r" using assms(1) by (cases t) auto
  have "c \<noteq> CHR ''-''" "c \<noteq> CHR ''+''" using d [of c] by (auto simp: t is_digit_char_def code_point_def)
  then show ?thesis
    using assms(2) unfolding py_int_def Let_def s by (simp add: t g [unfolded t] del: split_on.simps)
qed

lemma canonical_ssdeep_split:
  assumes "canonical_ssdeep v = Inr w"
  shows "\<exists>bs p1 p2. split_digest w = Some (bs, p1, p2) \<and> 3 \<le> bs \<and> length p1 \<le> 64 \<and> length p2 \<le> 64"
proof -
  have w: "w = strip v" "ssdeep_pattern w" "3 \<le> int (dec_value (hd (split_on (CHR '':'') w)))"
    using assms by (auto simp: canonical_ssdeep_def Let_def split: if_splits)
  obtain sz p1 p2 where sp: "split_on (CHR '':'') w = [sz, p1, p2]"
    using w(2) by (auto simp: ssdeep_pattern_def split: list.splits)
  then have "sz \<noteq> []" "list_all is_digit_char sz" "length p1 \<le> 64" "length p2 \<le> 64"
    using w(2) by (auto simp: ssdeep_pattern_def)
  with w(3) sp show ?thesis by (simp add: split_digest_def digits_py_int)
qed

lemma ssdeep_compare_le: "ssdeep_compare a b \<le> 100"
  using score_strings_le by (simp add: ssdeep_compare_def split: option.split)

lemma ssdeep_compare_ge:
  assumes "split_digest a = Some (bs1, a1, a2)" "split_digest b = Some (bs2, b1, b2)"
    and "0 \<le> bs1" "0 \<le> bs2" "length a1 \<le> 64" "length a2 \<le> 64" "length b1 \<le> 64" "length b2 \<le> 64"
  shows "0 \<le> ssdeep_compare a b"
  using eliminate_fits [OF assms(5)] eliminate_fits [OF assms(6)] eliminate_fits [OF assms(7)] eliminate_fits [OF assms(8)]
    score_strings_range assms(3,4)
  by (auto simp: ssdeep_compare_def assms(1,2) le_max_iff_disj)

text \<open>The comparison is symmetric and never above 100; on two digests in the stored form it is a score
  from 0 to 100, and 100 for a digest against itself.\<close>

theorem ssdeep_compare_laws:
  assumes a: "canonical_ssdeep v = Inr a" and b: "canonical_ssdeep w = Inr b"
  shows "0 \<le> ssdeep_compare a b \<and> ssdeep_compare a b \<le> 100 \<and>
    ssdeep_compare a b = ssdeep_compare b a \<and> ssdeep_compare a a = 100"
proof -
  obtain bs1 a1 a2 where sa: "split_digest a = Some (bs1, a1, a2)" "3 \<le> bs1" "length a1 \<le> 64" "length a2 \<le> 64"
    using canonical_ssdeep_split [OF a] by blast
  obtain bs2 b1 b2 where sb: "split_digest b = Some (bs2, b1, b2)" "3 \<le> bs2" "length b1 \<le> 64" "length b2 \<le> 64"
    using canonical_ssdeep_split [OF b] by blast
  have "ssdeep_compare a a = 100"
    using eliminate_fits [OF sa(3)] eliminate_fits [OF sa(4)] by (auto simp: ssdeep_compare_def sa(1))
  with ssdeep_compare_ge [OF sa(1) sb(1)] sa sb ssdeep_compare_le [of a b] ssdeep_compare_sym [of a b]
  show ?thesis by simp
qed

theorem ssdeep_compare_laws_witness:
  "let a = ''3:abcdefghij:klmnop''; b = ''6:abcdefghix:qrstuvwxy''
   in canonical_ssdeep a = Inr a \<and> canonical_ssdeep b = Inr b \<and>
     0 \<le> ssdeep_compare a b \<and> ssdeep_compare a b = ssdeep_compare b a \<and> ssdeep_compare a a = 100"
proof -
  have a: "canonical_ssdeep ''3:abcdefghij:klmnop'' = Inr ''3:abcdefghij:klmnop''" by code_simp
  have b: "canonical_ssdeep ''6:abcdefghix:qrstuvwxy'' = Inr ''6:abcdefghix:qrstuvwxy''" by code_simp
  show ?thesis unfolding Let_def using a b ssdeep_compare_laws [OF a b] by blast
qed

section \<open>The tokens\<close>

lemma ssdeep_tokens_set:
  "ssdeep_tokens d = Inr ts \<longleftrightarrow>
   (\<exists>bs p1 p2. split_digest d = Some (bs, p1, p2) \<and>
      ts = sort (remdups (token_set bs (or_empty (eliminate p1)) (or_empty (eliminate p2)))))"
  by (auto simp: ssdeep_tokens_def split: option.splits)

lemma token_identity: "int_text bs @ ''#'' @ s @ ''|'' @ t \<in> set (token_set bs s t)"
  by (simp add: token_set_def)

lemma token_gram:
  "7 \<le> length p \<Longrightarrow> (sz, p) \<in> {(bs, s), (bs * 2, t)} \<Longrightarrow> g \<in> set (grams p) \<Longrightarrow>
   int_text sz @ '':'' @ g \<in> set (token_set bs s t)"
  by (auto simp: token_set_def)

lemma score_common_token:
  assumes sc: "0 < score_strings p q sc_bs"
    and p: "(sz, p) \<in> {(bs1, a1), (bs1 * 2, a2)}" and q: "(sz, q) \<in> {(bs2, b1), (bs2 * 2, b2)}"
  shows "set (token_set bs1 a1 a2) \<inter> set (token_set bs2 b1 b2) \<noteq> {}"
proof -
  obtain g where g: "g \<in> set (grams p)" "g \<in> set (grams q)" and l: "7 \<le> length p" "7 \<le> length q"
    using score_strings_common [OF sc] by blast
  show ?thesis using token_gram [OF l(1) p g(1)] token_gram [OF l(2) q g(2)] by blast
qed

lemma positive_shares_token:
  assumes a: "ssdeep_tokens a = Inr ts" and b: "ssdeep_tokens b = Inr us" and pos: "0 < ssdeep_compare a b"
  shows "set ts \<inter> set us \<noteq> {}"
proof -
  obtain bs1 a1 a2 where sa: "split_digest a = Some (bs1, a1, a2)"
    and ts: "set ts = set (token_set bs1 (or_empty (eliminate a1)) (or_empty (eliminate a2)))"
    using a by (auto simp: ssdeep_tokens_set)
  obtain bs2 b1 b2 where sb: "split_digest b = Some (bs2, b1, b2)"
    and us: "set us = set (token_set bs2 (or_empty (eliminate b1)) (or_empty (eliminate b2)))"
    using b by (auto simp: ssdeep_tokens_set)
  obtain x1 x2 y1 y2 where e: "eliminate a1 = Some x1" "eliminate a2 = Some x2" "eliminate b1 = Some y1" "eliminate b2 = Some y2"
    using pos by (auto simp: ssdeep_compare_def sa sb split: option.splits if_splits)
  have ts': "set ts = set (token_set bs1 x1 x2)" and us': "set us = set (token_set bs2 y1 y2)"
    by (simp_all add: ts us e or_empty_def)
  consider "bs1 = bs2" "x1 = y1" "x2 = y2" | "bs1 = bs2" "0 < score_strings x1 y1 bs1"
    | "bs1 = bs2" "0 < score_strings x2 y2 (bs1 * 2)" | "bs1 * 2 = bs2" "0 < score_strings y1 x2 bs2"
    | "bs1 = bs2 * 2" "0 < score_strings x1 y2 bs1"
    using pos related_blocks [of bs1 bs2]
    by (auto simp: ssdeep_compare_def sa sb e less_max_iff_disj split: if_splits)
  then show ?thesis
  proof cases
    case 1
    then show ?thesis using token_identity [of bs1 x1 x2] by (auto simp: ts' us')
  next
    case 2
    then show ?thesis unfolding ts' us' by (intro score_common_token [where sz = bs1]) auto
  next
    case 3
    then show ?thesis unfolding ts' us' by (intro score_common_token [where sz = "bs1 * 2"]) auto
  next
    case 4
    then show ?thesis unfolding ts' us' score_strings_sym [of y1]
      by (intro score_common_token [where sz = bs2]) auto
  next
    case 5
    then show ?thesis unfolding ts' us' by (intro score_common_token [where sz = bs1]) auto
  qed
qed

end
