(* ===== verification/LabSimilarity.thy ===== *)
theory LabSimilarity
  imports Ssdeep Access
begin

text \<open>
  \<open>lab_similarity.py\<close> over the Lab's tables: the thresholds, the searched value, the label gate of
  \<open>samples.py\<close> and of \<open>yara_rules.py\<close>, the candidate query, and the search by each method with its
  caps, its time limit and its ranking. The lemmas show that the indexed filters lose no sample that
  would match, and that a hidden sample changes no answer.
\<close>

section \<open>Limits and errors\<close>

text \<open>\<open>NullColumn\<close> stands for the \<open>AttributeError\<close> or \<open>TypeError\<close> of scoring a NULL digest.\<close>

datatype similarity_error =
    SimilarityError string
  | SampleError string
  | RulesetError string
  | SimilarityValueError string
  | NullColumn

definition similarity_methods :: "string list" where
  "similarity_methods = [''imphash'', ''rich_header'', ''ssdeep'', ''tlsh'', ''yara'']"

definition value_methods :: "string list" where
  "value_methods = [''imphash'', ''rich_header'', ''ssdeep'', ''tlsh'']"

definition candidate_cap :: nat where
  "candidate_cap = 2000"

definition ssdeep_score_cap :: nat where
  "ssdeep_score_cap = 500"

definition limit_max :: int where
  "limit_max = 100"

record thresholds =
  ssdeep_min :: int
  tlsh_max :: int
  result_limit :: int
  include_rejected :: bool

definition thresholds_checked :: "thresholds \<Rightarrow> similarity_error + thresholds" where
  "thresholds_checked t =
     (if \<not> (1 \<le> ssdeep_min t \<and> ssdeep_min t \<le> 100)
      then Inl (SimilarityError ''the ssdeep minimum is a score from 1 to 100'')
      else if \<not> (0 \<le> tlsh_max t \<and> tlsh_max t \<le> 300)
      then Inl (SimilarityError ''the TLSH maximum is a distance from 0 to 300'')
      else if \<not> (1 \<le> result_limit t \<and> result_limit t \<le> limit_max)
      then Inl (SimilarityError (''the limit is from 1 to '' @ int_text limit_max))
      else Inr t)"

definition canonical_form :: "string \<Rightarrow> string \<Rightarrow> fuzzy_error + string" where
  "canonical_form by value =
     (if by = ''tlsh'' then canonical_tlsh value
      else if by = ''ssdeep'' then canonical_ssdeep value
      else canonical_imphash value)"

definition expected_form :: "string \<Rightarrow> string" where
  "expected_form by = (if by = ''tlsh'' then tlsh_form else if by = ''ssdeep'' then ssdeep_form else hex32_form)"

definition canonical_value :: "string \<Rightarrow> string \<Rightarrow> similarity_error + string" where
  "canonical_value by value =
     (if by \<notin> set value_methods
      then Inl (SimilarityError (''search by value takes one of '' @ join_with '', '' value_methods))
      else (case canonical_form by value of
          Inl _ \<Rightarrow> Inl (SimilarityError (''that is not '' @ map (\<lambda>c. if c = CHR ''_'' then CHR '' '' else c) by @
              '' in the expected form: '' @ expected_form by))
        | Inr out \<Rightarrow>
            if by = ''ssdeep'' \<and> ssdeep_is_degenerate out
            then Inl (SimilarityError ''that ssdeep digest has too little variety to compare with anything'')
            else Inr out))"

section \<open>The tables\<close>

record case_facts =
  cf_status :: string
  cf_classification :: tlp
  cf_compartments :: "string list"

text \<open>A row of \<open>lab.sample\<close>, the columns a search reads; times are microseconds.\<close>

record sample =
  smp_id :: nat
  smp_case :: "nat option"
  smp_sha256 :: "byte list"
  smp_file_type :: "string option"
  smp_byte_size :: int
  smp_state :: string
  smp_submitted_at :: int
  smp_classification :: tlp
  smp_compartments :: "string list"
  smp_imphash :: "string option"
  smp_rich_header :: "string option"
  smp_ssdeep :: "string option"
  smp_tlsh :: "string option"
  smp_ssdeep_tokens :: "string list option"
  smp_tlsh_lvalue :: "int option"
  smp_screening :: string

record ruleset =
  rs_classification :: tlp
  rs_compartments :: "string list"

record analysis =
  an_sample :: nat
  an_origin :: string
  an_version :: "nat option"
  an_hits :: "string list"

record lab =
  lab_samples :: "sample list"
  lab_analyses :: "analysis list"
  lab_cases :: "nat \<rightharpoonup> case_facts"
  lab_versions :: "nat \<rightharpoonup> nat"
  lab_rulesets :: "nat \<rightharpoonup> ruleset"

record reader =
  rd_clearance :: "tlp option"
  rd_compartments :: "string list"

section \<open>The label gate\<close>

definition case_of :: "lab \<Rightarrow> sample \<Rightarrow> case_facts option" where
  "case_of l s = Option.bind (smp_case s) (lab_cases l)"

definition effective_classification :: "lab \<Rightarrow> sample \<Rightarrow> tlp" where
  "effective_classification l s =
     max (smp_classification s)
       (case case_of l s of None \<Rightarrow> smp_classification s | Some c \<Rightarrow> cf_classification c)"

definition effective_compartments :: "lab \<Rightarrow> sample \<Rightarrow> string list" where
  "effective_compartments l s =
     smp_compartments s @ (case case_of l s of None \<Rightarrow> [] | Some c \<Rightarrow> cf_compartments c)"

definition lab_gate :: "lab \<Rightarrow> tlp \<Rightarrow> string list \<Rightarrow> sample \<Rightarrow> bool" where
  "lab_gate l clearance held s \<longleftrightarrow>
     effective_classification l s \<le> clearance \<and>
     set (effective_compartments l s) \<subseteq> set held \<and>
     smp_screening s \<noteq> ''MATCH''"

definition gate_params :: "reader \<Rightarrow> similarity_error + tlp \<times> string list" where
  "gate_params rd =
     (case rd_clearance rd of
        None \<Rightarrow> Inl (SampleError (''queue() needs the caller's clearance. It used to default to '' @
            ''RED, so a caller that forgot became maximally privileged in '' @
            ''silence, which is exactly how download() came to have no '' @ ''label check at all.''))
      | Some c \<Rightarrow> Inr (c, sort (rd_compartments rd)))"

definition ruleset_gate :: "tlp \<Rightarrow> string list \<Rightarrow> ruleset \<Rightarrow> bool" where
  "ruleset_gate clearance held r \<longleftrightarrow>
     rs_classification r \<le> clearance \<and> set (rs_compartments r) \<subseteq> set held"

definition ruleset_params :: "reader \<Rightarrow> similarity_error + tlp \<times> string list" where
  "ruleset_params rd =
     (case rd_clearance rd of
        None \<Rightarrow> Inl (RulesetError ''a rule set read needs the reader's clearance'')
      | Some c \<Rightarrow> Inr (c, sort (rd_compartments rd)))"

section \<open>The candidates\<close>

text \<open>\<open>ORDER BY submitted_at DESC, id\<close>; the text order of uuids is that of their numbers.\<close>

definition newest_first :: "sample \<Rightarrow> int list" where
  "newest_first s = [- smp_submitted_at s, int (smp_id s)]"

definition wanted_sample :: "lab \<Rightarrow> tlp \<Rightarrow> string list \<Rightarrow> nat option \<Rightarrow> bool \<Rightarrow> sample \<Rightarrow> bool" where
  "wanted_sample l clearance held exclude rejected s \<longleftrightarrow>
     lab_gate l clearance held s \<and>
     (case exclude of None \<Rightarrow> True | Some x \<Rightarrow> smp_id s \<noteq> x) \<and>
     (rejected \<or> smp_state s \<noteq> ''REJECTED'')"

definition candidates ::
    "lab \<Rightarrow> (sample \<Rightarrow> bool) \<Rightarrow> nat \<Rightarrow> reader \<Rightarrow> nat option \<Rightarrow> bool \<Rightarrow> similarity_error + sample list \<times> bool" where
  "candidates l predicate cap rd exclude rejected =
     (case gate_params rd of
        Inl e \<Rightarrow> Inl e
      | Inr (clearance, held) \<Rightarrow>
          let rows = take (cap + 1) (sort_key newest_first
                (filter (\<lambda>s. wanted_sample l clearance held exclude rejected s \<and> predicate s) (lab_samples l)))
          in Inr (take cap rows, cap < length rows))"

text \<open>The arguments of \<open>mod\<close> are from 1 to 511, where SQL's is Isabelle's.\<close>

definition lvalue_predicate :: "int \<Rightarrow> int \<Rightarrow> sample \<Rightarrow> bool" where
  "lvalue_predicate lv window s =
     (case (smp_tlsh s, smp_tlsh_lvalue s) of
        (Some _, Some sv) \<Rightarrow> min ((sv - lv + 256) mod 256) ((lv - sv + 256) mod 256) \<le> window
      | _ \<Rightarrow> False)"

definition token_overlap :: "string list \<Rightarrow> sample \<Rightarrow> bool" where
  "token_overlap tokens s =
     (case smp_ssdeep_tokens s of None \<Rightarrow> False | Some ts \<Rightarrow> list_ex (\<lambda>t. t \<in> set tokens) ts)"

section \<open>The search\<close>

record hashes =
  q_imphash :: "string option"
  q_rich_header :: "string option"
  q_ssdeep :: "string option"
  q_tlsh :: "string option"

datatype match =
    MatchImphash string bool
  | MatchRichHeader string
  | MatchSsdeep int
  | MatchTlsh int
  | MatchYara nat

record entry =
  en_sample :: sample
  en_matched :: "match list"

record search =
  found :: "entry list"
  unavailable :: "(string \<times> string) list"
  capped :: bool
  partial :: bool

definition common_imphashes :: "string list" where
  "common_imphashes = [''f34d5f2d4577ed6d9ceec516c1f5a744'', ''dae02f32a21e03ce65412f6e56942daa'']"

text \<open>\<open>hit\<close>: the dictionary \<open>found\<close> keeps the order in which samples came in.\<close>

definition hit :: "sample \<Rightarrow> match \<Rightarrow> search \<Rightarrow> search" where
  "hit row m st =
     (if list_ex (\<lambda>e. smp_id (en_sample e) = smp_id row) (found st)
      then st\<lparr>found := map (\<lambda>e. if smp_id (en_sample e) = smp_id row
                                then e\<lparr>en_matched := en_matched e @ [m]\<rparr> else e) (found st)\<rparr>
      else st\<lparr>found := found st @ [\<lparr>en_sample = row, en_matched = [m]\<rparr>]\<rparr>)"

definition truthy :: "string option \<Rightarrow> string option" where
  "truthy v = (case v of None \<Rightarrow> None | Some s \<Rightarrow> if s = [] then None else Some s)"

text \<open>
  Scoring stops at its time limit: \<open>late k\<close> tells whether the clock, read before the candidate \<open>k\<close> of
  a method, is past the deadline. \<open>score\<close> gives the match of a candidate, none, or an error.
\<close>

fun score_rows ::
    "(nat \<Rightarrow> bool) \<Rightarrow> (sample \<Rightarrow> similarity_error + match option) \<Rightarrow> nat \<Rightarrow> sample list \<Rightarrow> search \<Rightarrow>
     similarity_error + search" where
  "score_rows late score k [] st = Inr st"
| "score_rows late score k (row # rows) st =
     (if late k then Inr (st\<lparr>partial := True\<rparr>)
      else case score row of
          Inl e \<Rightarrow> Inl e
        | Inr None \<Rightarrow> score_rows late score (k + 1) rows st
        | Inr (Some m) \<Rightarrow> score_rows late score (k + 1) rows (hit row m st))"

definition fuzzy_raises :: "fuzzy_error + 'a \<Rightarrow> similarity_error + 'a" where
  "fuzzy_raises r = (case r of Inl (FuzzyValueError e) \<Rightarrow> Inl (SimilarityValueError e) | Inr v \<Rightarrow> Inr v)"

definition exact_match ::
    "lab \<Rightarrow> reader \<Rightarrow> nat option \<Rightarrow> thresholds \<Rightarrow> hashes \<Rightarrow> string \<Rightarrow> search \<Rightarrow> similarity_error + search" where
  "exact_match l rd exclude t h by st =
     (let imp = (by = ''imphash'');
          column = (if imp then smp_imphash else smp_rich_header)
      in case truthy (if imp then q_imphash h else q_rich_header h) of
        None \<Rightarrow> Inr (st\<lparr>unavailable := unavailable st @
          [(by, if imp then ''this sample has no imphash'' else ''this sample has no rich header'')]\<rparr>)
      | Some v \<Rightarrow>
          (case candidates l (\<lambda>s. column s = Some v) candidate_cap rd exclude (include_rejected t) of
             Inl e \<Rightarrow> Inl e
           | Inr (rows, beyond) \<Rightarrow>
               let m = (if imp then MatchImphash v (v \<in> set common_imphashes) else MatchRichHeader v)
               in Inr (foldl (\<lambda>st row. hit row m st) (st\<lparr>capped := capped st \<or> beyond\<rparr>) rows)))"

definition ssdeep_score :: "string \<Rightarrow> int \<Rightarrow> sample \<Rightarrow> similarity_error + match option" where
  "ssdeep_score v least row =
     (case smp_ssdeep row of
        None \<Rightarrow> Inl NullColumn
      | Some d \<Rightarrow> let s = ssdeep_compare v d in Inr (if least \<le> s then Some (MatchSsdeep s) else None))"

definition ssdeep_match ::
    "lab \<Rightarrow> reader \<Rightarrow> nat option \<Rightarrow> thresholds \<Rightarrow> hashes \<Rightarrow> (nat \<Rightarrow> bool) \<Rightarrow> search \<Rightarrow> similarity_error + search" where
  "ssdeep_match l rd exclude t h late st =
     (case truthy (q_ssdeep h) of
        None \<Rightarrow> Inr (st\<lparr>unavailable := unavailable st @ [(''ssdeep'', ''this sample has no ssdeep digest'')]\<rparr>)
      | Some v \<Rightarrow>
          (case fuzzy_raises (ssdeep_tokens v) of
             Inl e \<Rightarrow> Inl e
           | Inr tokens \<Rightarrow>
               (case candidates l (token_overlap tokens) ssdeep_score_cap rd exclude (include_rejected t) of
                  Inl e \<Rightarrow> Inl e
                | Inr (rows, beyond) \<Rightarrow>
                    score_rows late (ssdeep_score v (ssdeep_min t)) 0 rows (st\<lparr>capped := capped st \<or> beyond\<rparr>))))"

definition tlsh_score :: "string \<Rightarrow> int \<Rightarrow> sample \<Rightarrow> similarity_error + match option" where
  "tlsh_score v most row =
     (case smp_tlsh row of
        None \<Rightarrow> Inl NullColumn
      | Some d \<Rightarrow>
          map_sum id (\<lambda>x. if x \<le> most then Some (MatchTlsh x) else None) (fuzzy_raises (tlsh_distance v d)))"

definition tlsh_match ::
    "lab \<Rightarrow> reader \<Rightarrow> nat option \<Rightarrow> thresholds \<Rightarrow> hashes \<Rightarrow> (nat \<Rightarrow> bool) \<Rightarrow> search \<Rightarrow> similarity_error + search" where
  "tlsh_match l rd exclude t h late st =
     (case truthy (q_tlsh h) of
        None \<Rightarrow> Inr (st\<lparr>unavailable := unavailable st @ [(''tlsh'', ''this sample has no TLSH digest'')]\<rparr>)
      | Some v \<Rightarrow>
          (case fuzzy_raises (tlsh_lvalue v) of
             Inl e \<Rightarrow> Inl e
           | Inr lv \<Rightarrow>
               (case candidates l (lvalue_predicate lv (max 1 (tlsh_max t div 12))) candidate_cap rd exclude
                   (include_rejected t) of
                  Inl e \<Rightarrow> Inl e
                | Inr (rows, beyond) \<Rightarrow>
                    score_rows late (tlsh_score v (tlsh_max t)) 0 rows (st\<lparr>capped := capped st \<or> beyond\<rparr>))))"

text \<open>
  \<open>_yara_similar\<close>: the machine rows whose version and rule set join and whose rule set the reader may
  see; the rule names of this sample; and the samples that share some, with how many.
\<close>

definition readable_hits :: "lab \<Rightarrow> tlp \<Rightarrow> string list \<Rightarrow> nat \<Rightarrow> string list" where
  "readable_hits l clearance held x =
     concat (map an_hits (filter (\<lambda>a. an_sample a = x \<and> an_origin a = ''machine'' \<and>
       (case Option.bind (Option.bind (an_version a) (lab_versions l)) (lab_rulesets l) of
          None \<Rightarrow> False | Some r \<Rightarrow> ruleset_gate clearance held r)) (lab_analyses l)))"

definition shared_rules :: "lab \<Rightarrow> tlp \<Rightarrow> string list \<Rightarrow> string list \<Rightarrow> nat \<Rightarrow> nat" where
  "shared_rules l clearance held mine x =
     length (remdups (filter (\<lambda>h. h \<in> set mine) (readable_hits l clearance held x)))"

definition yara_match ::
    "lab \<Rightarrow> reader \<Rightarrow> nat \<Rightarrow> thresholds \<Rightarrow> search \<Rightarrow> similarity_error + search" where
  "yara_match l rd x t st =
     (case ruleset_params rd of
        Inl e \<Rightarrow> Inl e
      | Inr (rs_clearance, rs_held) \<Rightarrow>
          let mine = readable_hits l rs_clearance rs_held x in
          if mine = []
          then Inr (st\<lparr>unavailable := unavailable st @
            [(''yara'', ''no rule set you can see has matched this sample'')]\<rparr>)
          else (case gate_params rd of
              Inl e \<Rightarrow> Inl e
            | Inr (clearance, held) \<Rightarrow>
                let shared = shared_rules l rs_clearance rs_held mine;
                    rows = take (candidate_cap + 1) (sort_key (\<lambda>s. - int (shared (smp_id s)) # newest_first s)
                      (filter (\<lambda>s. wanted_sample l clearance held (Some x) (include_rejected t) s \<and>
                         0 < shared (smp_id s)) (lab_samples l)));
                    st = foldl (\<lambda>st row. hit row (MatchYara (shared (smp_id row))) st) st (take candidate_cap rows)
                in Inr (st\<lparr>capped := capped st \<or> candidate_cap < length rows\<rparr>)))"

definition run_method ::
    "lab \<Rightarrow> reader \<Rightarrow> nat option \<Rightarrow> nat option \<Rightarrow> thresholds \<Rightarrow> hashes \<Rightarrow> (string \<Rightarrow> nat \<Rightarrow> bool) \<Rightarrow> string \<Rightarrow>
     search \<Rightarrow> similarity_error + search" where
  "run_method l rd exclude sample_id t h late by st =
     (if by = ''imphash'' \<or> by = ''rich_header'' then exact_match l rd exclude t h by st
      else if by = ''ssdeep'' then ssdeep_match l rd exclude t h (late by) st
      else if by = ''tlsh'' then tlsh_match l rd exclude t h (late by) st
      else (case sample_id of None \<Rightarrow> Inr st | Some x \<Rightarrow> yara_match l rd x t st))"

fun run_methods ::
    "(string \<Rightarrow> search \<Rightarrow> similarity_error + search) \<Rightarrow> string list \<Rightarrow> search \<Rightarrow> similarity_error + search" where
  "run_methods run [] st = Inr st"
| "run_methods run (m # ms) st = (case run m st of Inl e \<Rightarrow> Inl e | Inr st \<Rightarrow> run_methods run ms st)"

text \<open>
  \<open>rank\<close>: a distinctive imphash first, then a Rich header, a common imphash, the ssdeep score, the
  TLSH distance, the shared rules, the newest and the id. A later match by a method hides an earlier one.
\<close>

definition rank :: "entry \<Rightarrow> int list" where
  "rank e =
     (let ms = en_matched e;
          last_of = (\<lambda>f. foldl (\<lambda>acc m. case f m of None \<Rightarrow> acc | Some v \<Rightarrow> Some v) None ms);
          imp = last_of (\<lambda>m. case m of MatchImphash _ c \<Rightarrow> Some (if c then 1 else 0) | _ \<Rightarrow> None);
          rich = last_of (\<lambda>m. case m of MatchRichHeader _ \<Rightarrow> Some 0 | _ \<Rightarrow> None);
          ssd = last_of (\<lambda>m. case m of MatchSsdeep s \<Rightarrow> Some s | _ \<Rightarrow> None);
          tl = last_of (\<lambda>m. case m of MatchTlsh d \<Rightarrow> Some d | _ \<Rightarrow> None);
          ya = last_of (\<lambda>m. case m of MatchYara n \<Rightarrow> Some (int n) | _ \<Rightarrow> None)
      in [case imp of Some c \<Rightarrow> c | None \<Rightarrow> 1,
          case rich of Some _ \<Rightarrow> 0 | None \<Rightarrow> 1,
          case imp of Some _ \<Rightarrow> 0 | None \<Rightarrow> 1,
          - (case ssd of Some s \<Rightarrow> s | None \<Rightarrow> -1),
          case tl of Some d \<Rightarrow> d | None \<Rightarrow> 10 ^ 6,
          - (case ya of Some n \<Rightarrow> n | None \<Rightarrow> 0),
          - smp_submitted_at (en_sample e),
          int (smp_id (en_sample e))])"

definition content_read_only_states :: "string list" where
  "content_read_only_states = [''CLOSED'', ''ARCHIVED'', ''PURGED'']"

text \<open>\<open>_sample_out\<close>: what an answer says of a sample.\<close>

record sample_out =
  out_id :: nat
  out_sha256 :: "byte list"
  out_file_type :: "string option"
  out_byte_size :: int
  out_state :: string
  out_classification :: tlp
  out_compartments :: "string list"
  out_case :: "nat option"
  out_case_read_only :: bool

definition to_sample_out :: "lab \<Rightarrow> sample \<Rightarrow> sample_out" where
  "to_sample_out l s =
     \<lparr>out_id = smp_id s, out_sha256 = smp_sha256 s, out_file_type = smp_file_type s,
      out_byte_size = smp_byte_size s, out_state = smp_state s,
      out_classification = effective_classification l s,
      out_compartments = sort (effective_compartments l s), out_case = smp_case s,
      out_case_read_only = (case case_of l s of None \<Rightarrow> False
        | Some c \<Rightarrow> cf_status c \<in> set content_read_only_states)\<rparr>"

record answer =
  ans_by :: string
  ans_thresholds :: thresholds
  ans_results :: "(sample_out \<times> match list) list"
  ans_capped :: bool
  ans_partial :: bool
  ans_unavailable :: "(string \<times> string) list"

definition similar ::
    "lab \<Rightarrow> (string \<Rightarrow> nat \<Rightarrow> bool) \<Rightarrow> reader \<Rightarrow> hashes \<Rightarrow> string \<Rightarrow> thresholds \<Rightarrow> nat option \<Rightarrow> nat option \<Rightarrow>
     similarity_error + answer" where
  "similar l late rd h by t exclude sample_id =
     (case thresholds_checked t of
        Inl e \<Rightarrow> Inl e
      | Inr t \<Rightarrow>
          let methods = (if by = ''all'' then similarity_methods else [by]) in
          if by \<notin> set (similarity_methods @ [''all''])
          then Inl (SimilarityError (''similar by one of all, '' @ join_with '', '' similarity_methods))
          else
            (case run_methods (run_method l rd exclude sample_id t h late) methods
                \<lparr>found = [], unavailable = [], capped = False, partial = False\<rparr> of
               Inl e \<Rightarrow> Inl e
             | Inr st \<Rightarrow>
                 let ordered = take (nat (result_limit t)) (sort_key rank (found st))
                 in Inr \<lparr>ans_by = by, ans_thresholds = t,
                      ans_results = map (\<lambda>e. (to_sample_out l (en_sample e), en_matched e)) ordered,
                      ans_capped = capped st, ans_partial = partial st,
                      ans_unavailable = unavailable st\<rparr>))"

section \<open>What a search reads of hidden rows\<close>

definition readable_analysis :: "lab \<Rightarrow> tlp \<Rightarrow> string list \<Rightarrow> analysis \<Rightarrow> bool" where
  "readable_analysis l clearance held a \<longleftrightarrow>
     (case Option.bind (Option.bind (an_version a) (lab_versions l)) (lab_rulesets l) of
        None \<Rightarrow> False | Some r \<Rightarrow> ruleset_gate clearance held r)"

text \<open>The Lab as the reader's labels leave it.\<close>

definition visible_part :: "reader \<Rightarrow> lab \<Rightarrow> lab" where
  "visible_part rd l =
     (case rd_clearance rd of
        None \<Rightarrow> l
      | Some c \<Rightarrow> l\<lparr>lab_samples := filter (lab_gate l c (rd_compartments rd)) (lab_samples l),
                    lab_analyses := filter (readable_analysis l c (rd_compartments rd)) (lab_analyses l)\<rparr>)"

lemma visible_part_case [simp]:
  "case_of (visible_part rd l) s = case_of l s"
  "effective_classification (visible_part rd l) s = effective_classification l s"
  "effective_compartments (visible_part rd l) s = effective_compartments l s"
  "lab_gate (visible_part rd l) c held s = lab_gate l c held s"
  "wanted_sample (visible_part rd l) c held exclude rejected s = wanted_sample l c held exclude rejected s"
  "to_sample_out (visible_part rd l) s = to_sample_out l s"
  by (simp_all add: visible_part_def case_of_def effective_classification_def effective_compartments_def
      lab_gate_def wanted_sample_def to_sample_out_def split: option.split)

lemma lab_gate_sort [simp]: "lab_gate l c (sort held) s = lab_gate l c held s"
  by (simp add: lab_gate_def)

lemma ruleset_gate_sort [simp]: "ruleset_gate c (sort held) r = ruleset_gate c held r"
  by (simp add: ruleset_gate_def)

lemma visible_part_samples:
  assumes "rd_clearance rd = Some c"
  shows "filter (\<lambda>s. wanted_sample l c (sort (rd_compartments rd)) exclude rejected s \<and> P s) (lab_samples (visible_part rd l)) =
    filter (\<lambda>s. wanted_sample l c (sort (rd_compartments rd)) exclude rejected s \<and> P s) (lab_samples l)"
  by (auto simp: visible_part_def assms filter_filter wanted_sample_def intro!: filter_cong)

lemma visible_part_candidates: "candidates (visible_part rd l) P cap rd exclude rejected = candidates l P cap rd exclude rejected"
  by (cases "rd_clearance rd") (simp_all add: candidates_def gate_params_def visible_part_samples)

lemma readable_hits_sort:
  "readable_hits l c (sort held) x =
   concat (map an_hits (filter (\<lambda>a. an_sample a = x \<and> an_origin a = ''machine'' \<and> readable_analysis l c held a) (lab_analyses l)))"
  by (simp add: readable_hits_def readable_analysis_def cong: option.case_cong)

lemma visible_part_hits:
  assumes "rd_clearance rd = Some c"
  shows "readable_hits (visible_part rd l) c (sort (rd_compartments rd)) x = readable_hits l c (sort (rd_compartments rd)) x"
proof -
  have "readable_analysis (visible_part rd l) c held a = readable_analysis l c held a" for held a
    by (simp add: readable_analysis_def visible_part_def split: option.split)
  then show ?thesis
    by (auto simp: readable_hits_sort visible_part_def assms filter_filter intro!: arg_cong [of _ _ "\<lambda>as. concat (map an_hits as)"] filter_cong)
qed

lemma visible_part_method:
  "run_method (visible_part rd l) rd exclude sid t h late by st = run_method l rd exclude sid t h late by st"
proof -
  have y: "yara_match (visible_part rd l) rd x t st = yara_match l rd x t st" for x
    by (cases "rd_clearance rd")
      (simp_all add: yara_match_def ruleset_params_def gate_params_def shared_rules_def Let_def visible_part_hits visible_part_samples)
  show ?thesis
    unfolding run_method_def exact_match_def ssdeep_match_def tlsh_match_def visible_part_candidates y by (rule refl)
qed

text \<open>A search answers the same whether or not the samples the reader's labels hide, and the machine rows
  of rule sets they hide, exist: same results, same caps, same reasons, same errors.\<close>

theorem hidden_rows_change_nothing:
  "similar (visible_part rd l) late rd h by t exclude sid = similar l late rd h by t exclude sid"
proof -
  have "run_method (visible_part rd l) rd exclude sid t h late = run_method l rd exclude sid t h late" for t
    by (intro ext visible_part_method)
  then show ?thesis by (simp only: similar_def visible_part_case)
qed

section \<open>The indexed filters lose nothing\<close>

text \<open>What \<open>lab_triage.py\<close> stores beside a digest.\<close>

definition stored_index :: "sample \<Rightarrow> bool" where
  "stored_index s \<longleftrightarrow>
     (case smp_ssdeep s of
        None \<Rightarrow> smp_ssdeep_tokens s = None
      | Some d \<Rightarrow> (case (ssdeep_tokens d, smp_ssdeep_tokens s) of (Inr ts, Some us) \<Rightarrow> ts = us | _ \<Rightarrow> False)) \<and>
     (case smp_tlsh s of
        None \<Rightarrow> smp_tlsh_lvalue s = None
      | Some d \<Rightarrow> (case (tlsh_lvalue d, smp_tlsh_lvalue s) of (Inr x, Some y) \<Rightarrow> x = y | _ \<Rightarrow> False))"

lemma hit_new: "smp_id row \<notin> set (map (\<lambda>e. smp_id (en_sample e)) (found st)) \<Longrightarrow>
  hit row m st = st\<lparr>found := found st @ [\<lparr>en_sample = row, en_matched = [m]\<rparr>]\<rparr>"
  by (force simp: hit_def list_ex_iff)

definition scored_entry :: "(sample \<Rightarrow> similarity_error + match option) \<Rightarrow> sample \<Rightarrow> entry list" where
  "scored_entry score r = (case score r of Inr (Some m) \<Rightarrow> [\<lparr>en_sample = r, en_matched = [m]\<rparr>] | _ \<Rightarrow> [])"

lemma score_rows_found:
  "score_rows late score k rows st = Inr st' \<Longrightarrow> \<not> partial st' \<Longrightarrow>
   distinct (map (\<lambda>e. smp_id (en_sample e)) (found st) @ map smp_id rows) \<Longrightarrow>
   found st' = found st @ concat (map (scored_entry score) rows) \<and> capped st' = capped st"
proof (induction late score k rows st rule: score_rows.induct)
  case (2 late score k row rows st)
  then have l: "\<not> late k" by (auto split: if_splits)
  show ?case
  proof (cases "score row")
    case (Inl e)
    then show ?thesis using 2 l by simp
  next
    case (Inr r)
    show ?thesis
    proof (cases r)
      case None
      then show ?thesis using 2 l Inr by (simp add: scored_entry_def)
    next
      case (Some m)
      let ?st = "hit row m st"
      have h: "found ?st = found st @ [\<lparr>en_sample = row, en_matched = [m]\<rparr>]" "capped ?st = capped st"
        using 2(5) by (auto simp: hit_new)
      have "score_rows late score (k + 1) rows ?st = Inr st'" using 2(3) l Inr Some by simp
      from 2(2) [OF l Inr Some this 2(4)] 2(5) show ?thesis by (auto simp: h scored_entry_def Inr Some)
    qed
  qed
qed simp

lemma candidates_all:
  assumes "candidates l P cap rd exclude rejected = Inr (rows, False)" "rd_clearance rd = Some c"
  shows "set rows = {s \<in> set (lab_samples l). wanted_sample l c (rd_compartments rd) exclude rejected s \<and> P s}"
    "distinct (map smp_id (lab_samples l)) \<Longrightarrow> distinct (map smp_id rows)"
proof -
  define w where "w = filter (\<lambda>s. wanted_sample l c (sort (rd_compartments rd)) exclude rejected s \<and> P s) (lab_samples l)"
  have r: "rows = take cap (take (cap + 1) (sort_key newest_first w))" "length (take (cap + 1) (sort_key newest_first w)) \<le> cap"
    using assms by (auto simp: candidates_def gate_params_def w_def Let_def)
  then have rows: "rows = sort_key newest_first w" by simp
  show "set rows = {s \<in> set (lab_samples l). wanted_sample l c (rd_compartments rd) exclude rejected s \<and> P s}"
    by (auto simp: rows w_def wanted_sample_def)
  assume "distinct (map smp_id (lab_samples l))"
  then have "distinct (map smp_id w)" by (simp add: w_def distinct_map_filter)
  then show "distinct (map smp_id rows)" by (auto simp: rows distinct_map)
qed

text \<open>A search by one scored method, its caps and its clock not in the way.\<close>

definition answer_pairs :: "answer \<Rightarrow> (nat \<times> match list) set" where
  "answer_pairs a = (\<lambda>(s, ms). (out_id s, ms)) ` set (ans_results a)"

definition complete_answer :: "answer \<Rightarrow> bool" where
  "complete_answer a \<longleftrightarrow>
     \<not> ans_capped a \<and> \<not> ans_partial a \<and> length (ans_results a) < nat (result_limit (ans_thresholds a))"

lemma similar_single:
  assumes "similar l late rd h by t exclude sid = Inr a" "by \<noteq> ''all''" "complete_answer a"
  shows "\<exists>st. run_method l rd exclude sid t h late by \<lparr>found = [], unavailable = [], capped = False, partial = False\<rparr> = Inr st \<and>
    \<not> capped st \<and> \<not> partial st \<and>
    answer_pairs a = (\<lambda>e. (smp_id (en_sample e), en_matched e)) ` set (found st)"
proof -
  obtain st where st: "run_method l rd exclude sid t h late by \<lparr>found = [], unavailable = [], capped = False, partial = False\<rparr> = Inr st"
    and a: "a = \<lparr>ans_by = by, ans_thresholds = t,
       ans_results = map (\<lambda>e. (to_sample_out l (en_sample e), en_matched e)) (take (nat (result_limit t)) (sort_key rank (found st))),
       ans_capped = capped st, ans_partial = partial st, ans_unavailable = unavailable st\<rparr>"
    using assms(1,2)
    by (auto simp: similar_def Let_def thresholds_checked_def split: if_splits sum.splits)
  have "take (nat (result_limit t)) (sort_key rank (found st)) = sort_key rank (found st)"
    using assms(3) by (auto simp: complete_answer_def a)
  then have "answer_pairs a = (\<lambda>e. (smp_id (en_sample e), en_matched e)) ` set (found st)"
    by (simp add: a answer_pairs_def image_image to_sample_out_def)
  with st assms(3) show ?thesis by (auto simp: complete_answer_def a)
qed

lemma scored_entry_image:
  "(\<lambda>e. (smp_id (en_sample e), en_matched e)) ` set (scored_entry score r) = {(smp_id r, [m]) | m. score r = Inr (Some m)}"
  by (auto simp: scored_entry_def split: sum.splits option.splits)

lemma scored_pairs:
  assumes c: "candidates l P cap rd exclude rejected = Inr (rows, beyond)" and cl: "rd_clearance rd = Some c"
    and sc: "score_rows late score 0 rows \<lparr>found = [], unavailable = u, capped = beyond, partial = False\<rparr> = Inr st"
    and st: "\<not> capped st" "\<not> partial st" and d: "distinct (map smp_id (lab_samples l))"
  shows "(\<lambda>e. (smp_id (en_sample e), en_matched e)) ` set (found st) =
    {(smp_id s, [m]) | s m. s \<in> set (lab_samples l) \<and>
       wanted_sample l c (rd_compartments rd) exclude rejected s \<and> P s \<and> score s = Inr (Some m)}"
proof -
  have cap: "capped st' = capped st0" if "score_rows late score k rows st0 = Inr st'" for k st0 st'
    using that
  proof (induction late score k rows st0 rule: score_rows.induct)
    case (2 late score k row rows st0)
    then show ?case by (auto simp: hit_def split: if_splits sum.splits option.splits)
  qed simp
  have b: "\<not> beyond" using cap [OF sc] st(1) by simp
  note all = candidates_all [OF c [unfolded eq_False [THEN iffD2, OF b]] cl]
  have "found st = concat (map (scored_entry score) rows)"
    using score_rows_found [OF sc st(2)] all(2) [OF d] by simp
  then have "(\<lambda>e. (smp_id (en_sample e), en_matched e)) ` set (found st) =
      (\<Union>r \<in> set rows. {(smp_id r, [m]) | m. score r = Inr (Some m)})"
    by (simp add: image_UN scored_entry_image)
  then show ?thesis unfolding all(1) by blast
qed

lemma circular_difference:
  assumes "0 \<le> x" "x < 256" "0 \<le> y" "y < (256 :: int)"
  shows "min ((x - y + 256) mod 256) ((y - x + 256) mod 256) = mod_diff x y 256"
proof -
  have a: "(z + 256) mod 256 = (if 0 \<le> z then z else z + 256)" if "-256 < z" "z < 256" for z :: int
  proof (cases "0 \<le> z")
    case False
    with that have "(z + 256) mod 256 = z + 256" by (intro mod_pos_pos_trivial) auto
    with False show ?thesis by simp
  qed (use that in simp)
  show ?thesis using a [of "x - y"] a [of "y - x"] assms by (auto simp: mod_diff_def Let_def min_def)
qed

lemma tlsh_within_window:
  assumes "tlsh_distance v d = Inr x" "x \<le> most"
  shows "\<exists>lv sv. tlsh_lvalue v = Inr lv \<and> tlsh_lvalue d = Inr sv \<and>
    min ((sv - lv + 256) mod 256) ((lv - sv + 256) mod 256) \<le> max 1 (most div 12)"
proof -
  obtain pa pb where p: "tlsh_parts v = Inr pa" "tlsh_parts d = Inr pb" "x = parts_distance pa pb"
    using assms(1) by (auto simp: tlsh_distance_def split: sum.splits)
  let ?l = "mod_diff (uint (part_lvalue pa)) (uint (part_lvalue pb)) 256"
  have "?l \<le> 1 \<or> 12 * ?l \<le> most"
    using parts_distance_length(2) [OF tlsh_parts_quarters(1) [OF p(1)] tlsh_parts_quarters(1) [OF p(2)]
        tlsh_parts_quarters(2) [OF p(1)] tlsh_parts_quarters(2) [OF p(2)]] assms(2) p(3) by linarith
  then have "?l \<le> max 1 (most div 12)" by linarith
  moreover have "min ((uint (part_lvalue pb) - uint (part_lvalue pa) + 256) mod 256)
      ((uint (part_lvalue pa) - uint (part_lvalue pb) + 256) mod 256) = ?l"
    using circular_difference [of "uint (part_lvalue pa)" "uint (part_lvalue pb)"]
      uint_lt2p [of "part_lvalue pa"] uint_lt2p [of "part_lvalue pb"] by (simp add: min.commute)
  ultimately show ?thesis by (simp add: tlsh_lvalue_def p)
qed

lemma tlsh_predicate_holds:
  assumes "stored_index s" "tlsh_score v most s = Inr (Some m)" "fuzzy_raises (tlsh_lvalue v) = Inr lv"
  shows "lvalue_predicate lv (max 1 (most div 12)) s"
proof -
  obtain d x where d: "smp_tlsh s = Some d" "tlsh_distance v d = Inr x" "x \<le> most"
    using assms(2) by (auto simp: tlsh_score_def fuzzy_raises_def split: option.splits sum.splits fuzzy_error.splits if_splits)
  from tlsh_within_window [OF d(2,3)] assms(1,3) d(1) show ?thesis
    by (auto simp: stored_index_def lvalue_predicate_def fuzzy_raises_def split: option.splits sum.splits)
qed

lemma ssdeep_predicate_holds:
  assumes "stored_index s" "ssdeep_score v least s = Inr (Some m)" "1 \<le> least" "fuzzy_raises (ssdeep_tokens v) = Inr ts"
  shows "token_overlap ts s"
proof -
  obtain d where d: "smp_ssdeep s = Some d" "least \<le> ssdeep_compare v d"
    using assms(2) by (auto simp: ssdeep_score_def Let_def split: option.splits if_splits)
  obtain us where us: "ssdeep_tokens d = Inr us" "smp_ssdeep_tokens s = Some us"
    using assms(1) d(1) by (auto simp: stored_index_def split: option.splits sum.splits)
  have v: "ssdeep_tokens v = Inr ts"
    using assms(4) by (auto simp: fuzzy_raises_def split: sum.splits fuzzy_error.splits)
  have "set ts \<inter> set us \<noteq> {}" using positive_shares_token [OF v us(1)] d(2) assms(3) by linarith
  then show ?thesis by (auto simp: token_overlap_def us(2) list_ex_iff)
qed

lemma tlsh_score_match: "tlsh_score v most s = Inr (Some m) \<longleftrightarrow>
  (\<exists>d x. smp_tlsh s = Some d \<and> tlsh_distance v d = Inr x \<and> x \<le> most \<and> m = MatchTlsh x)"
  by (auto simp: tlsh_score_def fuzzy_raises_def split: option.splits sum.splits fuzzy_error.splits if_splits)

lemma ssdeep_score_match: "ssdeep_score v least s = Inr (Some m) \<longleftrightarrow>
  (\<exists>d. smp_ssdeep s = Some d \<and> least \<le> ssdeep_compare v d \<and> m = MatchSsdeep (ssdeep_compare v d))"
  by (auto simp: ssdeep_score_def Let_def split: option.splits if_splits)

lemma similar_checked: "similar l late rd h by t exclude sid = Inr a \<Longrightarrow> 1 \<le> ssdeep_min t"
  by (auto simp: similar_def thresholds_checked_def split: if_splits)

text \<open>C32: A TLSH search that no cap, clock or limit cut answers exactly what a comparison of the query with every
  sample the reader may see would: each with its distance, when that is at most the threshold. The
  filter on length buckets loses none.\<close>

theorem tlsh_search_complete:
  assumes run: "similar l late rd h ''tlsh'' t exclude sid = Inr a" and whole: "complete_answer a"
    and stored: "\<forall>s\<in>set (lab_samples l). stored_index s" and ids: "distinct (map smp_id (lab_samples l))"
    and cl: "rd_clearance rd = Some c" and v: "truthy (q_tlsh h) = Some v"
  shows "answer_pairs a = {(smp_id s, [MatchTlsh x]) | s d x. s \<in> set (lab_samples l) \<and>
    wanted_sample l c (rd_compartments rd) exclude (include_rejected t) s \<and>
    smp_tlsh s = Some d \<and> tlsh_distance v d = Inr x \<and> x \<le> tlsh_max t}"
proof -
  obtain st where st: "tlsh_match l rd exclude t h (late ''tlsh'') \<lparr>found = [], unavailable = [], capped = False, partial = False\<rparr> = Inr st"
    "\<not> capped st" "\<not> partial st" "answer_pairs a = (\<lambda>e. (smp_id (en_sample e), en_matched e)) ` set (found st)"
    using similar_single [OF run _ whole] by (auto simp: run_method_def)
  then obtain lv rows beyond where lv: "fuzzy_raises (tlsh_lvalue v) = Inr lv"
    and c: "candidates l (lvalue_predicate lv (max 1 (tlsh_max t div 12))) candidate_cap rd exclude (include_rejected t) = Inr (rows, beyond)"
    and sc: "score_rows (late ''tlsh'') (tlsh_score v (tlsh_max t)) 0 rows
      \<lparr>found = [], unavailable = [], capped = beyond, partial = False\<rparr> = Inr st"
    by (auto simp: tlsh_match_def v split: sum.splits)
  show ?thesis
    unfolding st(4) scored_pairs [OF c cl sc st(2,3) ids]
    using stored tlsh_predicate_holds [OF _ _ lv] by (auto simp: tlsh_score_match) blast+
qed

text \<open>So does an ssdeep search: the filter on shared tokens loses no sample whose score reaches a minimum of
  at least one.\<close>

theorem ssdeep_search_complete:
  assumes run: "similar l late rd h ''ssdeep'' t exclude sid = Inr a" and whole: "complete_answer a"
    and stored: "\<forall>s\<in>set (lab_samples l). stored_index s" and ids: "distinct (map smp_id (lab_samples l))"
    and cl: "rd_clearance rd = Some c" and v: "truthy (q_ssdeep h) = Some v"
  shows "answer_pairs a = {(smp_id s, [MatchSsdeep (ssdeep_compare v d)]) | s d. s \<in> set (lab_samples l) \<and>
    wanted_sample l c (rd_compartments rd) exclude (include_rejected t) s \<and>
    smp_ssdeep s = Some d \<and> ssdeep_min t \<le> ssdeep_compare v d}"
proof -
  obtain st where st: "ssdeep_match l rd exclude t h (late ''ssdeep'') \<lparr>found = [], unavailable = [], capped = False, partial = False\<rparr> = Inr st"
    "\<not> capped st" "\<not> partial st" "answer_pairs a = (\<lambda>e. (smp_id (en_sample e), en_matched e)) ` set (found st)"
    using similar_single [OF run _ whole] by (auto simp: run_method_def)
  then obtain ts rows beyond where ts: "fuzzy_raises (ssdeep_tokens v) = Inr ts"
    and c: "candidates l (token_overlap ts) ssdeep_score_cap rd exclude (include_rejected t) = Inr (rows, beyond)"
    and sc: "score_rows (late ''ssdeep'') (ssdeep_score v (ssdeep_min t)) 0 rows
      \<lparr>found = [], unavailable = [], capped = beyond, partial = False\<rparr> = Inr st"
    by (auto simp: ssdeep_match_def v split: sum.splits)
  show ?thesis
    unfolding st(4) scored_pairs [OF c cl sc st(2,3) ids]
    using stored ssdeep_predicate_holds [OF _ _ similar_checked [OF run] ts] by (auto simp: ssdeep_score_match) blast+
qed

section \<open>A small Lab\<close>

definition demo_row :: "nat \<Rightarrow> string option \<Rightarrow> string option \<Rightarrow> string list option \<Rightarrow> int option \<Rightarrow> sample" where
  "demo_row i ssd th tokens lv =
     \<lparr>smp_id = i, smp_case = None, smp_sha256 = [], smp_file_type = None, smp_byte_size = 4096,
      smp_state = ''TRIAGED'', smp_submitted_at = 1000 + int i, smp_classification = GREEN,
      smp_compartments = [], smp_imphash = None, smp_rich_header = None, smp_ssdeep = ssd, smp_tlsh = th,
      smp_ssdeep_tokens = tokens, smp_tlsh_lvalue = lv, smp_screening = ''NO_MATCH''\<rparr>"

lemmas demo_wanted = demo_row_def wanted_sample_def lab_gate_def effective_classification_def effective_compartments_def
  case_of_def less_eq_tlp_def

definition ssdeep_lab :: lab where
  "ssdeep_lab = \<lparr>lab_samples =
      [demo_row 0 (Some ''3:abcdefg:hi'') None (Some [''3#abcdefg|hi'', ''3:abcdefg'']) None,
       demo_row 1 (Some ''3:abcdefg:hj'') None (Some [''3#abcdefg|hj'', ''3:abcdefg'']) None,
       demo_row 2 (Some ''3:k:l'') None (Some [''3#k|l'']) None],
     lab_analyses = [], lab_cases = Map.empty, lab_versions = Map.empty, lab_rulesets = Map.empty\<rparr>"

definition demo_hashes :: "string option \<Rightarrow> string option \<Rightarrow> hashes" where
  "demo_hashes ssd th = \<lparr>q_imphash = None, q_rich_header = None, q_ssdeep = ssd, q_tlsh = th\<rparr>"

definition demo_reader :: reader where
  "demo_reader = \<lparr>rd_clearance = Some AMBER, rd_compartments = []\<rparr>"

definition demo_thresholds :: thresholds where
  "demo_thresholds = \<lparr>ssdeep_min = 5, tlsh_max = 100, result_limit = 25, include_rejected = False\<rparr>"

lemma ssdeep_demo_tokens:
  "ssdeep_tokens ''3:abcdefg:hi'' = Inr [''3#abcdefg|hi'', ''3:abcdefg'']"
  "ssdeep_tokens ''3:abcdefg:hj'' = Inr [''3#abcdefg|hj'', ''3:abcdefg'']"
  "ssdeep_tokens ''3:k:l'' = Inr [''3#k|l'']"
  by code_simp+
lemma ssdeep_demo_score:
  "ssdeep_compare ''3:abcdefg:hi'' ''3:abcdefg:hi'' = 100"
  "ssdeep_compare ''3:abcdefg:hi'' ''3:abcdefg:hj'' = 7"
  by code_simp+

lemma candidates_few:
  assumes "gate_params rd = Inr (c, held)"
    and "filter (\<lambda>s. wanted_sample l c held exclude rejected s \<and> P s) (lab_samples l) = w" and "length w \<le> cap"
  shows "candidates l P cap rd exclude rejected = Inr (sort_key newest_first w, False)"
  using assms by (simp add: candidates_def Let_def)

lemma similar_demo:
  assumes "run_method l demo_reader None None demo_thresholds h (\<lambda>_ _. False) by
    \<lparr>found = [], unavailable = [], capped = False, partial = False\<rparr> = Inr st"
    and "by = ''tlsh'' \<or> by = ''ssdeep''" and "\<not> capped st" "\<not> partial st" and "length (found st) < 25"
  shows "\<exists>a. similar l (\<lambda>_ _. False) demo_reader h by demo_thresholds None None = Inr a \<and> complete_answer a"
proof -
  have "thresholds_checked demo_thresholds = Inr demo_thresholds" by code_simp
  then show ?thesis
    using assms by (auto simp: similar_def Let_def similarity_methods_def complete_answer_def demo_thresholds_def)
qed

lemma demo_gate: "gate_params demo_reader = Inr (AMBER, [])" "rd_clearance demo_reader = Some AMBER"
  by (simp_all add: gate_params_def demo_reader_def)

lemma ssdeep_demo_stored: "\<forall>s\<in>set (lab_samples ssdeep_lab). stored_index s" "distinct (map smp_id (lab_samples ssdeep_lab))"
  by (simp_all add: ssdeep_lab_def demo_row_def stored_index_def ssdeep_demo_tokens)

lemma ssdeep_demo_run:
  "\<exists>a. similar ssdeep_lab (\<lambda>_ _. False) demo_reader (demo_hashes (Some ''3:abcdefg:hi'') None) ''ssdeep''
      demo_thresholds None None = Inr a \<and> complete_answer a"
proof -
  define rows where "rows = sort_key newest_first (take 2 (lab_samples ssdeep_lab))"
  have "filter (\<lambda>s. wanted_sample ssdeep_lab AMBER [] None False s \<and> token_overlap [''3#abcdefg|hi'', ''3:abcdefg''] s)
      (lab_samples ssdeep_lab) = take 2 (lab_samples ssdeep_lab)"
    by code_simp
  from candidates_few [OF demo_gate(1) this, of ssdeep_score_cap]
  have c: "candidates ssdeep_lab (token_overlap [''3#abcdefg|hi'', ''3:abcdefg'']) ssdeep_score_cap demo_reader None False =
      Inr (rows, False)"
    by (simp add: ssdeep_score_cap_def rows_def)
  have r: "rows = [demo_row 1 (Some ''3:abcdefg:hj'') None (Some [''3#abcdefg|hj'', ''3:abcdefg'']) None,
      demo_row 0 (Some ''3:abcdefg:hi'') None (Some [''3#abcdefg|hi'', ''3:abcdefg'']) None]"
    by (simp add: rows_def ssdeep_lab_def newest_first_def demo_row_def)
  have t: "fuzzy_raises (Inr ts) = Inr ts" for ts :: "string list" by (simp add: fuzzy_raises_def)
  show ?thesis
    by (rule similar_demo) (simp_all add: run_method_def ssdeep_match_def truthy_def demo_hashes_def ssdeep_demo_tokens t
        demo_thresholds_def c, simp_all add: r ssdeep_score_def demo_row_def ssdeep_demo_score hit_def, simp_all)
qed

text \<open>The sample with the query's digest scores 100, the one that shares its first half scores 7.\<close>

theorem ssdeep_search_complete_witness:
  "\<exists>a. similar ssdeep_lab (\<lambda>_ _. False) demo_reader (demo_hashes (Some ''3:abcdefg:hi'') None) ''ssdeep''
      demo_thresholds None None = Inr a \<and>
    (0, [MatchSsdeep 100]) \<in> answer_pairs a \<and> (1, [MatchSsdeep 7]) \<in> answer_pairs a"
proof -
  obtain a where a: "similar ssdeep_lab (\<lambda>_ _. False) demo_reader (demo_hashes (Some ''3:abcdefg:hi'') None) ''ssdeep''
      demo_thresholds None None = Inr a" "complete_answer a"
    using ssdeep_demo_run by blast
  have v: "truthy (q_ssdeep (demo_hashes (Some ''3:abcdefg:hi'') None)) = Some ''3:abcdefg:hi''"
    by (simp add: truthy_def demo_hashes_def)
  have pair: "(smp_id s, [MatchSsdeep (ssdeep_compare ''3:abcdefg:hi'' d)]) \<in> answer_pairs a"
    if "s \<in> set (lab_samples ssdeep_lab)"
      "wanted_sample ssdeep_lab AMBER (rd_compartments demo_reader) None (include_rejected demo_thresholds) s"
      "smp_ssdeep s = Some d" "ssdeep_min demo_thresholds \<le> ssdeep_compare ''3:abcdefg:hi'' d" for s d
    unfolding ssdeep_search_complete [OF a ssdeep_demo_stored demo_gate(2) v] using that by blast
  have "(0, [MatchSsdeep 100]) \<in> answer_pairs a"
    using pair [of "lab_samples ssdeep_lab ! 0" "''3:abcdefg:hi''"]
    by (simp add: ssdeep_lab_def demo_thresholds_def demo_reader_def ssdeep_demo_score demo_wanted)
  moreover have "(1, [MatchSsdeep 7]) \<in> answer_pairs a"
    using pair [of "lab_samples ssdeep_lab ! 1" "''3:abcdefg:hj''"]
    by (simp add: ssdeep_lab_def demo_thresholds_def demo_reader_def ssdeep_demo_score demo_wanted)
  ultimately show ?thesis using a(1) by blast
qed

section \<open>A TLSH search\<close>

definition zero_digest :: string where
  "zero_digest = replicate 70 CHR ''0''"

lemma zero_canonical: "canonical_tlsh zero_digest = Inr zero_digest"
  by (simp add: canonical_tlsh_def zero_digest_def tlsh_pattern_def is_space_def code_point_def upper_ascii_char_def
      is_upper_hex_def list_all_iff startswith_def Let_def filter_replicate map_replicate del: replicate.simps)

lemma from_hex_zero: "from_hex (replicate (2 * n) CHR ''0'') = replicate n 0"
  by (induction n) (simp_all add: hex_val_def code_point_def)

lemma zero_parts: "tlsh_parts zero_digest = Inr \<lparr>part_checksum = 0, part_lvalue = 0, part_q1 = 0, part_q2 = 0, part_body = replicate 32 0\<rparr>"
proof -
  have "from_hex zero_digest = replicate 35 0" using from_hex_zero [of 35] by (simp only: zero_digest_def) simp
  then show ?thesis
    by (simp add: tlsh_parts_def zero_canonical Let_def swap_nibbles_def del: replicate.simps)
qed


definition tlsh_lab :: lab where
  "tlsh_lab = \<lparr>lab_samples = [demo_row 0 None (Some zero_digest) None (Some 0), demo_row 1 None None None None],
     lab_analyses = [], lab_cases = Map.empty, lab_versions = Map.empty, lab_rulesets = Map.empty\<rparr>"

lemma zero_facts: "tlsh_lvalue zero_digest = Inr 0" "tlsh_distance zero_digest zero_digest = Inr 0" "zero_digest \<noteq> []"
  by (simp_all add: tlsh_lvalue_def zero_parts tlsh_distance_def parts_distance_refl) (simp add: zero_digest_def)

lemma tlsh_demo_stored: "\<forall>s\<in>set (lab_samples tlsh_lab). stored_index s" "distinct (map smp_id (lab_samples tlsh_lab))"
  by (simp_all add: tlsh_lab_def demo_row_def stored_index_def zero_facts)

lemma tlsh_demo_run:
  "\<exists>a. similar tlsh_lab (\<lambda>_ _. False) demo_reader (demo_hashes None (Some zero_digest)) ''tlsh'' demo_thresholds None None = Inr a \<and>
    complete_answer a"
proof -
  have "filter (\<lambda>s. wanted_sample tlsh_lab AMBER [] None False s \<and> lvalue_predicate 0 8 s) (lab_samples tlsh_lab) =
      [demo_row 0 None (Some zero_digest) None (Some 0)]"
    by (simp add: tlsh_lab_def demo_wanted lvalue_predicate_def)
  from candidates_few [OF demo_gate(1) this, of candidate_cap]
  have c: "candidates tlsh_lab (lvalue_predicate 0 8) candidate_cap demo_reader None False =
      Inr ([demo_row 0 None (Some zero_digest) None (Some 0)], False)"
    by (simp add: candidate_cap_def)
  have t: "fuzzy_raises (Inr x) = Inr x" for x :: int by (simp add: fuzzy_raises_def)
  show ?thesis
    by (rule similar_demo) (simp_all add: run_method_def tlsh_match_def truthy_def demo_hashes_def zero_facts t demo_thresholds_def c,
        simp_all add: tlsh_score_def demo_row_def zero_facts t hit_def, simp_all)
qed

theorem tlsh_search_complete_witness:
  "\<exists>a. similar tlsh_lab (\<lambda>_ _. False) demo_reader (demo_hashes None (Some zero_digest)) ''tlsh'' demo_thresholds None None = Inr a \<and>
    (0, [MatchTlsh 0]) \<in> answer_pairs a"
proof -
  obtain a where a: "similar tlsh_lab (\<lambda>_ _. False) demo_reader (demo_hashes None (Some zero_digest)) ''tlsh''
      demo_thresholds None None = Inr a" "complete_answer a"
    using tlsh_demo_run by blast
  have v: "truthy (q_tlsh (demo_hashes None (Some zero_digest))) = Some zero_digest"
    using zero_facts(3) by (simp add: truthy_def demo_hashes_def)
  define s where "s = demo_row 0 None (Some zero_digest) None (Some 0)"
  have "s \<in> set (lab_samples tlsh_lab)" "smp_id s = 0" "smp_tlsh s = Some zero_digest" "0 \<le> tlsh_max demo_thresholds"
    "wanted_sample tlsh_lab AMBER (rd_compartments demo_reader) None (include_rejected demo_thresholds) s"
    by (simp_all add: tlsh_lab_def demo_wanted demo_thresholds_def demo_reader_def s_def)
  then have "(0, [MatchTlsh 0]) \<in> answer_pairs a"
    unfolding tlsh_search_complete [OF a tlsh_demo_stored demo_gate(2) v] using zero_facts(2) by force
  with a(1) show ?thesis by blast
qed

end
