(* ===== verification/Codecs.thy ===== *)
theory Codecs
  imports IpText
begin

text \<open>
  The byte codecs of the standard library the program uses: UTF-8 of the strings of the model,
  hexadecimal digests, \<open>base64.b64encode\<close> and the lenient \<open>b64decode\<close> (the state machine of
  \<open>binascii.a2b_base64\<close>: foreign characters skipped, nothing read behind a complete padding), and
  \<open>b32encode\<close>/\<open>b32decode\<close> with case folding. The lemmas are the round trips.
\<close>

section \<open>UTF-8 and hexadecimal\<close>

text \<open>UTF-8 of the characters a string of the model holds, and what reads as such characters.\<close>

definition utf8_char :: "char \<Rightarrow> byte list" where
  "utf8_char c = (let n = code_point c in
     if n < 128 then [word_of_nat n] else [word_of_nat (192 + n div 64), word_of_nat (128 + n mod 64)])"

definition utf8 :: "string \<Rightarrow> byte list" where
  "utf8 s = concat (map utf8_char s)"

fun utf8_decode :: "byte list \<Rightarrow> string option" where
  "utf8_decode [] = Some []"
| "utf8_decode (a # bs) =
     (if unat a < 128 then map_option ((#) (char_of (unat a))) (utf8_decode bs)
      else (case bs of
          [] \<Rightarrow> None
        | b # bs' \<Rightarrow>
            if unat a \<in> {194, 195} \<and> 128 \<le> unat b \<and> unat b < 192
            then map_option ((#) (char_of ((unat a - 192) * 64 + (unat b - 128)))) (utf8_decode bs')
            else None))"

definition hex_digest :: "byte list \<Rightarrow> string" where
  "hex_digest bs = concat (map (\<lambda>b. [hex_char (unat b div 16), hex_char (unat b mod 16)]) bs)"

lemma code_point_less [simp]: "code_point c < 256"
  by (simp add: code_point_def)

lemma char_of_code_point [simp]: "char_of (code_point c) = c"
  by (simp add: code_point_def)

lemma unat_byte: "n < 256 \<Longrightarrow> unat (word_of_nat n :: byte) = n"
  by (simp add: unsigned_of_nat take_bit_nat_eq_self)

lemma word_of_unat [simp]: "word_of_nat (unat (b :: byte)) = b"
  by simp

lemma utf8_decode_char: "utf8_decode (utf8_char c @ bs) = map_option ((#) c) (utf8_decode bs)"
proof (cases "code_point c < 128")
  case True
  then have "unat (word_of_nat (code_point c) :: byte) = code_point c" by (intro unat_byte) simp
  with True show ?thesis by (simp add: utf8_char_def Let_def)
next
  case False
  define h l where "h = code_point c div 64" and "l = code_point c mod 64"
  have n: "code_point c = h * 64 + l" "l < 64" by (simp_all add: h_def l_def)
  then have q: "h = 2 \<or> h = 3" using False code_point_less [of c] by linarith
  have ab: "unat (word_of_nat (192 + h) :: byte) = 192 + h" "unat (word_of_nat (128 + l) :: byte) = 128 + l"
    by (rule unat_byte, use q n(2) in linarith)+
  have c: "char_of (h * 64 + l) = c" using char_of_code_point [of c] by (simp only: n)
  have u: "utf8_char c = [word_of_nat (192 + h), word_of_nat (128 + l)]"
    using False by (simp only: utf8_char_def Let_def h_def l_def if_False)
  show ?thesis using q n(2) unfolding u by (auto simp: ab c simp del: of_nat_add of_nat_numeral)
qed

lemma utf8_roundtrip [simp]: "utf8_decode (utf8 s) = Some s"
  by (induction s) (simp_all add: utf8_def utf8_decode_char)

section \<open>Base64\<close>

definition b64_alphabet :: string where
  "b64_alphabet = ''ABCDEFGHIJKLMNOPQRSTUVWXYZabcdefghijklmnopqrstuvwxyz0123456789+/''"

definition b64_char :: "nat \<Rightarrow> char" where
  "b64_char v = b64_alphabet ! v"

definition index_of :: "'a \<Rightarrow> 'a list \<Rightarrow> nat option" where
  "index_of x xs = (let n = length (takeWhile (\<lambda>y. y \<noteq> x) xs) in if n < length xs then Some n else None)"

definition b64_value :: "char \<Rightarrow> nat option" where
  "b64_value c = index_of c b64_alphabet"

definition pad_char :: char where
  "pad_char = CHR ''=''"

fun b64_encode :: "byte list \<Rightarrow> string" where
  "b64_encode [] = []"
| "b64_encode [a] = [b64_char (unat a div 4), b64_char (unat a mod 4 * 16), pad_char, pad_char]"
| "b64_encode [a, b] =
     [b64_char (unat a div 4), b64_char (unat a mod 4 * 16 + unat b div 16), b64_char (unat b mod 16 * 4), pad_char]"
| "b64_encode (a # b # c # bs) =
     [b64_char (unat a div 4), b64_char (unat a mod 4 * 16 + unat b div 16),
      b64_char (unat b mod 16 * 4 + unat c div 64), b64_char (unat c mod 64)] @ b64_encode bs"

text \<open>
  The decoder: how many characters of the quantum were read, the bits left over from the last of
  them, the pads seen since, and the bytes written.
\<close>

fun b64_step :: "nat \<Rightarrow> nat \<Rightarrow> nat \<Rightarrow> byte list \<Rightarrow> string \<Rightarrow> byte list option" where
  "b64_step quad left pads out [] = (if quad = 0 then Some out else None)"
| "b64_step quad left pads out (c # cs) =
     (if c = pad_char then
        if 2 \<le> quad \<and> 4 \<le> quad + (pads + 1) then Some out
        else b64_step quad left (if 2 \<le> quad then pads + 1 else pads) out cs
      else (case b64_value c of
          None \<Rightarrow> b64_step quad left pads out cs
        | Some v \<Rightarrow>
            if quad = 0 then b64_step 1 v 0 out cs
            else if quad = 1 then b64_step 2 (v mod 16) 0 (out @ [word_of_nat (left * 4 + v div 16)]) cs
            else if quad = 2 then b64_step 3 (v mod 4) 0 (out @ [word_of_nat (left * 16 + v div 4)]) cs
            else b64_step 0 0 0 (out @ [word_of_nat (left * 64 + v)]) cs))"

definition b64_decode :: "string \<Rightarrow> byte list option" where
  "b64_decode s = (if is_ascii s then b64_step 0 0 0 [] s else None)"

lemma b64_values: "list_all (\<lambda>v. b64_value (b64_char v) = Some v \<and> b64_char v \<noteq> pad_char \<and> code_point (b64_char v) < 128) [0..<64]"
  by code_simp

lemma b64_value_char: "v < 64 \<Longrightarrow> b64_value (b64_char v) = Some v \<and> b64_char v \<noteq> pad_char \<and> code_point (b64_char v) < 128"
  using b64_values by (simp add: list_all_iff)

lemma b64_step_char [simp]: "v < 64 \<Longrightarrow> b64_step quad left pads out (b64_char v # cs) =
    (if quad = 0 then b64_step 1 v 0 out cs
     else if quad = 1 then b64_step 2 (v mod 16) 0 (out @ [word_of_nat (left * 4 + v div 16)]) cs
     else if quad = 2 then b64_step 3 (v mod 4) 0 (out @ [word_of_nat (left * 16 + v div 4)]) cs
     else b64_step 0 0 0 (out @ [word_of_nat (left * 64 + v)]) cs)"
  by (simp add: b64_value_char)

lemma byte_less: "unat (b :: byte) < 256"
  using unsigned_less [of b, where ?'a = nat] by simp

lemma sextet_bounds: "unat (a :: byte) div 4 < 64" "unat a mod 4 * 16 + unat (b :: byte) div 16 < 64"
  "unat a mod 4 * 16 < 64" "unat b mod 16 * 4 + unat (c :: byte) div 64 < 64" "unat b mod 16 * 4 < 64" "unat c mod 64 < 64"
  using byte_less [of a] byte_less [of b] byte_less [of c] by linarith+

lemma join_div_mod: "y < k \<Longrightarrow> (x * k + y) div k = (x :: nat)" "y < k \<Longrightarrow> (x * k + y) mod k = (y :: nat)"
  by auto

lemma quantum_joins:
  fixes a b c :: nat
  assumes "a < 256" "b < 256" "c < 256"
  shows "a div 4 * 4 + (a mod 4 * 16 + b div 16) div 16 = a"
    "a div 4 * 4 + a mod 4 * 16 div 16 = a"
    "(a mod 4 * 16 + b div 16) mod 16 * 16 + (b mod 16 * 4 + c div 64) div 4 = b"
    "(a mod 4 * 16 + b div 16) mod 16 * 16 + b mod 16 * 4 div 4 = b"
    "(b mod 16 * 4 + c div 64) mod 4 * 64 + c mod 64 = c"
proof -
  have s: "b div 16 < 16" "c div 64 < 4" using assms by linarith+
  show "a div 4 * 4 + (a mod 4 * 16 + b div 16) div 16 = a" "a div 4 * 4 + a mod 4 * 16 div 16 = a"
    by (simp_all add: join_div_mod s)
  have "(b mod 16 * 4 + c div 64) div 4 = b mod 16" "(b mod 16 * 4 + c div 64) mod 4 = c div 64"
    using s(2) by (rule join_div_mod)+
  then show "(a mod 4 * 16 + b div 16) mod 16 * 16 + (b mod 16 * 4 + c div 64) div 4 = b"
    "(a mod 4 * 16 + b div 16) mod 16 * 16 + b mod 16 * 4 div 4 = b"
    "(b mod 16 * 4 + c div 64) mod 4 * 64 + c mod 64 = c"
    by (simp_all add: join_div_mod s)
qed

lemmas byte_joins = quantum_joins [OF byte_less byte_less byte_less]

lemma b64_step_encode: "b64_step 0 l p out (b64_encode bs) = Some (out @ bs)"
proof (induction bs arbitrary: l p out rule: b64_encode.induct)
  case (2 a)
  have "b64_step q l p out [pad_char, pad_char] = Some out" if "q = 2" "p = 0" for q l p out
    using that by (simp add: pad_char_def)
  then show ?case
    by (simp only: b64_encode.simps b64_step_char sextet_bounds byte_joins) (simp add: byte_joins del: of_nat_add of_nat_mult)
next
  case (3 a b)
  have "b64_step q l p out [pad_char] = Some out" if "q = 3" "p = 0" for q l p out
    using that by (simp add: pad_char_def)
  then show ?case
    by (simp only: b64_encode.simps b64_step_char sextet_bounds byte_joins) (simp add: byte_joins del: of_nat_add of_nat_mult)
next
  case (4 a b c bs)
  then show ?case
    by (simp only: b64_encode.simps append.simps b64_step_char sextet_bounds byte_joins)
      (simp add: byte_joins del: of_nat_add of_nat_mult)
qed simp

lemma is_ascii_encode: "is_ascii (b64_encode bs)"
  by (induction bs rule: b64_encode.induct)
    (simp_all add: is_ascii_def b64_value_char [unfolded code_point_def] sextet_bounds pad_char_def code_point_def)

lemma b64_roundtrip [simp]: "b64_decode (b64_encode bs) = Some bs"
  by (simp add: b64_decode_def is_ascii_encode b64_step_encode)

section \<open>Base32\<close>

text \<open>The slices of \<open>n\<close> elements in order, the last one possibly shorter.\<close>

fun chunks :: "nat \<Rightarrow> 'a list \<Rightarrow> 'a list list" where
  "chunks n xs = (if xs = [] \<or> n = 0 then [] else take n xs # chunks n (drop n xs))"

declare chunks.simps [simp del]

definition b32_alphabet :: string where
  "b32_alphabet = ''ABCDEFGHIJKLMNOPQRSTUVWXYZ234567''"

definition b32_char :: "nat \<Rightarrow> char" where
  "b32_char v = b32_alphabet ! v"

definition b32_value :: "char \<Rightarrow> nat option" where
  "b32_value c = index_of c b32_alphabet"

text \<open>\<open>n.to_bytes(k)\<close>, the big-endian digits, and \<open>int.from_bytes\<close>.\<close>

definition be_digits :: "nat \<Rightarrow> nat \<Rightarrow> nat \<Rightarrow> nat list" where
  "be_digits base k n = map (\<lambda>i. n div base ^ (k - Suc i) mod base) [0..<k]"

definition to_bytes :: "nat \<Rightarrow> nat \<Rightarrow> byte list" where
  "to_bytes k n = map word_of_nat (be_digits 256 k n)"

definition from_bytes :: "byte list \<Rightarrow> nat" where
  "from_bytes bs = foldl (\<lambda>n b. n * 256 + unat b) 0 bs"

definition b32_encode :: "byte list \<Rightarrow> string" where
  "b32_encode bs = (let leftover = length bs mod 5;
       padded = (if leftover = 0 then bs else bs @ replicate (5 - leftover) 0);
       text = concat (map (\<lambda>q. map b32_char (be_digits 32 8 (from_bytes q))) (chunks 5 padded));
       pads = (if leftover = 1 then 6 else if leftover = 2 then 4 else if leftover = 3 then 3
               else if leftover = 4 then 1 else 0)
     in take (length text - pads) text @ replicate pads pad_char)"

definition quantum_value :: "string \<Rightarrow> nat option" where
  "quantum_value s =
     foldl (\<lambda>acc c. case acc of None \<Rightarrow> None | Some n \<Rightarrow> map_option (\<lambda>v. n * 32 + v) (b32_value c)) (Some 0) s"

text \<open>\<open>base64.b32decode(s, casefold=True)\<close>; every failure is a \<open>binascii.Error\<close>.\<close>

definition b32_decode :: "string \<Rightarrow> byte list option" where
  "b32_decode s =
     (if \<not> is_ascii s \<or> length s mod 8 \<noteq> 0 then None
      else let s = map upper_ascii_char s;
               t = rev (dropWhile (\<lambda>c. c = pad_char) (rev s));
               padchars = length s - length t
           in case all_some (map quantum_value (chunks 8 t)) of
                None \<Rightarrow> None
              | Some accs \<Rightarrow>
                  if padchars \<notin> {0, 1, 3, 4, 6} then None
                  else let decoded = concat (map (to_bytes 5) accs) in
                    if padchars \<noteq> 0 \<and> decoded \<noteq> []
                    then Some (take (length decoded - 5) decoded @
                           take ((43 - 5 * padchars) div 8) (to_bytes 5 (last accs * 32 ^ padchars)))
                    else Some decoded)"

lemma be_digits_Suc: "be_digits base (Suc k) n = be_digits base k (n div base) @ [n mod base]"
proof -
  have "n div base ^ (Suc k - Suc i) mod base = n div base div base ^ (k - Suc i) mod base" if "i < k" for i
  proof -
    from that have "Suc k - Suc i = Suc (k - Suc i)" by linarith
    then show ?thesis by (simp add: div_mult2_eq)
  qed
  then show ?thesis by (simp add: be_digits_def)
qed

lemma be_digits_0 [simp]: "be_digits base 0 n = []"
  by (simp add: be_digits_def)

lemma length_be_digits [simp]: "length (be_digits base k n) = k"
  by (simp add: be_digits_def)

lemma be_digits_less: "0 < base \<Longrightarrow> d \<in> set (be_digits base k n) \<Longrightarrow> d < base"
  by (auto simp: be_digits_def)

lemma be_digits_value: "n < base ^ k \<Longrightarrow> foldl (\<lambda>a d. a * base + d) 0 (be_digits base k n) = n"
proof (induction k arbitrary: n)
  case (Suc k)
  have "n div base < base ^ k"
    using Suc.prems by (simp add: less_mult_imp_div_less mult.commute)
  from Suc.IH [OF this] show ?case by (simp add: be_digits_Suc)
qed simp

lemma from_bytes_less: "from_bytes bs < 256 ^ length bs"
proof (induction bs rule: rev_induct)
  case (snoc b bs)
  then have "from_bytes bs + 1 \<le> 256 ^ length bs" by simp
  then have "(from_bytes bs + 1) * 256 \<le> 256 ^ length bs * 256" by (rule mult_le_mono1)
  with byte_less [of b] show ?case by (simp add: from_bytes_def)
qed (simp add: from_bytes_def)

lemma to_bytes_from_bytes: "to_bytes (length bs) (from_bytes bs) = bs"
proof (induction bs rule: rev_induct)
  case (snoc b bs)
  have "from_bytes (bs @ [b]) = from_bytes bs * 256 + unat b" by (simp add: from_bytes_def)
  then show ?case
    using snoc byte_less [of b] by (simp add: to_bytes_def be_digits_Suc)
qed (simp add: to_bytes_def)

lemma b32_values: "list_all (\<lambda>v. b32_value (b32_char v) = Some v \<and> b32_char v \<noteq> pad_char \<and>
    upper_ascii_char (b32_char v) = b32_char v \<and> code_point (b32_char v) < 128) [0..<32]"
  by code_simp

lemma b32_value_char: "v < 32 \<Longrightarrow> b32_value (b32_char v) = Some v \<and> b32_char v \<noteq> pad_char \<and>
    upper_ascii_char (b32_char v) = b32_char v \<and> code_point (b32_char v) < 128"
  using b32_values by (simp add: list_all_iff)

lemma quantum_value_digits:
  assumes "\<forall>d\<in>set ds. d < 32"
  shows "quantum_value (map b32_char ds) = Some (foldl (\<lambda>a d. a * 32 + d) 0 ds)"
proof -
  have "foldl (\<lambda>acc c. case acc of None \<Rightarrow> None | Some n \<Rightarrow> map_option (\<lambda>v. n * 32 + v) (b32_value c)) (Some m) (map b32_char ds)
      = Some (foldl (\<lambda>a d. a * 32 + d) m ds)" for m
    using assms by (induction ds arbitrary: m) (simp_all add: b32_value_char)
  then show ?thesis by (simp add: quantum_value_def)
qed

lemma chunks_Nil [simp]: "chunks n [] = []"
  by (simp add: chunks.simps)

lemma chunks_append: "length q = n \<Longrightarrow> 0 < n \<Longrightarrow> chunks n (q @ xs) = q # chunks n xs"
  by (subst chunks.simps) auto

lemma chunks_concat: "0 < n \<Longrightarrow> \<forall>q\<in>set qs. length q = n \<Longrightarrow> chunks n (concat qs) = qs"
  by (induction qs) (simp_all add: chunks_append)

lemma concat_chunks: "0 < n \<Longrightarrow> concat (chunks n xs) = xs"
proof (induction n xs rule: chunks.induct)
  case (1 n xs)
  then show ?case by (subst chunks.simps) simp
qed

lemma chunks_exact: "length xs mod n = 0 \<Longrightarrow> q \<in> set (chunks n xs) \<Longrightarrow> length q = n"
proof (induction n xs rule: chunks.induct)
  case (1 n xs)
  show ?case
  proof (cases "xs = [] \<or> n = 0")
    case True
    then show ?thesis using 1 by (simp add: chunks.simps)
  next
    case False
    then have n: "n \<le> length xs" using "1.prems"(1) by (cases "n \<le> length xs") auto
    then have "length (drop n xs) mod n = 0" using "1.prems"(1) le_mod_geq [OF n] by simp
    moreover have "q = take n xs \<or> q \<in> set (chunks n (drop n xs))"
      using "1.prems"(2) False by (subst (asm) chunks.simps) auto
    ultimately show ?thesis using "1.IH" False n by auto
  qed
qed

text \<open>Whole quanta are written without padding and read back.\<close>

lemma b32_roundtrip:
  assumes "length bs mod 5 = 0"
  shows "b32_decode (b32_encode bs) = Some bs" "length (b32_encode bs) mod 8 = 0" "is_ascii (b32_encode bs)"
proof -
  let ?enc = "\<lambda>q. map b32_char (be_digits 32 8 (from_bytes q))"
  define body where "body = concat (map ?enc (chunks 5 bs))"
  have e: "b32_encode bs = body" using assms by (simp add: b32_encode_def Let_def body_def)
  have c: "c \<noteq> pad_char \<and> upper_ascii_char c = c \<and> code_point c < 128" if "c \<in> set body" for c
    using that be_digits_less [of 32] b32_value_char by (auto simp: body_def)
  have up: "map upper_ascii_char body = body" using c by (simp add: map_idI)
  have pad: "rev (dropWhile (\<lambda>c. c = pad_char) (rev body)) = body"
    using c by (subst dropWhile_none) auto
  have ch: "chunks 8 body = map ?enc (chunks 5 bs)"
    unfolding body_def by (rule chunks_concat) auto
  have v: "quantum_value (?enc q) = Some (from_bytes q)" "to_bytes 5 (from_bytes q) = q" if "q \<in> set (chunks 5 bs)" for q
  proof -
    have l: "length q = 5" by (rule chunks_exact [OF assms that])
    have "from_bytes q < 32 ^ 8" using from_bytes_less [of q] by (simp add: l)
    then show "quantum_value (?enc q) = Some (from_bytes q)"
      using be_digits_less [of 32] by (simp add: quantum_value_digits be_digits_value)
    show "to_bytes 5 (from_bytes q) = q" using to_bytes_from_bytes [of q] by (simp add: l)
  qed
  have m: "map quantum_value (map ?enc (chunks 5 bs)) = map Some (map from_bytes (chunks 5 bs))"
    using v(1) by simp
  have "concat (map (to_bytes 5) (map from_bytes (chunks 5 bs))) = bs"
  proof -
    have "map (to_bytes 5) (map from_bytes (chunks 5 bs)) = chunks 5 bs"
      using v(2) by (simp add: map_idI)
    then show ?thesis by (simp add: concat_chunks)
  qed
  moreover have len: "length body mod 8 = 0"
  proof -
    have "length (concat (map ?enc qs)) = 8 * length qs" for qs by (induction qs) simp_all
    then show ?thesis by (simp add: body_def)
  qed
  moreover show asc: "is_ascii (b32_encode bs)" using c by (simp add: e is_ascii_def list_all_iff)
  ultimately show "b32_decode (b32_encode bs) = Some bs"
    unfolding b32_decode_def Let_def e up pad ch m all_some_map_Some using asc [unfolded e] by simp
  show "length (b32_encode bs) mod 8 = 0" using len by (simp add: e)
qed

end
