(* ===== verification/Sessions.thy ===== *)
theory Sessions
  imports Codecs Access
begin

text \<open>
  Server-side sessions: the opaque tokens of \<open>security/tokens.py\<close>, the policy of
  \<open>security/sessions.py\<close>, the table behind \<open>PgSessionStore\<close> with its uniqueness and the guard trigger
  of migration 0144, the actor the row security binds (migrations 0111 and 0174), and the
  resolution of a request to a user in \<open>http/deps.py\<close>. The service is stated over an interface,
  the locale \<open>session_store\<close>, which the table implements. The lemmas show when a token is accepted, and
  that a session once refused is never accepted again.
\<close>

section \<open>Tokens\<close>

text \<open>SHA-256 is the argument of what hashes.\<close>

type_synonym hash_function = "byte list \<Rightarrow> byte list"

definition hash_token :: "hash_function \<Rightarrow> string \<Rightarrow> byte list" where
  "hash_token sha raw = sha (utf8 raw)"

definition rls_proof_context :: string where
  "rls_proof_context = ''noctornal-rls-v1'' @ [CHR 0x00]"

definition rls_proof :: "hash_function \<Rightarrow> string \<Rightarrow> string" where
  "rls_proof sha raw = hex_digest (sha (utf8 rls_proof_context @ utf8 raw))"

definition rls_binding_hash :: "hash_function \<Rightarrow> string \<Rightarrow> byte list" where
  "rls_binding_hash sha raw = sha (utf8 (rls_proof sha raw))"

section \<open>Records and their binding\<close>

definition absolute_lifetime :: duration where
  "absolute_lifetime = hours 12"

definition idle_timeout :: duration where
  "idle_timeout = minutes 30"

record session =
  ss_id :: uuid
  ss_user :: uuid
  ss_token_hash :: "byte list"
  ss_issued_at :: instant
  ss_expires_at :: instant
  ss_last_seen :: instant
  ss_mfa_at :: "instant option"
  ss_revoked_at :: "instant option"
  ss_revoke_reason :: "string option"
  ss_ip :: "string option"
  ss_user_agent :: "string option"
  ss_binding :: "byte list option"

text \<open>A missing and an empty text are both false to Python.\<close>

definition or_none :: "string option \<Rightarrow> string option" where
  "or_none v = (if v = Some [] then None else v)"

definition normalise_ip :: "string option \<Rightarrow> string option" where
  "normalise_ip v =
     (case or_none v of None \<Rightarrow> None | Some t \<Rightarrow> map_option format_ip (parse_ip (strip t)))"

datatype binding = BINDING_IP | BINDING_USER_AGENT

definition binding_mismatch :: "session \<Rightarrow> string option \<Rightarrow> string option \<Rightarrow> binding list" where
  "binding_mismatch r ip user_agent =
     (let mismatched = [];
          mismatched = (if normalise_ip (ss_ip r) \<noteq> normalise_ip ip then mismatched @ [BINDING_IP] else mismatched);
          mismatched = (if or_none (ss_user_agent r) \<noteq> or_none user_agent
                        then mismatched @ [BINDING_USER_AGENT] else mismatched)
      in mismatched)"

section \<open>The service over a store\<close>

datatype db_error = UniqueViolation | InvalidAddress | InsufficientPrivilege

datatype refusal_reason = NOT_FOUND | REVOKED | ABSOLUTE_EXPIRED | IDLE_EXPIRED

datatype validation = Live session | Refused refusal_reason "uuid option"

text \<open>
  A store as \<open>SessionService\<close> sees it (\<open>SessionStore\<close>). Every statement may fail with an error of the
  database.
\<close>

record 's store =
  st_insert :: "session \<Rightarrow> 's \<Rightarrow> db_error + 's"
  st_get :: "byte list \<Rightarrow> 's \<Rightarrow> session option"
  st_slide :: "uuid \<Rightarrow> instant \<Rightarrow> instant \<Rightarrow> 's \<Rightarrow> db_error + instant option \<times> 's"
  st_revoke :: "uuid \<Rightarrow> string \<Rightarrow> instant \<Rightarrow> 's \<Rightarrow> db_error + bool \<times> 's"
  st_revoke_all :: "uuid \<Rightarrow> string \<Rightarrow> instant \<Rightarrow> 's \<Rightarrow> db_error + nat \<times> 's"

definition create_session ::
    "hash_function \<Rightarrow> 's store \<Rightarrow> string \<Rightarrow> uuid \<Rightarrow> uuid \<Rightarrow> bool \<Rightarrow> string option \<Rightarrow> string option \<Rightarrow> instant \<Rightarrow> 's \<Rightarrow>
     db_error + (session \<times> string) \<times> 's" where
  "create_session sha st raw i user mfa_satisfied ip user_agent now s =
     (let r = \<lparr>ss_id = i, ss_user = user, ss_token_hash = hash_token sha raw, ss_issued_at = now,
            ss_expires_at = now + absolute_lifetime, ss_last_seen = now,
            ss_mfa_at = (if mfa_satisfied then Some now else None), ss_revoked_at = None,
            ss_revoke_reason = None, ss_ip = normalise_ip ip, ss_user_agent = or_none user_agent,
            ss_binding = Some (rls_binding_hash sha raw)\<rparr>
      in case st_insert st r s of Inl e \<Rightarrow> Inl e | Inr s' \<Rightarrow> Inr ((r, raw), s'))"

definition touch_session :: "'s store \<Rightarrow> session \<Rightarrow> instant \<Rightarrow> 's \<Rightarrow> db_error + session option \<times> 's" where
  "touch_session st r now s =
     (case st_slide st (ss_id r) now (now - idle_timeout) s of
        Inl e \<Rightarrow> Inl e
      | Inr (None, s') \<Rightarrow> Inr (None, s')
      | Inr (Some seen, s') \<Rightarrow> Inr (Some (r\<lparr>ss_last_seen := seen\<rparr>), s'))"

definition validate_session ::
    "hash_function \<Rightarrow> 's store \<Rightarrow> string \<Rightarrow> bool \<Rightarrow> instant \<Rightarrow> 's \<Rightarrow> db_error + validation \<times> 's" where
  "validate_session sha st raw touch now s =
     (case st_get st (hash_token sha raw) s of
        None \<Rightarrow> Inr (Refused NOT_FOUND None, s)
      | Some r \<Rightarrow>
          if ss_revoked_at r \<noteq> None then Inr (Refused REVOKED (Some (ss_id r)), s)
          else if ss_expires_at r \<le> now then Inr (Refused ABSOLUTE_EXPIRED (Some (ss_id r)), s)
          else if idle_timeout \<le> now - ss_last_seen r then Inr (Refused IDLE_EXPIRED (Some (ss_id r)), s)
          else if touch then
            (case touch_session st r now s of
               Inl e \<Rightarrow> Inl e
             | Inr (None, s') \<Rightarrow> Inr (Refused REVOKED (Some (ss_id r)), s')
             | Inr (Some r', s') \<Rightarrow> Inr (Live r', s'))
          else Inr (Live r, s))"

definition is_step_up_fresh :: "session \<Rightarrow> instant \<Rightarrow> bool" where
  "is_step_up_fresh r now = (case ss_mfa_at r of None \<Rightarrow> False | Some at \<Rightarrow> now - at < step_up_freshness)"

definition revoke_session :: "'s store \<Rightarrow> uuid \<Rightarrow> string \<Rightarrow> instant \<Rightarrow> 's \<Rightarrow> db_error + bool \<times> 's" where
  "revoke_session st i reason now s = st_revoke st i reason now s"

definition revoke_all_sessions :: "'s store \<Rightarrow> uuid \<Rightarrow> string \<Rightarrow> instant \<Rightarrow> 's \<Rightarrow> db_error + nat \<times> 's" where
  "revoke_all_sessions st user reason now s = st_revoke_all st user reason now s"

section \<open>The table\<close>

text \<open>
  A connection: whether the row security exempts it, the proof it is bound with, and the database's
  clock. \<open>inet\<close> gives the text the \<open>inet\<close> column answers for an address, if the driver can store it.
\<close>

record connection =
  cn_exempt :: bool
  cn_proof :: "string option"
  cn_now :: instant

type_synonym inet = "string \<Rightarrow> string option"

definition proof_matches :: "hash_function \<Rightarrow> connection \<Rightarrow> session \<Rightarrow> bool" where
  "proof_matches sha cn r =
     (case or_none (cn_proof cn) of None \<Rightarrow> False | Some p \<Rightarrow> ss_binding r = Some (sha (utf8 p)))"

text \<open>\<open>iam.session_guard()\<close>, asked for every updated row.\<close>

definition session_guard :: "hash_function \<Rightarrow> connection \<Rightarrow> session \<Rightarrow> session \<Rightarrow> bool" where
  "session_guard sha cn old new \<longleftrightarrow>
     (if cn_exempt cn then True
      else if \<not> proof_matches sha cn old then False
      else if ss_revoked_at old \<noteq> None \<and>
              (ss_revoked_at new \<noteq> ss_revoked_at old \<or> ss_revoke_reason new \<noteq> ss_revoke_reason old) then False
      else if ss_mfa_at new \<noteq> ss_mfa_at old then False
      else if ss_last_seen new \<noteq> ss_last_seen old \<and>
              (ss_last_seen new < ss_last_seen old \<or> cn_now cn + minutes 5 < ss_last_seen new) then False
      else True)"

text \<open>\<open>UPDATE iam.session SET f WHERE p\<close>: all rows or none, and the rows written.\<close>

definition update_sessions ::
    "hash_function \<Rightarrow> connection \<Rightarrow> (session \<Rightarrow> bool) \<Rightarrow> (session \<Rightarrow> session) \<Rightarrow> session list \<Rightarrow>
     db_error + session list \<times> session list" where
  "update_sessions sha cn p f rows =
     (if list_all (\<lambda>r. p r \<longrightarrow> session_guard sha cn r (f r)) rows
      then Inr (map f (filter p rows), map (\<lambda>r. if p r then f r else r) rows)
      else Inl InsufficientPrivilege)"

definition pg_insert :: "inet \<Rightarrow> session \<Rightarrow> session list \<Rightarrow> db_error + session list" where
  "pg_insert inet r rows =
     (case normalise_ip (ss_ip r) of
        Some a \<Rightarrow> if inet a = None then Inl InvalidAddress
                  else if list_ex (\<lambda>q. ss_id q = ss_id r \<or> ss_token_hash q = ss_token_hash r \<or>
                         ss_binding r \<noteq> None \<and> ss_binding q = ss_binding r) rows then Inl UniqueViolation
                  else Inr (rows @ [r\<lparr>ss_revoked_at := None, ss_revoke_reason := None, ss_ip := inet a\<rparr>])
      | None \<Rightarrow> if list_ex (\<lambda>q. ss_id q = ss_id r \<or> ss_token_hash q = ss_token_hash r \<or>
                         ss_binding r \<noteq> None \<and> ss_binding q = ss_binding r) rows then Inl UniqueViolation
                else Inr (rows @ [r\<lparr>ss_revoked_at := None, ss_revoke_reason := None, ss_ip := None\<rparr>]))"

text \<open>\<open>session_by_token\<close> does not answer the binding.\<close>

definition pg_get :: "byte list \<Rightarrow> session list \<Rightarrow> session option" where
  "pg_get h rows = map_option (\<lambda>r. r\<lparr>ss_binding := None\<rparr>) (find (\<lambda>r. ss_token_hash r = h) rows)"

definition pg_slide ::
    "hash_function \<Rightarrow> connection \<Rightarrow> uuid \<Rightarrow> instant \<Rightarrow> instant \<Rightarrow> session list \<Rightarrow> db_error + instant option \<times> session list" where
  "pg_slide sha cn i at idle_floor rows =
     (case update_sessions sha cn
         (\<lambda>r. ss_id r = i \<and> ss_revoked_at r = None \<and> at < ss_expires_at r \<and> idle_floor < ss_last_seen r)
         (\<lambda>r. r\<lparr>ss_last_seen := max (ss_last_seen r) (min at (cn_now cn + minutes 1))\<rparr>) rows of
        Inl e \<Rightarrow> Inl e
      | Inr (written, rows') \<Rightarrow> Inr (case written of [] \<Rightarrow> None | r # _ \<Rightarrow> Some (ss_last_seen r), rows'))"

definition pg_revoke ::
    "hash_function \<Rightarrow> connection \<Rightarrow> uuid \<Rightarrow> string \<Rightarrow> instant \<Rightarrow> session list \<Rightarrow> db_error + bool \<times> session list" where
  "pg_revoke sha cn i reason at rows =
     (case update_sessions sha cn (\<lambda>r. ss_id r = i \<and> ss_revoked_at r = None)
         (\<lambda>r. r\<lparr>ss_revoked_at := Some at, ss_revoke_reason := Some reason\<rparr>) rows of
        Inl e \<Rightarrow> Inl e
      | Inr (written, rows') \<Rightarrow> Inr (0 < length written, rows'))"

definition pg_revoke_all ::
    "hash_function \<Rightarrow> connection \<Rightarrow> uuid \<Rightarrow> string \<Rightarrow> instant \<Rightarrow> session list \<Rightarrow> db_error + nat \<times> session list" where
  "pg_revoke_all sha cn user reason at rows =
     (case update_sessions sha cn (\<lambda>r. ss_user r = user \<and> ss_revoked_at r = None)
         (\<lambda>r. r\<lparr>ss_revoked_at := Some at, ss_revoke_reason := Some reason\<rparr>) rows of
        Inl e \<Rightarrow> Inl e
      | Inr (written, rows') \<Rightarrow> Inr (length written, rows'))"

definition pg_store :: "hash_function \<Rightarrow> inet \<Rightarrow> connection \<Rightarrow> session list store" where
  "pg_store sha inet cn =
     \<lparr>st_insert = pg_insert inet, st_get = pg_get, st_slide = pg_slide sha cn, st_revoke = pg_revoke sha cn,
      st_revoke_all = pg_revoke_all sha cn\<rparr>"

section \<open>From a request to a user\<close>

text \<open>\<open>iam.rls_actor()\<close>; \<open>ticket\<close> is the holder of a download ticket, when one is bound.\<close>

definition rls_actor :: "hash_function \<Rightarrow> uuid set \<Rightarrow> uuid option \<Rightarrow> connection \<Rightarrow> session list \<Rightarrow> uuid option" where
  "rls_actor sha active ticket cn rows =
     (case find (\<lambda>r. proof_matches sha cn r \<and> ss_revoked_at r = None \<and> cn_now cn < ss_expires_at r \<and>
                 cn_now cn - idle_timeout < ss_last_seen r \<and> ss_user r \<in> active) rows of
        Some r \<Rightarrow> Some (ss_user r)
      | None \<Rightarrow> ticket)"

text \<open>\<open>_Window.due\<close>: one row per refused session and window of 300 seconds, 10,000 sessions remembered.\<close>

definition rejection_window :: duration where
  "rejection_window = 300 * micros"

definition remembered_sessions :: nat where
  "remembered_sessions = 10000"

definition window_due :: "instant \<Rightarrow> uuid \<Rightarrow> (uuid \<times> instant) list \<Rightarrow> bool \<times> (uuid \<times> instant) list" where
  "window_due now i seen =
     (case map_of seen i of
        Some at \<Rightarrow>
          if now - at < rejection_window then (False, seen)
          else let seen = filter (\<lambda>(k, _). k \<noteq> i) seen @ [(i, now)]
               in (True, drop (length seen - remembered_sessions) seen)
      | None \<Rightarrow> let seen = seen @ [(i, now)] in (True, drop (length seen - remembered_sessions) seen))"

datatype auth_event =
    AUTH_SESSION_REJECTED refusal_reason uuid
  | SESSION_BINDING_REFUSED uuid uuid "binding list" bool
  | RLS_BINDING_FAILED uuid uuid bool

record request_world =
  rw_sessions :: "session list"
  rw_window :: "(uuid \<times> instant) list"
  rw_audit :: "auth_event list"

record request =
  rq_ip :: "string option"
  rq_user_agent :: "string option"

record current_user =
  cu_user :: uuid
  cu_session :: uuid
  cu_mfa_at :: "instant option"

datatype request_error = Unauthenticated | DatabaseError db_error

definition record_rejected_session :: "instant \<Rightarrow> refusal_reason \<Rightarrow> uuid option \<Rightarrow> request_world \<Rightarrow> request_world" where
  "record_rejected_session clock reason i w =
     (case i of
        None \<Rightarrow> w
      | Some k \<Rightarrow>
          let (due, seen) = window_due clock k (rw_window w); w = w\<lparr>rw_window := seen\<rparr>
          in if due then w\<lparr>rw_audit := rw_audit w @ [AUTH_SESSION_REJECTED reason k]\<rparr> else w)"

definition refuse_unbound_session :: "bool \<Rightarrow> session \<Rightarrow> request \<Rightarrow> request_world \<Rightarrow> bool \<times> request_world" where
  "refuse_unbound_session strict r rq w =
     (if \<not> strict then (False, w)
      else let mismatched = binding_mismatch r (rq_ip rq) (rq_user_agent rq) in
        if mismatched = [] then (False, w)
        else (True, w\<lparr>rw_audit := rw_audit w @
          [SESSION_BINDING_REFUSED (ss_user r) (ss_id r) mismatched (ss_ip r = None \<and> ss_user_agent r = None)]\<rparr>))"

definition refuse_unbindable_session ::
    "hash_function \<Rightarrow> uuid set \<Rightarrow> uuid option \<Rightarrow> connection \<Rightarrow> session \<Rightarrow> request_world \<Rightarrow> bool \<times> request_world" where
  "refuse_unbindable_session sha active ticket cn r w =
     (let actor = rls_actor sha active ticket cn (rw_sessions w) in
      if cn_exempt cn \<or> actor = Some (ss_user r) then (False, w)
      else (True, w\<lparr>rw_audit := rw_audit w @ [RLS_BINDING_FAILED (ss_user r) (ss_id r) (actor = None)]\<rparr>))"

text \<open>
  \<open>deps.current_user\<close>; the service reads its clock once to validate and once to slide, the window of
  refused presentations its own.
\<close>

definition current_user ::
    "hash_function \<Rightarrow> inet \<Rightarrow> bool \<Rightarrow> uuid set \<Rightarrow> uuid option \<Rightarrow> connection \<Rightarrow> string \<Rightarrow> request \<Rightarrow> instant \<Rightarrow> instant \<Rightarrow> instant \<Rightarrow>
     request_world \<Rightarrow> (request_error + current_user) \<times> request_world" where
  "current_user sha inet strict active ticket cn raw rq now later clock w =
     (case validate_session sha (pg_store sha inet cn) raw False now (rw_sessions w) of
        Inl e \<Rightarrow> (Inl (DatabaseError e), w)
      | Inr (Refused reason i, _) \<Rightarrow> (Inl Unauthenticated, record_rejected_session clock reason i w)
      | Inr (Live r, _) \<Rightarrow>
          let (refused, w) = refuse_unbound_session strict r rq w in
          if refused then (Inl Unauthenticated, w)
          else
            let cn = cn\<lparr>cn_proof := Some (rls_proof sha raw)\<rparr>;
                (refused, w) = refuse_unbindable_session sha active ticket cn r w in
            if refused then (Inl Unauthenticated, w)
            else (case touch_session (pg_store sha inet cn) r later (rw_sessions w) of
                Inl e \<Rightarrow> (Inl (DatabaseError e), w)
              | Inr (None, rows) \<Rightarrow> (Inl Unauthenticated, w\<lparr>rw_sessions := rows\<rparr>)
              | Inr (Some r, rows) \<Rightarrow>
                  (Inr \<lparr>cu_user = ss_user r, cu_session = ss_id r, cu_mfa_at = ss_mfa_at r\<rparr>,
                   w\<lparr>rw_sessions := rows\<rparr>)))"

section \<open>What a store promises the service\<close>

definition live_at :: "session \<Rightarrow> instant \<Rightarrow> instant \<Rightarrow> bool" where
  "live_at r at idle_floor \<longleftrightarrow> ss_revoked_at r = None \<and> at < ss_expires_at r \<and> idle_floor < ss_last_seen r"

text \<open>Dead from the instant \<open>t\<close> on.\<close>

definition dead :: "instant \<Rightarrow> session \<Rightarrow> bool" where
  "dead t r \<longleftrightarrow> \<not> live_at r t (t - idle_timeout)"

definition revoked :: "instant \<Rightarrow> string \<Rightarrow> session \<Rightarrow> session" where
  "revoked at reason r =
     (if ss_revoked_at r = None then r\<lparr>ss_revoked_at := Some at, ss_revoke_reason := Some reason\<rparr> else r)"

text \<open>What happens to the store: each event runs on a connection \<open>'e\<close> of its own, at its own time.\<close>

datatype session_event =
    Create string uuid uuid bool "string option" "string option"
  | Validate string bool
  | Touch session
  | Revoke uuid string
  | RevokeAll uuid string

fun apply_event :: "hash_function \<Rightarrow> ('e \<Rightarrow> 's store) \<Rightarrow> 'e \<times> instant \<times> session_event \<Rightarrow> 's \<Rightarrow> 's" where
  "apply_event sha st (e, t, Create raw i user mfa ip ua) s =
     (case create_session sha (st e) raw i user mfa ip ua t s of Inl _ \<Rightarrow> s | Inr (_, s') \<Rightarrow> s')"
| "apply_event sha st (e, t, Validate raw touch) s =
     (case validate_session sha (st e) raw touch t s of Inl _ \<Rightarrow> s | Inr (_, s') \<Rightarrow> s')"
| "apply_event sha st (e, t, Touch r) s =
     (case touch_session (st e) r t s of Inl _ \<Rightarrow> s | Inr (_, s') \<Rightarrow> s')"
| "apply_event sha st (e, t, Revoke i reason) s =
     (case revoke_session (st e) i reason t s of Inl _ \<Rightarrow> s | Inr (_, s') \<Rightarrow> s')"
| "apply_event sha st (e, t, RevokeAll user reason) s =
     (case revoke_all_sessions (st e) user reason t s of Inl _ \<Rightarrow> s | Inr (_, s') \<Rightarrow> s')"

definition run_events :: "hash_function \<Rightarrow> ('e \<Rightarrow> 's store) \<Rightarrow> ('e \<times> instant \<times> session_event) list \<Rightarrow> 's \<Rightarrow> 's" where
  "run_events sha st evs s = foldl (\<lambda>s ev. apply_event sha st ev s) s evs"

locale session_store =
  fixes st :: "'e \<Rightarrow> 's store" and row :: "'s \<Rightarrow> uuid \<Rightarrow> session option" and ok :: "'s \<Rightarrow> bool"
  assumes get_row: "ok s \<Longrightarrow> st_get (st e) h s = Some r \<Longrightarrow>
      \<exists>q. row s (ss_id r) = Some q \<and> r = q\<lparr>ss_binding := ss_binding r\<rparr> \<and> ss_token_hash q = h"
    and row_get: "ok s \<Longrightarrow> row s i = Some q \<Longrightarrow> \<exists>r. st_get (st e) (ss_token_hash q) s = Some r \<and> ss_id r = i"
    and insert_law: "ok s \<Longrightarrow> st_insert (st e) r s = Inr s' \<Longrightarrow>
      ok s' \<and> row s (ss_id r) = None \<and>
      (\<exists>a. row s' = (row s)(ss_id r \<mapsto> r\<lparr>ss_revoked_at := None, ss_revoke_reason := None, ss_ip := a\<rparr>))"
    and slide_law: "ok s \<Longrightarrow> st_slide (st e) i at idle_floor s = Inr (answer, s') \<Longrightarrow>
      ok s' \<and> (case answer of
          None \<Rightarrow> row s' = row s \<and> (\<forall>q. row s i = Some q \<longrightarrow> \<not> live_at q at idle_floor)
        | Some seen \<Rightarrow> \<exists>q. row s i = Some q \<and> live_at q at idle_floor \<and> ss_last_seen q \<le> seen \<and>
            row s' = (row s)(i \<mapsto> q\<lparr>ss_last_seen := seen\<rparr>))"
    and revoke_law: "ok s \<Longrightarrow> st_revoke (st e) i reason at s = Inr (done_any, s') \<Longrightarrow>
      ok s' \<and> row s' = (\<lambda>j. if j = i then map_option (revoked at reason) (row s j) else row s j) \<and>
      (done_any \<longleftrightarrow> (\<exists>q. row s i = Some q \<and> ss_revoked_at q = None))"
    and revoke_all_law: "ok s \<Longrightarrow> st_revoke_all (st e) user reason at s = Inr (n, s') \<Longrightarrow>
      ok s' \<and> row s' = (\<lambda>j. map_option (\<lambda>q. if ss_user q = user then revoked at reason q else q) (row s j))"
begin

text \<open>The row behind an answer of the service.\<close>

lemma touch_row:
  assumes "ok s" "touch_session (st e) r now s = Inr (answer, s')"
  shows "ok s' \<and> (case answer of
      None \<Rightarrow> row s' = row s \<and> (\<forall>q. row s (ss_id r) = Some q \<longrightarrow> dead now q)
    | Some r' \<Rightarrow> \<exists>q. row s (ss_id r) = Some q \<and> \<not> dead now q \<and> ss_last_seen q \<le> ss_last_seen r' \<and>
        r' = r\<lparr>ss_last_seen := ss_last_seen r'\<rparr> \<and> row s' = (row s)(ss_id r \<mapsto> q\<lparr>ss_last_seen := ss_last_seen r'\<rparr>))"
proof -
  obtain seen where sl: "st_slide (st e) (ss_id r) now (now - idle_timeout) s = Inr (seen, s')"
    and a: "answer = map_option (\<lambda>x. r\<lparr>ss_last_seen := x\<rparr>) seen"
    using assms(2) by (auto simp: touch_session_def split: sum.splits option.splits)
  show ?thesis using slide_law [OF assms(1) sl] by (cases seen) (auto simp: a dead_def)
qed

lemma validate_row:
  assumes s: "ok s" and v: "validate_session sha (st e) raw touch now s = Inr (answer, s')"
  shows "ok s' \<and> (case answer of
      Refused reason i \<Rightarrow> row s' = row s \<and> (case i of None \<Rightarrow> True
        | Some k \<Rightarrow> \<exists>q. row s k = Some q \<and> ss_token_hash q = hash_token sha raw \<and> dead now q)
    | Live r \<Rightarrow> \<exists>q. row s (ss_id r) = Some q \<and> ss_token_hash q = hash_token sha raw \<and> \<not> dead now q \<and>
        ss_last_seen q \<le> ss_last_seen r \<and> r = q\<lparr>ss_last_seen := ss_last_seen r, ss_binding := ss_binding r\<rparr> \<and>
        row s' = (row s)(ss_id r \<mapsto> q\<lparr>ss_last_seen := ss_last_seen r\<rparr>))"
proof (cases "st_get (st e) (hash_token sha raw) s")
  case None
  then show ?thesis using s v by (auto simp: validate_session_def)
next
  case (Some r)
  obtain q where q: "row s (ss_id r) = Some q" "r = q\<lparr>ss_binding := ss_binding r\<rparr>" "ss_token_hash q = hash_token sha raw"
    using get_row [OF s Some] by blast
  have f: "ss_revoked_at r = ss_revoked_at q" "ss_expires_at r = ss_expires_at q" "ss_last_seen r = ss_last_seen q"
    by (subst q(2), simp)+
  show ?thesis
  proof (cases "dead now q")
    case True
    show ?thesis
    proof (cases "answer")
      case (Live r')
      then have t: "touch" "touch_session (st e) r now s = Inr (Some r', s')"
        using v Some True f by (auto simp: validate_session_def dead_def live_at_def split: if_splits sum.splits option.splits)
      from touch_row [OF s t(2)] True q(1) show ?thesis by auto
    next
      case (Refused reason i)
      then show ?thesis
        using v Some True f q s touch_row [OF s, of e r now None s']
        by (auto simp: validate_session_def split: if_splits sum.splits option.splits)
    qed
  next
    case False
    then have lv: "ss_revoked_at r = None" "\<not> ss_expires_at r \<le> now" "\<not> idle_timeout \<le> now - ss_last_seen r"
      using f by (auto simp: dead_def live_at_def)
    show ?thesis
    proof (cases touch)
      case True
      then obtain r' where t: "touch_session (st e) r now s = Inr (r', s')"
        and a: "answer = (case r' of None \<Rightarrow> Refused REVOKED (Some (ss_id r)) | Some x \<Rightarrow> Live x)"
        using v Some lv by (auto simp: validate_session_def split: sum.splits option.splits)
      show ?thesis
      proof (cases r')
        case None
        then show ?thesis using touch_row [OF s t] q(1) False by auto
      next
        case [simp]: (Some x)
        from touch_row [OF s t] obtain q' where t': "ok s'" "row s (ss_id r) = Some q'" "ss_last_seen q' \<le> ss_last_seen x"
          "x = r\<lparr>ss_last_seen := ss_last_seen x\<rparr>" "row s' = (row s)(ss_id r \<mapsto> q'\<lparr>ss_last_seen := ss_last_seen x\<rparr>)"
          by auto
        have x: "ss_id x = ss_id r" "ss_binding x = ss_binding r" by (subst t'(4), simp)+
        have "x = q\<lparr>ss_last_seen := ss_last_seen x, ss_binding := ss_binding x\<rparr>"
          using t'(4) q(2) x(2) by (metis session.ext_inject session.surjective session.update_convs(12) session.update_convs(6))
        then show ?thesis using t' q False by (simp add: a x(1))
      qed
    next
      case notouch: False
      have "row s = (row s)(ss_id r \<mapsto> q\<lparr>ss_last_seen := ss_last_seen r\<rparr>)"
        using q(1) f(3) by (intro ext) auto
      moreover have "r = q\<lparr>ss_last_seen := ss_last_seen r, ss_binding := ss_binding r\<rparr>"
        using q(2) f(3) by simp
      ultimately show ?thesis
        using v Some lv notouch q(1,3) s False f(3) by (auto simp: validate_session_def)
    qed
  qed
qed

end

text \<open>What an event leaves of a row: who and which token it names, and its death.\<close>

definition outlives :: "instant \<Rightarrow> session \<Rightarrow> session \<Rightarrow> bool" where
  "outlives t q q' \<longleftrightarrow> ss_id q' = ss_id q \<and> ss_user q' = ss_user q \<and> ss_token_hash q' = ss_token_hash q \<and>
     ss_issued_at q' = ss_issued_at q \<and> ss_expires_at q' = ss_expires_at q \<and> ss_mfa_at q' = ss_mfa_at q \<and>
     ss_last_seen q \<le> ss_last_seen q' \<and> (dead t q \<longrightarrow> dead t q')"

lemma outlives_refl: "outlives t q q"
  by (simp add: outlives_def)

lemma outlives_trans: "outlives t q q' \<Longrightarrow> outlives t q' q'' \<Longrightarrow> outlives t q q''"
  by (auto simp: outlives_def)

lemma dead_later: "dead t q \<Longrightarrow> t \<le> t' \<Longrightarrow> dead t' q"
  by (auto simp: dead_def live_at_def)

lemma outlives_revoked: "outlives t q (revoked at reason q)"
  by (auto simp: outlives_def revoked_def dead_def live_at_def)

lemma outlives_slid: "\<not> dead now q \<Longrightarrow> t \<le> now \<Longrightarrow> ss_last_seen q \<le> seen \<Longrightarrow> outlives t q (q\<lparr>ss_last_seen := seen\<rparr>)"
  using dead_later [of t q now] by (auto simp: outlives_def)

context session_store
begin

lemma apply_event_rows:
  assumes s: "ok s" and t: "t \<le> at"
  shows "ok (apply_event sha st (e, at, ev) s) \<and>
    (\<forall>i q. row s i = Some q \<longrightarrow> (\<exists>q'. row (apply_event sha st (e, at, ev) s) i = Some q' \<and> outlives t q q'))"
proof (cases ev)
  case (Create raw i user mfa ip ua)
  show ?thesis
  proof (cases "create_session sha (st e) raw i user mfa ip ua at s")
    case (Inr res)
    obtain r where r: "st_insert (st e) r s = Inr (snd res)"
      using Inr by (auto simp: create_session_def Let_def split: sum.splits)
    from insert_law [OF s r] show ?thesis by (auto simp: Create Inr split_beta outlives_refl)
  qed (auto simp: Create s outlives_refl)
next
  case (Validate raw touch)
  show ?thesis
  proof (cases "validate_session sha (st e) raw touch at s")
    case (Inr res)
    obtain answer s' where r: "res = (answer, s')" by (cases res)
    from validate_row [OF s Inr [unfolded r]] show ?thesis
      using t by (cases answer) (auto simp: Validate Inr r outlives_refl outlives_slid)
  qed (auto simp: Validate s outlives_refl)
next
  case (Touch x)
  show ?thesis
  proof (cases "touch_session (st e) x at s")
    case (Inr res)
    obtain answer s' where r: "res = (answer, s')" by (cases res)
    from touch_row [OF s Inr [unfolded r]] show ?thesis
      using t by (cases answer) (auto simp: Touch Inr r outlives_refl outlives_slid)
  qed (auto simp: Touch s outlives_refl)
next
  case (Revoke i reason)
  show ?thesis
  proof (cases "revoke_session (st e) i reason at s")
    case (Inr res)
    obtain answer s' where r: "res = (answer, s')" by (cases res)
    from revoke_law [OF s Inr [unfolded r revoke_session_def]] show ?thesis
      by (auto simp: Revoke Inr r outlives_refl outlives_revoked)
  qed (auto simp: Revoke s outlives_refl)
next
  case (RevokeAll user reason)
  show ?thesis
  proof (cases "revoke_all_sessions (st e) user reason at s")
    case (Inr res)
    obtain n s' where r: "res = (n, s')" by (cases res)
    from revoke_all_law [OF s Inr [unfolded r revoke_all_sessions_def]] show ?thesis
      by (auto simp: RevokeAll Inr r outlives_refl outlives_revoked)
  qed (auto simp: RevokeAll s outlives_refl)
qed

lemma run_events_rows:
  assumes "ok s" "\<forall>(e, at, ev) \<in> set evs. t \<le> at"
  shows "ok (run_events sha st evs s) \<and>
    (\<forall>i q. row s i = Some q \<longrightarrow> (\<exists>q'. row (run_events sha st evs s) i = Some q' \<and> outlives t q q'))"
  using assms
proof (induction evs arbitrary: s)
  case Nil
  then show ?case by (auto simp: run_events_def outlives_refl)
next
  case (Cons x evs)
  obtain e at ev where x: "x = (e, at, ev)" by (cases x)
  let ?s = "apply_event sha st (e, at, ev) s"
  have r: "run_events sha st (x # evs) s = run_events sha st evs ?s" by (simp add: run_events_def x)
  have a: "ok ?s" "\<And>i q. row s i = Some q \<Longrightarrow> \<exists>q'. row ?s i = Some q' \<and> outlives t q q'"
    using apply_event_rows [OF Cons.prems(1), of t at sha e ev] Cons.prems(2) by (auto simp: x)
  have b: "ok (run_events sha st evs ?s)"
    "\<And>i q. row ?s i = Some q \<Longrightarrow> \<exists>q'. row (run_events sha st evs ?s) i = Some q' \<and> outlives t q q'"
    using Cons.IH [OF a(1)] Cons.prems(2) by auto
  show ?case unfolding r using a(2) b outlives_trans by meson
qed

text \<open>A session refused at one time is refused at every later one.\<close>

lemma dead_refused:
  assumes "ok s" "row s i = Some q" "dead now q" "ss_token_hash q = hash_token sha raw"
    and "validate_session sha (st e) raw touch now s = Inr (Live r, s')"
  shows False
proof -
  obtain r0 where "st_get (st e) (hash_token sha raw) s = Some r0" "ss_id r0 = i"
    using row_get [OF assms(1,2), of e] assms(4) by auto
  moreover from validate_row [OF assms(1,5)] obtain q' where
    "row s (ss_id r) = Some q'" "\<not> dead now q'" by auto
  moreover from assms(5) calculation(1) have "ss_id r = ss_id r0"
    by (auto simp: validate_session_def touch_session_def split: if_splits sum.splits option.splits)
  ultimately show False using assms(2,3) by simp
qed

lemma refused_stays_refused:
  assumes s: "ok s" and v: "validate_session sha (st e) raw touch now s = Inr (Refused reason (Some i), s1)"
    and evs: "\<forall>(e, at, ev) \<in> set evs. now \<le> at" and later: "now \<le> now'"
  shows "validate_session sha (st e') raw touch' now' (run_events sha st evs s1) \<noteq> Inr (Live r, s2)"
proof
  assume l: "validate_session sha (st e') raw touch' now' (run_events sha st evs s1) = Inr (Live r, s2)"
  from validate_row [OF s v] obtain q where q: "ok s1" "row s1 i = Some q" "ss_token_hash q = hash_token sha raw" "dead now q"
    by auto
  from run_events_rows [OF q(1) evs, of sha] obtain q' where
    r: "ok (run_events sha st evs s1)" "row (run_events sha st evs s1) i = Some q'" "outlives now q q'"
    using q(2) by blast
  have "dead now' q'" "ss_token_hash q' = hash_token sha raw"
    using r(3) q(3,4) dead_later later by (auto simp: outlives_def)
  from dead_refused [OF r(1,2) this l] show False .
qed

end

text \<open>Every row comes from a creation, and lives twelve hours from it at most.\<close>

definition created :: "hash_function \<Rightarrow> ('e \<times> instant \<times> session_event) list \<Rightarrow> session \<Rightarrow> bool" where
  "created sha evs q \<longleftrightarrow> (\<exists>e raw ip ua mfa. (e, ss_issued_at q, Create raw (ss_id q) (ss_user q) mfa ip ua) \<in> set evs \<and>
     ss_token_hash q = hash_token sha raw \<and> ss_mfa_at q = (if mfa then Some (ss_issued_at q) else None)) \<and>
     ss_expires_at q = ss_issued_at q + absolute_lifetime \<and> ss_issued_at q \<le> ss_last_seen q"

lemma created_outlives: "created sha evs q \<Longrightarrow> outlives t q q' \<Longrightarrow> created sha (evs @ later) q'"
  by (auto simp: created_def outlives_def) (metis (no_types) dual_order.trans)+

lemma lower_time: "\<exists>t :: instant. \<forall>(e, at, ev) \<in> set evs. t \<le> at"
proof (induction evs)
  case (Cons x evs)
  obtain e at ev where x: "x = (e, at, ev)" by (cases x)
  from Cons obtain t where "\<forall>(e, at, ev) \<in> set evs. t \<le> at" by blast
  then have "\<forall>(e, at', ev) \<in> set (x # evs). min t at \<le> at'" by (force simp: x)
  then show ?case by blast
qed simp

lemma created_mono: "created sha evs q \<Longrightarrow> set evs \<subseteq> set evs' \<Longrightarrow> created sha evs' q"
  unfolding created_def by blast

context session_store
begin

lemma apply_event_origin:
  assumes s: "ok s" and r: "row (apply_event sha st (e, at, ev) s) i = Some q'"
  shows "(\<exists>q. row s i = Some q \<and> outlives at q q') \<or> created sha [(e, at, ev)] q'"
proof (cases "row s i")
  case (Some q)
  then obtain q2 where "row (apply_event sha st (e, at, ev) s) i = Some q2" "outlives at q q2"
    using apply_event_rows [OF s order_refl, where at = at and sha = sha and e = e and ev = ev] by blast
  with Some r show ?thesis by auto
next
  case None
  have "created sha [(e, at, ev)] q'"
  proof (cases ev)
    case (Create raw k user mfa ip ua)
    define n where "n = \<lparr>ss_id = k, ss_user = user, ss_token_hash = hash_token sha raw, ss_issued_at = at,
            ss_expires_at = at + absolute_lifetime, ss_last_seen = at,
            ss_mfa_at = (if mfa then Some at else None), ss_revoked_at = None,
            ss_revoke_reason = None, ss_ip = normalise_ip ip, ss_user_agent = or_none ua,
            ss_binding = Some (rls_binding_hash sha raw)\<rparr>"
    show ?thesis
    proof (cases "st_insert (st e) n s")
      case (Inl x)
      then show ?thesis using r None by (simp add: Create create_session_def Let_def n_def)
    next
      case (Inr s')
      then have "row s' i = Some q'" using r by (simp add: Create create_session_def Let_def n_def)
      with insert_law [OF s Inr] None show ?thesis
        by (auto simp: created_def Create n_def split: if_splits)
    qed
  next
    case (Validate raw touch)
    then show ?thesis using r None validate_row [OF s, of sha e raw touch at]
      by (auto split: sum.splits validation.splits if_splits)
  next
    case (Touch x)
    then show ?thesis using r None touch_row [OF s, of e x at]
      by (auto split: sum.splits option.splits if_splits)
  next
    case (Revoke k reason)
    then show ?thesis using r None revoke_law [OF s, of e k reason at]
      by (auto simp: revoke_session_def split: sum.splits if_splits)
  next
    case (RevokeAll user reason)
    then show ?thesis using r None revoke_all_law [OF s, of e user reason at]
      by (auto simp: revoke_all_sessions_def split: sum.splits)
  qed
  then show ?thesis by simp
qed

lemma run_events_origin:
  assumes "ok s" "\<And>i. row s i = None" "row (run_events sha st evs s) i = Some q"
  shows "created sha evs q"
  using assms(3)
proof (induction evs arbitrary: i q rule: rev_induct)
  case Nil
  then show ?case using assms(2) by (simp add: run_events_def)
next
  case (snoc x evs)
  obtain e at ev where x: "x = (e, at, ev)" by (cases x)
  have o: "ok (run_events sha st evs s)"
  proof -
    obtain t where "\<forall>(e, at, ev) \<in> set evs. t \<le> at" by (rule exE [OF lower_time])
    then show ?thesis using run_events_rows [OF assms(1)] by blast
  qed
  have "row (apply_event sha st (e, at, ev) (run_events sha st evs s)) i = Some q"
    using snoc.prems by (simp add: run_events_def x)
  from apply_event_origin [OF o this] show ?case
  proof
    assume "\<exists>p. row (run_events sha st evs s) i = Some p \<and> outlives at p q"
    then show ?case using snoc.IH created_outlives by blast
  next
    assume "created sha [(e, at, ev)] q"
    then show ?case by (rule created_mono) (simp add: x)
  qed
qed

lemma run_events_ok:
  assumes "ok s"
  shows "ok (run_events sha st evs s)"
proof -
  obtain t where "\<forall>(e, at, ev) \<in> set evs. t \<le> at" by (rule exE [OF lower_time])
  then show ?thesis using run_events_rows [OF assms] by blast
qed

lemma live_session:
  assumes s: "ok s" "\<And>i. row s i = None"
    and v: "validate_session sha (st e) raw touch now (run_events sha st evs s) = Inr (Live r, s')"
  shows "\<exists>q. created sha evs q \<and> ss_id q = ss_id r \<and> ss_user q = ss_user r \<and> ss_mfa_at q = ss_mfa_at r \<and>
    ss_token_hash q = hash_token sha raw \<and> \<not> dead now q"
proof -
  from validate_row [OF run_events_ok [OF s(1)] v] obtain q where
    q: "row (run_events sha st evs s) (ss_id r) = Some q" "ss_token_hash q = hash_token sha raw" "\<not> dead now q"
    "r = q\<lparr>ss_last_seen := ss_last_seen r, ss_binding := ss_binding r\<rparr>" by auto
  have "ss_id q = ss_id r" "ss_user q = ss_user r" "ss_mfa_at q = ss_mfa_at r"
    using arg_cong [OF q(4), of ss_id] arg_cong [OF q(4), of ss_user] arg_cong [OF q(4), of ss_mfa_at] by simp_all
  with q run_events_origin [OF s q(1)] show ?thesis by blast
qed

end

section \<open>The table keeps the promise\<close>

definition table_row :: "session list \<Rightarrow> uuid \<Rightarrow> session option" where
  "table_row rows i = find (\<lambda>r. ss_id r = i) rows"

definition table_ok :: "session list \<Rightarrow> bool" where
  "table_ok rows \<longleftrightarrow> distinct (map ss_id rows) \<and> distinct (map ss_token_hash rows)"

lemma table_row_Some: "table_ok rows \<Longrightarrow> table_row rows i = Some q \<longleftrightarrow> q \<in> set rows \<and> ss_id q = i"
  by (induction rows) (auto simp: table_row_def table_ok_def)

lemma table_row_id: "table_row rows i = Some q \<Longrightarrow> ss_id q = i"
  by (auto simp: table_row_def find_Some_iff)

lemma table_row_map: "(\<And>r. ss_id (f r) = ss_id r) \<Longrightarrow> table_row (map f rows) i = map_option f (table_row rows i)"
  by (induction rows) (auto simp: table_row_def)

lemma find_hash: "table_ok rows \<Longrightarrow> find (\<lambda>r. ss_token_hash r = h) rows = Some q \<longleftrightarrow> q \<in> set rows \<and> ss_token_hash q = h"
  by (induction rows) (auto simp: table_ok_def)

lemma table_ok_map:
  assumes "\<And>r. ss_id (f r) = ss_id r" "\<And>r. ss_token_hash (f r) = ss_token_hash r"
  shows "table_ok (map f rows) = table_ok rows"
  by (simp add: table_ok_def comp_def assms)

lemma update_sessions_Inr: "update_sessions sha cn p f rows = Inr (written, rows') \<longleftrightarrow>
   list_all (\<lambda>r. p r \<longrightarrow> session_guard sha cn r (f r)) rows \<and> written = map f (filter p rows) \<and>
   rows' = map (\<lambda>r. if p r then f r else r) rows"
  by (auto simp: update_sessions_def)

lemma filter_unique: "table_ok rows \<Longrightarrow> filter (\<lambda>r. ss_id r = i \<and> p r) rows =
    (case table_row rows i of None \<Rightarrow> [] | Some q \<Rightarrow> if p q then [q] else [])"
proof (induction rows)
  case (Cons r rows)
  have "ss_id x \<noteq> ss_id r" if "x \<in> set rows" for x
    using Cons.prems that by (metis distinct.simps(2) image_eqI list.set_map list.simps(9) table_ok_def)
  then have "filter (\<lambda>r. ss_id r = i \<and> p r) rows = []" if "ss_id r = i"
    using that by (auto simp: filter_empty_conv)
  then show ?case using Cons by (auto simp: table_row_def table_ok_def split: option.split)
qed (simp add: table_row_def)

lemma pg_get_row:
  assumes "table_ok rows" "st_get (pg_store sha inet e) h rows = Some r"
  shows "\<exists>q. table_row rows (ss_id r) = Some q \<and> r = q\<lparr>ss_binding := ss_binding r\<rparr> \<and> ss_token_hash q = h"
  using assms by (auto simp: pg_store_def pg_get_def find_hash table_row_Some)

lemma pg_row_get:
  assumes a: "table_ok rows" "table_row rows i = Some q"
  shows "\<exists>r. st_get (pg_store sha inet e) (ss_token_hash q) rows = Some r \<and> ss_id r = i"
proof -
  from a have "find (\<lambda>r. ss_token_hash r = ss_token_hash q) rows = Some q"
    by (simp add: find_hash table_row_Some)
  with a show ?thesis
    by (auto simp: pg_store_def pg_get_def table_row_Some)
qed

lemma pg_insert_law:
  assumes t: "table_ok rows" and i: "st_insert (pg_store sha inet e) r rows = Inr rows'"
  shows "table_ok rows' \<and> table_row rows (ss_id r) = None \<and>
      (\<exists>a. table_row rows' = (table_row rows)(ss_id r \<mapsto> r\<lparr>ss_revoked_at := None, ss_revoke_reason := None, ss_ip := a\<rparr>))"
proof -
  obtain a where r': "rows' = rows @ [r\<lparr>ss_revoked_at := None, ss_revoke_reason := None, ss_ip := a\<rparr>]"
    and n: "\<not> list_ex (\<lambda>q. ss_id q = ss_id r \<or> ss_token_hash q = ss_token_hash r) rows"
    using i by (auto simp: pg_store_def pg_insert_def list_ex_iff split: option.splits if_splits)
  have f: "find (\<lambda>q. ss_id q = k) (rows @ [x]) = (case find (\<lambda>q. ss_id q = k) rows of None \<Rightarrow> if ss_id x = k then Some x else None | Some y \<Rightarrow> Some y)"
    for k and x :: session by (induction rows) auto
  have none: "table_row rows (ss_id r) = None"
    using n by (auto simp: table_row_def find_None_iff list_ex_iff)
  have "table_row rows' = (table_row rows)(ss_id r \<mapsto> r\<lparr>ss_revoked_at := None, ss_revoke_reason := None, ss_ip := a\<rparr>)"
    using none by (intro ext) (auto simp: r' table_row_def f split: option.split)
  moreover have "table_ok rows'" using t n by (auto simp: r' table_ok_def list_ex_iff)
  ultimately show ?thesis
    using none by blast
qed

lemma pg_slide_law:
  assumes t: "table_ok rows" and sl: "st_slide (pg_store sha inet e) i at idle_floor rows = Inr (answer, rows')"
  shows "table_ok rows' \<and> (case answer of
          None \<Rightarrow> table_row rows' = table_row rows \<and> (\<forall>q. table_row rows i = Some q \<longrightarrow> \<not> live_at q at idle_floor)
        | Some seen \<Rightarrow> \<exists>q. table_row rows i = Some q \<and> live_at q at idle_floor \<and> ss_last_seen q \<le> seen \<and>
            table_row rows' = (table_row rows)(i \<mapsto> q\<lparr>ss_last_seen := seen\<rparr>))"
proof -
  define f where "f r = r\<lparr>ss_last_seen := max (ss_last_seen r) (min at (cn_now e + minutes 1))\<rparr>" for r :: session
  define p where "p r \<longleftrightarrow> ss_id r = i \<and> live_at r at idle_floor" for r
  have r': "rows' = map (\<lambda>r. if p r then f r else r) rows"
    and a: "answer = (case map f (filter p rows) of [] \<Rightarrow> None | r # _ \<Rightarrow> Some (ss_last_seen r))"
    using sl by (auto simp: pg_store_def pg_slide_def update_sessions_Inr p_def [abs_def] f_def [abs_def] live_at_def split: sum.splits)
  have keep: "table_ok rows'" unfolding r' using t by (subst table_ok_map) (auto simp: f_def)
  have row': "table_row rows' k = map_option (\<lambda>r. if p r then f r else r) (table_row rows k)" for k
    unfolding r' by (rule table_row_map) (simp add: f_def)
  have w: "filter p rows = (case table_row rows i of None \<Rightarrow> [] | Some q \<Rightarrow> if live_at q at idle_floor then [q] else [])"
    unfolding p_def by (rule filter_unique [OF t])
  show ?thesis
  proof (cases "\<exists>q. table_row rows i = Some q \<and> live_at q at idle_floor")
    case True
    then obtain q where q: "table_row rows i = Some q" "live_at q at idle_floor" by blast
    have "ss_last_seen q \<le> ss_last_seen (f q)" "f q = q\<lparr>ss_last_seen := ss_last_seen (f q)\<rparr>" by (simp_all add: f_def)
    moreover have "answer = Some (ss_last_seen (f q))" by (simp add: a w q)
    moreover have "table_row rows' = (table_row rows)(i \<mapsto> f q)"
    proof
      fix k
      show "table_row rows' k = ((table_row rows)(i \<mapsto> f q)) k"
      proof (cases "k = i")
        case True
        then show ?thesis using q table_row_Some [OF t, of i q] by (simp add: row' p_def)
      next
        case False
        then have "\<not> p x" if "table_row rows k = Some x" for x
          using table_row_id [OF that] by (auto simp: p_def)
        then show ?thesis using False by (cases "table_row rows k") (auto simp: row')
      qed
    qed
    ultimately show ?thesis using keep q by auto
  next
    case False
    have "\<not> p r" if "r \<in> set rows" for r
      using False that table_row_Some [OF t, of i r] by (auto simp: p_def)
    then have "rows' = rows" unfolding r' by (simp add: map_idI)
    moreover have "answer = None" using False by (auto simp: a w split: option.split)
    ultimately show ?thesis using keep False by auto
  qed
qed

lemma pg_revoke_law:
  assumes t: "table_ok rows" and rv: "st_revoke (pg_store sha inet e) i reason at rows = Inr (done_any, rows')"
  shows "table_ok rows' \<and> table_row rows' = (\<lambda>j. if j = i then map_option (revoked at reason) (table_row rows j) else table_row rows j) \<and>
      (done_any \<longleftrightarrow> (\<exists>q. table_row rows i = Some q \<and> ss_revoked_at q = None))"
proof -
  define f where "f r = r\<lparr>ss_revoked_at := Some at, ss_revoke_reason := Some reason\<rparr>" for r :: session
  have r': "rows' = map (\<lambda>r. if ss_id r = i \<and> ss_revoked_at r = None then f r else r) rows"
    and a: "done_any \<longleftrightarrow> filter (\<lambda>r. ss_id r = i \<and> ss_revoked_at r = None) rows \<noteq> []"
    using rv by (auto simp: pg_store_def pg_revoke_def update_sessions_Inr f_def [abs_def] split: sum.splits)
  have "table_ok rows'" unfolding r' using t by (subst table_ok_map) (auto simp: f_def)
  moreover have "table_row rows' = (\<lambda>j. if j = i then map_option (revoked at reason) (table_row rows j) else table_row rows j)"
  proof
    fix k
    have "table_row rows' k = map_option (\<lambda>r. if ss_id r = i \<and> ss_revoked_at r = None then f r else r) (table_row rows k)"
      unfolding r' by (rule table_row_map) (simp add: f_def)
    then show "table_row rows' k = (if k = i then map_option (revoked at reason) (table_row rows k) else table_row rows k)"
      using table_row_id [of rows k] by (cases "table_row rows k") (auto simp: revoked_def f_def)
  qed
  moreover have "done_any \<longleftrightarrow> (\<exists>q. table_row rows i = Some q \<and> ss_revoked_at q = None)"
    unfolding a filter_unique [OF t] by (auto split: option.split)
  ultimately show ?thesis by blast
qed

lemma pg_revoke_all_law:
  assumes t: "table_ok rows" and rv: "st_revoke_all (pg_store sha inet e) user reason at rows = Inr (n, rows')"
  shows "table_ok rows' \<and>
      table_row rows' = (\<lambda>j. map_option (\<lambda>q. if ss_user q = user then revoked at reason q else q) (table_row rows j))"
proof -
  define f where "f r = r\<lparr>ss_revoked_at := Some at, ss_revoke_reason := Some reason\<rparr>" for r :: session
  have r': "rows' = map (\<lambda>r. if ss_user r = user \<and> ss_revoked_at r = None then f r else r) rows"
    using rv by (auto simp: pg_store_def pg_revoke_all_def update_sessions_Inr f_def [abs_def] split: sum.splits)
  have "table_ok rows'" unfolding r' using t by (subst table_ok_map) (auto simp: f_def)
  moreover have "table_row rows' = (\<lambda>j. map_option (\<lambda>q. if ss_user q = user then revoked at reason q else q) (table_row rows j))"
  proof
    fix k
    have "table_row rows' k = map_option (\<lambda>r. if ss_user r = user \<and> ss_revoked_at r = None then f r else r) (table_row rows k)"
      unfolding r' by (rule table_row_map) (simp add: f_def)
    then show "table_row rows' k = map_option (\<lambda>q. if ss_user q = user then revoked at reason q else q) (table_row rows k)"
      by (cases "table_row rows k") (auto simp: revoked_def f_def)
  qed
  ultimately show ?thesis by blast
qed

interpretation pg: session_store "pg_store sha inet" table_row table_ok
  by unfold_locales
    (erule (1) pg_get_row pg_row_get pg_insert_law pg_slide_law pg_revoke_law pg_revoke_all_law)+


lemma touch_none_unchanged:
  assumes "touch_session (pg_store sha inet cn) r t rows = Inr (None, rows')"
  shows "rows' = rows"
proof -
  let ?p = "\<lambda>q. ss_id q = ss_id r \<and> ss_revoked_at q = None \<and> t < ss_expires_at q \<and> t - idle_timeout < ss_last_seen q"
  let ?f = "\<lambda>q. q\<lparr>ss_last_seen := max (ss_last_seen q) (min t (cn_now cn + minutes 1))\<rparr>"
  from assms have "update_sessions sha cn ?p ?f rows = Inr ([], rows')"
    by (auto simp: touch_session_def pg_store_def pg_slide_def split: sum.splits option.splits list.splits)
  then have "filter ?p rows = []" "rows' = map (\<lambda>q. if ?p q then ?f q else q) rows"
    by (auto simp: update_sessions_Inr)
  then show ?thesis by (auto simp: filter_empty_conv intro!: map_idI)
qed

lemma touch_some_user: "touch_session st r t s = Inr (Some r', s') \<Longrightarrow>
    ss_user r' = ss_user r \<and> ss_id r' = ss_id r \<and> ss_mfa_at r' = ss_mfa_at r"
  by (auto simp: touch_session_def split: sum.splits option.splits)

lemma rejected_keeps_sessions: "rw_sessions (record_rejected_session clock reason i w) = rw_sessions w"
  by (auto simp: record_rejected_session_def Let_def split: option.split prod.split)

lemma unbound_cases:
  "(\<exists>w'. refuse_unbound_session strict r rq w = (True, w') \<and> rw_sessions w' = rw_sessions w) \<or>
   refuse_unbound_session strict r rq w = (False, w) \<and>
     (if strict then binding_mismatch r (rq_ip rq) (rq_user_agent rq) = [] else True)"
  by (auto simp: refuse_unbound_session_def Let_def)

lemma unbindable_cases:
  "(\<exists>w'. refuse_unbindable_session sha active ticket cn r w = (True, w') \<and> rw_sessions w' = rw_sessions w) \<or>
   refuse_unbindable_session sha active ticket cn r w = (False, w) \<and>
     (if cn_exempt cn then True else rls_actor sha active ticket cn (rw_sessions w) = Some (ss_user r))"
  by (auto simp: refuse_unbindable_session_def Let_def)

section \<open>Properties of the sessions\<close>

lemma validate_untouched: "\<exists>a. validate_session sha st raw False now s = Inr (a, s)"
  by (simp add: validate_session_def split: option.split)

abbreviation run_table :: "hash_function \<Rightarrow> inet \<Rightarrow> (connection \<times> instant \<times> session_event) list \<Rightarrow> session list" where
  "run_table sha inet evs \<equiv> run_events sha (pg_store sha inet) evs []"

lemma empty_table: "table_ok []" "table_row [] i = None"
  by (simp_all add: table_ok_def table_row_def)

text \<open>C26: Once a presented token has been refused for a session (revoked, past its twelve hours or idle for
  thirty minutes), no validation at a later time accepts it, whatever sessions were created, presented,
  slid from a stale record, revoked one by one or all at once in between, on whatever connections.\<close>

theorem refused_for_ever:
  assumes refused: "validate_session sha (pg_store sha inet cn) raw touch now (run_table sha inet before) =
      Inr (Refused reason (Some i), rows)"
    and later: "\<forall>(e, at, ev) \<in> set between. now \<le> at" "now \<le> now'"
  shows "validate_session sha (pg_store sha inet cn') raw touch' now' (run_events sha (pg_store sha inet) between rows) \<noteq>
    Inr (Live r, rows')"
  by (rule pg.refused_stays_refused [OF pg.run_events_ok [OF empty_table(1)] refused later])

definition sample_connection :: connection where
  "sample_connection = \<lparr>cn_exempt = True, cn_proof = None, cn_now = 0\<rparr>"

lemmas session_eval = Let_def sample_connection_def run_events_def pg_store_def pg_insert_def pg_get_def pg_slide_def
  pg_revoke_all_def update_sessions_def session_guard_def create_session_def validate_session_def touch_session_def
  revoke_all_sessions_def normalise_ip_def or_none_def absolute_lifetime_def idle_timeout_def

theorem refused_for_ever_witness:
  "\<forall>r rows. validate_session (\<lambda>bs. bs) (pg_store (\<lambda>bs. bs) Some sample_connection) ''t'' True (hours 14)
     (run_events (\<lambda>bs. bs) (pg_store (\<lambda>bs. bs) Some) [(sample_connection, hours 13, RevokeAll 7 ''logout'')]
       (run_table (\<lambda>bs. bs) Some [(sample_connection, 0, Create ''t'' 1 7 False None None)])) \<noteq>
   Inr (Live r, rows)"
  by (intro allI, rule refused_for_ever [where now = "hours 12" and reason = ABSOLUTE_EXPIRED and i = 1 and touch = False and
       before = "[(sample_connection, 0, Create ''t'' 1 7 False None None)]" and cn = sample_connection])
    (simp_all add: session_eval)

text \<open>A token is accepted only if a session was created with a token of the same hash less than twelve
  hours before, by its user and with its second factor then or never, it is not revoked, and it was
  seen less than thirty minutes before.\<close>

theorem accepted_session:
  assumes "validate_session sha (pg_store sha inet cn) raw touch now (run_table sha inet evs) = Inr (Live r, rows)"
  shows "\<exists>(q :: session) e t raw' ip ua mfa. (e, t, Create raw' (ss_id r) (ss_user r) mfa ip ua) \<in> set evs \<and>
    hash_token sha raw' = hash_token sha raw \<and> now < t + hours 12 \<and>
    ss_mfa_at r = (if mfa then Some t else None) \<and>
    ss_id q = ss_id r \<and> ss_revoked_at q = None \<and> now - ss_last_seen q < minutes 30 \<and> t \<le> ss_last_seen q"
proof -
  obtain q where q: "created sha evs q" "ss_id q = ss_id r" "ss_user q = ss_user r" "ss_mfa_at q = ss_mfa_at r"
    "ss_token_hash q = hash_token sha raw" "\<not> dead now q"
    using pg.live_session [OF empty_table assms] by blast
  from q(1) obtain e raw' ip ua mfa where
    c: "(e, ss_issued_at q, Create raw' (ss_id q) (ss_user q) mfa ip ua) \<in> set evs"
    "ss_token_hash q = hash_token sha raw'" "ss_mfa_at q = (if mfa then Some (ss_issued_at q) else None)"
    "ss_expires_at q = ss_issued_at q + absolute_lifetime" "ss_issued_at q \<le> ss_last_seen q"
    unfolding created_def by blast
  have live: "now < ss_issued_at q + hours 12" "ss_revoked_at q = None" "now - ss_last_seen q < minutes 30"
    using q(6) c(4) by (auto simp: dead_def live_at_def absolute_lifetime_def idle_timeout_def)
  have made: "(e, ss_issued_at q, Create raw' (ss_id r) (ss_user r) mfa ip ua) \<in> set evs"
    "hash_token sha raw' = hash_token sha raw" "ss_mfa_at r = (if mfa then Some (ss_issued_at q) else None)"
    using c(1-3) q(2-5) by simp_all
  show ?thesis by (rule exI [of _ q], intro exI conjI) (rule made live c(5) q(2))+
qed

theorem accepted_session_witness:
  "\<exists>(q :: session) e t raw' ip ua mfa. (e, t, Create raw' 1 7 mfa ip ua) \<in>
      set [(sample_connection, 0, Create ''t'' 1 7 True None None)] \<and>
    hash_token (\<lambda>bs. bs) raw' = hash_token (\<lambda>bs. bs) ''t'' \<and> minutes 3 < t + hours 12 \<and>
    Some 0 = (if mfa then Some t else None) \<and>
    ss_id q = 1 \<and> ss_revoked_at q = None \<and> minutes 3 - ss_last_seen q < minutes 30 \<and> t \<le> ss_last_seen q"
proof -
  let ?evs = "[(sample_connection, 0, Create ''t'' 1 7 True None None)]"
  let ?v = "validate_session (\<lambda>bs. bs) (pg_store (\<lambda>bs. bs) Some sample_connection) ''t'' True (minutes 3)
      (run_table (\<lambda>bs. bs) Some ?evs)"
  obtain r rows where v: "?v = Inr (Live r, rows)" "ss_id r = 1" "ss_user r = 7" "ss_mfa_at r = Some 0"
  proof -
    have "case ?v of Inr (Live r, rows) \<Rightarrow> ss_id r = 1 \<and> ss_user r = 7 \<and> ss_mfa_at r = Some 0 | _ \<Rightarrow> False"
      by (simp add: session_eval)
    then show ?thesis using that by (auto split: sum.splits validation.splits)
  qed
  show ?thesis using accepted_session [OF v(1)] unfolding v(2-4) .
qed

text \<open>A refused request leaves every session as it was: a replayed token that fails the binding, the row
  security or the idle window does not slide the window of the session it names. An accepted one is
  bound to the session's own user and, under strict binding, comes from the address and client the
  session was minted for.\<close>

theorem current_user_decides:
  "case current_user sha inet strict active ticket cn raw rq now later clock w of
     (Inl e, w') \<Rightarrow> rw_sessions w' = rw_sessions w
   | (Inr u, w') \<Rightarrow> rw_audit w' = rw_audit w \<and> (\<exists>r.
       validate_session sha (pg_store sha inet cn) raw False now (rw_sessions w) = Inr (Live r, rw_sessions w) \<and>
       u = \<lparr>cu_user = ss_user r, cu_session = ss_id r, cu_mfa_at = ss_mfa_at r\<rparr> \<and>
       (if strict then binding_mismatch r (rq_ip rq) (rq_user_agent rq) = [] else True) \<and>
       (if cn_exempt cn then True else
          rls_actor sha active ticket (cn\<lparr>cn_proof := Some (rls_proof sha raw)\<rparr>) (rw_sessions w) = Some (ss_user r)))"
proof -
  define v where "v = validate_session sha (pg_store sha inet cn) raw False now (rw_sessions w)"
  note unfold = current_user_def v_def [symmetric] Let_def
  obtain a where va: "v = Inr (a, rw_sessions w)"
    unfolding v_def by (rule exE [OF validate_untouched])
  show ?thesis
  proof (cases a)
    case (Live r)
    then have live: "v = Inr (Live r, rw_sessions w)" by (simp add: va)
    let ?cn = "cn\<lparr>cn_proof := Some (rls_proof sha raw)\<rparr>"
    consider (unbound) w' where "refuse_unbound_session strict r rq w = (True, w')" "rw_sessions w' = rw_sessions w"
      | (unbindable) w' where "refuse_unbound_session strict r rq w = (False, w)"
          "refuse_unbindable_session sha active ticket ?cn r w = (True, w')" "rw_sessions w' = rw_sessions w"
      | (bound) "refuse_unbound_session strict r rq w = (False, w)"
          "refuse_unbindable_session sha active ticket ?cn r w = (False, w)"
          "if strict then binding_mismatch r (rq_ip rq) (rq_user_agent rq) = [] else True"
          "if cn_exempt cn then True else rls_actor sha active ticket ?cn (rw_sessions w) = Some (ss_user r)"
      using unbound_cases [of strict r rq w] unbindable_cases [of sha active ticket ?cn r w]
      by (simp, blast)
    then show ?thesis
    proof cases
      case bound
      show ?thesis
      proof (cases "touch_session (pg_store sha inet ?cn) r later (rw_sessions w)")
        case (Inl e)
        then show ?thesis by (simp add: unfold live bound(1,2))
      next
        case (Inr res)
        then obtain answer rows where t: "touch_session (pg_store sha inet ?cn) r later (rw_sessions w) = Inr (answer, rows)"
          by (cases res) simp
        show ?thesis
        proof (cases answer)
          case None
          then show ?thesis using touch_none_unchanged t by (simp add: unfold live bound(1,2))
        next
          case (Some r')
          from touch_some_user [OF t [unfolded Some]] t Some bound(3,4) show ?thesis
            by (simp add: unfold live bound(1,2))
        qed
      qed
    qed (simp_all add: unfold live)
  qed (simp add: unfold va rejected_keeps_sessions)
qed

end
