(* ===== verification/Envelope.thy ===== *)
theory Envelope
  imports Codecs
begin

text \<open>
  The field encryption of \<open>security/envelope.py\<close>: the ring of keys read from the environment, the
  seal under the active key, the opening with the key a blob names, and the rewrap. AES-256-GCM and the
  random nonce are arguments. The lemmas show the round trip, that a rotation keeps every blob open,
  and that a rewrapped blob needs the active key alone.
\<close>

section \<open>The ring\<close>

type_synonym environment = "string \<Rightarrow> string option"

definition kek_env :: string where
  "kek_env = ''NOCTORNAL_TOTP_KEK''"

definition kek_id_env :: string where
  "kek_id_env = ''NOCTORNAL_TOTP_KEK_ID''"

definition retired_env :: string where
  "retired_env = ''NOCTORNAL_TOTP_KEK_RETIRED''"

definition default_key_id :: string where
  "default_key_id = ''env:v1''"

text \<open>\<open>[A-Za-z0-9]\<close> and \<open>[A-Za-z0-9._:-]\<close>\<close>

definition alnum_char :: "char \<Rightarrow> bool" where
  "alnum_char c \<longleftrightarrow> (let n = code_point c in
     65 \<le> n \<and> n \<le> 90 \<or> 97 \<le> n \<and> n \<le> 122 \<or> 48 \<le> n \<and> n \<le> 57)"

definition key_id_form :: "string \<Rightarrow> bool" where
  "key_id_form s \<longleftrightarrow> s \<noteq> [] \<and> length s \<le> 64 \<and> alnum_char (hd s) \<and>
     list_all (\<lambda>c. alnum_char c \<or> c \<in> set ''._:-'') (tl s)"

definition is_key_id :: "string \<Rightarrow> bool" where
  "is_key_id s \<longleftrightarrow> matches_dollar key_id_form s"

text \<open>What a variable of the ring is refused with: each a \<open>RuntimeError\<close> but the last, a \<open>binascii.Error\<close>.\<close>

datatype ring_error =
    KekNotSet
  | KeyLength string nat
  | UnusableKeyId
  | RetiredEntryForm nat
  | RetiredReusesActive nat string
  | RetiredTwice string
  | RetiredNotBase64 nat string
  | Base64Error

fun is_runtime_error :: "ring_error \<Rightarrow> bool" where
  "is_runtime_error Base64Error = False"
| "is_runtime_error _ = True"

type_synonym key = "byte list"

definition decode_key :: "string \<Rightarrow> string \<Rightarrow> ring_error + key" where
  "decode_key raw name =
     (case b64_decode raw of
        None \<Rightarrow> Inl Base64Error
      | Some key \<Rightarrow> if length key \<noteq> 32 then Inl (KeyLength name (length key)) else Inr key)"

definition load_kek :: "environment \<Rightarrow> ring_error + key" where
  "load_kek env = (case env kek_env of
      None \<Rightarrow> Inl KekNotSet
    | Some raw \<Rightarrow> if raw = [] then Inl KekNotSet else decode_key raw kek_env)"

definition getenv :: "environment \<Rightarrow> string \<Rightarrow> string" where
  "getenv env name = (case env name of None \<Rightarrow> [] | Some v \<Rightarrow> v)"

definition active_key_id :: "environment \<Rightarrow> ring_error + string" where
  "active_key_id env = (let raw = strip (getenv env kek_id_env) in
     if raw = [] then Inr default_key_id
     else if \<not> is_key_id raw then Inl UnusableKeyId
     else Inr raw)"

definition retired_entry ::
    "string \<Rightarrow> nat \<Rightarrow> string \<Rightarrow> (string \<times> key) list \<Rightarrow> ring_error + (string \<times> key) list" where
  "retired_entry active position entry keys =
     (let entry = strip entry in
      if entry = [] then Inr keys
      else (case partition_on pad_char entry of (key_id, sep, material) \<Rightarrow>
        let key_id = strip key_id in
        if \<not> sep \<or> \<not> is_key_id key_id \<or> strip material = [] then Inl (RetiredEntryForm position)
        else if key_id = active then Inl (RetiredReusesActive position key_id)
        else if key_id \<in> fst ` set keys then Inl (RetiredTwice key_id)
        else (case decode_key material (retired_env @ '' entry '' @ dec_text position @ '' ('' @ key_id @ '')'') of
            Inl e \<Rightarrow> Inl (if is_runtime_error e then e else RetiredNotBase64 position key_id)
          | Inr key \<Rightarrow> Inr (dict_set key_id key keys))))"

fun retired_entries ::
    "string \<Rightarrow> nat \<Rightarrow> string list \<Rightarrow> (string \<times> key) list \<Rightarrow> ring_error + (string \<times> key) list" where
  "retired_entries active position [] keys = Inr keys"
| "retired_entries active position (entry # entries) keys =
     (case retired_entry active position entry keys of
        Inl e \<Rightarrow> Inl e
      | Inr keys \<Rightarrow> retired_entries active (Suc position) entries keys)"

definition retired_keys :: "environment \<Rightarrow> ring_error + (string \<times> key) list" where
  "retired_keys env =
     (case active_key_id env of
        Inl e \<Rightarrow> Inl e
      | Inr active \<Rightarrow> retired_entries active 1 (split_on (CHR '','') (getenv env retired_env)) [])"

definition ring :: "environment \<Rightarrow> ring_error + (string \<times> key) list" where
  "ring env =
     (case active_key_id env of
        Inl e \<Rightarrow> Inl e
      | Inr active \<Rightarrow> (case load_kek env of
          Inl e \<Rightarrow> Inl e
        | Inr kek \<Rightarrow> (case retired_keys env of
            Inl e \<Rightarrow> Inl e
          | Inr retired \<Rightarrow> Inr (foldl (\<lambda>d (k, v). dict_set k v d) [(active, kek)] retired))))"

definition key_ids :: "environment \<Rightarrow> ring_error + string list" where
  "key_ids env = map_sum id (map fst) (ring env)"

section \<open>Sealing and opening\<close>

text \<open>AES-256-GCM: the ciphertext with its tag, and the plaintext of a ciphertext whose tag is right.\<close>

record aead =
  aead_seal :: "key \<Rightarrow> byte list \<Rightarrow> byte list \<Rightarrow> byte list"
  aead_open :: "key \<Rightarrow> byte list \<Rightarrow> byte list \<Rightarrow> byte list option"

datatype envelope_error =
    RingError ring_error
  | KeyUnavailable string
  | InvalidTag
  | MalformedBlob nat
  | UnicodeDecodeError
  | ValueErrorKeyLength

fun unopenable :: "envelope_error \<Rightarrow> bool" where
  "unopenable (KeyUnavailable _) = True"
| "unopenable InvalidTag = True"
| "unopenable (MalformedBlob _) = True"
| "unopenable _ = False"

definition nonce_bytes :: nat where
  "nonce_bytes = 12"

definition encrypt :: "aead \<Rightarrow> environment \<Rightarrow> byte list \<Rightarrow> string \<Rightarrow> envelope_error + byte list \<times> string" where
  "encrypt a env nonce plaintext =
     (case load_kek env of
        Inl e \<Rightarrow> Inl (RingError e)
      | Inr key \<Rightarrow>
          let ct = aead_seal a key nonce (utf8 plaintext)
          in (case active_key_id env of
              Inl e \<Rightarrow> Inl (RingError e)
            | Inr active \<Rightarrow> Inr (nonce @ ct, active)))"

definition open_blob :: "aead \<Rightarrow> byte list \<Rightarrow> key \<Rightarrow> envelope_error + string" where
  "open_blob a blob key =
     (if length blob \<le> nonce_bytes then Inl (MalformedBlob (length blob))
      else (case aead_open a key (take nonce_bytes blob) (drop nonce_bytes blob) of
          None \<Rightarrow> Inl InvalidTag
        | Some plain \<Rightarrow> (case utf8_decode plain of None \<Rightarrow> Inl UnicodeDecodeError | Some s \<Rightarrow> Inr s)))"

definition decrypt :: "aead \<Rightarrow> environment \<Rightarrow> byte list \<Rightarrow> string option \<Rightarrow> envelope_error + string" where
  "decrypt a env blob key_id =
     (let wanted = (case key_id of None \<Rightarrow> default_key_id | Some i \<Rightarrow> if i = [] then default_key_id else i)
      in (case ring env of
          Inl e \<Rightarrow> Inl (RingError e)
        | Inr keys \<Rightarrow> (case map_of keys wanted of
            None \<Rightarrow> Inl (KeyUnavailable wanted)
          | Some key \<Rightarrow> open_blob a blob key)))"

text \<open>\<open>can_open\<close>: nothing when the blob opens, else what its sentence is about.\<close>

definition can_open :: "aead \<Rightarrow> environment \<Rightarrow> byte list \<Rightarrow> string option \<Rightarrow> envelope_error + envelope_error option" where
  "can_open a env blob key_id =
     (case decrypt a env blob key_id of
        Inl e \<Rightarrow> if unopenable e then Inr (Some e) else Inl e
      | Inr _ \<Rightarrow> Inr None)"

definition rewrap :: "aead \<Rightarrow> environment \<Rightarrow> byte list \<Rightarrow> byte list \<Rightarrow> string option \<Rightarrow> envelope_error + byte list \<times> string" where
  "rewrap a env nonce blob key_id =
     (case decrypt a env blob key_id of Inl e \<Rightarrow> Inl e | Inr plaintext \<Rightarrow> encrypt a env nonce plaintext)"

definition open_with :: "aead \<Rightarrow> byte list \<Rightarrow> key \<Rightarrow> envelope_error + string" where
  "open_with a blob key = (if length key \<noteq> 32 then Inl ValueErrorKeyLength else open_blob a blob key)"

section \<open>Reading a key back\<close>

lemma b64_step_junk: "\<forall>c\<in>set ws. c \<noteq> pad_char \<and> b64_value c = None \<Longrightarrow>
    b64_step quad left pads out (s @ ws) = b64_step quad left pads out s"
proof (induction s arbitrary: quad left pads out)
  case Nil
  then show ?case by (induction ws) auto
qed (auto split: option.split)

lemma index_of_Some: "index_of x xs = Some n \<Longrightarrow> x \<in> set xs"
proof (rule ccontr)
  assume i: "index_of x xs = Some n" and "x \<notin> set xs"
  then have "takeWhile (\<lambda>y. y \<noteq> x) xs = xs" by (auto simp: takeWhile_eq_all_conv)
  with i show False by (simp add: index_of_def)
qed

lemma space_junk: "is_space c \<Longrightarrow> c \<noteq> pad_char \<and> b64_value c = None"
proof -
  assume c: "is_space c"
  have "list_all (\<lambda>c. \<not> is_space c) (pad_char # b64_alphabet)" by code_simp
  with c have "c \<noteq> pad_char" "c \<notin> set b64_alphabet" by (auto simp: list_all_iff)
  then show ?thesis using index_of_Some [of c b64_alphabet] by (cases "b64_value c") (auto simp: b64_value_def)
qed

lemma rstrip_split: "\<exists>ws. s = rstrip s @ ws \<and> (\<forall>c\<in>set ws. is_space c)"
proof -
  have "s = rstrip s @ rev (takeWhile is_space (rev s))"
    unfolding rstrip_def rev_append [symmetric] takeWhile_dropWhile_id by simp
  moreover have "\<forall>c\<in>set (rev (takeWhile is_space (rev s))). is_space c"
    by (auto dest: set_takeWhileD)
  ultimately show ?thesis by blast
qed

lemma b64_decode_rstrip: "b64_decode s = Some bs \<Longrightarrow> b64_decode (rstrip s) = Some bs"
proof -
  assume d: "b64_decode s = Some bs"
  obtain ws where ws: "s = rstrip s @ ws" "\<forall>c\<in>set ws. is_space c" using rstrip_split by blast
  have "is_ascii s" "b64_step 0 0 0 [] s = Some bs" using d by (auto simp: b64_decode_def split: if_splits)
  then have "is_ascii (rstrip s)" "b64_step 0 0 0 [] (rstrip s) = Some bs"
    using ws b64_step_junk [of ws] space_junk by (metis is_ascii_def list_all_append, metis)
  then show ?thesis by (simp add: b64_decode_def)
qed

lemma strip_blank: "strip s = [] \<Longrightarrow> \<forall>c\<in>set s. is_space c"
proof -
  assume "strip s = []"
  then have "\<forall>c\<in>set (dropWhile is_space s). is_space c"
    by (simp add: strip_def rstrip_def lstrip_def)
  moreover have "set s = set (takeWhile is_space s) \<union> set (dropWhile is_space s)"
    by (subst set_append [symmetric]) simp
  ultimately show ?thesis by (auto dest: set_takeWhileD)
qed

lemma b64_decode_blank: "b64_decode s = Some bs \<Longrightarrow> strip s = [] \<Longrightarrow> bs = []"
  using b64_step_junk [of s 0 0 0 "[]" "[]"] strip_blank [of s] space_junk
  by (auto simp: b64_decode_def split: if_splits)

section \<open>Lookups in the ring\<close>

lemma map_of_fold_dict_set: "map_of (foldl (\<lambda>d (k, v). dict_set k v d) d ks) = map_of d ++ map_of (rev ks)"
proof (induction ks arbitrary: d)
  case (Cons p ks)
  then show ?case by (cases p) (simp add: map_add_def fun_eq_iff split: option.split)
qed simp

lemma ring_Inr: "ring env = Inr ks \<longleftrightarrow> (\<exists>active kek R. active_key_id env = Inr active \<and> load_kek env = Inr kek \<and>
    retired_entries active 1 (split_on (CHR '','') (getenv env retired_env)) [] = Inr R \<and>
    ks = foldl (\<lambda>d (k, v). dict_set k v d) [(active, kek)] R)"
  by (auto simp: ring_def retired_keys_def split: sum.splits)

lemma retired_entry_Inr: "retired_entry active p e ks = Inr ks' \<Longrightarrow>
    ks' = ks \<or> (\<exists>k key. k \<noteq> active \<and> k \<notin> fst ` set ks \<and> ks' = dict_set k key ks)"
  by (auto simp: retired_entry_def Let_def split: if_splits prod.splits sum.splits)

lemma retired_entries_keys: "retired_entries active p es ks = Inr ks' \<Longrightarrow>
    fst ` set ks \<subseteq> fst ` set ks' \<and> (active \<notin> fst ` set ks \<longrightarrow> active \<notin> fst ` set ks')"
proof (induction es arbitrary: p ks)
  case (Cons e es)
  obtain k1 where k1: "retired_entry active p e ks = Inr k1" "retired_entries active (Suc p) es k1 = Inr ks'"
    using Cons.prems(1) by (auto split: sum.splits)
  from retired_entry_Inr [OF k1(1)]
  have "fst ` set ks \<subseteq> fst ` set k1 \<and> (active \<notin> fst ` set ks \<longrightarrow> active \<notin> fst ` set k1)"
    by (elim disjE exE conjE) (simp_all add: subset_insertI)
  with Cons.IH [OF k1(2)] show ?case by (meson subset_trans)
qed simp

lemma ring_active: "ring env = Inr ks \<Longrightarrow> active_key_id env = Inr active \<Longrightarrow> load_kek env = Inr kek \<Longrightarrow>
    map_of ks active = Some kek"
proof -
  assume r: "ring env = Inr ks" and a: "active_key_id env = Inr active" "load_kek env = Inr kek"
  then obtain R where R: "retired_entries active 1 (split_on (CHR '','') (getenv env retired_env)) [] = Inr R"
    "ks = foldl (\<lambda>d (k, v). dict_set k v d) [(active, kek)] R" by (auto simp: ring_Inr)
  have "active \<notin> fst ` set R" using retired_entries_keys [OF R(1)] by simp
  then have "map_of (rev R) active = None" by (simp add: map_of_eq_None_iff)
  then show "map_of ks active = Some kek" by (simp add: R(2) map_of_fold_dict_set map_add_def)
qed

text \<open>One more key in front, under an id no entry has: the same entries are read, one position on.\<close>

lemma retired_entry_shift:
  assumes "retired_entry active p e ks = Inr ks'" "new \<notin> fst ` set ks'" "new \<noteq> active"
  shows "retired_entry new (Suc p) e ((active, kek) # ks) = Inr ((active, kek) # ks')"
  using assms by (auto simp: retired_entry_def decode_key_def Let_def split: if_splits prod.splits sum.splits option.splits)

lemma retired_entries_shift:
  "retired_entries active p es ks = Inr ks' \<Longrightarrow> new \<notin> fst ` set ks' \<Longrightarrow> new \<noteq> active \<Longrightarrow>
   retired_entries new (Suc p) es ((active, kek) # ks) = Inr ((active, kek) # ks')"
proof (induction es arbitrary: p ks)
  case (Cons e es)
  obtain k1 where k1: "retired_entry active p e ks = Inr k1" "retired_entries active (Suc p) es k1 = Inr ks'"
    using Cons.prems(1) by (auto split: sum.splits)
  have "new \<notin> fst ` set k1" using retired_entries_keys [OF k1(2)] Cons.prems(2) by blast
  from retired_entry_shift [OF k1(1) this Cons.prems(3)] Cons.IH [OF k1(2) Cons.prems(2,3)]
  show ?case by simp
qed simp

section \<open>Rotation\<close>

text \<open>
  Step 1 of the documented rotation: a new key under a new id, the old one moved to the retired keys
  under the id it had.
\<close>

definition rotate_kek :: "environment \<Rightarrow> string \<Rightarrow> string \<Rightarrow> string \<Rightarrow> string \<Rightarrow> environment" where
  "rotate_kek env old_id old_raw new_id new_raw = env(kek_env \<mapsto> new_raw, kek_id_env \<mapsto> new_id,
     retired_env \<mapsto> old_id @ pad_char # old_raw @ CHR '','' # getenv env retired_env)"

lemma env_names [simp]: "kek_env \<noteq> kek_id_env" "kek_env \<noteq> retired_env" "kek_id_env \<noteq> retired_env"
  by (simp_all add: kek_env_def kek_id_env_def retired_env_def)

lemma rstrip_last: "s \<noteq> [] \<Longrightarrow> \<not> is_space (last s) \<Longrightarrow> rstrip s = s"
  by (cases s rule: rev_cases) (simp_all add: rstrip_def)

lemma strip_ends: "\<not> is_space (hd s) \<Longrightarrow> \<not> is_space (last s) \<Longrightarrow> strip s = s"
  by (cases s) (simp_all add: strip_def lstrip_def rstrip_last rstrip_def [of "[]"])

lemma rstrip_idem [simp]: "rstrip (rstrip s) = rstrip s"
  by (simp add: rstrip_def dropWhile_idem)

lemma rstrip_ends: "rstrip s \<noteq> [] \<Longrightarrow> \<not> is_space (last (rstrip s))"
  by (metis hd_dropWhile last_rev rev_is_Nil_conv rstrip_def)

lemma strip_strip: "strip (strip s) = strip s"
proof (cases "strip s = []")
  case False
  then have "\<not> is_space (last (strip s))" by (simp add: strip_def rstrip_ends)
  moreover have "\<not> is_space (hd (strip s))"
  proof -
    obtain ws where ws: "lstrip s = strip s @ ws" using rstrip_split [of "lstrip s"] by (auto simp: strip_def)
    have "lstrip s \<noteq> []" using False ws by auto
    then have "\<not> is_space (hd (lstrip s))" unfolding lstrip_def by (rule hd_dropWhile)
    with False show ?thesis by (simp add: ws)
  qed
  ultimately show ?thesis by (rule strip_ends [rotated])
qed simp

text \<open>The id of the active key is stripped, so it is a plain key id.\<close>

lemma active_form: "active_key_id env = Inr i \<Longrightarrow> key_id_form i"
proof -
  assume a: "active_key_id env = Inr i"
  show ?thesis
  proof (cases "strip (getenv env kek_id_env) = []")
    case True
    then have "i = default_key_id" using a by (simp add: active_key_id_def)
    then show ?thesis by (simp add: default_key_id_def) code_simp
  next
    case False
    then have i: "i = strip (getenv env kek_id_env)" "is_key_id i"
      using a by (auto simp: active_key_id_def Let_def split: if_splits)
    have "\<not> is_space (last i)" using False by (simp add: i(1) strip_def rstrip_ends)
    then have "last i \<noteq> newline" by (auto simp: is_space_def newline_def code_point_def)
    then show ?thesis using i(2) by (simp add: is_key_id_def matches_dollar_def)
  qed
qed

lemma key_id_chars: "key_id_form i \<Longrightarrow> c \<in> set i \<Longrightarrow> alnum_char c \<or> c \<in> set ''._:-''"
  by (cases i) (auto simp: key_id_form_def list_all_iff)

lemma key_char_plain: "alnum_char c \<or> c \<in> set ''._:-'' \<Longrightarrow> \<not> is_space c \<and> c \<noteq> pad_char \<and> c \<noteq> CHR '',''"
  by (auto simp: alnum_char_def is_space_def pad_char_def code_point_def Let_def)

lemma key_id_plain: "key_id_form i \<Longrightarrow> i \<noteq> [] \<and> strip i = i \<and> pad_char \<notin> set i \<and> CHR '','' \<notin> set i \<and> \<not> is_space (hd i)"
proof -
  assume i: "key_id_form i"
  then have n: "i \<noteq> []" by (simp add: key_id_form_def)
  have "\<forall>c\<in>set i. \<not> is_space c \<and> c \<noteq> pad_char \<and> c \<noteq> CHR '',''"
    using key_id_chars [OF i] key_char_plain by blast
  with n show ?thesis by (auto simp: strip_none)
qed

lemma rstrip_append: "s \<noteq> [] \<Longrightarrow> rstrip s \<noteq> [] \<Longrightarrow> rstrip (p @ s) = p @ rstrip s"
proof -
  assume "rstrip s \<noteq> []"
  then have "dropWhile is_space (rev s) \<noteq> []" by (simp add: rstrip_def)
  then have "dropWhile is_space (rev s @ rev p) = dropWhile is_space (rev s) @ rev p"
    by (auto simp: dropWhile_eq_Nil_conv intro: dropWhile_append1)
  then show ?thesis by (simp add: rstrip_def)
qed

text \<open>The entry the rotation writes is read as the old key.\<close>

lemma rotated_entry:
  assumes i: "key_id_form i" and raw: "decode_key raw name = Inr key" and new: "new \<noteq> i"
  shows "retired_entry new p (i @ pad_char # raw) [] = Inr [(i, key)]"
proof -
  from raw have d: "b64_decode raw = Some key" and len: "length key = 32"
    by (auto simp: decode_key_def split: option.splits if_splits)
  have nb: "strip raw \<noteq> []" using b64_decode_blank [OF d] len by auto
  have rs: "rstrip raw \<noteq> []"
  proof
    assume "rstrip raw = []"
    then have "\<forall>c\<in>set raw. is_space c" by (auto simp: rstrip_def dropWhile_eq_Nil_conv)
    then have "lstrip raw = []" by (simp add: lstrip_def dropWhile_eq_Nil_conv)
    with nb show False by (simp add: strip_def rstrip_def)
  qed
  have "strip (i @ pad_char # raw) = rstrip (i @ pad_char # raw)"
    using key_id_plain [OF i] by (cases i) (simp_all add: strip_def lstrip_def)
  also have "\<dots> = i @ pad_char # rstrip raw"
    using rstrip_append [of raw "i @ [pad_char]"] rs by (cases raw) (simp_all add: rstrip_def)
  finally have s: "strip (i @ pad_char # raw) = i @ pad_char # rstrip raw" .
  have m: "strip (rstrip raw) \<noteq> []"
  proof
    assume "strip (rstrip raw) = []"
    then have "\<forall>c\<in>set (rstrip raw). is_space c" by (rule strip_blank)
    with rstrip_ends [OF rs] last_in_set [OF rs] show False by blast
  qed
  have k: "is_key_id i" using i by (simp add: is_key_id_def matches_dollar_def)
  have "decode_key (rstrip raw) n = Inr key" for n
    using b64_decode_rstrip [OF d] len by (simp add: decode_key_def)
  then show ?thesis
    using key_id_plain [OF i] k m new by (simp add: retired_entry_def s)
qed

text \<open>What a lookup finds before a rotation, it finds after it.\<close>

lemma ring_rotate:
  assumes ring: "ring env = Inr ks" and active: "active_key_id env = Inr i" and raw: "env kek_env = Some raw"
    and comma: "CHR '','' \<notin> set raw"
    and new: "active_key_id (rotate_kek env i raw new_id new_raw) = Inr new" "load_kek (rotate_kek env i raw new_id new_raw) = Inr kek"
      "new \<notin> fst ` set ks"
  shows "\<exists>ks'. ring (rotate_kek env i raw new_id new_raw) = Inr ks' \<and> (\<forall>k v. map_of ks k = Some v \<longrightarrow> map_of ks' k = Some v)"
proof -
  let ?env = "rotate_kek env i raw new_id new_raw"
  let ?old = "split_on (CHR '','') (getenv env retired_env)"
  obtain key R where R: "load_kek env = Inr key" "retired_entries i 1 ?old [] = Inr R"
    "ks = foldl (\<lambda>d (k, v). dict_set k v d) [(i, key)] R"
    using ring active by (auto simp: ring_Inr)
  have form: "key_id_form i" by (rule active_form [OF active])
  have d: "decode_key raw kek_env = Inr key" using R(1) raw by (simp add: load_kek_def split: if_splits)
  have lk: "map_of ks = [i \<mapsto> key] ++ map_of (rev R)" by (simp add: R(3) map_of_fold_dict_set)
  have keys: "fst ` set ks = insert i (fst ` set R)"
  proof -
    have "fst ` set ks = dom (map_of ks)" by (simp add: dom_map_of_conv_image_fst)
    also have "\<dots> = insert i (fst ` set R)" unfolding lk by (auto simp: dom_map_of_conv_image_fst)
    finally show ?thesis .
  qed
  have ni: "new \<noteq> i" "new \<notin> fst ` set R" using new(3) keys by auto
  have sp: "split_on (CHR '','') (getenv ?env retired_env) = (i @ pad_char # raw) # ?old"
    using comma key_id_plain [OF form] split_on_append [of "CHR '',''" "i @ pad_char # raw"]
    by (simp add: getenv_def rotate_kek_def pad_char_def)
  have "retired_entries new 1 (split_on (CHR '','') (getenv ?env retired_env)) [] = Inr ((i, key) # R)"
    unfolding sp using rotated_entry [OF form d ni(1)] retired_entries_shift [OF R(2) ni(2,1)] by simp
  then have r: "ring ?env = Inr (foldl (\<lambda>d (k, v). dict_set k v d) [(new, kek)] ((i, key) # R))"
    using new(1,2) by (simp add: ring_def retired_keys_def)
  have "map_of (foldl (\<lambda>d (k, v). dict_set k v d) [(new, kek)] ((i, key) # R)) k = Some v"
    if "map_of ks k = Some v" for k v
  proof -
    have "k \<in> fst ` set ks" using that by (metis domI dom_map_of_conv_image_fst)
    then have "k \<noteq> new" using new(3) by auto
    then show ?thesis using that unfolding lk map_of_fold_dict_set
      by (auto simp: map_add_def split: option.splits if_splits)
  qed
  with r show ?thesis by blast
qed

lemma decrypt_Inr: "decrypt a env blob i = Inr s \<longleftrightarrow>
    (\<exists>ks key. ring env = Inr ks \<and> map_of ks (case i of None \<Rightarrow> default_key_id | Some i \<Rightarrow> if i = [] then default_key_id else i) = Some key \<and>
      open_blob a blob key = Inr s)"
  by (auto simp: decrypt_def Let_def split: sum.splits option.splits)

section \<open>Properties of the envelope\<close>

text \<open>C37: A rotation keeps every blob open: with a new key under a new id and the old one retired under
  its own, as the module describes, whatever opened before opens to the same text, under every id the
  ring held. The old value must be free of commas, the separator of the retired list.\<close>

theorem rotation_keeps_blobs:
  assumes "decrypt a env blob key_id = Inr s" "ring env = Inr ks" "active_key_id env = Inr i"
    and "env kek_env = Some raw" "CHR '','' \<notin> set raw"
    and "active_key_id (rotate_kek env i raw new_id new_raw) = Inr new"
    and "is_ok (load_kek (rotate_kek env i raw new_id new_raw))" "new \<notin> fst ` set ks"
  shows "decrypt a (rotate_kek env i raw new_id new_raw) blob key_id = Inr s"
proof -
  obtain kek where k: "load_kek (rotate_kek env i raw new_id new_raw) = Inr kek" using assms(7) by (auto simp: is_ok_iff)
  from assms(1,2) ring_rotate [OF assms(2-6) k assms(8)] show ?thesis unfolding decrypt_Inr by fastforce
qed

text \<open>What a rewrap writes opens to the text of the old blob with the active key alone: in any
  environment that keeps the active key and its id, with whatever retired keys or none.\<close>

theorem rewrapped_needs_active_key:
  assumes rewrapped: "rewrap a env nonce blob key_id = Inr (blob', key_id')"
    and aead: "\<And>k n p. aead_open a k n (aead_seal a k n p) = Some p" "\<And>k n p. aead_seal a k n p \<noteq> []"
    and nonce: "length nonce = nonce_bytes"
    and later: "env' kek_env = env kek_env" "env' kek_id_env = env kek_id_env" "is_ok (ring env')"
  shows "decrypt a env' blob' (Some key_id') = decrypt a env blob key_id"
proof -
  obtain s where s: "decrypt a env blob key_id = Inr s" "encrypt a env nonce s = Inr (blob', key_id')"
    using rewrapped by (auto simp: rewrap_def split: sum.splits)
  then obtain kek where k: "load_kek env = Inr kek" "active_key_id env = Inr key_id'"
    "blob' = nonce @ aead_seal a kek nonce (utf8 s)"
    by (auto simp: encrypt_def Let_def split: sum.splits)
  have same: "load_kek env' = Inr kek" "active_key_id env' = Inr key_id'"
    using k(1,2) later(1,2) by (simp_all add: load_kek_def active_key_id_def getenv_def)
  obtain ks where ks: "ring env' = Inr ks" using later(3) by (auto simp: is_ok_iff)
  have lk: "map_of ks key_id' = Some kek" by (rule ring_active [OF ks same(2,1)])
  have "key_id' \<noteq> []" using key_id_plain [OF active_form [OF same(2)]] by simp
  moreover have "open_blob a blob' kek = Inr s"
    using aead nonce by (simp add: open_blob_def k(3))
  ultimately show ?thesis using ks lk s(1) unfolding s(1) decrypt_Inr by simp
qed

section \<open>At concrete inputs\<close>

text \<open>A stand-in for AES-GCM: the key's first bytes are the tag.\<close>

definition sample_aead :: aead where
  "sample_aead = \<lparr>aead_seal = \<lambda>k n p. p @ take 16 (k @ replicate 16 0),
     aead_open = \<lambda>k n c. let m = length c - 16 in
       if drop m c = take 16 (k @ replicate 16 0) then Some (take m c) else None\<rparr>"

definition sample_kek :: "byte \<Rightarrow> string" where
  "sample_kek b = b64_encode (replicate 32 b)"

definition sample_env :: environment where
  "sample_env = [kek_env \<mapsto> sample_kek 1]"

definition sample_blob :: "byte list" where
  "sample_blob = replicate 12 7 @ aead_seal sample_aead (replicate 32 1) (replicate 12 7) (utf8 ''secret'')"

lemma sample_aead_laws: "aead_open sample_aead k n (aead_seal sample_aead k n p) = Some p"
  "aead_seal sample_aead k n p \<noteq> []"
  by (auto simp: sample_aead_def Let_def)

lemma sample_key: "decode_key (sample_kek b) name = Inr (replicate 32 b)" "sample_kek b \<noteq> []"
proof -
  show "decode_key (sample_kek b) name = Inr (replicate 32 b)" by (simp add: sample_kek_def decode_key_def)
  have "b64_decode [] \<noteq> Some (replicate 32 b)" by (simp add: b64_decode_def is_ascii_def)
  then show "sample_kek b \<noteq> []" unfolding sample_kek_def by (metis b64_roundtrip)
qed

lemma sample_ring: "ring sample_env = Inr [(default_key_id, replicate 32 1)]" "active_key_id sample_env = Inr default_key_id"
  using env_names env_names [symmetric]
  by (auto simp: ring_def retired_keys_def active_key_id_def load_kek_def sample_env_def sample_key getenv_def
      retired_entry_def strip_def rstrip_def lstrip_def)

lemma sample_load: "load_kek sample_env = Inr (replicate 32 1)"
  by (simp add: load_kek_def sample_env_def sample_key)

lemma sample_opens: "decrypt sample_aead sample_env sample_blob None = Inr ''secret''"
  using sample_aead_laws
  by (simp add: decrypt_def sample_ring open_blob_def sample_blob_def nonce_bytes_def)

lemma sample_rotated: "CHR '','' \<notin> set (sample_kek 1)"
  "active_key_id (rotate_kek sample_env default_key_id (sample_kek 1) ''env:v2'' (sample_kek 2)) = Inr ''env:v2''"
  "load_kek (rotate_kek sample_env default_key_id (sample_kek 1) ''env:v2'' (sample_kek 2)) = Inr (replicate 32 2)"
proof -
  show "CHR '','' \<notin> set (sample_kek 1)" by code_simp
  have "strip ''env:v2'' = ''env:v2''" "is_key_id ''env:v2''" by code_simp+
  then show "active_key_id (rotate_kek sample_env default_key_id (sample_kek 1) ''env:v2'' (sample_kek 2)) = Inr ''env:v2''"
    by (simp add: active_key_id_def getenv_def rotate_kek_def)
  show "load_kek (rotate_kek sample_env default_key_id (sample_kek 1) ''env:v2'' (sample_kek 2)) = Inr (replicate 32 2)"
    using env_names by (simp add: load_kek_def rotate_kek_def sample_key)
qed

theorem rotation_keeps_blobs_witness:
  "decrypt sample_aead (rotate_kek sample_env default_key_id (sample_kek 1) ''env:v2'' (sample_kek 2)) sample_blob None = Inr ''secret''"
  by (rule rotation_keeps_blobs [OF sample_opens sample_ring _ sample_rotated(1,2)])
    (simp_all add: sample_load sample_rotated(3), simp_all add: sample_env_def default_key_id_def)

theorem rewrapped_needs_active_key_witness:
  "\<exists>blob. decrypt sample_aead sample_env blob (Some default_key_id) = Inr ''secret''"
proof -
  let ?nonce = "replicate 12 9"
  have "rewrap sample_aead sample_env ?nonce sample_blob None =
      Inr (?nonce @ aead_seal sample_aead (replicate 32 1) ?nonce (utf8 ''secret''), default_key_id)"
    by (simp add: rewrap_def sample_opens encrypt_def sample_load sample_ring)
  from rewrapped_needs_active_key [OF this sample_aead_laws, of sample_env] show ?thesis
    by (auto simp: nonce_bytes_def sample_ring sample_opens)
qed

end
