(* ===== verification/SecondFactor.thy ===== *)
theory SecondFactor
  imports Codecs
begin

text \<open>
  The second factors: the time-based codes of \<open>security/totp.py\<close> (base32 secrets, HMAC-SHA1 as an
  argument, dynamic truncation, one step of drift, replay protection by the last accepted counter) and
  the text of the recovery codes of \<open>security/recovery.py\<close>. The lemmas show exactly which code is accepted
  at which counter, and that whatever a person does to the case and the dashes of a recovery code, it
  normalises to the code that was issued.
\<close>

section \<open>Time-based codes\<close>

definition step_seconds :: int where
  "step_seconds = 30"

definition code_digits :: nat where
  "code_digits = 6"

definition drift_windows :: int where
  "drift_windows = 1"

type_synonym hmac_function = "byte list \<Rightarrow> byte list \<Rightarrow> byte list"

datatype totp_error = BinasciiError | StructError | IndexError

definition generate_secret :: "byte list \<Rightarrow> string" where
  "generate_secret token = b32_encode token"

definition counter_at :: "int \<Rightarrow> int" where
  "counter_at timestamp = timestamp div step_seconds"

definition pad_secret :: "string \<Rightarrow> string" where
  "pad_secret secret = secret @ replicate (nat ((- int (length secret)) mod 8)) pad_char"

definition zfill :: "nat \<Rightarrow> string \<Rightarrow> string" where
  "zfill n s = replicate (n - length s) (CHR ''0'') @ s"

definition hotp :: "hmac_function \<Rightarrow> string \<Rightarrow> int \<Rightarrow> totp_error + string" where
  "hotp mac secret counter =
     (case b32_decode (pad_secret secret) of
        None \<Rightarrow> Inl BinasciiError
      | Some key \<Rightarrow>
          if counter < 0 \<or> 2 ^ 64 \<le> counter then Inl StructError
          else let digest = mac key (to_bytes 8 (nat counter)) in
            if digest = [] then Inl IndexError
            else let offset = unat (last digest) mod 16;
                     part = take 4 (drop offset digest) in
              if length part \<noteq> 4 then Inl StructError
              else let binary = from_bytes part mod 2 ^ 31
                   in Inr (zfill code_digits (dec_text (binary mod 10 ^ code_digits))))"

definition code_at :: "hmac_function \<Rightarrow> string \<Rightarrow> int \<Rightarrow> totp_error + string" where
  "code_at mac secret timestamp = hotp mac secret (counter_at timestamp)"

text \<open>One of the drift steps: skipped, or compared.\<close>

fun first_candidate ::
    "hmac_function \<Rightarrow> string \<Rightarrow> string \<Rightarrow> int option \<Rightarrow> int list \<Rightarrow> totp_error + int option" where
  "first_candidate mac secret code last_counter [] = Inr None"
| "first_candidate mac secret code last_counter (candidate # candidates) =
     (if candidate < 0 then first_candidate mac secret code last_counter candidates
      else if (case last_counter of None \<Rightarrow> False | Some l \<Rightarrow> candidate \<le> l)
        then first_candidate mac secret code last_counter candidates
      else (case hotp mac secret candidate of
          Inl e \<Rightarrow> Inl e
        | Inr expected \<Rightarrow>
            if code = expected then Inr (Some candidate)
            else first_candidate mac secret code last_counter candidates))"

text \<open>\<open>verify\<close>: the counter to persist, if the code is right.\<close>

definition totp_verify ::
    "hmac_function \<Rightarrow> string \<Rightarrow> string option \<Rightarrow> int \<Rightarrow> int option \<Rightarrow> totp_error + int option" where
  "totp_verify mac secret code timestamp last_counter =
     (let code = strip (case code of None \<Rightarrow> [] | Some c \<Rightarrow> c) in
      if length code \<noteq> code_digits \<or> \<not> is_ascii code \<or> \<not> list_all is_digit_char code then Inr None
      else let current = counter_at timestamp
           in first_candidate mac secret code last_counter
                (map (\<lambda>delta. current + delta) [- drift_windows..drift_windows]))"

section \<open>Recovery codes\<close>

definition recovery_alphabet :: string where
  "recovery_alphabet = ''abcdefghjkmnpqrstuvwxyz23456789''"

definition code_groups :: nat where
  "code_groups = 3"

definition group_len :: nat where
  "group_len = 5"

definition code_count :: nat where
  "code_count = 10"

text \<open>The groups drawn by the generator are its argument.\<close>

definition generate_code :: "string list \<Rightarrow> string" where
  "generate_code groups = join_with ''-'' groups"

definition kept_chars :: "string \<Rightarrow> string" where
  "kept_chars raw = filter (\<lambda>c. c \<in> set recovery_alphabet) (lower (strip raw))"

definition normalise_code :: "string \<Rightarrow> string" where
  "normalise_code raw = join_with ''-'' (chunks group_len (kept_chars raw))"

text \<open>\<open>str.isdigit\<close> also takes the superscripts two, three and one.\<close>

definition isdigit_char :: "char \<Rightarrow> bool" where
  "isdigit_char c \<longleftrightarrow> is_digit_char c \<or> code_point c \<in> {178, 179, 185}"

definition isdigit :: "string \<Rightarrow> bool" where
  "isdigit s \<longleftrightarrow> s \<noteq> [] \<and> list_all isdigit_char s"

definition looks_like_code :: "string \<Rightarrow> bool" where
  "looks_like_code raw \<longleftrightarrow> length (kept_chars raw) = code_groups * group_len \<and> \<not> isdigit (strip raw)"

section \<open>Which code is accepted\<close>

lemma dec_digits_length: "0 < k \<Longrightarrow> n < 10 ^ k \<Longrightarrow> length (dec_digits n) \<le> k"
proof (induction n arbitrary: k rule: dec_digits.induct)
  case (1 n)
  show ?case
  proof (cases "n < 10")
    case True
    then show ?thesis using 1(2) by (simp add: dec_digits.simps [of n])
  next
    case False
    then obtain m where k: "k = Suc m" "0 < m" using 1(2,3) by (cases k; cases "k = 1") (auto simp: numeral_eq_Suc)
    then have "length (dec_digits (n div 10)) \<le> m" using 1(1) [OF False] 1(3) by (simp add: less_mult_imp_div_less mult.commute)
    with False k show ?thesis by (simp add: dec_digits.simps [of n])
  qed
qed

lemma hotp_form: "hotp mac secret c = Inr code \<Longrightarrow> length code = 6 \<and> list_all is_digit_char code"
proof -
  assume h: "hotp mac secret c = Inr code"
  then obtain b where b: "code = zfill code_digits (dec_text (b mod 10 ^ code_digits))"
    by (auto simp: hotp_def Let_def split: option.splits if_splits)
  have "length (dec_text (b mod 10 ^ code_digits)) \<le> 6"
    by (simp add: dec_text_def code_digits_def dec_digits_length [of 6])
  moreover have "list_all is_digit_char (dec_text (b mod 10 ^ code_digits))"
    by (auto simp: list_all_iff dest: dec_text_digits)
  moreover have "is_digit_char (CHR ''0'')" by code_simp
  ultimately show ?thesis by (auto simp: b zfill_def code_digits_def list_all_iff)
qed

lemma hotp_total:
  assumes key: "b32_decode (pad_secret secret) = Some key" and c: "0 \<le> c" "c < 2 ^ 64"
    and mac: "\<And>k m. length (mac k m) = 20"
  shows "is_ok (hotp mac secret c)"
proof -
  let ?d = "mac key (to_bytes 8 (nat c))"
  have "unat (last ?d) mod 16 \<le> 15" by (simp add: le_less_Suc_eq [symmetric] less_Suc_eq_le [symmetric])
  moreover have "?d \<noteq> []" using mac [of key "to_bytes 8 (nat c)"] by auto
  ultimately show ?thesis using key c by (simp add: hotp_def Let_def mac min_def)
qed

text \<open>The counters \<open>verify\<close> tries, in its order.\<close>

definition fresh_counters :: "int \<Rightarrow> int option \<Rightarrow> int list" where
  "fresh_counters timestamp last_counter =
     filter (\<lambda>c. 0 \<le> c \<and> (case last_counter of None \<Rightarrow> True | Some l \<Rightarrow> l < c))
       [counter_at timestamp - 1, counter_at timestamp, counter_at timestamp + 1]"

lemma fresh_counters_distinct: "sorted_wrt (<) (fresh_counters timestamp last_counter)"
  by (simp add: fresh_counters_def)

lemma first_candidate_filter:
  "first_candidate mac secret code l cs = first_candidate mac secret code l
     (filter (\<lambda>c. 0 \<le> c \<and> (case l of None \<Rightarrow> True | Some l \<Rightarrow> l < c)) cs)"
  by (induction cs) (auto split: option.splits sum.splits)

lemma first_candidate_Some:
  assumes "sorted_wrt (<) cs" "\<forall>c\<in>set cs. 0 \<le> c \<and> (case l of None \<Rightarrow> True | Some l \<Rightarrow> l < c)"
  shows "first_candidate mac secret code l cs = Inr (Some c) \<longleftrightarrow>
    c \<in> set cs \<and> hotp mac secret c = Inr code \<and>
    list_all (\<lambda>c'. case hotp mac secret c' of Inl _ \<Rightarrow> False | Inr e \<Rightarrow> e \<noteq> code) (filter (\<lambda>c'. c' < c) cs)"
  using assms
proof (induction cs)
  case (Cons x cs)
  have f: "filter (\<lambda>c'. c' < x) cs = []" using Cons.prems(1) by (auto simp: filter_empty_conv)
  have g: "c \<noteq> x \<and> x < c" if "c \<in> set cs" using that Cons.prems(1) by auto
  have n: "\<not> x < 0" "(case l of None \<Rightarrow> False | Some l \<Rightarrow> x \<le> l) = False"
    using Cons.prems(2) by (auto split: option.splits)
  show ?case
  proof (cases "hotp mac secret x")
    case (Inl e)
    then show ?thesis using n g by (auto simp: list_all_iff)
  next
    case (Inr e)
    then show ?thesis using n f g Cons by (cases "code = e") (auto simp: list_all_iff)
  qed
qed simp

section \<open>Properties of the second factors\<close>

text \<open>C36: A code is accepted for a counter exactly when the counter is the first of the three steps around
  the clock that is not negative and newer than the last accepted one, whose code it is.\<close>

theorem totp_verify_exact:
  "totp_verify mac secret (Some code) timestamp last_counter = Inr (Some c) \<longleftrightarrow>
     c \<in> set (fresh_counters timestamp last_counter) \<and> hotp mac secret c = Inr (strip code) \<and>
     list_all (\<lambda>c'. case hotp mac secret c' of Inl _ \<Rightarrow> False | Inr e \<Rightarrow> e \<noteq> strip code)
       (filter (\<lambda>c'. c' < c) (fresh_counters timestamp last_counter))"
proof (cases "length (strip code) = code_digits \<and> is_ascii (strip code) \<and> list_all is_digit_char (strip code)")
  case True
  have l: "map ((+) n) [- drift_windows..drift_windows] = [n - 1, n, n + 1]" for n :: int
    by (simp add: drift_windows_def upto.simps)
  have "totp_verify mac secret (Some code) timestamp last_counter =
      first_candidate mac secret (strip code) last_counter
        [counter_at timestamp - 1, counter_at timestamp, counter_at timestamp + 1]"
    using True by (simp add: totp_verify_def Let_def l del: first_candidate.simps)
  also have "\<dots> = first_candidate mac secret (strip code) last_counter (fresh_counters timestamp last_counter)"
    unfolding fresh_counters_def by (rule first_candidate_filter)
  finally have "totp_verify mac secret (Some code) timestamp last_counter =
      first_candidate mac secret (strip code) last_counter (fresh_counters timestamp last_counter)" .
  moreover have "\<forall>c\<in>set (fresh_counters timestamp last_counter). 0 \<le> c \<and> (case last_counter of None \<Rightarrow> True | Some l \<Rightarrow> l < c)"
    unfolding fresh_counters_def by (simp only: set_filter) blast
  ultimately show ?thesis by (simp only: first_candidate_Some [OF fresh_counters_distinct])
next
  case False
  have "hotp mac secret c \<noteq> Inr (strip code)"
  proof
    assume h: "hotp mac secret c = Inr (strip code)"
    have "is_digit_char d \<Longrightarrow> code_point d < 128" for d by (simp add: is_digit_char_def)
    with hotp_form [OF h] False show False by (auto simp: code_digits_def is_ascii_def list_all_iff)
  qed
  with False show ?thesis by (auto simp: totp_verify_def Let_def)
qed

text \<open>The codes of a generated secret always exist: six digits for every counter of 64 bits.\<close>

theorem generated_secret_codes:
  assumes "length token mod 5 = 0" "0 \<le> c" "c < 2 ^ 64" "\<And>k m. length (mac k m) = 20"
  shows "\<exists>code. hotp mac (generate_secret token) c = Inr code \<and> length code = 6 \<and> list_all is_digit_char code"
proof -
  have "length (generate_secret token) mod 8 = 0" using b32_roundtrip(2) [OF assms(1)] by (simp add: generate_secret_def)
  then obtain q where "length (generate_secret token) = 8 * q" by auto
  then have "pad_secret (generate_secret token) = generate_secret token" by (simp add: pad_secret_def)
  then have "b32_decode (pad_secret (generate_secret token)) = Some token"
    using b32_roundtrip(1) [OF assms(1)] by (simp add: generate_secret_def)
  from hotp_total [OF this assms(2,3), of mac, OF assms(4)] obtain code where
    "hotp mac (generate_secret token) c = Inr code" by (auto simp: is_ok_iff)
  with hotp_form [OF this] show ?thesis by blast
qed

theorem generated_secret_codes_witness:
  "\<exists>code. hotp (\<lambda>k m. replicate 20 1) (generate_secret (replicate 20 7)) 5 = Inr code \<and> length code = 6 \<and>
     list_all is_digit_char code"
  by (rule generated_secret_codes) simp_all

lemma recovery_char: "c \<in> set recovery_alphabet \<Longrightarrow> lower_char c = c \<and> \<not> is_space c \<and> c \<noteq> CHR ''-''"
proof -
  have "list_all (\<lambda>c. lower_char c = c \<and> \<not> is_space c \<and> c \<noteq> CHR ''-'') recovery_alphabet" by code_simp
  then show "c \<in> set recovery_alphabet \<Longrightarrow> lower_char c = c \<and> \<not> is_space c \<and> c \<noteq> CHR ''-''" by (simp add: list_all_iff)
qed

lemma join_with_filter: "\<not> P d \<Longrightarrow> filter P (join_with [d] ws) = concat (map (filter P) ws)"
  by (induction "[d]" ws rule: join_with.induct) auto

lemma kept_chars_join:
  assumes "\<forall>w\<in>set ws. set w \<subseteq> set recovery_alphabet" "ws \<noteq> []" "\<forall>w\<in>set ws. w \<noteq> []"
  shows "kept_chars (join_with ''-'' ws) = concat ws"
proof -
  have c: "\<forall>c\<in>set (join_with ''-'' ws). \<not> is_space c \<and> lower_char c = c"
  proof -
    have "set (join_with ''-'' ws) \<subseteq> insert (CHR ''-'') (set (concat ws))"
      by (induction "''-''" ws rule: join_with.induct) auto
    moreover have "\<not> is_space (CHR ''-'') \<and> lower_char (CHR ''-'') = CHR ''-''" by code_simp
    ultimately show ?thesis using assms(1) recovery_char by fastforce
  qed
  then have "kept_chars (join_with ''-'' ws) = filter (\<lambda>c. c \<in> set recovery_alphabet) (join_with ''-'' ws)"
    by (simp add: kept_chars_def strip_none lower_none)
  also have "\<dots> = concat (map (filter (\<lambda>c. c \<in> set recovery_alphabet)) ws)"
    by (rule join_with_filter) (use recovery_char in blast)
  also have "map (filter (\<lambda>c. c \<in> set recovery_alphabet)) ws = ws"
    using assms(1) by (intro map_idI) (auto simp: subset_iff filter_id_conv)
  finally show ?thesis .
qed

text \<open>An issued recovery code is recognised as one, and whatever spelling of it is typed, with any case
  and with its dashes dropped, doubled or replaced, normalises to it: all that counts is the characters
  of the alphabet in their order.\<close>

theorem recovery_spelling_free:
  assumes groups: "length groups = code_groups" "\<forall>g\<in>set groups. length g = group_len \<and> set g \<subseteq> set recovery_alphabet"
    and typed: "kept_chars typed = concat groups"
  shows "normalise_code typed = generate_code groups \<and> looks_like_code (generate_code groups)"
proof -
  have "chunks group_len (concat groups) = groups"
    using groups(2) by (intro chunks_concat) (auto simp: group_len_def)
  then have "normalise_code typed = generate_code groups" by (simp add: normalise_code_def typed generate_code_def)
  moreover have "looks_like_code (generate_code groups)"
  proof -
    obtain a b c where g: "groups = [a, b, c]"
      using groups(1) by (auto simp: code_groups_def numeral_eq_Suc length_Suc_conv)
    have k: "kept_chars (generate_code groups) = concat groups"
      unfolding generate_code_def using groups by (intro kept_chars_join) (auto simp: g group_len_def)
    have plain: "\<forall>d\<in>set (generate_code groups). \<not> is_space d"
    proof -
      have "\<not> is_space (CHR ''-'')" by code_simp
      then show ?thesis using groups(2) recovery_char by (fastforce simp: generate_code_def g)
    qed
    have "CHR ''-'' \<in> set (generate_code groups)" by (simp add: generate_code_def g)
    moreover have "\<not> isdigit_char (CHR ''-'')" by code_simp
    ultimately have "\<not> isdigit (strip (generate_code groups))"
      unfolding strip_none [OF plain] by (auto simp: isdigit_def list_all_iff)
    then show ?thesis using groups using k by (simp add: looks_like_code_def g code_groups_def)
  qed
  ultimately show ?thesis by blast
qed

theorem recovery_spelling_free_witness:
  "normalise_code '' ABCDE--fghjkMNPQ r'' = ''abcde-fghjk-mnpqr'' \<and> looks_like_code ''abcde-fghjk-mnpqr''"
proof -
  have "generate_code [''abcde'', ''fghjk'', ''mnpqr''] = ''abcde-fghjk-mnpqr''" by code_simp
  moreover have "normalise_code '' ABCDE--fghjkMNPQ r'' = generate_code [''abcde'', ''fghjk'', ''mnpqr''] \<and>
      looks_like_code (generate_code [''abcde'', ''fghjk'', ''mnpqr''])"
    by (rule recovery_spelling_free) code_simp+
  ultimately show ?thesis by simp
qed

text \<open>A code whose characters are all digits is taken for a recovery code with its dashes and for a
  time-based code without them, although both spellings normalise to it.\<close>

theorem digits_need_dashes:
  "normalise_code ''222223333344444'' = ''22222-33333-44444'' \<and> \<not> looks_like_code ''222223333344444'' \<and>
   normalise_code ''22222-33333-44444'' = ''22222-33333-44444'' \<and> looks_like_code ''22222-33333-44444''"
  by code_simp

end
