(* ===== verification/Auth.thy ===== *)
theory Auth
  imports Envelope SecondFactor Access
begin

text \<open>
  Password and second-factor authentication: the service of \<open>security/auth.py\<close>, the password check of
  \<open>security/passwords.py\<close> with Argon2 as an argument, and the table behind \<open>PgUserStore\<close>. Each store call is
  one autocommitted statement, so the service is a program of store calls, run alone or interleaved
  with others by a schedule. It is stated over an interface, the locale \<open>user_store\<close>, which the table
  implements. The lemmas show when a sign-in succeeds, what a failed one burns, that five failures
  lock, and that under any interleaving a time-based code or a recovery code is spent once.
\<close>

section \<open>Passwords\<close>

datatype argon_outcome = ArgonVerified | VerifyMismatchError | InvalidHashError | OtherVerificationError

type_synonym argon = "string \<Rightarrow> string \<Rightarrow> argon_outcome"

datatype auth_exception =
    VerificationError
  | EnvelopeException envelope_error
  | TotpException totp_error

definition verify_password :: "argon \<Rightarrow> string \<Rightarrow> string \<Rightarrow> auth_exception + bool" where
  "verify_password argon stored password =
     (case argon stored password of
        ArgonVerified \<Rightarrow> Inr True
      | VerifyMismatchError \<Rightarrow> Inr False
      | InvalidHashError \<Rightarrow> Inr False
      | OtherVerificationError \<Rightarrow> Inl VerificationError)"

section \<open>The service as a program of store calls\<close>

definition max_failed_logins :: int where
  "max_failed_logins = 5"

definition lockout_duration :: duration where
  "lockout_duration = minutes 15"

record auth_user =
  au_id :: uuid
  au_is_active :: bool
  au_password_hash :: "string option"
  au_totp_enrolled :: bool
  au_totp_last_counter :: "int option"
  au_failed_logins :: int
  au_locked_until :: "instant option"

datatype auth_outcome = AUTH_OK | INVALID_CREDENTIALS

datatype audit_reason =
    UnknownUser | BadPassword | Inactive | Locked | NotEnrolled | NoTotp | BadRecoveryCode
  | OkRecoveryCode | TotpSecretUnopenable | BadTotp | Replay | ReasonOk

record auth_result =
  ar_outcome :: auth_outcome
  ar_user :: "uuid option"
  ar_reason :: "audit_reason option"
  ar_recovery_hash :: "string option"

definition result_ok :: "auth_result \<Rightarrow> bool" where
  "result_ok r \<longleftrightarrow> ar_outcome r = AUTH_OK"

text \<open>What \<open>UserStore\<close> offers, and a program of its calls.\<close>

datatype 'a auth_prog =
    Return 'a
  | Raise auth_exception
  | GetForAuth string "auth_user option \<Rightarrow> 'a auth_prog"
  | GetTotpSecret uuid "envelope_error + string option \<Rightarrow> 'a auth_prog"
  | AdvanceTotpCounter uuid int "bool \<Rightarrow> 'a auth_prog"
  | RecordFailedLogin uuid int instant "'a auth_prog"
  | ClearFailedLogins uuid instant "'a auth_prog"
  | GetRecoveryHashes uuid "string list \<Rightarrow> 'a auth_prog"
  | ConsumeRecoveryHash uuid string "bool \<Rightarrow> 'a auth_prog"

fun match_hashes :: "argon \<Rightarrow> string \<Rightarrow> string option \<Rightarrow> string list \<Rightarrow> auth_exception + string option" where
  "match_hashes argon normalised matched [] = Inr matched"
| "match_hashes argon normalised matched (stored # hashes) =
     (case verify_password argon stored normalised of
        Inl e \<Rightarrow> Inl e
      | Inr verified \<Rightarrow>
          match_hashes argon normalised (if verified \<and> matched = None then Some stored else matched) hashes)"

definition match_recovery ::
    "argon \<Rightarrow> uuid \<Rightarrow> string \<Rightarrow> (string option \<Rightarrow> 'a auth_prog) \<Rightarrow> 'a auth_prog" where
  "match_recovery argon user submitted k =
     (let normalised = normalise_code submitted in
      if normalised = [] then k None
      else GetRecoveryHashes user (\<lambda>hashes.
        case match_hashes argon normalised None hashes of Inl e \<Rightarrow> Raise e | Inr matched \<Rightarrow> k matched))"

text \<open>\<open>int(now.timestamp())\<close>\<close>

definition unix_seconds :: "instant \<Rightarrow> int" where
  "unix_seconds now = (if now < 0 then - ((- now) div micros) else now div micros)"

definition succeed :: "auth_user \<Rightarrow> instant \<Rightarrow> audit_reason \<Rightarrow> string option \<Rightarrow> auth_result auth_prog" where
  "succeed user now reason recovery_hash =
     ClearFailedLogins (au_id user) now
       (Return \<lparr>ar_outcome = AUTH_OK, ar_user = Some (au_id user), ar_reason = Some reason,
          ar_recovery_hash = recovery_hash\<rparr>)"

definition is_locked :: "auth_user option \<Rightarrow> instant \<Rightarrow> bool" where
  "is_locked user now \<longleftrightarrow>
     (case user of None \<Rightarrow> False
      | Some u \<Rightarrow> (case au_locked_until u of None \<Rightarrow> False | Some until \<Rightarrow> now < until))"

definition is_active :: "auth_user option \<Rightarrow> bool" where
  "is_active user \<longleftrightarrow> (case user of None \<Rightarrow> False | Some u \<Rightarrow> au_is_active u)"

definition fail :: "auth_user option \<Rightarrow> instant \<Rightarrow> audit_reason \<Rightarrow> auth_result auth_prog" where
  "fail user now reason =
     (let refused = Return \<lparr>ar_outcome = INVALID_CREDENTIALS, ar_user = None, ar_reason = Some reason,
            ar_recovery_hash = None\<rparr>
      in case user of
          None \<Rightarrow> refused
        | Some u \<Rightarrow>
            if is_active user \<and> \<not> is_locked user now
            then RecordFailedLogin (au_id u) max_failed_logins (now + lockout_duration) refused
            else refused)"

text \<open>The second factor of an account whose password was right.\<close>

definition second_factor ::
    "argon \<Rightarrow> hmac_function \<Rightarrow> auth_user \<Rightarrow> string \<Rightarrow> bool \<Rightarrow> instant \<Rightarrow> auth_result auth_prog" where
  "second_factor argon mac u totp_code spend_recovery now =
     (if looks_like_code totp_code then
        match_recovery argon (au_id u) totp_code (\<lambda>matched.
          case matched of
            None \<Rightarrow> fail (Some u) now BadRecoveryCode
          | Some h \<Rightarrow>
              if \<not> spend_recovery then succeed u now OkRecoveryCode (Some h)
              else ConsumeRecoveryHash (au_id u) h (\<lambda>spent.
                if spent then succeed u now OkRecoveryCode None
                else fail (Some u) now BadRecoveryCode))
      else GetTotpSecret (au_id u) (\<lambda>secret.
        case secret of
          Inl e \<Rightarrow> if unopenable e then fail (Some u) now TotpSecretUnopenable else Raise (EnvelopeException e)
        | Inr None \<Rightarrow> fail (Some u) now BadTotp
        | Inr (Some secret) \<Rightarrow>
            (case totp_verify mac secret (Some totp_code) (unix_seconds now) (au_totp_last_counter u) of
               Inl e \<Rightarrow> Raise (TotpException e)
             | Inr None \<Rightarrow> fail (Some u) now BadTotp
             | Inr (Some counter) \<Rightarrow>
                 AdvanceTotpCounter (au_id u) counter (\<lambda>advanced.
                   if advanced then succeed u now ReasonOk None else fail (Some u) now Replay))))"

definition authenticate ::
    "argon \<Rightarrow> hmac_function \<Rightarrow> string \<Rightarrow> string \<Rightarrow> string \<Rightarrow> string option \<Rightarrow> bool \<Rightarrow> instant \<Rightarrow> auth_result auth_prog" where
  "authenticate argon mac dummy_hash email password totp_code spend_recovery now =
     GetForAuth email (\<lambda>user.
       let real_hash = (case user of None \<Rightarrow> None | Some u \<Rightarrow>
             (case au_password_hash u of None \<Rightarrow> None | Some h \<Rightarrow> if h = [] then None else Some h));
           stored_hash = (case real_hash of None \<Rightarrow> dummy_hash | Some h \<Rightarrow> h)
       in case verify_password argon stored_hash password of
            Inl e \<Rightarrow> Raise e
          | Inr verified \<Rightarrow>
              let password_ok = (verified \<and> real_hash \<noteq> None) in
              (case user of
                 None \<Rightarrow> fail user now UnknownUser
               | Some u \<Rightarrow>
                   if \<not> password_ok then fail user now BadPassword
                   else if \<not> is_active user then fail user now Inactive
                   else if is_locked user now then fail user now Locked
                   else if \<not> au_totp_enrolled u then fail user now NotEnrolled
                   else (case totp_code of
                       None \<Rightarrow> fail user now NoTotp
                     | Some code \<Rightarrow>
                         if code = [] then fail user now NoTotp
                         else second_factor argon mac u code spend_recovery now)))"

definition spend :: "auth_result \<Rightarrow> instant \<Rightarrow> bool auth_prog" where
  "spend result now =
     (case (result_ok result, ar_recovery_hash result, ar_user result) of
        (True, Some h, Some u) \<Rightarrow>
          ConsumeRecoveryHash u h (\<lambda>spent.
            if spent then Return True
            else RecordFailedLogin u max_failed_logins (now + lockout_duration) (Return False))
      | (okay, _, _) \<Rightarrow> Return okay)"

text \<open>One program after another.\<close>

primrec bind_prog :: "'a auth_prog \<Rightarrow> ('a \<Rightarrow> 'b auth_prog) \<Rightarrow> 'b auth_prog" where
  "bind_prog (Return v) f = f v"
| "bind_prog (Raise e) f = Raise e"
| "bind_prog (GetForAuth email k) f = GetForAuth email (\<lambda>x. bind_prog (k x) f)"
| "bind_prog (GetTotpSecret u k) f = GetTotpSecret u (\<lambda>x. bind_prog (k x) f)"
| "bind_prog (AdvanceTotpCounter u c k) f = AdvanceTotpCounter u c (\<lambda>x. bind_prog (k x) f)"
| "bind_prog (RecordFailedLogin u threshold until p) f = RecordFailedLogin u threshold until (bind_prog p f)"
| "bind_prog (ClearFailedLogins u at p) f = ClearFailedLogins u at (bind_prog p f)"
| "bind_prog (GetRecoveryHashes u k) f = GetRecoveryHashes u (\<lambda>x. bind_prog (k x) f)"
| "bind_prog (ConsumeRecoveryHash u h k) f = ConsumeRecoveryHash u h (\<lambda>x. bind_prog (k x) f)"

text \<open>
  The two calls of a sign-in: the check that leaves a recovery code unspent, then the spend. The
  answer is whether both went well, and the result of the check.
\<close>

record attempt =
  at_email :: string
  at_password :: string
  at_code :: "string option"
  at_now :: instant
  at_later :: instant

definition sign_in :: "argon \<Rightarrow> hmac_function \<Rightarrow> string \<Rightarrow> attempt \<Rightarrow> (bool \<times> auth_result) auth_prog" where
  "sign_in argon mac dummy_hash at =
     bind_prog (authenticate argon mac dummy_hash (at_email at) (at_password at) (at_code at) False (at_now at))
       (\<lambda>result.
         if \<not> result_ok result then Return (False, result)
         else bind_prog (spend result (at_later at)) (\<lambda>spent. Return (spent, result)))"

section \<open>Running programs\<close>

record 's user_store =
  us_get_for_auth :: "string \<Rightarrow> 's \<Rightarrow> auth_user option"
  us_get_totp_secret :: "uuid \<Rightarrow> 's \<Rightarrow> envelope_error + string option"
  us_advance_totp_counter :: "uuid \<Rightarrow> int \<Rightarrow> 's \<Rightarrow> bool \<times> 's"
  us_record_failed_login :: "uuid \<Rightarrow> int \<Rightarrow> instant \<Rightarrow> 's \<Rightarrow> 's"
  us_clear_failed_logins :: "uuid \<Rightarrow> instant \<Rightarrow> 's \<Rightarrow> 's"
  us_get_recovery_hashes :: "uuid \<Rightarrow> 's \<Rightarrow> string list"
  us_consume_recovery_hash :: "uuid \<Rightarrow> string \<Rightarrow> 's \<Rightarrow> bool \<times> 's"

text \<open>What a statement spent.\<close>

datatype spent = TotpCounter uuid int | RecoveryHash uuid string

fun step_prog :: "'s user_store \<Rightarrow> 'a auth_prog \<Rightarrow> 's \<Rightarrow> 'a auth_prog \<times> 's \<times> spent option" where
  "step_prog st (Return v) s = (Return v, s, None)"
| "step_prog st (Raise e) s = (Raise e, s, None)"
| "step_prog st (GetForAuth email k) s = (k (us_get_for_auth st email s), s, None)"
| "step_prog st (GetTotpSecret u k) s = (k (us_get_totp_secret st u s), s, None)"
| "step_prog st (AdvanceTotpCounter u c k) s =
     (case us_advance_totp_counter st u c s of
        (advanced, s') \<Rightarrow> (k advanced, s', if advanced then Some (TotpCounter u c) else None))"
| "step_prog st (RecordFailedLogin u threshold until p) s = (p, us_record_failed_login st u threshold until s, None)"
| "step_prog st (ClearFailedLogins u at p) s = (p, us_clear_failed_logins st u at s, None)"
| "step_prog st (GetRecoveryHashes u k) s = (k (us_get_recovery_hashes st u s), s, None)"
| "step_prog st (ConsumeRecoveryHash u h k) s =
     (case us_consume_recovery_hash st u h s of
        (spent, s') \<Rightarrow> (k spent, s', if spent then Some (RecoveryHash u h) else None))"

text \<open>Alone, to its end.\<close>

primrec exec :: "'s user_store \<Rightarrow> 'a auth_prog \<Rightarrow> 's \<Rightarrow> (auth_exception + 'a) \<times> 's" where
  "exec st (Return v) = (\<lambda>s. (Inr v, s))"
| "exec st (Raise e) = (\<lambda>s. (Inl e, s))"
| "exec st (GetForAuth email k) = (\<lambda>s. exec st (k (us_get_for_auth st email s)) s)"
| "exec st (GetTotpSecret u k) = (\<lambda>s. exec st (k (us_get_totp_secret st u s)) s)"
| "exec st (AdvanceTotpCounter u c k) =
     (\<lambda>s. case us_advance_totp_counter st u c s of (advanced, s') \<Rightarrow> exec st (k advanced) s')"
| "exec st (RecordFailedLogin u threshold until p) = (\<lambda>s. exec st p (us_record_failed_login st u threshold until s))"
| "exec st (ClearFailedLogins u at p) = (\<lambda>s. exec st p (us_clear_failed_logins st u at s))"
| "exec st (GetRecoveryHashes u k) = (\<lambda>s. exec st (k (us_get_recovery_hashes st u s)) s)"
| "exec st (ConsumeRecoveryHash u h k) =
     (\<lambda>s. case us_consume_recovery_hash st u h s of (spent, s') \<Rightarrow> exec st (k spent) s')"

text \<open>
  Several at once: a schedule says whose statement runs next, on which connection and at which time of
  the database; the log says who spent what.
\<close>

definition pool_step ::
    "('e \<Rightarrow> 's user_store) \<Rightarrow> nat \<times> 'e \<Rightarrow> 's \<times> 'a auth_prog list \<times> (nat \<times> spent) list \<Rightarrow>
     's \<times> 'a auth_prog list \<times> (nat \<times> spent) list" where
  "pool_step st turn w = (case (turn, w) of ((k, e), (s, progs, log)) \<Rightarrow>
     if length progs \<le> k then (s, progs, log)
     else (case step_prog (st e) (progs ! k) s of
         (p, s', what) \<Rightarrow> (s', progs[k := p], log @ (case what of None \<Rightarrow> [] | Some x \<Rightarrow> [(k, x)]))))"

definition run_pool ::
    "('e \<Rightarrow> 's user_store) \<Rightarrow> (nat \<times> 'e) list \<Rightarrow> 'a auth_prog list \<Rightarrow> 's \<Rightarrow>
     's \<times> 'a auth_prog list \<times> (nat \<times> spent) list" where
  "run_pool st schedule progs s = foldl (\<lambda>w turn. pool_step st turn w) (s, progs, []) schedule"

section \<open>The table\<close>

record user_row =
  ur_id :: uuid
  ur_email :: string
  ur_display_name :: string
  ur_password_hash :: "string option"
  ur_is_active :: bool
  ur_clearance :: tlp
  ur_compartments :: "string list"
  ur_totp_secret :: "byte list option"
  ur_totp_key_id :: "string option"
  ur_totp_enrolled_at :: "instant option"
  ur_totp_last_counter :: "int option"
  ur_recovery_codes :: "string list option"
  ur_failed_logins :: int
  ur_locked_until :: "instant option"
  ur_last_login_at :: "instant option"
  ur_must_change :: bool
  ur_password_changed_at :: "instant option"
  ur_created_at :: instant
  ur_deactivated_at :: "instant option"

definition public_part :: "user_row \<Rightarrow> auth_user" where
  "public_part r = \<lparr>au_id = ur_id r, au_is_active = ur_is_active r, au_password_hash = ur_password_hash r,
      au_totp_enrolled = (ur_totp_secret r \<noteq> None), au_totp_last_counter = ur_totp_last_counter r,
      au_failed_logins = ur_failed_logins r, au_locked_until = ur_locked_until r\<rparr>"

text \<open>The e-mail column compares without case (\<open>citext\<close>).\<close>

definition pg_get_for_auth :: "string \<Rightarrow> user_row list \<Rightarrow> auth_user option" where
  "pg_get_for_auth email rows = map_option public_part (find (\<lambda>r. lower (ur_email r) = lower email) rows)"

definition user_by_id :: "uuid \<Rightarrow> user_row list \<Rightarrow> user_row option" where
  "user_by_id u rows = find (\<lambda>r. ur_id r = u) rows"

definition update_users :: "(user_row \<Rightarrow> bool) \<Rightarrow> (user_row \<Rightarrow> user_row) \<Rightarrow> user_row list \<Rightarrow> user_row list" where
  "update_users p f rows = map (\<lambda>r. if p r then f r else r) rows"

definition pg_get_recovery_hashes :: "uuid \<Rightarrow> user_row list \<Rightarrow> string list" where
  "pg_get_recovery_hashes u rows =
     (case user_by_id u rows of None \<Rightarrow> [] | Some r \<Rightarrow> (case ur_recovery_codes r of None \<Rightarrow> [] | Some hs \<Rightarrow> hs))"

definition pg_consume_recovery_hash :: "uuid \<Rightarrow> string \<Rightarrow> user_row list \<Rightarrow> bool \<times> user_row list" where
  "pg_consume_recovery_hash u h rows =
     (let p = (\<lambda>r. ur_id r = u \<and> (case ur_recovery_codes r of None \<Rightarrow> False | Some hs \<Rightarrow> h \<in> set hs))
      in (list_ex p rows,
          update_users p (\<lambda>r. r\<lparr>ur_recovery_codes := map_option (removeAll h) (ur_recovery_codes r)\<rparr>) rows))"

definition count_recovery_codes :: "uuid \<Rightarrow> user_row list \<Rightarrow> nat" where
  "count_recovery_codes u rows = length (pg_get_recovery_hashes u rows)"

definition pg_get_totp_secret :: "aead \<Rightarrow> environment \<Rightarrow> uuid \<Rightarrow> user_row list \<Rightarrow> envelope_error + string option" where
  "pg_get_totp_secret a env u rows =
     (case user_by_id u rows of
        None \<Rightarrow> Inr None
      | Some r \<Rightarrow> (case ur_totp_secret r of
          None \<Rightarrow> Inr None
        | Some blob \<Rightarrow> map_sum id Some (decrypt a env blob (ur_totp_key_id r))))"

definition pg_advance_totp_counter :: "uuid \<Rightarrow> int \<Rightarrow> user_row list \<Rightarrow> bool \<times> user_row list" where
  "pg_advance_totp_counter u c rows =
     (let p = (\<lambda>r. ur_id r = u \<and> (case ur_totp_last_counter r of None \<Rightarrow> True | Some l \<Rightarrow> l < c))
      in (list_ex p rows, update_users p (\<lambda>r. r\<lparr>ur_totp_last_counter := Some c\<rparr>) rows))"

definition failed_row :: "instant \<Rightarrow> int \<Rightarrow> instant \<Rightarrow> user_row \<Rightarrow> user_row" where
  "failed_row db_now threshold lock_until r =
     (let elapsed = (case ur_locked_until r of None \<Rightarrow> False | Some t \<Rightarrow> t \<le> db_now) in
      r\<lparr>ur_failed_logins := (if elapsed then 1 else ur_failed_logins r + 1),
        ur_locked_until :=
          (if elapsed then None
           else if threshold \<le> ur_failed_logins r + 1
             then Some (max (case ur_locked_until r of None \<Rightarrow> lock_until | Some t \<Rightarrow> t) lock_until)
           else ur_locked_until r)\<rparr>)"

definition pg_record_failed_login :: "instant \<Rightarrow> uuid \<Rightarrow> int \<Rightarrow> instant \<Rightarrow> user_row list \<Rightarrow> user_row list" where
  "pg_record_failed_login db_now u threshold lock_until rows =
     update_users (\<lambda>r. ur_id r = u) (failed_row db_now threshold lock_until) rows"

definition pg_clear_failed_logins :: "uuid \<Rightarrow> instant \<Rightarrow> user_row list \<Rightarrow> user_row list" where
  "pg_clear_failed_logins u at rows =
     update_users (\<lambda>r. ur_id r = u) (\<lambda>r. r\<lparr>ur_failed_logins := 0, ur_locked_until := None\<rparr>) rows"

definition pg_record_sign_in :: "uuid \<Rightarrow> instant \<Rightarrow> user_row list \<Rightarrow> user_row list" where
  "pg_record_sign_in u at rows = update_users (\<lambda>r. ur_id r = u) (\<lambda>r. r\<lparr>ur_last_login_at := Some at\<rparr>) rows"

text \<open>A fresh set replaces the codes; \<open>hash\<close> is the hasher and \<open>drawn\<close> gives the groups of each code.\<close>

definition pg_issue_recovery_codes ::
    "(string \<Rightarrow> string) \<Rightarrow> (nat \<Rightarrow> string list) \<Rightarrow> uuid \<Rightarrow> nat option \<Rightarrow> user_row list \<Rightarrow> string list \<times> user_row list" where
  "pg_issue_recovery_codes hash drawn u count rows =
     (let n = (case count of None \<Rightarrow> code_count | Some k \<Rightarrow> if k = 0 then code_count else k);
          codes = map (\<lambda>i. generate_code (drawn i)) [0..<n]
      in (codes, update_users (\<lambda>r. ur_id r = u) (\<lambda>r. r\<lparr>ur_recovery_codes := Some (map hash codes)\<rparr>) rows))"

definition pg_enroll_totp ::
    "aead \<Rightarrow> environment \<Rightarrow> byte list \<Rightarrow> instant \<Rightarrow> uuid \<Rightarrow> string \<Rightarrow> user_row list \<Rightarrow> envelope_error + user_row list" where
  "pg_enroll_totp a env nonce db_now u secret rows =
     (case encrypt a env nonce secret of
        Inl e \<Rightarrow> Inl e
      | Inr (blob, key_id) \<Rightarrow> Inr (update_users (\<lambda>r. ur_id r = u)
          (\<lambda>r. r\<lparr>ur_totp_secret := Some blob, ur_totp_key_id := Some key_id, ur_totp_enrolled_at := Some db_now\<rparr>) rows))"

text \<open>A statement reads the ring of keys when it runs, and the clock of the database.\<close>

definition pg_user_store :: "aead \<Rightarrow> environment \<times> instant \<Rightarrow> user_row list user_store" where
  "pg_user_store a e =
     \<lparr>us_get_for_auth = pg_get_for_auth, us_get_totp_secret = pg_get_totp_secret a (fst e),
      us_advance_totp_counter = pg_advance_totp_counter,
      us_record_failed_login = pg_record_failed_login (snd e),
      us_clear_failed_logins = pg_clear_failed_logins, us_get_recovery_hashes = pg_get_recovery_hashes,
      us_consume_recovery_hash = pg_consume_recovery_hash\<rparr>"

section \<open>What a store promises the service\<close>

definition code_set :: "user_row \<Rightarrow> string set" where
  "code_set r = (case ur_recovery_codes r of None \<Rightarrow> {} | Some hs \<Rightarrow> set hs)"

locale user_store =
  fixes st :: "'e \<Rightarrow> 's user_store" and row :: "'s \<Rightarrow> uuid \<Rightarrow> user_row option" and ok :: "'s \<Rightarrow> bool" and clock :: "'e \<Rightarrow> instant"
  assumes get_law: "ok s \<Longrightarrow> us_get_for_auth (st e) email s = Some u \<Longrightarrow>
      \<exists>r. row s (au_id u) = Some r \<and> u = public_part r \<and> lower (ur_email r) = lower email"
    and get_complete: "ok s \<Longrightarrow> row s i = Some r \<Longrightarrow> us_get_for_auth (st e) (ur_email r) s = Some (public_part r) \<and> ur_id r = i"
    and recovery_law: "ok s \<Longrightarrow> set (us_get_recovery_hashes (st e) i s) = (case row s i of None \<Rightarrow> {} | Some r \<Rightarrow> code_set r)"
    and advance_law: "ok s \<Longrightarrow> us_advance_totp_counter (st e) i c s = (advanced, s') \<Longrightarrow>
      ok s' \<and> advanced = (\<exists>r. row s i = Some r \<and> (case ur_totp_last_counter r of None \<Rightarrow> True | Some l \<Rightarrow> l < c)) \<and>
      row s' = (if advanced then \<lambda>j. if j = i then map_option (\<lambda>r. r\<lparr>ur_totp_last_counter := Some c\<rparr>) (row s j) else row s j else row s)"
    and consume_law: "ok s \<Longrightarrow> us_consume_recovery_hash (st e) i h s = (spent, s') \<Longrightarrow>
      ok s' \<and> spent = (\<exists>r. row s i = Some r \<and> h \<in> code_set r) \<and>
      row s' = (if spent then \<lambda>j. if j = i then map_option (\<lambda>r. r\<lparr>ur_recovery_codes := map_option (removeAll h) (ur_recovery_codes r)\<rparr>) (row s j) else row s j else row s)"
    and failed_law: "ok s \<Longrightarrow> ok (us_record_failed_login (st e) i threshold until s) \<and>
      row (us_record_failed_login (st e) i threshold until s) =
        (\<lambda>j. if j = i then map_option (failed_row (clock e) threshold until) (row s j) else row s j)"
    and clear_law: "ok s \<Longrightarrow> ok (us_clear_failed_logins (st e) i at s) \<and>
      row (us_clear_failed_logins (st e) i at s) =
        (\<lambda>j. if j = i then map_option (\<lambda>r. r\<lparr>ur_failed_logins := 0, ur_locked_until := None\<rparr>) (row s j) else row s j)"
begin

definition counter_of :: "'s \<Rightarrow> uuid \<Rightarrow> int option" where
  "counter_of s i = (case row s i of None \<Rightarrow> None | Some r \<Rightarrow> ur_totp_last_counter r)"

definition codes_of :: "'s \<Rightarrow> uuid \<Rightarrow> string set" where
  "codes_of s i = (case row s i of None \<Rightarrow> {} | Some r \<Rightarrow> code_set r)"

text \<open>What was spent stays spent.\<close>

definition gone :: "'s \<Rightarrow> spent \<Rightarrow> bool" where
  "gone s x = (case x of TotpCounter i c \<Rightarrow> (\<exists>l. counter_of s i = Some l \<and> c \<le> l) | RecoveryHash i h \<Rightarrow> h \<notin> codes_of s i)"

lemma step_prog_spends:
  assumes s: "ok s" and p: "step_prog (st e) p s = (p', s', what)"
  shows "ok s' \<and> (\<forall>x. gone s x \<longrightarrow> gone s' x) \<and>
    (case what of None \<Rightarrow> True | Some x \<Rightarrow> \<not> gone s x \<and> gone s' x)"
proof (cases p)
  case (AdvanceTotpCounter i c k)
  obtain advanced where a: "us_advance_totp_counter (st e) i c s = (advanced, s')"
    "what = (if advanced then Some (TotpCounter i c) else None)"
    using p AdvanceTotpCounter by (auto split: prod.splits)
  show ?thesis
  proof (cases advanced)
    case True
    then obtain r where r: "row s i = Some r" "case ur_totp_last_counter r of None \<Rightarrow> True | Some l \<Rightarrow> l < c"
      using advance_law [OF s a(1)] by auto
    have row: "row s' = (\<lambda>j. if j = i then map_option (\<lambda>r. r\<lparr>ur_totp_last_counter := Some c\<rparr>) (row s j) else row s j)" "ok s'"
      using advance_law [OF s a(1)] True by auto
    have "gone s' x" if "gone s x" for x
      using that r row by (auto simp: gone_def counter_of_def codes_of_def code_set_def split: spent.splits if_splits option.splits)
    moreover have "\<not> gone s (TotpCounter i c)" "gone s' (TotpCounter i c)"
      using r row by (auto simp: gone_def counter_of_def split: option.splits)
    ultimately show ?thesis using True a(2) row(2) by simp
  next
    case False
    then have "row s' = row s" using conjunct2 [OF conjunct2 [OF advance_law [OF s a(1)]]] by (simp only: if_False)
    moreover have "ok s'" by (rule conjunct1 [OF advance_law [OF s a(1)]])
    ultimately show ?thesis using a(2) False by (auto simp: gone_def counter_of_def codes_of_def split: spent.splits)
  qed
next
  case (ConsumeRecoveryHash i h k)
  obtain spent where a: "us_consume_recovery_hash (st e) i h s = (spent, s')"
    "what = (if spent then Some (RecoveryHash i h) else None)"
    using p ConsumeRecoveryHash by (auto split: prod.splits)
  show ?thesis
  proof (cases spent)
    case True
    then obtain r where r: "row s i = Some r" "h \<in> code_set r" using consume_law [OF s a(1)] by auto
    have row: "row s' = (\<lambda>j. if j = i then map_option (\<lambda>r. r\<lparr>ur_recovery_codes := map_option (removeAll h) (ur_recovery_codes r)\<rparr>) (row s j) else row s j)" "ok s'"
      using consume_law [OF s a(1)] True by auto
    have "gone s' x" if "gone s x" for x
      using that r row by (auto simp: gone_def counter_of_def codes_of_def code_set_def split: spent.splits if_splits option.splits)
    moreover have "\<not> gone s (RecoveryHash i h)" "gone s' (RecoveryHash i h)"
      using r row by (auto simp: gone_def codes_of_def code_set_def split: option.splits)
    ultimately show ?thesis using True a(2) row(2) by simp
  next
    case False
    then have "row s' = row s" using conjunct2 [OF conjunct2 [OF consume_law [OF s a(1)]]] by (simp only: if_False)
    moreover have "ok s'" by (rule conjunct1 [OF consume_law [OF s a(1)]])
    ultimately show ?thesis using a(2) False by (auto simp: gone_def counter_of_def codes_of_def split: spent.splits)
  qed
next
  case (RecordFailedLogin i threshold until q)
  then have "s' = us_record_failed_login (st e) i threshold until s" "what = None" using p by auto
  then show ?thesis using failed_law [OF s, of e i threshold until]
    by (auto simp: gone_def counter_of_def codes_of_def code_set_def failed_row_def Let_def split: spent.splits option.splits if_splits)
next
  case (ClearFailedLogins i at q)
  then have "s' = us_clear_failed_logins (st e) i at s" "what = None" using p by auto
  then show ?thesis using clear_law [OF s, of e i at]
    by (auto simp: gone_def counter_of_def codes_of_def code_set_def split: spent.splits option.splits if_splits)
qed (use s p in auto)

lemma run_pool_spends:
  assumes "ok s" "run_pool st schedule progs s = (s', progs', log)"
  shows "ok s' \<and> distinct (map snd log) \<and> (\<forall>x \<in> snd ` set log. gone s' x)"
  using assms(2)
proof (induction schedule arbitrary: s' progs' log rule: rev_induct)
  case Nil
  then show ?case using assms(1) by (simp add: run_pool_def)
next
  case (snoc turn schedule)
  obtain s1 progs1 log1 where w: "run_pool st schedule progs s = (s1, progs1, log1)" by (cases "run_pool st schedule progs s")
  obtain k e where turn: "turn = (k, e)" by (cases turn)
  from snoc.IH [OF w] have ih: "ok s1" "distinct (map snd log1)" "\<forall>x \<in> snd ` set log1. gone s1 x" by auto
  have step: "pool_step st (k, e) (s1, progs1, log1) = (s', progs', log)"
    using snoc.prems w by (simp add: run_pool_def turn)
  show ?case
  proof (cases "length progs1 \<le> k")
    case True
    then show ?thesis using step ih by (simp add: pool_step_def)
  next
    case False
    obtain p' s2 what where p: "step_prog (st e) (progs1 ! k) s1 = (p', s2, what)" by (cases "step_prog (st e) (progs1 ! k) s1")
    from step_prog_spends [OF ih(1) p] step False p ih(2,3) show ?thesis
      by (auto simp: pool_step_def split: option.splits)
  qed
qed

end

section \<open>What a program has spent when it ends\<close>

primrec accounted :: "('a \<Rightarrow> spent list \<Rightarrow> bool) \<Rightarrow> 'a auth_prog \<Rightarrow> spent list \<Rightarrow> bool" where
  "accounted good (Return v) = (\<lambda>l. good v l)"
| "accounted good (Raise e) = (\<lambda>l. True)"
| "accounted good (GetForAuth email k) = (\<lambda>l. \<forall>x. accounted good (k x) l)"
| "accounted good (GetTotpSecret u k) = (\<lambda>l. \<forall>x. accounted good (k x) l)"
| "accounted good (AdvanceTotpCounter u c k) =
     (\<lambda>l. accounted good (k True) (l @ [TotpCounter u c]) \<and> accounted good (k False) l)"
| "accounted good (RecordFailedLogin u threshold until p) = accounted good p"
| "accounted good (ClearFailedLogins u at p) = accounted good p"
| "accounted good (GetRecoveryHashes u k) = (\<lambda>l. \<forall>x. accounted good (k x) l)"
| "accounted good (ConsumeRecoveryHash u h k) =
     (\<lambda>l. accounted good (k True) (l @ [RecoveryHash u h]) \<and> accounted good (k False) l)"

lemma accounted_step: "accounted good p l \<Longrightarrow> step_prog st p s = (p', s', what) \<Longrightarrow>
    accounted good p' (l @ (case what of None \<Rightarrow> [] | Some x \<Rightarrow> [x]))"
  by (cases p) (auto split: prod.splits if_splits)

lemma accounted_bind: "accounted good p l \<Longrightarrow> (\<And>v l. good v l \<Longrightarrow> accounted good' (f v) l) \<Longrightarrow>
    accounted good' (bind_prog p f) l"
  by (induction p arbitrary: l) auto

definition of_program :: "nat \<Rightarrow> (nat \<times> spent) list \<Rightarrow> spent list" where
  "of_program k log = map snd (filter (\<lambda>(j, x). j = k) log)"

lemma of_program_append [simp]: "of_program k (log @ log') = of_program k log @ of_program k log'"
  by (simp add: of_program_def)

lemma of_program_single [simp]: "of_program k [(j, x)] = (if j = k then [x] else [])"
  by (simp add: of_program_def)

lemma run_pool_accounted:
  assumes "\<forall>k < length progs. accounted good (progs ! k) []" "run_pool st schedule progs s = (s', progs', log)"
  shows "length progs' = length progs \<and> (\<forall>k < length progs. accounted good (progs' ! k) (of_program k log))"
  using assms(2)
proof (induction schedule arbitrary: s' progs' log rule: rev_induct)
  case Nil
  then show ?case using assms(1) by (simp add: run_pool_def of_program_def)
next
  case (snoc turn schedule)
  obtain s1 progs1 log1 where w: "run_pool st schedule progs s = (s1, progs1, log1)" by (cases "run_pool st schedule progs s")
  obtain k e where turn: "turn = (k, e)" by (cases turn)
  from snoc.IH [OF w] have ih: "length progs1 = length progs" "\<And>j. j < length progs \<Longrightarrow> accounted good (progs1 ! j) (of_program j log1)"
    by auto
  have step: "pool_step st (k, e) (s1, progs1, log1) = (s', progs', log)"
    using snoc.prems w by (simp add: run_pool_def turn)
  show ?case
  proof (cases "length progs1 \<le> k")
    case True
    then show ?thesis using step ih by (simp add: pool_step_def)
  next
    case False
    obtain p' s2 what where p: "step_prog (st e) (progs1 ! k) s1 = (p', s2, what)" by (cases "step_prog (st e) (progs1 ! k) s1")
    have "accounted good p' (of_program k log1 @ (case what of None \<Rightarrow> [] | Some x \<Rightarrow> [x]))"
      by (rule accounted_step [OF ih(2) p]) (use False ih(1) in simp)
    then show ?thesis using step False p ih
      by (auto simp: pool_step_def nth_list_update split: option.splits)
  qed
qed

fun owner :: "spent \<Rightarrow> uuid" where
  "owner (TotpCounter u c) = u"
| "owner (RecoveryHash u h) = u"

definition checked :: "auth_result \<Rightarrow> spent list \<Rightarrow> bool" where
  "checked r l \<longleftrightarrow> (result_ok r \<longrightarrow> (\<exists>u. ar_user r = Some u \<and>
     (case ar_recovery_hash r of None \<Rightarrow> \<exists>c. l = [TotpCounter u c] | Some h \<Rightarrow> l = [])))"

definition signed_in :: "bool \<times> auth_result \<Rightarrow> spent list \<Rightarrow> bool" where
  "signed_in res l = (if fst res then \<exists>x. l = [x] \<and> ar_user (snd res) = Some (owner x) else True)"

lemma fail_accounted: "accounted checked (fail u now reason) l"
  by (auto simp: fail_def checked_def result_ok_def Let_def split: option.split)

lemma second_factor_accounted: "accounted checked (second_factor argon mac u code False now) []"
  by (auto simp: second_factor_def match_recovery_def Let_def fail_accounted succeed_def checked_def
      split: option.split sum.split)

lemma authenticate_accounted: "accounted checked (authenticate argon mac dummy email password code False now) []"
  by (auto simp: authenticate_def Let_def fail_accounted second_factor_accounted split: option.split sum.split)

lemma sign_in_accounted: "accounted signed_in (sign_in argon mac dummy at) []"
  unfolding sign_in_def
proof (rule accounted_bind [OF authenticate_accounted])
  fix r l
  assume c: "checked r l"
  show "accounted signed_in (if \<not> result_ok r then Return (False, r)
      else bind_prog (spend r (at_later at)) (\<lambda>spent. Return (spent, r))) l"
  proof (cases "result_ok r")
    case True
    then obtain u where u: "ar_user r = Some u" "case ar_recovery_hash r of None \<Rightarrow> \<exists>c. l = [TotpCounter u c] | Some h \<Rightarrow> l = []"
      using c by (auto simp: checked_def)
    then show ?thesis using True
      by (cases "ar_recovery_hash r") (auto simp: spend_def signed_in_def)
  qed (simp add: signed_in_def)
qed

section \<open>The table keeps the promise\<close>

definition users_ok :: "user_row list \<Rightarrow> bool" where
  "users_ok rows \<longleftrightarrow> distinct (map ur_id rows) \<and> distinct (map (\<lambda>r. lower (ur_email r)) rows)"

definition user_at :: "user_row list \<Rightarrow> uuid \<Rightarrow> user_row option" where
  "user_at rows i = user_by_id i rows"

lemma user_at_Some: "users_ok rows \<Longrightarrow> user_at rows i = Some r \<longleftrightarrow> r \<in> set rows \<and> ur_id r = i"
  by (induction rows) (auto simp: user_at_def user_by_id_def users_ok_def)

lemma user_at_update:
  assumes "\<And>r. ur_id (f r) = ur_id r"
  shows "user_at (update_users p f rows) i = map_option (\<lambda>r. if p r then f r else r) (user_at rows i)"
  using assms by (induction rows) (auto simp: user_at_def user_by_id_def update_users_def)

lemma users_ok_update:
  assumes "\<And>r. ur_id (f r) = ur_id r" "\<And>r. ur_email (f r) = ur_email r"
  shows "users_ok (update_users p f rows) = users_ok rows"
proof -
  have "map ur_id (update_users p f rows) = map ur_id rows"
    "map (\<lambda>r. lower (ur_email r)) (update_users p f rows) = map (\<lambda>r. lower (ur_email r)) rows"
    by (simp_all add: update_users_def assms)
  then show ?thesis by (simp add: users_ok_def)
qed

lemma user_email_Some: "users_ok rows \<Longrightarrow>
    find (\<lambda>r. lower (ur_email r) = e) rows = Some r \<longleftrightarrow> r \<in> set rows \<and> lower (ur_email r) = e"
  by (induction rows) (auto simp: users_ok_def)

lemma list_ex_user: "users_ok rows \<Longrightarrow> list_ex (\<lambda>r. ur_id r = i \<and> p r) rows \<longleftrightarrow> (\<exists>r. user_at rows i = Some r \<and> p r)"
  by (auto simp: list_ex_iff user_at_Some)

text \<open>An update of one user's row, and one guarded by the row.\<close>

lemma user_update_one:
  assumes "\<And>r. ur_id (f r) = ur_id r"
  shows "user_at (update_users (\<lambda>r. ur_id r = i) f rows) = (\<lambda>j. if j = i then map_option f (user_at rows j) else user_at rows j)"
proof
  fix j
  have "ur_id r = j" if "user_at rows j = Some r" for r
    using that by (auto simp: user_at_def user_by_id_def find_Some_iff)
  then show "user_at (update_users (\<lambda>r. ur_id r = i) f rows) j = (if j = i then map_option f (user_at rows j) else user_at rows j)"
    by (cases "user_at rows j") (auto simp: user_at_update assms)
qed

lemma user_update_guarded:
  assumes "users_ok rows" "\<And>r. ur_id (f r) = ur_id r"
  shows "user_at (update_users (\<lambda>r. ur_id r = i \<and> p r) f rows) =
    (if \<exists>r. user_at rows i = Some r \<and> p r
     then \<lambda>j. if j = i then map_option f (user_at rows j) else user_at rows j else user_at rows)"
proof
  fix j
  have "ur_id r = j" if "user_at rows j = Some r" for r
    using that by (auto simp: user_at_def user_by_id_def find_Some_iff)
  then show "user_at (update_users (\<lambda>r. ur_id r = i \<and> p r) f rows) j = (if \<exists>r. user_at rows i = Some r \<and> p r
     then \<lambda>j. if j = i then map_option f (user_at rows j) else user_at rows j else user_at rows) j"
    by (cases "user_at rows j") (auto simp: user_at_update assms(2))
qed

interpretation pg_users: user_store "pg_user_store a" user_at users_ok snd
proof (unfold_locales, goal_cases)
  case (1 s e email u)
  then obtain r where "find (\<lambda>r. lower (ur_email r) = lower email) s = Some r" "u = public_part r"
    by (auto simp: pg_user_store_def pg_get_for_auth_def)
  with 1(1) show ?case by (auto simp: user_email_Some user_at_Some public_part_def)
next
  case (2 s i r e)
  then have "find (\<lambda>q. lower (ur_email q) = lower (ur_email r)) s = Some r"
    by (simp add: user_email_Some user_at_Some)
  with 2 show ?case by (simp add: pg_user_store_def pg_get_for_auth_def user_at_Some)
next
  case (3 s e i)
  then show ?case
    by (auto simp: pg_user_store_def pg_get_recovery_hashes_def user_at_def code_set_def split: option.split)
next
  case (4 s e i c advanced s')
  then have "s' = update_users (\<lambda>r. ur_id r = i \<and> (case ur_totp_last_counter r of None \<Rightarrow> True | Some l \<Rightarrow> l < c))
      (\<lambda>r. r\<lparr>ur_totp_last_counter := Some c\<rparr>) s"
    "advanced = list_ex (\<lambda>r. ur_id r = i \<and> (case ur_totp_last_counter r of None \<Rightarrow> True | Some l \<Rightarrow> l < c)) s"
    by (auto simp: pg_user_store_def pg_advance_totp_counter_def Let_def)
  then show ?case using 4(1)
    by (simp add: list_ex_user user_update_guarded users_ok_update)
next
  case (5 s e i h spent s')
  then have "s' = update_users (\<lambda>r. ur_id r = i \<and> (case ur_recovery_codes r of None \<Rightarrow> False | Some hs \<Rightarrow> h \<in> set hs))
      (\<lambda>r. r\<lparr>ur_recovery_codes := map_option (removeAll h) (ur_recovery_codes r)\<rparr>) s"
    "spent = list_ex (\<lambda>r. ur_id r = i \<and> (case ur_recovery_codes r of None \<Rightarrow> False | Some hs \<Rightarrow> h \<in> set hs)) s"
    by (auto simp: pg_user_store_def pg_consume_recovery_hash_def Let_def)
  moreover have "(case ur_recovery_codes r of None \<Rightarrow> False | Some hs \<Rightarrow> h \<in> set hs) \<longleftrightarrow> h \<in> code_set r" for r
    by (simp add: code_set_def split: option.split)
  ultimately show ?case using 5(1)
    by (simp add: list_ex_user user_update_guarded users_ok_update)
next
  case (6 s e i threshold until)
  then show ?case
    by (simp add: pg_user_store_def pg_record_failed_login_def user_update_one users_ok_update failed_row_def Let_def)
next
  case (7 s e i at)
  then show ?case
    by (simp add: pg_user_store_def pg_clear_failed_logins_def user_update_one users_ok_update)
qed

section \<open>An attempt on its own\<close>

definition refused :: "audit_reason \<Rightarrow> auth_result" where
  "refused reason = \<lparr>ar_outcome = INVALID_CREDENTIALS, ar_user = None, ar_reason = Some reason, ar_recovery_hash = None\<rparr>"

lemma refused_not_ok [simp]: "\<not> result_ok (refused reason)"
  by (simp add: refused_def result_ok_def)

text \<open>The table after a refused attempt on an account.\<close>

definition burnt :: "instant \<Rightarrow> instant \<Rightarrow> user_row option \<Rightarrow> user_row list \<Rightarrow> user_row list" where
  "burnt db_now now r rows =
     (case r of None \<Rightarrow> rows
      | Some r \<Rightarrow>
          if ur_is_active r \<and> (case ur_locked_until r of None \<Rightarrow> True | Some t \<Rightarrow> t \<le> now)
          then pg_record_failed_login db_now (ur_id r) max_failed_logins (now + lockout_duration) rows
          else rows)"

lemma exec_fail: "exec (pg_user_store a e) (fail (map_option public_part r) now reason) rows =
    (Inr (refused reason), burnt (snd e) now r rows)"
  by (auto simp: fail_def burnt_def is_active_def is_locked_def public_part_def refused_def pg_user_store_def Let_def
      split: option.split)

text \<open>What the second factor asks of an account.\<close>

definition factor_holds :: "argon \<Rightarrow> hmac_function \<Rightarrow> aead \<Rightarrow> environment \<Rightarrow> instant \<Rightarrow> user_row \<Rightarrow> string \<Rightarrow> bool" where
  "factor_holds argon mac a env now r code =
     (if looks_like_code code
      then \<exists>h \<in> code_set r. argon h (normalise_code code) = ArgonVerified
      else \<exists>blob secret counter. ur_totp_secret r = Some blob \<and> decrypt a env blob (ur_totp_key_id r) = Inr secret \<and>
        totp_verify mac secret (Some code) (unix_seconds now) (ur_totp_last_counter r) = Inr (Some counter))"

lemma match_hashes_Some: "match_hashes argon n m hs = Inr (Some h) \<Longrightarrow>
    m = Some h \<or> h \<in> set hs \<and> argon h n = ArgonVerified"
  by (induction hs arbitrary: m) (auto simp: verify_password_def split: sum.splits argon_outcome.splits if_splits)

definition outcome ::
    "argon \<Rightarrow> hmac_function \<Rightarrow> aead \<Rightarrow> environment \<Rightarrow> instant \<Rightarrow> instant \<Rightarrow> user_row option \<Rightarrow> user_row list \<Rightarrow>
     (user_row \<Rightarrow> bool) \<Rightarrow> (auth_exception + auth_result) \<times> user_row list \<Rightarrow> bool" where
  "outcome argon mac a env db_now now r rows holds res =
     (case res of
        (Inl e, rows') \<Rightarrow> rows' = rows
      | (Inr v, rows') \<Rightarrow>
          if result_ok v then \<exists>u. r = Some u \<and> ar_user v = Some (ur_id u) \<and> holds u
          else ar_user v = None \<and> rows' = burnt db_now now r rows)"

lemma outcome_fail: "outcome argon mac a (fst e) (snd e) now r rows holds
    (exec (pg_user_store a e) (fail (map_option public_part r) now reason) rows)"
  by (simp add: exec_fail outcome_def) (simp add: refused_def)

lemma outcome_fail_Some: "outcome argon mac a (fst e) (snd e) now (Some r) rows holds
    (exec (pg_user_store a e) (fail (Some (public_part r)) now reason) rows)"
  using outcome_fail [of argon mac a e now "Some r"] by simp

lemma outcome_succeed: "holds r \<Longrightarrow> outcome argon mac a env db_now now (Some r) rows holds
    (exec (pg_user_store a e) (succeed (public_part r) now reason h) rows')"
  by (simp add: succeed_def outcome_def result_ok_def public_part_def)

lemma update_users_none: "\<not> list_ex p rows \<Longrightarrow> update_users p f rows = rows"
  by (auto simp: update_users_def list_ex_iff intro!: map_idI)

lemma outcome_recovery:
  assumes ok: "users_ok rows" and r: "user_at rows (ur_id r) = Some r" and shape: "looks_like_code code"
  shows "outcome argon mac a (fst e) (snd e) now (Some r) rows (\<lambda>r. factor_holds argon mac a (fst e) now r code)
    (exec (pg_user_store a e) (second_factor argon mac (public_part r) code spend_recovery now) rows)"
proof -
  have i: "au_id (public_part r) = ur_id r" by (simp add: public_part_def)
  note fail = outcome_fail_Some [of argon mac a e now r rows]
  note unfold = second_factor_def match_recovery_def Let_def i shape
  let ?hs = "pg_get_recovery_hashes (ur_id r) rows"
  have hs: "us_get_recovery_hashes (pg_user_store a e) (ur_id r) rows = ?hs" "set ?hs = code_set r"
    using r by (auto simp: pg_user_store_def pg_get_recovery_hashes_def user_at_def code_set_def split: option.split)
  show ?thesis
  proof (cases "normalise_code code = []")
    case True
    then show ?thesis using fail by (simp add: unfold)
  next
    case norm: False
    show ?thesis
    proof (cases "match_hashes argon (normalise_code code) None ?hs")
      case (Inl x)
      then show ?thesis using norm by (simp add: unfold hs(1)) (simp add: outcome_def)
    next
      case (Inr m)
      show ?thesis
      proof (cases m)
        case None
        then show ?thesis using norm Inr fail by (simp add: unfold hs(1))
      next
        case (Some h)
        from match_hashes_Some [OF Inr [unfolded Some]] hs(2)
        have h: "h \<in> code_set r" "argon h (normalise_code code) = ArgonVerified" by auto
        then have holds: "factor_holds argon mac a (fst e) now r code" using shape by (auto simp: factor_holds_def)
        obtain b rows1 where c: "us_consume_recovery_hash (pg_user_store a e) (ur_id r) h rows = (b, rows1)" by fastforce
        have b: b using pg_users.consume_law [OF ok c] r h(1) by simp
        have "exec (pg_user_store a e) (second_factor argon mac (public_part r) code spend_recovery now) rows =
            exec (pg_user_store a e) (succeed (public_part r) now OkRecoveryCode (if spend_recovery then None else Some h))
              (if spend_recovery then rows1 else rows)"
          using norm Inr Some c b by (simp add: unfold hs(1))
        then show ?thesis using outcome_succeed [where r = r and holds = "\<lambda>r. factor_holds argon mac a (fst e) now r code", OF holds] by simp
      qed
    qed
  qed
qed

lemma outcome_totp:
  assumes r: "user_at rows (ur_id r) = Some r" and shape: "\<not> looks_like_code code"
  shows "outcome argon mac a (fst e) (snd e) now (Some r) rows (\<lambda>r. factor_holds argon mac a (fst e) now r code)
    (exec (pg_user_store a e) (second_factor argon mac (public_part r) code spend_recovery now) rows)"
proof -
  have i: "au_id (public_part r) = ur_id r" "au_totp_last_counter (public_part r) = ur_totp_last_counter r"
    by (simp_all add: public_part_def)
  note fail = outcome_fail_Some [of argon mac a e now r rows]
  have sec: "us_get_totp_secret (pg_user_store a e) (ur_id r) rows =
      (case ur_totp_secret r of None \<Rightarrow> Inr None | Some blob \<Rightarrow> map_sum id Some (decrypt a (fst e) blob (ur_totp_key_id r)))"
    using r by (simp add: pg_user_store_def pg_get_totp_secret_def user_at_def)
  note unfold = second_factor_def i sec shape
  show ?thesis
  proof (cases "ur_totp_secret r")
    case None
    then show ?thesis using fail by (simp add: unfold)
  next
    case blob: (Some blob)
    show ?thesis
    proof (cases "decrypt a (fst e) blob (ur_totp_key_id r)")
      case (Inl x)
      then show ?thesis using fail blob by (simp add: unfold) (simp add: outcome_def)
    next
      case secret: (Inr secret)
      show ?thesis
      proof (cases "totp_verify mac secret (Some code) (unix_seconds now) (ur_totp_last_counter r)")
        case (Inl x)
        then show ?thesis using blob secret by (simp add: unfold) (simp add: outcome_def)
      next
        case v: (Inr c)
        show ?thesis
        proof (cases c)
          case None
          then show ?thesis using blob secret v fail by (simp add: unfold)
        next
          case [simp]: (Some counter)
          have holds: "factor_holds argon mac a (fst e) now r code" using shape blob secret v by (simp add: factor_holds_def)
          obtain b rows1 where adv: "pg_advance_totp_counter (ur_id r) counter rows = (b, rows1)" by fastforce
          have "\<not> b \<Longrightarrow> rows1 = rows"
            using adv by (auto simp: pg_advance_totp_counter_def Let_def update_users_none)
          moreover have "exec (pg_user_store a e) (second_factor argon mac (public_part r) code spend_recovery now) rows =
              exec (pg_user_store a e) (if b then succeed (public_part r) now ReasonOk None
                else fail (Some (public_part r)) now Replay) rows1"
            using blob secret v adv by (simp add: unfold) (simp add: pg_user_store_def i)
          ultimately show ?thesis
            using fail outcome_succeed [where r = r and holds = "\<lambda>r. factor_holds argon mac a (fst e) now r code", OF holds]
            by (cases b) simp_all
        qed
      qed
    qed
  qed
qed

text \<open>What an accepted attempt has proved of the account.\<close>

definition proved :: "argon \<Rightarrow> hmac_function \<Rightarrow> aead \<Rightarrow> environment \<Rightarrow> string \<Rightarrow> string \<Rightarrow> string option \<Rightarrow> instant \<Rightarrow> user_row \<Rightarrow> bool" where
  "proved argon mac a env email password totp_code now r \<longleftrightarrow>
     lower (ur_email r) = lower email \<and> ur_is_active r \<and>
     (\<exists>h. ur_password_hash r = Some h \<and> argon h password = ArgonVerified) \<and>
     (case ur_locked_until r of None \<Rightarrow> True | Some t \<Rightarrow> t \<le> now) \<and> ur_totp_secret r \<noteq> None \<and>
     (\<exists>code. totp_code = Some code \<and> factor_holds argon mac a env now r code)"

lemma outcome_mono: "outcome argon mac a env db_now now r rows p res \<Longrightarrow> (\<And>u. r = Some u \<Longrightarrow> p u \<Longrightarrow> q u) \<Longrightarrow>
    outcome argon mac a env db_now now r rows q res"
  by (auto simp: outcome_def split: sum.splits prod.splits if_splits)

lemma outcome_authenticate:
  assumes ok: "users_ok rows"
  shows "outcome argon mac a (fst e) (snd e) now (find (\<lambda>r. lower (ur_email r) = lower email) rows) rows
    (proved argon mac a (fst e) email password totp_code now)
    (exec (pg_user_store a e) (authenticate argon mac dummy email password totp_code spend_recovery now) rows)"
proof -
  define r where "r = find (\<lambda>r. lower (ur_email r) = lower email) rows"
  have g: "us_get_for_auth (pg_user_store a e) email rows = map_option public_part r"
    by (simp add: pg_user_store_def pg_get_for_auth_def r_def)
  note fail = outcome_fail [of argon mac a e now r rows]
  note unfold = authenticate_def g Let_def
  show ?thesis unfolding r_def [symmetric]
  proof (cases r)
    case None
    then show "outcome argon mac a (fst e) (snd e) now r rows (proved argon mac a (fst e) email password totp_code now)
        (exec (pg_user_store a e) (authenticate argon mac dummy email password totp_code spend_recovery now) rows)"
      using fail by (cases "verify_password argon dummy password") (simp_all add: unfold, simp add: outcome_def)
  next
    case (Some u)
    then have u: "user_at rows (ur_id u) = Some u" "lower (ur_email u) = lower email"
      using ok by (auto simp: r_def user_email_Some user_at_Some)
    let ?h = "case ur_password_hash u of None \<Rightarrow> dummy | Some h \<Rightarrow> if h = [] then dummy else h"
    let ?real = "\<exists>h. ur_password_hash u = Some h \<and> h \<noteq> []"
    let ?st = "pg_user_store a e"
    let ?second = "\<lambda>code. second_factor argon mac (public_part u) code spend_recovery now"
    have prog: "exec ?st (authenticate argon mac dummy email password totp_code spend_recovery now) rows =
      (case verify_password argon ?h password of
         Inl x \<Rightarrow> (Inl x, rows)
       | Inr verified \<Rightarrow>
           if \<not> (verified \<and> ?real) then exec ?st (fail (Some (public_part u)) now BadPassword) rows
           else if \<not> ur_is_active u then exec ?st (fail (Some (public_part u)) now Inactive) rows
           else if (case ur_locked_until u of None \<Rightarrow> False | Some t \<Rightarrow> now < t) then exec ?st (fail (Some (public_part u)) now Locked) rows
           else if ur_totp_secret u = None then exec ?st (fail (Some (public_part u)) now NotEnrolled) rows
           else (case totp_code of None \<Rightarrow> exec ?st (fail (Some (public_part u)) now NoTotp) rows
             | Some code \<Rightarrow> if code = [] then exec ?st (fail (Some (public_part u)) now NoTotp) rows
                 else exec ?st (?second code) rows))"
      by (auto simp: unfold Some is_active_def is_locked_def public_part_def split: option.splits sum.splits)
    have second: "outcome argon mac a (fst e) (snd e) now (Some u) rows (\<lambda>r. factor_holds argon mac a (fst e) now r code)
        (exec ?st (?second code) rows)" for code
      using outcome_recovery [OF ok u(1)] outcome_totp [OF u(1)] by (cases "looks_like_code code") auto
    show "outcome argon mac a (fst e) (snd e) now r rows (proved argon mac a (fst e) email password totp_code now)
        (exec ?st (authenticate argon mac dummy email password totp_code spend_recovery now) rows)"
    proof (cases "\<exists>code. totp_code = Some code \<and> code \<noteq> [] \<and> verify_password argon ?h password = Inr True \<and> ?real \<and>
        ur_is_active u \<and> \<not> (case ur_locked_until u of None \<Rightarrow> False | Some t \<Rightarrow> now < t) \<and> ur_totp_secret u \<noteq> None")
      case True
      then obtain code where c: "totp_code = Some code" "code \<noteq> []" "verify_password argon ?h password = Inr True" ?real
        "ur_is_active u" "\<not> (case ur_locked_until u of None \<Rightarrow> False | Some t \<Rightarrow> now < t)" "ur_totp_secret u \<noteq> None" by blast
      then have "exec ?st (authenticate argon mac dummy email password totp_code spend_recovery now) rows = exec ?st (?second code) rows"
        unfolding prog by auto
      moreover have "argon (the (ur_password_hash u)) password = ArgonVerified"
        using c(3,4) by (auto simp: verify_password_def split: argon_outcome.splits)
      then have "proved argon mac a (fst e) email password totp_code now u" if "factor_holds argon mac a (fst e) now u code"
        using c that u(2) by (auto simp: proved_def split: option.splits)
      ultimately show ?thesis using second [of code] Some by (auto intro: outcome_mono)
    next
      case False
      then have "(\<exists>x. exec ?st (authenticate argon mac dummy email password totp_code spend_recovery now) rows = (Inl x, rows)) \<or>
          (\<exists>reason. exec ?st (authenticate argon mac dummy email password totp_code spend_recovery now) rows =
             exec ?st (fail (Some (public_part u)) now reason) rows)"
        unfolding prog by (auto split: sum.split option.split)
      then show ?thesis
      proof (elim disjE exE)
        fix x assume e: "exec ?st (authenticate argon mac dummy email password totp_code spend_recovery now) rows = (Inl x, rows)"
        show ?thesis unfolding e by (simp add: outcome_def)
      next
        fix reason assume e: "exec ?st (authenticate argon mac dummy email password totp_code spend_recovery now) rows =
             exec ?st (fail (Some (public_part u)) now reason) rows"
        show ?thesis unfolding e using fail Some by simp
      qed
    qed
  qed
qed

section \<open>Properties of the authentication\<close>

text \<open>C33: Sign-ins may run in any interleaving of their statements, on any number of connections: no
  time-based counter and no recovery code is spent twice, and every sign-in that ends well spent
  exactly one of them, of its own account.\<close>

theorem sign_ins_spend_once:
  assumes "users_ok rows"
    and "run_pool (pg_user_store a) schedule (map (sign_in argon mac dummy) attempts) rows = (rows', progs, log)"
  shows "distinct (map snd log) \<and> length progs = length attempts \<and>
    (\<forall>k < length attempts. case progs ! k of
       Return v \<Rightarrow> if fst v then \<exists>x. of_program k log = [x] \<and> ar_user (snd v) = Some (owner x) else True
     | _ \<Rightarrow> True)"
proof -
  have "distinct (map snd log)" using pg_users.run_pool_spends [OF assms] by blast
  moreover have "length progs = length attempts \<and> (\<forall>k < length attempts. accounted signed_in (progs ! k) (of_program k log))"
    using run_pool_accounted [of "map (sign_in argon mac dummy) attempts" signed_in, OF _ assms(2)] sign_in_accounted by simp
  moreover have "case p of Return v \<Rightarrow> if fst v then \<exists>x. of_program k log = [x] \<and> ar_user (snd v) = Some (owner x) else True | _ \<Rightarrow> True"
    if "accounted signed_in p (of_program k log)" for p k
    using that by (cases p) (auto simp: signed_in_def)
  ultimately show ?thesis by blast
qed

text \<open>C34: An attempt on its own: it is accepted only for the account of its address, with the account's
  password and second factor, active, unlocked and enrolled; refused, it changes nothing but the
  failure count and lock of an active account that is not locked, and that it always does, a right
  password without a code included. An exception leaves the table as it was.\<close>

theorem authenticate_alone:
  assumes "users_ok rows"
  shows "case exec (pg_user_store a (env, db_now)) (authenticate argon mac dummy email password code spend_recovery now) rows of
     (Inl e, rows') \<Rightarrow> rows' = rows
   | (Inr v, rows') \<Rightarrow>
       if result_ok v then \<exists>u. u \<in> set rows \<and> ar_user v = Some (ur_id u) \<and> proved argon mac a env email password code now u
       else ar_user v = None \<and> rows' = burnt db_now now (find (\<lambda>r. lower (ur_email r) = lower email) rows) rows"
  using outcome_authenticate [OF assms, of argon mac a "(env, db_now)" now email password code dummy spend_recovery]
  by (auto simp: outcome_def user_email_Some [OF assms] split: sum.splits prod.splits if_splits)

text \<open>Attempts one after the other, all refused: the ring, the database's clock, the password, the code, the time.\<close>

type_synonym solo_try = "environment \<times> instant \<times> string \<times> string option \<times> instant"

fun refused_run ::
    "argon \<Rightarrow> hmac_function \<Rightarrow> aead \<Rightarrow> string \<Rightarrow> string \<Rightarrow> solo_try list \<Rightarrow> user_row list \<Rightarrow> user_row list option" where
  "refused_run argon mac a dummy email [] rows = Some rows"
| "refused_run argon mac a dummy email ((env, db_now, password, code, now) # tries) rows =
     (case exec (pg_user_store a (env, db_now)) (authenticate argon mac dummy email password code False now) rows of
        (Inl e, rows') \<Rightarrow> None
      | (Inr v, rows') \<Rightarrow> if result_ok v then None else refused_run argon mac a dummy email tries rows')"

lemma refused_step:
  assumes ok: "users_ok rows" and r: "user_at rows i = Some r" "ur_is_active r" "ur_locked_until r = None" "lower (ur_email r) = lower email"
    and ex: "exec (pg_user_store a (env, db_now)) (authenticate argon mac dummy email password code spend_recovery now) rows = (Inr v, rows')"
      "\<not> result_ok v"
  shows "users_ok rows' \<and> user_at rows' i = Some (r\<lparr>ur_failed_logins := ur_failed_logins r + 1,
    ur_locked_until := if 5 \<le> ur_failed_logins r + 1 then Some (now + minutes 15) else None\<rparr>)"
proof -
  have i: "ur_id r = i" "find (\<lambda>r. lower (ur_email r) = lower email) rows = Some r"
    using ok r by (simp_all add: user_at_Some user_email_Some)
  have rows': "rows' = us_record_failed_login (pg_user_store a (env, db_now)) i max_failed_logins (now + lockout_duration) rows"
    using outcome_authenticate [OF ok, of argon mac a "(env, db_now)" now email password code dummy spend_recovery] ex r i
    by (simp add: outcome_def burnt_def pg_user_store_def)
  show ?thesis
    using pg_users.failed_law [OF ok, of a "(env, db_now)" i max_failed_logins "now + lockout_duration"] r
    by (simp add: rows' failed_row_def Let_def max_failed_logins_def lockout_duration_def)
qed

lemma refused_run_locks:
  assumes "users_ok rows" "user_at rows i = Some r" "ur_is_active r" "ur_locked_until r = None" "lower (ur_email r) = lower email"
    and "refused_run argon mac a dummy email tries rows = Some rows'" "tries \<noteq> []" "ur_failed_logins r + int (length tries) = 5"
  shows "users_ok rows' \<and> (\<exists>r'. user_at rows' i = Some r' \<and> lower (ur_email r') = lower email \<and>
    ur_locked_until r' = Some (snd (snd (snd (snd (last tries)))) + minutes 15))"
  using assms
proof (induction tries arbitrary: rows r)
  case (Cons t tries)
  obtain env db_now password code now where t: "t = (env, db_now, password, code, now)" by (cases t)
  obtain v rows1 where ex: "exec (pg_user_store a (env, db_now)) (authenticate argon mac dummy email password code False now) rows = (Inr v, rows1)"
    "\<not> result_ok v" "refused_run argon mac a dummy email tries rows1 = Some rows'"
    using Cons.prems(6) by (auto simp: t split: sum.splits prod.splits if_splits)
  from refused_step [OF Cons.prems(1-5) ex(1,2)] have
    s: "users_ok rows1" "user_at rows1 i = Some (r\<lparr>ur_failed_logins := ur_failed_logins r + 1,
      ur_locked_until := if 5 \<le> ur_failed_logins r + 1 then Some (now + minutes 15) else None\<rparr>)" by auto
  show ?case
  proof (cases "tries = []")
    case True
    then show ?thesis using s ex(3) Cons.prems by (simp add: t)
  next
    case False
    then have "1 \<le> int (length tries)" by (cases tries) auto
    then have "ur_failed_logins r + 1 < 5" using Cons.prems(8) by simp
    with Cons.IH [OF s(1,2) _ _ _ ex(3) False] Cons.prems show ?thesis using False by simp
  qed
qed simp

text \<open>C35: Five refused attempts lock an account that had none: for fifteen minutes from the last of them no
  attempt is accepted, the right password and code included, and none prolongs the lock.\<close>

theorem five_failures_lock:
  assumes "users_ok rows" "user_at rows i = Some r" "ur_is_active r" "ur_failed_logins r = 0" "ur_locked_until r = None"
    and "refused_run argon mac a dummy (ur_email r) tries rows = Some rows'" "length tries = 5"
    and "now < snd (snd (snd (snd (last tries)))) + minutes 15"
  shows "case exec (pg_user_store a (env, db_now)) (authenticate argon mac dummy (ur_email r) password code spend_recovery now) rows' of
     (Inl e, rows'') \<Rightarrow> rows'' = rows' | (Inr v, rows'') \<Rightarrow> \<not> result_ok v \<and> rows'' = rows'"
proof -
  from assms have "tries \<noteq> []" by auto
  with refused_run_locks [OF assms(1-3,5) refl assms(6)] assms(4,7) obtain r' where
    r': "users_ok rows'" "user_at rows' i = Some r'" "lower (ur_email r') = lower (ur_email r)"
    "ur_locked_until r' = Some (snd (snd (snd (snd (last tries)))) + minutes 15)" by auto
  have f: "find (\<lambda>q. lower (ur_email q) = lower (ur_email r)) rows' = Some r'"
    using r' by (simp add: user_at_Some user_email_Some)
  have l: "\<not> (case ur_locked_until r' of None \<Rightarrow> True | Some t \<Rightarrow> t \<le> now)" using r'(4) assms(8) by simp
  show ?thesis
    using outcome_authenticate [OF r'(1), of argon mac a "(env, db_now)" now "ur_email r" password code dummy spend_recovery] l
    unfolding f by (auto simp: outcome_def proved_def burnt_def split: sum.splits prod.splits if_splits)
qed

section \<open>At concrete inputs\<close>

definition sample_argon :: argon where
  "sample_argon h p = (if h = p then ArgonVerified else VerifyMismatchError)"

definition sample_user :: user_row where
  "sample_user = \<lparr>ur_id = 1, ur_email = ''a'', ur_display_name = ''A'', ur_password_hash = Some ''pw'',
     ur_is_active = True, ur_clearance = GREEN, ur_compartments = [], ur_totp_secret = Some [], ur_totp_key_id = None,
     ur_totp_enrolled_at = None, ur_totp_last_counter = None,
     ur_recovery_codes = Some [''abcde-fghjk-mnpqr''], ur_failed_logins = 0, ur_locked_until = None,
     ur_last_login_at = None, ur_must_change = False, ur_password_changed_at = None,
     ur_created_at = 0, ur_deactivated_at = None\<rparr>"

definition sample_mac :: hmac_function where
  "sample_mac k m = replicate 20 0"

definition sample_attempt :: attempt where
  "sample_attempt = \<lparr>at_email = ''A'', at_password = ''pw'', at_code = Some ''abcde-fghjk-mnpqr'', at_now = 0, at_later = 1\<rparr>"

definition sample_connections :: "(nat \<times> environment \<times> instant) list" where
  "sample_connections = map (\<lambda>k. (k, sample_env, 0)) [0, 1, 0, 1, 0, 1, 0, 1]"

lemma sample_users_ok: "users_ok [sample_user]"
  by (simp add: users_ok_def)

theorem sign_ins_spend_once_witness:
  "distinct (map snd (snd (snd (run_pool (pg_user_store sample_aead) sample_connections
      (map (sign_in sample_argon sample_mac ''dummy'') [sample_attempt, sample_attempt]) [sample_user]))))"
proof -
  obtain rows' progs log where "run_pool (pg_user_store sample_aead) sample_connections
      (map (sign_in sample_argon sample_mac ''dummy'') [sample_attempt, sample_attempt]) [sample_user] = (rows', progs, log)"
    using prod_cases3 by blast
  from sign_ins_spend_once [OF sample_users_ok this] this show ?thesis by simp
qed

theorem authenticate_alone_witness:
  "case exec (pg_user_store sample_aead (sample_env, 0)) (authenticate sample_argon sample_mac ''dummy'' ''A'' ''pw'' None True 5) [sample_user] of
     (Inl e, rows') \<Rightarrow> rows' = [sample_user]
   | (Inr v, rows') \<Rightarrow>
       if result_ok v then \<exists>u. u \<in> set [sample_user] \<and> ar_user v = Some (ur_id u) \<and>
         proved sample_argon sample_mac sample_aead sample_env ''A'' ''pw'' None 5 u
       else ar_user v = None \<and> rows' = burnt 0 5 (find (\<lambda>r. lower (ur_email r) = lower ''A'') [sample_user]) [sample_user]"
  by (rule authenticate_alone [OF sample_users_ok])

definition sample_tries :: "solo_try list" where
  "sample_tries = map (\<lambda>t. (sample_env, t, ''wrong'', None, t)) [0, 1, 2, 3, 4]"

lemma sample_refused: "refused_run sample_argon sample_mac sample_aead ''dummy'' (ur_email sample_user) sample_tries [sample_user] \<noteq> None"
  by (simp add: sample_tries_def sample_user_def authenticate_def pg_user_store_def pg_get_for_auth_def public_part_def
      sample_argon_def verify_password_def fail_def is_active_def is_locked_def result_ok_def Let_def
      pg_record_failed_login_def update_users_def failed_row_def max_failed_logins_def lockout_duration_def)

theorem five_failures_lock_witness:
  "\<exists>rows'. refused_run sample_argon sample_mac sample_aead ''dummy'' (ur_email sample_user) sample_tries [sample_user] = Some rows' \<and>
     (case exec (pg_user_store sample_aead (sample_env, 5)) (authenticate sample_argon sample_mac ''dummy'' (ur_email sample_user)
         ''pw'' (Some ''abcde-fghjk-mnpqr'') True 5) rows' of
       (Inl e, rows'') \<Rightarrow> rows'' = rows' | (Inr v, rows'') \<Rightarrow> \<not> result_ok v \<and> rows'' = rows')"
proof -
  obtain rows' where r: "refused_run sample_argon sample_mac sample_aead ''dummy'' (ur_email sample_user) sample_tries [sample_user] = Some rows'"
    using sample_refused by blast
  have u: "user_at [sample_user] 1 = Some sample_user" by (simp add: user_at_def user_by_id_def sample_user_def)
  show ?thesis
    by (rule exI [of _ rows'], rule conjI [OF r], rule five_failures_lock [OF sample_users_ok u _ _ _ r])
      (simp_all add: sample_tries_def, simp_all add: sample_user_def)
qed

end
