(* ===== verification/CaseWorld.thy ===== *)
theory CaseWorld
  imports Auth Sessions "HOL-Library.List_Lexorder" "HOL-Library.Char_ord"
begin

text \<open>
  The tables behind access to a case, in one record: the accounts (\<open>iam.app_user\<close>) with their global
  roles, the catalogue of roles and permissions, the registry of compartments, the cases with their
  assignments, the break-glass grants, the sessions and the audit trail. A row is a record and a table a list
  of rows. The operations of \<open>IamAdmin\<close>, \<open>Cases\<close>, \<open>BreakGlass\<close> and the gate of \<open>Gate\<close> are functions on
  this record; this theory holds the record, its lookups and what the lookups promise when the keys of the
  tables are keys.

  A statement reads the clock of the database, which \<open>link\<close> carries together with the bound connection;
  Python's own clock is a separate argument where the code reads it.
\<close>

section \<open>Rows\<close>

datatype case_status = DRAFT | ACTIVE | DORMANT | CLOSED | ARCHIVED | PURGED

fun status_name :: "case_status \<Rightarrow> string" where
  "status_name DRAFT = ''DRAFT''"
| "status_name ACTIVE = ''ACTIVE''"
| "status_name DORMANT = ''DORMANT''"
| "status_name CLOSED = ''CLOSED''"
| "status_name ARCHIVED = ''ARCHIVED''"
| "status_name PURGED = ''PURGED''"

record case_row =
  cs_id :: uuid
  cs_code :: string
  cs_title :: string
  cs_summary :: "string option"
  cs_status :: case_status
  cs_classification :: tlp
  cs_compartments :: "string list"
  cs_owner :: uuid
  cs_deputy :: "uuid option"
  cs_legal_basis :: string
  cs_authority_ref :: "string option"
  cs_retention_until :: int
  cs_review_due :: int
  cs_created_at :: instant
  cs_closed_at :: "instant option"
  cs_legal_hold :: bool
  cs_legal_hold_reason :: "string option"

record assignment =
  as_case :: uuid
  as_user :: uuid
  as_role :: string
  as_granted_by :: uuid
  as_granted_at :: instant
  as_expires_at :: "instant option"

record grant =
  gr_id :: uuid
  gr_user :: uuid
  gr_case :: "uuid option"
  gr_justification :: string
  gr_started_at :: instant
  gr_expires_at :: instant
  gr_classification :: "tlp option"
  gr_permissions :: "string list"
  gr_used_at :: "instant option"
  gr_action_count :: nat
  gr_revoked_at :: "instant option"
  gr_revoked_by :: "uuid option"
  gr_reviewed_by :: "uuid option"
  gr_reviewed_at :: "instant option"
  gr_outcome :: "string option"

record compartment =
  cp_key :: string
  cp_label :: string
  cp_created_by :: "uuid option"
  cp_created_at :: instant

text \<open>A row of \<open>audit.event\<close>; the kind of its actor is \<open>USER\<close> when it names one and \<open>SYSTEM\<close> otherwise.\<close>

datatype detail_value = NText string | NNull | NTexts "string list" | NUuid uuid | NNat nat | NInt int | NFlag bool | NTime instant

record event =
  ev_actor :: "uuid option"
  ev_action :: string
  ev_object_type :: string
  ev_object :: "uuid option"
  ev_case :: "uuid option"
  ev_denied :: bool
  ev_detail :: "(string \<times> detail_value) list"

record platform =
  pf_users :: "user_row list"
  pf_user_roles :: "(uuid \<times> string) list"
  pf_roles :: "string list"
  pf_permissions :: "(string \<times> bool) list"
  pf_role_permissions :: "(string \<times> string) list"
  pf_registry :: "compartment list"
  pf_cases :: "case_row list"
  pf_assignments :: "assignment list"
  pf_grants :: "grant list"
  pf_sessions :: "session list"
  pf_trail :: "event list"

text \<open>The errors of the database the services meet, by what violates them.\<close>

datatype db_failure = DbUnique | DbCheck | DbForeignKey | DbInvalidText | DbRaised | DbSession Sessions.db_error

record link =
  lk_connection :: connection
  lk_ticket :: "uuid option"
  lk_sha :: hash_function

abbreviation db_now :: "link \<Rightarrow> instant" where
  "db_now lk \<equiv> cn_now (lk_connection lk)"

definition log_event :: "event \<Rightarrow> platform \<Rightarrow> platform" where
  "log_event e p = p\<lparr>pf_trail := pf_trail p @ [e]\<rparr>"

text \<open>\<open>UPDATE ... SET f WHERE p\<close>.\<close>

definition update_where :: "('a \<Rightarrow> bool) \<Rightarrow> ('a \<Rightarrow> 'a) \<Rightarrow> 'a list \<Rightarrow> 'a list" where
  "update_where p f xs = map (\<lambda>x. if p x then f x else x) xs"

section \<open>Lookups\<close>

definition user_row_of :: "platform \<Rightarrow> uuid \<Rightarrow> user_row option" where
  "user_row_of p u = user_by_id u (pf_users p)"

definition active_row :: "platform \<Rightarrow> uuid \<Rightarrow> user_row option" where
  "active_row p u = find (\<lambda>r. ur_id r = u \<and> ur_is_active r) (pf_users p)"

definition is_active_user :: "platform \<Rightarrow> uuid \<Rightarrow> bool" where
  "is_active_user p u = list_ex (\<lambda>r. ur_id r = u \<and> ur_is_active r) (pf_users p)"

definition case_by_id :: "platform \<Rightarrow> uuid \<Rightarrow> case_row option" where
  "case_by_id p c = find (\<lambda>k. cs_id k = c) (pf_cases p)"

definition assignment_of :: "platform \<Rightarrow> uuid \<Rightarrow> uuid \<Rightarrow> assignment option" where
  "assignment_of p c u = find (\<lambda>a. as_case a = c \<and> as_user a = u) (pf_assignments p)"

definition unexpired :: "instant \<Rightarrow> assignment \<Rightarrow> bool" where
  "unexpired now a = (case as_expires_at a of None \<Rightarrow> True | Some t \<Rightarrow> now < t)"

definition role_has :: "platform \<Rightarrow> string \<Rightarrow> string \<Rightarrow> bool" where
  "role_has p role perm = list_ex (\<lambda>rp. rp = (role, perm)) (pf_role_permissions p)"

definition permissions_of_role :: "platform \<Rightarrow> string \<Rightarrow> string set" where
  "permissions_of_role p role = set (map snd (filter (\<lambda>rp. fst rp = role) (pf_role_permissions p)))"

text \<open>\<open>holds_global\<close>: a verb through a global role of an active account.\<close>

definition holds_global :: "platform \<Rightarrow> uuid \<Rightarrow> string \<Rightarrow> bool" where
  "holds_global p u perm =
     list_ex (\<lambda>(v, role). v = u \<and> is_active_user p v \<and> role_has p role perm) (pf_user_roles p)"

definition active_role_holders :: "platform \<Rightarrow> string \<Rightarrow> uuid list" where
  "active_role_holders p role =
     sort (remdups (map fst (filter (\<lambda>(u, r). r = role \<and> is_active_user p u) (pf_user_roles p))))"

definition registered :: "platform \<Rightarrow> string \<Rightarrow> bool" where
  "registered p key = list_ex (\<lambda>k. cp_key k = key) (pf_registry p)"

lemma permissions_of_role_iff [simp]: "perm \<in> permissions_of_role p role \<longleftrightarrow> role_has p role perm"
  by (force simp: permissions_of_role_def role_has_def list_ex_iff)

lemma set_active_role_holders [simp]:
  "u \<in> set (active_role_holders p role) \<longleftrightarrow> (u, role) \<in> set (pf_user_roles p) \<and> is_active_user p u"
  by (force simp: active_role_holders_def)

section \<open>Break-glass grants in force\<close>

definition live_row :: "instant \<Rightarrow> grant \<Rightarrow> bool" where
  "live_row now g \<longleftrightarrow> gr_revoked_at g = None \<and> now < gr_expires_at g"

definition applies_to :: "uuid \<Rightarrow> uuid option \<Rightarrow> grant \<Rightarrow> bool" where
  "applies_to u c g \<longleftrightarrow> gr_user g = u \<and> (gr_case g = None \<or> c \<noteq> None \<and> gr_case g = c)"

text \<open>\<open>ORDER BY granted_classification DESC NULLS LAST, expires_at DESC\<close>.\<close>

definition level_rank :: "tlp option \<Rightarrow> int" where
  "level_rank l = (case l of None \<Rightarrow> 0 | Some t \<Rightarrow> int (tlp_value t) + 1)"

definition order_grants :: "grant list \<Rightarrow> grant list" where
  "order_grants gs = sort_key (\<lambda>g. - level_rank (gr_classification g)) (sort_key (\<lambda>g. - gr_expires_at g) gs)"

definition raising_grants :: "instant \<Rightarrow> uuid \<Rightarrow> uuid option \<Rightarrow> platform \<Rightarrow> grant list" where
  "raising_grants now u c p =
     order_grants (filter (\<lambda>g. applies_to u c g \<and> live_row now g \<and> gr_classification g \<noteq> None) (pf_grants p))"

text \<open>\<open>max(granted_classification)\<close> over the same rows, without an order.\<close>

definition levels :: "grant list \<Rightarrow> tlp list" where
  "levels gs = List.map_filter gr_classification gs"

definition highest_level :: "grant list \<Rightarrow> tlp option" where
  "highest_level gs = (case levels gs of [] \<Rightarrow> None | l # ls \<Rightarrow> Some (fold max ls l))"

definition greatest :: "tlp \<Rightarrow> tlp option \<Rightarrow> tlp" where
  "greatest own l = (case l of None \<Rightarrow> own | Some g \<Rightarrow> max own g)"

lemma set_order_grants [simp]: "set (order_grants gs) = set gs"
  by (simp add: order_grants_def)

lemma order_grants_Nil [simp]: "order_grants gs = [] \<longleftrightarrow> gs = []"
  by (metis set_empty set_order_grants)

lemma order_grants_head:
  assumes "order_grants gs = g # rest" "h \<in> set gs"
  shows "level_rank (gr_classification h) \<le> level_rank (gr_classification g)"
proof -
  have "sorted (map (\<lambda>g. - level_rank (gr_classification g)) (g # rest))"
    using assms(1) sorted_sort_key unfolding order_grants_def by metis
  moreover have "h \<in> set (g # rest)" using assms set_order_grants by metis
  ultimately show ?thesis by auto
qed

lemma level_rank_le: "level_rank (Some a) \<le> level_rank (Some b) \<longleftrightarrow> a \<le> b"
  by (simp add: level_rank_def less_eq_tlp_def)

lemma set_map_filtered: "y \<in> set (List.map_filter f xs) \<longleftrightarrow> (\<exists>x\<in>set xs. f x = Some y)"
  by (induction xs) (auto simp: List.map_filter_simps split: option.splits)

lemma set_levels [simp]: "l \<in> set (levels gs) \<longleftrightarrow> (\<exists>g\<in>set gs. gr_classification g = Some l)"
  by (simp add: levels_def set_map_filtered)

lemma highest_level_Max: "highest_level gs = (if levels gs = [] then None else Some (Max (set (levels gs))))"
proof (cases "levels gs")
  case (Cons l ls)
  then show ?thesis using Max.set_eq_fold [of l ls] by (simp add: highest_level_def del: set_levels)
qed (simp add: highest_level_def)

lemma highest_level_None: "highest_level gs = None \<longleftrightarrow> (\<forall>g\<in>set gs. gr_classification g = None)"
proof -
  have "levels gs = [] \<longleftrightarrow> (\<forall>l. l \<notin> set (levels gs))" by (cases "levels gs") (auto simp del: set_levels)
  then show ?thesis by (auto simp: highest_level_Max) (metis not_Some_eq)
qed

lemma highest_level_Some:
  "highest_level gs = Some l \<longleftrightarrow>
     (\<exists>g\<in>set gs. gr_classification g = Some l) \<and> (\<forall>g\<in>set gs. \<forall>m. gr_classification g = Some m \<longrightarrow> m \<le> l)"
proof (cases "levels gs = []")
  case True
  have none: "\<not> (\<exists>g\<in>set gs. gr_classification g = Some l)"
    unfolding set_levels [symmetric] by (simp add: True del: set_levels)
  with none show ?thesis by (auto simp: highest_level_Max True)
next
  case False
  then have "Max (set (levels gs)) = l \<longleftrightarrow> l \<in> set (levels gs) \<and> (\<forall>m\<in>set (levels gs). m \<le> l)"
    by (intro Max_eq_iff) (simp_all del: set_levels)
  then show ?thesis unfolding highest_level_Max using False by (simp only: set_levels Ball_def if_False option.inject) blast
qed

text \<open>The first grant of the order carries the highest level of the rows that apply.\<close>

lemma head_has_highest_level:
  assumes "raising_grants now u c p = g # rest"
  shows "gr_classification g = highest_level (filter (\<lambda>g. applies_to u c g \<and> live_row now g) (pf_grants p))"
proof -
  let ?gs = "filter (\<lambda>g. applies_to u c g \<and> live_row now g \<and> gr_classification g \<noteq> None) (pf_grants p)"
  have g: "g \<in> set ?gs" using assms unfolding raising_grants_def by (metis list.set_intros(1) set_order_grants)
  then obtain l where l: "gr_classification g = Some l" by auto
  have "m \<le> l" if "h \<in> set (pf_grants p)" "applies_to u c h" "live_row now h" "gr_classification h = Some m" for h m
    using order_grants_head [OF assms [unfolded raising_grants_def], of h] that l by (simp add: level_rank_le)
  then show ?thesis using g l by (subst l, subst eq_commute, subst highest_level_Some) auto
qed

lemma no_head_no_level:
  "raising_grants now u c p = [] \<longleftrightarrow> highest_level (filter (\<lambda>g. applies_to u c g \<and> live_row now g) (pf_grants p)) = None"
  by (auto simp: raising_grants_def highest_level_None filter_empty_conv)

section \<open>Tables whose keys are keys\<close>

definition platform_ok :: "platform \<Rightarrow> bool" where
  "platform_ok p \<longleftrightarrow> users_ok (pf_users p) \<and> distinct (map cs_id (pf_cases p)) \<and>
     distinct (map (\<lambda>a. (as_case a, as_user a)) (pf_assignments p)) \<and> distinct (map gr_id (pf_grants p))"

lemma find_key:
  assumes "distinct (map k xs)"
  shows "find (\<lambda>x. k x = i \<and> P x) xs = Some y \<longleftrightarrow> y \<in> set xs \<and> k y = i \<and> P y"
  using assms by (induction xs) auto

lemmas find_key' = find_key [where P = "\<lambda>_. True", simplified]

lemma user_row_of_Some: "platform_ok p \<Longrightarrow> user_row_of p u = Some r \<longleftrightarrow> r \<in> set (pf_users p) \<and> ur_id r = u"
  by (simp add: user_row_of_def user_by_id_def platform_ok_def users_ok_def find_key')

lemma active_row_Some:
  "platform_ok p \<Longrightarrow> active_row p u = Some r \<longleftrightarrow> r \<in> set (pf_users p) \<and> ur_id r = u \<and> ur_is_active r"
  by (simp add: platform_ok_def users_ok_def active_row_def find_key)

lemma case_by_id_Some: "platform_ok p \<Longrightarrow> case_by_id p c = Some k \<longleftrightarrow> k \<in> set (pf_cases p) \<and> cs_id k = c"
  by (simp add: case_by_id_def platform_ok_def find_key')

lemma assignment_of_Some:
  "platform_ok p \<Longrightarrow> assignment_of p c u = Some a \<longleftrightarrow> a \<in> set (pf_assignments p) \<and> as_case a = c \<and> as_user a = u"
  using find_key' [of "\<lambda>a. (as_case a, as_user a)" "pf_assignments p" "(c, u)" a]
  by (simp add: assignment_of_def platform_ok_def)
lemma map_update_where [simp]: "(\<And>x. k (f x) = k x) \<Longrightarrow> map k (update_where P f xs) = map k xs"
  by (simp add: update_where_def)

lemma set_update_where: "set (update_where P f xs) = {if P x then f x else x |x. x \<in> set xs}"
  by (auto simp: update_where_def)

lemma update_where_none: "\<forall>x\<in>set xs. \<not> P x \<Longrightarrow> update_where P f xs = xs"
  by (auto simp: update_where_def intro!: map_idI)

lemma update_where_one:
  assumes "distinct (map k xs)" "x \<in> set xs" "k x = i" "P x"
  obtains as bs where "xs = as @ x # bs" "update_where (\<lambda>y. k y = i \<and> P y) f xs = as @ f x # bs"
    "\<forall>y\<in>set (as @ bs). k y \<noteq> i"
proof -
  obtain as bs where xs: "xs = as @ x # bs" using assms(2) by (meson split_list)
  then have other: "\<forall>y\<in>set (as @ bs). k y \<noteq> i" using assms(1,3) by (force simp: image_iff)
  have "update_where (\<lambda>y. k y = i \<and> P y) f xs = as @ f x # bs"
    using other assms(3,4) by (auto simp: xs update_where_def intro!: map_idI)
  with that xs other show ?thesis by blast
qed

lemma key_unique: "distinct (map k xs) \<Longrightarrow> x \<in> set xs \<Longrightarrow> y \<in> set xs \<Longrightarrow> k x = k y \<Longrightarrow> x = y"
  by (simp add: distinct_map inj_on_def)

lemma find_unique:
  assumes "x \<in> set xs" "P x" "\<And>y. y \<in> set xs \<Longrightarrow> P y \<Longrightarrow> y = x"
  shows "find P xs = Some x"
proof (cases "find P xs")
  case None
  then show ?thesis using assms(1,2) by (simp add: find_None_iff)
next
  case (Some y)
  then have "y \<in> set xs" "P y" by (auto simp: find_Some_iff)
  then show ?thesis using Some assms(3) by simp
qed

end
