(* ===== verification/Gate.thy ===== *)
theory Gate
  imports CaseWorld
begin

text \<open>
  The access decision as a request meets it: \<open>PgAccessResolver\<close> of \<open>stores.py\<close>, which reads the facts of the
  five checks from the tables, and the gates of \<open>http/deps.py\<close> built on it (\<open>authorize_object\<close> for a case
  and its elements, \<open>require_global\<close> and its variants for verbs held through a global role), the ceiling of a
  reader, the listing of readable cases (\<open>CaseService.list_for_user\<close>) and the same lattice as the row
  security of the database states it (migration 0111). The use of a break-glass grant is counted here.
\<close>

section \<open>Counting the use of a grant\<close>

text \<open>\<open>iam.rls_actor()\<close> on a connection: the holder of the bound session, if the account is active.\<close>

definition actor_of :: "link \<Rightarrow> platform \<Rightarrow> uuid option" where
  "actor_of lk p = rls_actor (lk_sha lk) (set (map ur_id (filter ur_is_active (pf_users p)))) (lk_ticket lk) (lk_connection lk) (pf_sessions p)"

definition may_count :: "link \<Rightarrow> platform \<Rightarrow> grant \<Rightarrow> bool" where
  "may_count lk p g \<longleftrightarrow>
     cn_exempt (lk_connection lk) \<or> Some (gr_user g) = actor_of lk p \<and> live_row (db_now lk) g"

definition count_one :: "instant \<Rightarrow> grant \<Rightarrow> grant" where
  "count_one now g =
     g\<lparr>gr_used_at := (case gr_used_at g of None \<Rightarrow> Some now | Some t \<Rightarrow> Some t), gr_action_count := gr_action_count g + 1\<rparr>"

text \<open>\<open>iam.rls_record_break_glass_use\<close>: whether a row was counted, and the table.\<close>

definition rls_record_use :: "link \<Rightarrow> uuid \<Rightarrow> platform \<Rightarrow> bool \<times> platform" where
  "rls_record_use lk i p =
     (let hit = (\<lambda>g. gr_id g = i \<and> may_count lk p g)
      in (list_ex hit (pf_grants p), p\<lparr>pf_grants := update_where hit (count_one (db_now lk)) (pf_grants p)\<rparr>))"

definition use_event :: "grant \<Rightarrow> string \<Rightarrow> uuid option \<Rightarrow> event" where
  "use_event g action c =
     \<lparr>ev_actor = Some (gr_user g), ev_action = ''BREAK_GLASS_ACTION'', ev_object_type = ''break_glass'',
      ev_object = Some (gr_id g), ev_case = c, ev_denied = False, ev_detail = [(''action'', NText action)]\<rparr>"

text \<open>\<open>BreakGlassService.record_use\<close>; the row of the ledger is selected from the grant.\<close>

definition record_use :: "link \<Rightarrow> uuid \<Rightarrow> string \<Rightarrow> uuid option \<Rightarrow> platform \<Rightarrow> platform" where
  "record_use lk i action c p =
     (case rls_record_use lk i p of (counted, p') \<Rightarrow>
        if \<not> counted then p'
        else p'\<lparr>pf_trail := pf_trail p' @ map (\<lambda>g. use_event g action c) (filter (\<lambda>g. gr_id g = i) (pf_grants p'))\<rparr>)"

section \<open>The resolver\<close>

datatype resolution_error = UnknownPermission string | UnknownUser uuid | BadLabel access_error

text \<open>The clearance a live grant leaves the caller with, and the grant that made the difference for this object.\<close>

definition raised_clearance :: "instant \<Rightarrow> uuid \<Rightarrow> uuid \<Rightarrow> string \<Rightarrow> tlp \<Rightarrow> platform \<Rightarrow> tlp \<times> uuid option" where
  "raised_clearance now u c classification own p =
     (case raising_grants now u (Some c) p of
        [] \<Rightarrow> (own, None)
      | g # _ \<Rightarrow>
          (case (gr_classification g, tlp_from_name classification) of
             (Some granted, Inr needed) \<Rightarrow>
               if own < granted then (granted, if own < needed \<and> needed \<le> granted then Some (gr_id g) else None)
               else (own, None)
           | _ \<Rightarrow> (own, None)))"

definition role_of_case :: "instant \<Rightarrow> uuid \<Rightarrow> uuid \<Rightarrow> platform \<Rightarrow> string set \<times> bool" where
  "role_of_case now u c p =
     (case assignment_of p c u of
        None \<Rightarrow> ({}, False)
      | Some a \<Rightarrow> (permissions_of_role p (as_role a), unexpired now a))"

definition resolve ::
    "link \<Rightarrow> instant \<Rightarrow> uuid \<Rightarrow> uuid \<Rightarrow> string \<Rightarrow> string \<Rightarrow> string set \<Rightarrow> instant option \<Rightarrow> bool \<Rightarrow> platform \<Rightarrow>
     (resolution_error + access_context) \<times> platform" where
  "resolve lk clock u c perm classification compartments mfa count_use p =
     (case map_of (pf_permissions p) perm of
        None \<Rightarrow> (Inl (UnknownPermission perm), p)
      | Some step_up \<Rightarrow>
        (case active_row p u of
           None \<Rightarrow> (Inl (UnknownUser u), p)
         | Some r \<Rightarrow>
           let (clearance, use_of) = raised_clearance (db_now lk) u c classification (ur_clearance r) p;
               (perms, unexp) = role_of_case (db_now lk) u c p
           in (case tlp_from_name classification of
                 Inl e \<Rightarrow> (Inl (BadLabel e), p)
               | Inr level \<Rightarrow>
                 let ctx = \<lparr>permission_key = perm, permission_requires_step_up = step_up,
                       role_permissions = perms, has_unexpired_assignment = unexp,
                       user_clearance = clearance, object_classification = level,
                       user_compartments = set (ur_compartments r), object_compartments = compartments,
                       mfa_satisfied_at = mfa\<rparr>
                 in (case use_of of
                       None \<Rightarrow> (Inr ctx, p)
                     | Some g \<Rightarrow> (Inr ctx, if count_use \<and> allowed (evaluate clock ctx)
                                         then record_use lk g perm (Some c) p else p)))))"

definition resolve_global ::
    "uuid \<Rightarrow> string \<Rightarrow> string \<Rightarrow> string set \<Rightarrow> instant option \<Rightarrow> platform \<Rightarrow> resolution_error + access_context" where
  "resolve_global u perm classification compartments mfa p =
     (case map_of (pf_permissions p) perm of
        None \<Rightarrow> Inl (UnknownPermission perm)
      | Some step_up \<Rightarrow>
        (case active_row p u of
           None \<Rightarrow> Inl (UnknownUser u)
         | Some r \<Rightarrow>
           (case tlp_from_name classification of
              Inl e \<Rightarrow> Inl (BadLabel e)
            | Inr level \<Rightarrow> Inr \<lparr>permission_key = perm, permission_requires_step_up = step_up,
                role_permissions = set (concat (map (\<lambda>(v, role). if v = u
                  then map snd (filter (\<lambda>rp. fst rp = role) (pf_role_permissions p)) else []) (pf_user_roles p))),
                has_unexpired_assignment = True, user_clearance = ur_clearance r, object_classification = level,
                user_compartments = set (ur_compartments r), object_compartments = compartments,
                mfa_satisfied_at = mfa\<rparr>)))"

section \<open>The gates of the routes\<close>

datatype problem =
    NotFound
  | MissingPermission string
  | MissingGlobalPermission "string list"
  | ReauthenticationRequired
  | CaseReadOnly case_status
  | Unresolved resolution_error

definition check_name :: "access_check \<Rightarrow> string" where
  "check_name c =
     (case c of CHECK_ROLE \<Rightarrow> ''role_grants_permission'' | CHECK_ASSIGNMENT \<Rightarrow> ''case_assignment_unexpired''
      | CHECK_CLEARANCE \<Rightarrow> ''tlp_clearance_dominates''
      | CHECK_COMPARTMENTS \<Rightarrow> ''compartments_subset'' | CHECK_STEP_UP \<Rightarrow> ''step_up_freshness'')"

text \<open>\<open>audit_auth_event\<close>.\<close>

definition auth_refusal :: "string \<Rightarrow> uuid option \<Rightarrow> uuid option \<Rightarrow> (string \<times> detail_value) list \<Rightarrow> event" where
  "auth_refusal action actor c d =
     \<lparr>ev_actor = actor, ev_action = action, ev_object_type = ''auth'', ev_object = None, ev_case = c,
      ev_denied = True, ev_detail = d\<rparr>"

definition effective_labels ::
    "uuid \<Rightarrow> string option \<Rightarrow> string set \<Rightarrow> platform \<Rightarrow> problem + string \<times> string set" where
  "effective_labels c element_classification element_compartments p =
     (case case_by_id p c of
        None \<Rightarrow> Inl NotFound
      | Some k \<Rightarrow>
        (case element_classification of
           None \<Rightarrow> Inr (tlp_name (cs_classification k), set (cs_compartments k))
         | Some e \<Rightarrow>
           (case tlp_from_name e of
              Inl err \<Rightarrow> Inl (Unresolved (BadLabel err))
            | Inr level \<Rightarrow> Inr (tlp_name (max (cs_classification k) level), set (cs_compartments k) \<union> element_compartments))))"

definition counted_at_case_gate :: "uuid \<Rightarrow> uuid \<Rightarrow> platform \<Rightarrow> bool" where
  "counted_at_case_gate u c p =
     (case (case_by_id p c, user_row_of p u) of
        (Some k, Some r) \<Rightarrow> ur_clearance r < cs_classification k
      | _ \<Rightarrow> False)"

definition content_read_only_states :: "case_status set" where
  "content_read_only_states = {CLOSED, ARCHIVED, PURGED}"

definition content_write_permissions :: "string set" where
  "content_write_permissions =
     {''graph.node.create'', ''graph.node.update'', ''graph.node.delete'',
      ''graph.edge.create'', ''graph.edge.update'', ''graph.edge.delete'',
      ''assertion.create'', ''assertion.retract'', ''graph.merge'', ''graph.unmerge'', ''evidence.upload'',
      ''proposal.review'', ''comms.bind'', ''comms.stoplist.manage'', ''curation.manage'', ''sample.submit'',
      ''ingest.manage'', ''ingest.replay'', ''comms.key.lookup'', ''comms.key.lookup.approve'', ''lookup.request''}"

definition refuse_if_case_read_only ::
    "current_user \<Rightarrow> uuid \<Rightarrow> string \<Rightarrow> platform \<Rightarrow> (problem + unit) \<times> platform" where
  "refuse_if_case_read_only user c perm p =
     (case case_by_id p c of
        None \<Rightarrow> (Inr (), p)
      | Some k \<Rightarrow>
        if cs_status k \<notin> content_read_only_states then (Inr (), p)
        else (Inl (CaseReadOnly (cs_status k)),
              log_event \<lparr>ev_actor = Some (cu_user user), ev_action = ''CASE_READ_ONLY_REFUSED'', ev_object_type = ''case'',
                ev_object = Some c, ev_case = Some c, ev_denied = True,
                ev_detail = [(''permission'', NText perm), (''status'', NText (status_name (cs_status k)))]\<rparr> p))"

definition authorize_object ::
    "link \<Rightarrow> instant \<Rightarrow> current_user \<Rightarrow> uuid \<Rightarrow> string \<Rightarrow> bool \<Rightarrow> bool \<Rightarrow> string option \<Rightarrow> string set \<Rightarrow> bool \<Rightarrow>
     platform \<Rightarrow> (problem + unit) \<times> platform" where
  "authorize_object lk clock user c perm count_use after_case_gate classification compartments content_write p =
     (case effective_labels c classification compartments p of
        Inl e \<Rightarrow> (Inl e, p)
      | Inr (label, comps) \<Rightarrow>
        let count = (if after_case_gate \<and> count_use then \<not> counted_at_case_gate (cu_user user) c p else count_use)
        in (case resolve lk clock (cu_user user) c perm label comps (cu_mfa_at user) count p of
              (Inl e, p') \<Rightarrow> (Inl (Unresolved e), p')
            | (Inr ctx, p') \<Rightarrow>
              let decision = evaluate clock ctx in
              if \<not> allowed decision
              then (Inl (if CHECK_ASSIGNMENT \<in> set (failed_checks decision) then NotFound
                         else if failed_checks decision = [CHECK_STEP_UP] then ReauthenticationRequired
                         else MissingPermission perm),
                    log_event (auth_refusal ''AUTHZ_DENIED'' (Some (cu_user user)) (Some c)
                      [(''permission'', NText perm),
                       (''failed_checks'', NTexts (map check_name (failed_checks decision)))]) p')
              else if content_write \<or> perm \<in> content_write_permissions
              then refuse_if_case_read_only user c perm p'
              else (Inr (), p')))"

definition fresh :: "instant \<Rightarrow> current_user \<Rightarrow> bool" where
  "fresh clock user = (case cu_mfa_at user of None \<Rightarrow> False | Some at \<Rightarrow> clock - at < step_up_freshness)"

text \<open>
  The global gates ask one row: whether the verb is held, and whether its permission demands a fresh second
  factor. The join with \<open>iam.permission\<close> drops a verb that is not in the catalogue.
\<close>

definition global_step_up :: "platform \<Rightarrow> uuid \<Rightarrow> string \<Rightarrow> bool option" where
  "global_step_up p u perm = (if holds_global p u perm then map_of (pf_permissions p) perm else None)"

definition authorize_global ::
    "instant \<Rightarrow> current_user \<Rightarrow> string \<Rightarrow> bool \<Rightarrow> platform \<Rightarrow> (problem + unit) \<times> platform" where
  "authorize_global clock user perm force_step_up p =
     (case global_step_up p (cu_user user) perm of
        None \<Rightarrow> (Inl (MissingGlobalPermission [perm]),
                 log_event (auth_refusal ''AUTHZ_DENIED'' (Some (cu_user user)) None
                   [(''permission'', NText perm), (''scope'', NText ''global'')]) p)
      | Some step_up \<Rightarrow>
          if (step_up \<or> force_step_up) \<and> \<not> fresh clock user
          then (Inl ReauthenticationRequired,
                log_event (auth_refusal ''AUTHZ_DENIED'' (Some (cu_user user)) None
                  [(''permission'', NText perm), (''scope'', NText ''global''),
                   (''failed_checks'', NTexts [''step_up_freshness''])]) p)
          else (Inr (), p))"

definition require_global :: "instant \<Rightarrow> current_user \<Rightarrow> string \<Rightarrow> platform \<Rightarrow> (problem + unit) \<times> platform" where
  "require_global clock user perm p =
     (case global_step_up p (cu_user user) perm of
        None \<Rightarrow> (Inl (MissingGlobalPermission [perm]),
                 log_event (auth_refusal ''AUTHZ_DENIED'' (Some (cu_user user)) None
                   [(''permission'', NText perm), (''scope'', NText ''global'')]) p)
      | Some step_up \<Rightarrow>
          if step_up
          then (let is_fresh = (case cu_mfa_at user of None \<Rightarrow> False | Some at \<Rightarrow> clock - at < step_up_freshness)
                in if \<not> is_fresh
                   then (Inl ReauthenticationRequired,
                         log_event (auth_refusal ''AUTHZ_DENIED'' (Some (cu_user user)) None
                           [(''permission'', NText perm), (''scope'', NText ''global''),
                            (''failed_checks'', NTexts [''step_up_freshness''])]) p)
                   else (Inr (), p))
          else (Inr (), p))"

definition require_global_any ::
    "instant \<Rightarrow> current_user \<Rightarrow> string list \<Rightarrow> platform \<Rightarrow> (problem + unit) \<times> platform" where
  "require_global_any clock user perms p =
     (let keys = sort (remdups perms);
          held = List.map_filter (global_step_up p (cu_user user)) keys
      in if held = []
         then (Inl (MissingGlobalPermission keys),
               log_event (auth_refusal ''AUTHZ_DENIED'' (Some (cu_user user)) None
                 [(''permission'', NTexts keys), (''scope'', NText ''global'')]) p)
         else if list_all id held \<and> \<not> fresh clock user
         then (Inl ReauthenticationRequired,
               log_event (auth_refusal ''AUTHZ_DENIED'' (Some (cu_user user)) None
                 [(''permission'', NTexts keys), (''scope'', NText ''global''),
                  (''failed_checks'', NTexts [''step_up_freshness''])]) p)
         else (Inr (), p))"

section \<open>Ceilings, listings and the row security of the database\<close>

text \<open>\<open>user_ceiling\<close>: the clearance and compartments of a reader; with a case, a grant on that case counts.\<close>

definition user_ceiling :: "instant \<Rightarrow> uuid \<Rightarrow> uuid option \<Rightarrow> platform \<Rightarrow> (tlp \<times> string set) option" where
  "user_ceiling now u c p =
     (case user_row_of p u of
        None \<Rightarrow> None
      | Some r \<Rightarrow>
        let clearance = (case raising_grants now u c p of
              [] \<Rightarrow> ur_clearance r
            | g # _ \<Rightarrow> (case gr_classification g of
                 None \<Rightarrow> ur_clearance r
               | Some granted \<Rightarrow> if ur_clearance r < granted then granted else ur_clearance r))
        in Some (clearance, set (ur_compartments r)))"

text \<open>\<open>check_writable_labels\<close>: whether the caller may author under these labels.\<close>

definition writable_labels :: "instant \<Rightarrow> current_user \<Rightarrow> tlp \<Rightarrow> string set \<Rightarrow> platform \<Rightarrow> bool" where
  "writable_labels now user classification compartments p =
     (case user_ceiling now (cu_user user) None p of
        None \<Rightarrow> False
      | Some (clearance, held) \<Rightarrow>
          if clearance < classification then False
          else if compartments - held \<noteq> {} then False
          else True)"

text \<open>The rows \<open>list_for_user\<close> joins: a case, an assignment to it and the account it names.\<close>

definition listed :: "instant \<Rightarrow> platform \<Rightarrow> assignment \<Rightarrow> user_row \<Rightarrow> case_row \<Rightarrow> bool" where
  "listed now p a r k \<longleftrightarrow>
     as_case a = cs_id k \<and> ur_id r = as_user a \<and> unexpired now a \<and> ur_is_active r \<and>
     cs_classification k \<le> greatest (ur_clearance r)
       (highest_level (filter (\<lambda>g. applies_to (ur_id r) (Some (cs_id k)) g \<and> live_row now g) (pf_grants p))) \<and>
     set (cs_compartments k) \<subseteq> set (ur_compartments r) \<and> role_has p (as_role a) ''case.read''"

definition list_for_user :: "instant \<Rightarrow> uuid \<Rightarrow> platform \<Rightarrow> case_row list" where
  "list_for_user now u p =
     sort_key (\<lambda>k. - cs_created_at k)
       (filter (\<lambda>k. list_ex (\<lambda>a. as_user a = u \<and> list_ex (\<lambda>r. listed now p a r k) (pf_users p)) (pf_assignments p))
         (pf_cases p))"

definition rls_clearance :: "link \<Rightarrow> platform \<Rightarrow> tlp option" where
  "rls_clearance lk p =
     (case actor_of lk p of
        None \<Rightarrow> None
      | Some u \<Rightarrow> map_option (\<lambda>r. greatest (ur_clearance r)
          (highest_level (filter (\<lambda>g. gr_user g = ur_id r \<and> gr_case g = None \<and> live_row (db_now lk) g) (pf_grants p))))
          (active_row p u))"

definition rls_compartments :: "link \<Rightarrow> platform \<Rightarrow> string set option" where
  "rls_compartments lk p =
     (case actor_of lk p of None \<Rightarrow> None | Some u \<Rightarrow> map_option (\<lambda>r. set (ur_compartments r)) (active_row p u))"

definition rls_cases :: "link \<Rightarrow> platform \<Rightarrow> uuid list" where
  "rls_cases lk p =
     (case actor_of lk p of
        None \<Rightarrow> []
      | Some u \<Rightarrow>
        (case active_row p u of
           None \<Rightarrow> []
         | Some me \<Rightarrow>
           map cs_id (filter (\<lambda>k. list_ex (\<lambda>a. as_user a = ur_id me \<and> as_case a = cs_id k \<and> unexpired (db_now lk) a)
                (pf_assignments p) \<and>
              set (cs_compartments k) \<subseteq> set (ur_compartments me) \<and>
              cs_classification k \<le> greatest (ur_clearance me) (highest_level
                (filter (\<lambda>g. gr_user g = ur_id me \<and> live_row (db_now lk) g \<and> (gr_case g = None \<or> gr_case g = Some (cs_id k)))
                  (pf_grants p)))) (pf_cases p))))"

definition rls_holds_global :: "link \<Rightarrow> string \<Rightarrow> platform \<Rightarrow> bool" where
  "rls_holds_global lk perm p = (case actor_of lk p of None \<Rightarrow> False | Some u \<Rightarrow> holds_global p u perm)"
section \<open>What the resolver finds\<close>

definition grants_for :: "instant \<Rightarrow> uuid \<Rightarrow> uuid \<Rightarrow> platform \<Rightarrow> grant list" where
  "grants_for now u c p = filter (\<lambda>g. applies_to u (Some c) g \<and> live_row now g) (pf_grants p)"

definition clearance_in_force :: "instant \<Rightarrow> uuid \<Rightarrow> uuid \<Rightarrow> tlp \<Rightarrow> platform \<Rightarrow> tlp" where
  "clearance_in_force now u c own p = greatest own (highest_level (grants_for now u c p))"

lemma head_level:
  assumes "raising_grants now u c p = g # rest"
  obtains l where "gr_classification g = Some l" "gr_id g \<in> gr_id ` set (pf_grants p)" "g \<in> set (pf_grants p)"
    "applies_to u c g" "live_row now g"
proof -
  have "g \<in> set (raising_grants now u c p)" by (simp add: assms)
  then show ?thesis using that by (auto simp: raising_grants_def)
qed

lemma raised_clearance_fst:
  assumes "tlp_from_name classification = Inr needed"
  shows "fst (raised_clearance now u c classification own p) = clearance_in_force now u c own p"
proof (cases "raising_grants now u (Some c) p")
  case Nil
  then show ?thesis using no_head_no_level [of now u "Some c" p]
    by (simp add: raised_clearance_def clearance_in_force_def grants_for_def greatest_def)
next
  case (Cons g rest)
  then obtain l where l: "gr_classification g = Some l" by (rule head_level)
  with head_has_highest_level [OF Cons] have "highest_level (grants_for now u c p) = Some l"
    by (simp add: grants_for_def)
  then show ?thesis using assms Cons l
    by (auto simp: raised_clearance_def clearance_in_force_def greatest_def max_def)
qed

lemma raised_clearance_snd:
  assumes "tlp_from_name classification = Inr needed"
  shows "snd (raised_clearance now u c classification own p) \<noteq> None \<longleftrightarrow>
      own < needed \<and> needed \<le> clearance_in_force now u c own p"
    and "snd (raised_clearance now u c classification own p) = Some i \<Longrightarrow>
      \<exists>g\<in>set (pf_grants p). gr_id g = i \<and> gr_user g = u \<and> live_row now g"
proof -
  show "snd (raised_clearance now u c classification own p) \<noteq> None \<longleftrightarrow>
      own < needed \<and> needed \<le> clearance_in_force now u c own p"
  proof (cases "raising_grants now u (Some c) p")
    case Nil
    then show ?thesis using no_head_no_level [of now u "Some c" p]
      by (auto simp: raised_clearance_def clearance_in_force_def grants_for_def greatest_def)
  next
    case (Cons g rest)
    then obtain l where l: "gr_classification g = Some l" by (rule head_level)
    with head_has_highest_level [OF Cons] have "highest_level (grants_for now u c p) = Some l"
      by (simp add: grants_for_def)
    then show ?thesis using assms Cons l
      by (auto simp: raised_clearance_def clearance_in_force_def greatest_def max_def)
  qed
  show "\<exists>g\<in>set (pf_grants p). gr_id g = i \<and> gr_user g = u \<and> live_row now g"
    if i: "snd (raised_clearance now u c classification own p) = Some i"
  proof (cases "raising_grants now u (Some c) p")
    case (Cons g rest)
    then obtain l where "gr_classification g = Some l" "g \<in> set (pf_grants p)" "applies_to u (Some c) g" "live_row now g"
      by (rule head_level)
    with i Cons assms show ?thesis
      by (auto simp: raised_clearance_def applies_to_def split: if_splits intro!: bexI [of _ g])
  qed (use i in \<open>simp add: raised_clearance_def\<close>)
qed

text \<open>The facts of the five checks, as the tables have them.\<close>

definition case_context ::
    "instant \<Rightarrow> user_row \<Rightarrow> uuid \<Rightarrow> string \<Rightarrow> bool \<Rightarrow> tlp \<Rightarrow> string set \<Rightarrow> instant option \<Rightarrow> platform \<Rightarrow> access_context" where
  "case_context now r c perm step_up level compartments mfa p =
     \<lparr>permission_key = perm, permission_requires_step_up = step_up,
      role_permissions = fst (role_of_case now (ur_id r) c p),
      has_unexpired_assignment = snd (role_of_case now (ur_id r) c p),
      user_clearance = clearance_in_force now (ur_id r) c (ur_clearance r) p,
      object_classification = level, user_compartments = set (ur_compartments r),
      object_compartments = compartments, mfa_satisfied_at = mfa\<rparr>"

lemma active_row_id: "active_row p u = Some r \<Longrightarrow> ur_id r = u \<and> ur_is_active r \<and> r \<in> set (pf_users p)"
  by (auto simp: active_row_def find_Some_iff)

text \<open>The whole of \<open>resolve\<close> on a known permission and an active account.\<close>

lemma resolve_known:
  assumes perm: "map_of (pf_permissions p) perm = Some step_up" and r: "active_row p u = Some r"
    and level: "tlp_from_name classification = Inr level"
    and ctx: "ctx = case_context (db_now lk) r c perm step_up level compartments mfa p"
  shows "resolve lk clock u c perm classification compartments mfa count_use p =
    (Inr ctx, case snd (raised_clearance (db_now lk) u c classification (ur_clearance r) p) of
       Some g \<Rightarrow> if count_use \<and> allowed (evaluate clock ctx) then record_use lk g perm (Some c) p else p
     | None \<Rightarrow> p)"
proof -
  have id: "ur_id r = u" using active_row_id [OF r] by simp
  obtain cl use where raised: "raised_clearance (db_now lk) u c classification (ur_clearance r) p = (cl, use)"
    by (cases "raised_clearance (db_now lk) u c classification (ur_clearance r) p")
  obtain perms unexp where role: "role_of_case (db_now lk) u c p = (perms, unexp)"
    by (cases "role_of_case (db_now lk) u c p")
  have "cl = clearance_in_force (db_now lk) u c (ur_clearance r) p"
    using raised_clearance_fst [OF level, of "db_now lk" u c "ur_clearance r" p] raised by simp
  then show ?thesis
    by (cases use) (simp_all add: resolve_def perm r raised role level ctx case_context_def id Let_def)
qed

lemma all_access_checks:
  "(\<forall>k. Q k) \<longleftrightarrow> Q CHECK_ROLE \<and> Q CHECK_ASSIGNMENT \<and> Q CHECK_CLEARANCE \<and> Q CHECK_COMPARTMENTS \<and> Q CHECK_STEP_UP"
  by (metis access_check.exhaust)

lemma allowed_case_context:
  "allowed (evaluate clock (case_context now r c perm step_up level compartments mfa p)) \<longleftrightarrow>
     (\<exists>a. assignment_of p c (ur_id r) = Some a \<and> unexpired now a \<and> role_has p (as_role a) perm) \<and>
     level \<le> clearance_in_force now (ur_id r) c (ur_clearance r) p \<and>
     compartments \<subseteq> set (ur_compartments r) \<and>
     (step_up \<longrightarrow> (\<exists>at. mfa = Some at \<and> clock - at < step_up_freshness))"
  by (cases "assignment_of p c (ur_id r)")
    (auto simp: allowed_iff all_access_checks case_context_def role_of_case_def)

lemma case_label_known [simp]: "tlp_from_name (tlp_name l) = Inr l"
  by (rule tlp_from_name_name)

section \<open>Properties of the gate\<close>

text \<open>The listing and the gate read the same facts.\<close>

lemma listed_in_force:
  "listed now p a r k \<longleftrightarrow>
     as_case a = cs_id k \<and> ur_id r = as_user a \<and> unexpired now a \<and> ur_is_active r \<and>
     cs_classification k \<le> clearance_in_force now (as_user a) (cs_id k) (ur_clearance r) p \<and>
     set (cs_compartments k) \<subseteq> set (ur_compartments r) \<and> role_has p (as_role a) ''case.read''"
  by (auto simp: listed_def clearance_in_force_def grants_for_def)

lemma listed_iff:
  assumes ok: "platform_ok p"
  shows "k \<in> set (list_for_user now u p) \<longleftrightarrow>
    k \<in> set (pf_cases p) \<and> (\<exists>r. active_row p u = Some r \<and>
      (\<exists>a. assignment_of p (cs_id k) u = Some a \<and> unexpired now a \<and> role_has p (as_role a) ''case.read'') \<and>
      cs_classification k \<le> clearance_in_force now u (cs_id k) (ur_clearance r) p \<and>
      set (cs_compartments k) \<subseteq> set (ur_compartments r))"
proof -
  have "k \<in> set (list_for_user now u p) \<longleftrightarrow>
      k \<in> set (pf_cases p) \<and> (\<exists>a\<in>set (pf_assignments p). as_user a = u \<and> (\<exists>r\<in>set (pf_users p).
        as_case a = cs_id k \<and> ur_id r = u \<and> unexpired now a \<and> ur_is_active r \<and>
        cs_classification k \<le> clearance_in_force now u (cs_id k) (ur_clearance r) p \<and>
        set (cs_compartments k) \<subseteq> set (ur_compartments r) \<and> role_has p (as_role a) ''case.read''))"
    by (simp add: list_for_user_def list_ex_iff listed_in_force cong: conj_cong)
  then show ?thesis
    unfolding active_row_Some [OF ok] assignment_of_Some [OF ok] by blast
qed

lemma authorize_case_read:
  assumes perm: "map_of (pf_permissions p) ''case.read'' = Some False" and k: "case_by_id p c = Some k"
  shows "fst (authorize_object lk clock user c ''case.read'' count_use again None {} False p) = Inr () \<longleftrightarrow>
    (\<exists>r. active_row p (cu_user user) = Some r \<and>
      (\<exists>a. assignment_of p c (cu_user user) = Some a \<and> unexpired (db_now lk) a \<and> role_has p (as_role a) ''case.read'') \<and>
      cs_classification k \<le> clearance_in_force (db_now lk) (cu_user user) c (ur_clearance r) p \<and>
      set (cs_compartments k) \<subseteq> set (ur_compartments r))"
proof (cases "active_row p (cu_user user)")
  case None
  then show ?thesis by (simp add: authorize_object_def effective_labels_def k resolve_def perm Let_def)
next
  case (Some r)
  then have id: "ur_id r = cu_user user" using active_row_id by blast
  have no_write: "''case.read'' \<notin> content_write_permissions" by (simp add: content_write_permissions_def)
  show ?thesis
    by (auto simp: authorize_object_def effective_labels_def k resolve_known [OF perm Some case_label_known refl]
        allowed_case_context id no_write Some Let_def)
qed

text \<open>C2: The listing is the gate: a case is listed for a person exactly when the gate would let that person read
  it, whatever grants, assignments and labels the tables hold.\<close>

theorem listing_is_the_gate:
  assumes "platform_ok p" "map_of (pf_permissions p) ''case.read'' = Some False"
  shows "k \<in> set (list_for_user (db_now lk) (cu_user user) p) \<longleftrightarrow>
    k \<in> set (pf_cases p) \<and>
    fst (authorize_object lk clock user (cs_id k) ''case.read'' count_use again None {} False p) = Inr ()"
proof (cases "k \<in> set (pf_cases p)")
  case True
  then have "case_by_id p (cs_id k) = Some k" by (simp add: case_by_id_Some [OF assms(1)])
  from authorize_case_read [OF assms(2) this] True show ?thesis by (simp add: listed_iff [OF assms(1)])
qed (simp add: listed_iff [OF assms(1)])

lemma rls_cases_iff:
  assumes ok: "platform_ok p" and actor: "actor_of lk p = Some u"
  shows "c \<in> set (rls_cases lk p) \<longleftrightarrow> (\<exists>k. case_by_id p c = Some k \<and> (\<exists>r. active_row p u = Some r \<and>
      (\<exists>a. assignment_of p c u = Some a \<and> unexpired (db_now lk) a) \<and>
      cs_classification k \<le> clearance_in_force (db_now lk) u c (ur_clearance r) p \<and>
      set (cs_compartments k) \<subseteq> set (ur_compartments r)))"
proof (cases "active_row p u")
  case None
  then show ?thesis by (simp add: rls_cases_def actor)
next
  case (Some r)
  have id: "ur_id r = u" using active_row_id [OF Some] by simp
  have same: "filter (\<lambda>g. gr_user g = u \<and> live_row (db_now lk) g \<and> (gr_case g = None \<or> gr_case g = Some (cs_id k))) (pf_grants p) =
      grants_for (db_now lk) u (cs_id k) p" for k
    unfolding grants_for_def applies_to_def by (rule filter_cong) auto
  show ?thesis
    unfolding rls_cases_def actor Some option.case id same case_by_id_Some [OF ok] assignment_of_Some [OF ok]
      clearance_in_force_def list_ex_iff
    by auto
qed

text \<open>C3: The row security of the database is the gate without the verb and the step-up clock: for the account
  the connection is bound to, the visible cases are exactly those where every check that the gate refuses is
  one of these two. So no case the gate allows is hidden, and no label is read differently.\<close>

theorem row_security_is_the_gate:
  assumes "platform_ok p" "actor_of lk p = Some u" "map_of (pf_permissions p) perm = Some step_up"
    and "case_by_id p c = Some k"
  shows "c \<in> set (rls_cases lk p) \<longleftrightarrow>
    (\<exists>ctx. fst (resolve lk clock u c perm (tlp_name (cs_classification k)) (set (cs_compartments k)) mfa count_use p) = Inr ctx \<and>
       set (failed_checks (evaluate clock ctx)) \<subseteq> {CHECK_ROLE, CHECK_STEP_UP})"
proof (cases "active_row p u")
  case None
  then show ?thesis using assms by (simp add: rls_cases_iff resolve_def)
next
  case (Some r)
  then have id: "ur_id r = u" using active_row_id by blast
  have "set (failed_checks (evaluate clock ctx)) \<subseteq> {CHECK_ROLE, CHECK_STEP_UP} \<longleftrightarrow>
      check_holds clock ctx CHECK_ASSIGNMENT \<and> check_holds clock ctx CHECK_CLEARANCE \<and> check_holds clock ctx CHECK_COMPARTMENTS" for ctx
    by (simp add: subset_iff failed_iff all_access_checks)
  then show ?thesis
    using Some assms(4) id unfolding rls_cases_iff [OF assms(1,2)]
    by (cases "assignment_of p c u")
      (auto simp: resolve_known [OF assms(3) Some case_label_known refl] case_context_def role_of_case_def)
qed

text \<open>Emergency access raises clearance and nothing else. With the grants the resolver finds the facts it
  would find without them, except that the clearance may be higher; and then it is the level of a live,
  unrevoked grant of that very account which names the case or no case. No permission, assignment or
  compartment comes from a grant.\<close>

theorem grant_raises_clearance_only:
  assumes "fst (resolve lk clock u c perm classification compartments mfa count_use p) = Inr ctx"
  shows "\<exists>plain. fst (resolve lk clock u c perm classification compartments mfa count_use (p\<lparr>pf_grants := []\<rparr>)) = Inr plain \<and>
    ctx = plain\<lparr>user_clearance := user_clearance ctx\<rparr> \<and> user_clearance plain \<le> user_clearance ctx \<and>
    (user_clearance ctx \<noteq> user_clearance plain \<longrightarrow>
      (\<exists>g\<in>set (pf_grants p). gr_user g = u \<and> (gr_case g = None \<or> gr_case g = Some c) \<and> gr_revoked_at g = None \<and>
         db_now lk < gr_expires_at g \<and> gr_classification g = Some (user_clearance ctx)))"
proof -
  obtain step_up where perm: "map_of (pf_permissions p) perm = Some step_up"
    using assms by (auto simp: resolve_def split: option.splits)
  obtain r where r: "active_row p u = Some r"
    using assms by (auto simp: resolve_def split: option.splits)
  obtain level where level: "tlp_from_name classification = Inr level"
    using assms by (auto simp: resolve_def perm r split: sum.splits prod.splits)
  let ?q = "p\<lparr>pf_grants := []\<rparr>" and ?now = "db_now lk"
  have q: "map_of (pf_permissions ?q) perm = Some step_up" "active_row ?q u = Some r"
    using perm r by (simp_all add: active_row_def)
  have id: "ur_id r = u" using active_row_id [OF r] by simp
  have ctx: "ctx = case_context ?now r c perm step_up level compartments mfa p"
    using assms by (simp add: resolve_known [OF perm r level refl])
  have plain: "fst (resolve lk clock u c perm classification compartments mfa count_use ?q) =
      Inr (case_context ?now r c perm step_up level compartments mfa ?q)"
    by (simp add: resolve_known [OF q level refl])
  have own: "clearance_in_force ?now u c (ur_clearance r) ?q = ur_clearance r"
    by (simp add: clearance_in_force_def grants_for_def greatest_def highest_level_def levels_def List.map_filter_simps)
  have role: "role_of_case ?now u c ?q = role_of_case ?now u c p"
    by (simp add: role_of_case_def assignment_of_def permissions_of_role_def cong: option.case_cong)
  have grant: "\<exists>g\<in>set (pf_grants p). gr_user g = u \<and> (gr_case g = None \<or> gr_case g = Some c) \<and> gr_revoked_at g = None \<and>
         ?now < gr_expires_at g \<and> gr_classification g = Some l"
    if "clearance_in_force ?now u c (ur_clearance r) p = l" "l \<noteq> ur_clearance r" for l
    using that by (auto simp: clearance_in_force_def greatest_def grants_for_def highest_level_Some applies_to_def live_row_def
        max_def split: option.splits if_splits)
  have le: "ur_clearance r \<le> clearance_in_force ?now u c (ur_clearance r) p"
    by (simp add: clearance_in_force_def greatest_def split: option.split)
  show ?thesis
    by (rule exI, rule conjI, rule plain) (use le grant in \<open>auto simp: ctx case_context_def id own role\<close>)
qed

text \<open>C21: A caller without an unexpired assignment learns nothing of a case: whether the case exists, whatever its
  labels and state and whatever grants the caller holds, the gate answers that there is no such case.\<close>

theorem unassigned_caller_learns_nothing:
  assumes perm: "map_of (pf_permissions p) perm = Some step_up" and r: "active_row p (cu_user user) = Some r"
    and none: "\<And>a. assignment_of p c (cu_user user) = Some a \<Longrightarrow> \<not> unexpired (db_now lk) a"
  shows "fst (authorize_object lk clock user c perm count_use again None {} content_write p) = Inl NotFound"
proof (cases "case_by_id p c")
  case None
  then show ?thesis by (simp add: authorize_object_def effective_labels_def)
next
  case (Some k)
  have id: "ur_id r = cu_user user" using active_row_id [OF r] by simp
  let ?ctx = "case_context (db_now lk) r c perm step_up (cs_classification k) (set (cs_compartments k)) (cu_mfa_at user) p"
  have unexp: "\<not> has_unexpired_assignment ?ctx"
    using none by (auto simp: case_context_def role_of_case_def id split: option.splits)
  then have "CHECK_ASSIGNMENT \<in> set (failed_checks (evaluate clock ?ctx))" by (simp add: failed_iff)
  moreover from this have "\<not> allowed (evaluate clock ?ctx)" by (auto simp: allowed_iff_no_failure)
  ultimately show ?thesis
    by (simp add: authorize_object_def effective_labels_def Some resolve_known [OF perm r case_label_known refl] Let_def)
qed
section \<open>Uses and their ledger\<close>

definition uses :: "platform \<Rightarrow> nat" where
  "uses p = sum_list (map gr_action_count (pf_grants p))"

definition is_use :: "event \<Rightarrow> bool" where
  "is_use e \<longleftrightarrow> ev_action e = ''BREAK_GLASS_ACTION''"

definition ledger :: "platform \<Rightarrow> nat" where
  "ledger p = length (filter is_use (pf_trail p))"

lemma count_one_id [simp]: "gr_id (count_one now g) = gr_id g" "gr_user (count_one now g) = gr_user g"
  "gr_action_count (count_one now g) = gr_action_count g + 1" "gr_classification (count_one now g) = gr_classification g"
  "live_row t (count_one now g) = live_row t g" "gr_case (count_one now g) = gr_case g"
  "gr_reviewed_at (count_one now g) = gr_reviewed_at g" "gr_reviewed_by (count_one now g) = gr_reviewed_by g"
  "gr_revoked_at (count_one now g) = gr_revoked_at g" "gr_expires_at (count_one now g) = gr_expires_at g"
  "gr_started_at (count_one now g) = gr_started_at g" "gr_justification (count_one now g) = gr_justification g"
  "gr_outcome (count_one now g) = gr_outcome g"
  by (simp_all add: count_one_def live_row_def)

lemma record_use_counts:
  assumes "platform_ok p" "g \<in> set (pf_grants p)" "may_count lk p g"
  shows "uses (record_use lk (gr_id g) action c p) = uses p + 1"
    "pf_trail (record_use lk (gr_id g) action c p) = pf_trail p @ [use_event (count_one (db_now lk) g) action c]"
proof -
  obtain as bs where split: "pf_grants p = as @ g # bs"
    and upd: "update_where (\<lambda>h. gr_id h = gr_id g \<and> may_count lk p h) (count_one (db_now lk)) (pf_grants p) =
      as @ count_one (db_now lk) g # bs"
    and other: "\<forall>h\<in>set (as @ bs). gr_id h \<noteq> gr_id g"
    using update_where_one [of gr_id "pf_grants p" g "gr_id g" "may_count lk p"] assms
    by (auto simp: platform_ok_def)
  have hit: "list_ex (\<lambda>h. gr_id h = gr_id g \<and> may_count lk p h) (pf_grants p)"
    using assms(2,3) by (auto simp: list_ex_iff)
  have none: "filter (\<lambda>h. gr_id h = gr_id g) as = []" "filter (\<lambda>h. gr_id h = gr_id g) bs = []"
    using other by (auto simp: filter_empty_conv)
  show "uses (record_use lk (gr_id g) action c p) = uses p + 1"
    unfolding record_use_def rls_record_use_def Let_def prod.case upd by (simp add: hit uses_def split)
  show "pf_trail (record_use lk (gr_id g) action c p) = pf_trail p @ [use_event (count_one (db_now lk) g) action c]"
    unfolding record_use_def rls_record_use_def Let_def prod.case upd by (simp add: hit none)
qed

text \<open>What counting leaves alone.\<close>

definition same_tables :: "platform \<Rightarrow> platform \<Rightarrow> bool" where
  "same_tables p q \<longleftrightarrow>
     pf_users q = pf_users p \<and> pf_user_roles q = pf_user_roles p \<and> pf_roles q = pf_roles p \<and>
     pf_permissions q = pf_permissions p \<and> pf_role_permissions q = pf_role_permissions p \<and>
     pf_registry q = pf_registry p \<and> pf_cases q = pf_cases p \<and> pf_assignments q = pf_assignments p \<and>
     pf_sessions q = pf_sessions p \<and> map gr_id (pf_grants q) = map gr_id (pf_grants p)"

lemma record_use_same: "same_tables p (record_use lk i action c p)"
  by (simp add: record_use_def rls_record_use_def same_tables_def Let_def)

lemma same_tables_lookups:
  assumes "same_tables p q"
  shows "case_by_id q = case_by_id p" "active_row q = active_row p" "user_row_of q = user_row_of p"
    "is_active_user q = is_active_user p" "actor_of lk q = actor_of lk p" "platform_ok q = platform_ok p"
    "assignment_of q = assignment_of p" "role_has q = role_has p" "holds_global q = holds_global p"
  using assms
  by (simp_all add: same_tables_def case_by_id_def active_row_def user_row_of_def is_active_user_def actor_of_def platform_ok_def
      assignment_of_def role_has_def holds_global_def fun_eq_iff)

lemma record_use_ledger:
  assumes "platform_ok p" "g \<in> set (pf_grants p)" "may_count lk p g"
  shows "ledger (record_use lk (gr_id g) action c p) = ledger p + 1"
  unfolding ledger_def record_use_counts(2) [OF assms] by (simp add: is_use_def use_event_def)

text \<open>A gate that lets a request through counts exactly when it is asked to and the grant was needed.\<close>

lemma authorize_passed:
  assumes ok: "platform_ok p" and r: "active_row p (cu_user user) = Some r"
    and counting: "cn_exempt (lk_connection lk) \<or> actor_of lk p = Some (cu_user user)"
    and labels: "effective_labels c classification compartments p = Inr (label, comps)" "tlp_from_name label = Inr level"
    and passed: "authorize_object lk clock user c perm True again classification compartments content_write p = (Inr (), p')"
  defines "counted \<equiv> ur_clearance r < level \<and> \<not> (again \<and> counted_at_case_gate (cu_user user) c p)"
  shows "uses p' = uses p + of_bool counted" "ledger p' = ledger p + of_bool counted" "same_tables p p'"
    "level \<le> clearance_in_force (db_now lk) (cu_user user) c (ur_clearance r) p"
proof -
  have id: "ur_id r = cu_user user" using active_row_id [OF r] by simp
  obtain step_up where perm: "map_of (pf_permissions p) perm = Some step_up"
    using passed by (auto simp: authorize_object_def labels resolve_def Let_def split: option.splits)
  let ?count = "\<not> (again \<and> counted_at_case_gate (cu_user user) c p)"
  let ?ctx = "case_context (db_now lk) r c perm step_up level comps (cu_mfa_at user) p"
  let ?use = "snd (raised_clearance (db_now lk) (cu_user user) c label (ur_clearance r) p)"
  let ?p = "case ?use of Some g \<Rightarrow> if ?count \<and> allowed (evaluate clock ?ctx)
      then record_use lk g perm (Some c) p else p | None \<Rightarrow> p"
  have resolved: "resolve lk clock (cu_user user) c perm label comps (cu_mfa_at user) ?count p = (Inr ?ctx, ?p)"
    by (rule resolve_known [OF perm r labels(2) refl])
  have allowed: "allowed (evaluate clock ?ctx)"
    using passed resolved by (auto simp: authorize_object_def labels Let_def split: if_splits)
  have p': "p' = ?p"
    using passed resolved allowed
    by (auto simp: authorize_object_def labels Let_def refuse_if_case_read_only_def split: if_splits option.splits)
  show le: "level \<le> clearance_in_force (db_now lk) (cu_user user) c (ur_clearance r) p"
    using allowed by (simp add: allowed_case_context id)
  have use: "?use \<noteq> None \<longleftrightarrow> ur_clearance r < level"
    using raised_clearance_snd(1) [OF labels(2)] le by simp
  have all: "uses p' = uses p + of_bool counted \<and> ledger p' = ledger p + of_bool counted \<and> same_tables p p'"
  proof (cases ?use)
    case None
    then show ?thesis using use p' by (simp add: counted_def same_tables_def)
  next
    case (Some i)
    then obtain g where g: "g \<in> set (pf_grants p)" "gr_id g = i" "gr_user g = cu_user user" "live_row (db_now lk) g"
      using raised_clearance_snd(2) [OF labels(2)] by blast
    then have "may_count lk p g" using counting by (auto simp: may_count_def)
    note counts = record_use_counts(1) [OF ok g(1) this] record_use_ledger [OF ok g(1) this] record_use_same
    show ?thesis
      using use p' allowed Some counts g(2) by (auto simp: counted_def same_tables_def [of p p])
  qed
  then show "uses p' = uses p + of_bool counted" "ledger p' = ledger p + of_bool counted" "same_tables p p'" by auto
qed

text \<open>C4: One access is one use. A request that passes the gate of its case and then the gate of an element of
  that case (marked as a second gate) adds one use to the grants and one row to the ledger when the stricter
  label of the two lies above the clearance of the caller, and none otherwise, whatever time passes between
  the two gates.\<close>

theorem one_access_one_use:
  assumes ok: "platform_ok p" and r: "active_row p (cu_user user) = Some r" and k: "case_by_id p c = Some k"
    and bound: "\<And>l. l \<in> {lk1, lk2} \<Longrightarrow> cn_exempt (lk_connection l) \<or> actor_of l p = Some (cu_user user)"
    and case_gate: "authorize_object lk1 clock1 user c perm1 True False None {} write1 p = (Inr (), p1)"
    and second_gate: "authorize_object lk2 clock2 user c perm2 True True (Some (tlp_name e)) comps write2 p1 = (Inr (), p2)"
  shows "uses p2 = uses p + of_bool (ur_clearance r < max (cs_classification k) e) \<and>
    ledger p2 = ledger p + of_bool (ur_clearance r < max (cs_classification k) e)"
proof -
  have labels1: "effective_labels c None {} p = Inr (tlp_name (cs_classification k), set (cs_compartments k))"
    by (simp add: effective_labels_def k)
  have first: "uses p1 = uses p + of_bool (ur_clearance r < cs_classification k)"
      "ledger p1 = ledger p + of_bool (ur_clearance r < cs_classification k)" and same: "same_tables p p1"
    using authorize_passed(1-3) [OF ok r bound labels1 case_label_known case_gate] by simp_all
  note now = same_tables_lookups [OF same]
  have labels2: "effective_labels c (Some (tlp_name e)) comps p1 =
      Inr (tlp_name (max (cs_classification k) e), set (cs_compartments k) \<union> comps)"
    by (simp add: effective_labels_def now k)
  have row: "user_row_of p (cu_user user) = Some r"
    using r by (simp add: user_row_of_Some [OF ok] active_row_Some [OF ok])
  have counted: "counted_at_case_gate (cu_user user) c p1 = (ur_clearance r < cs_classification k)"
    by (simp add: counted_at_case_gate_def now k row)
  have second: "uses p2 = uses p1 + of_bool (ur_clearance r < max (cs_classification k) e \<and> \<not> ur_clearance r < cs_classification k)"
      "ledger p2 = ledger p1 + of_bool (ur_clearance r < max (cs_classification k) e \<and> \<not> ur_clearance r < cs_classification k)"
    using authorize_passed(1,2) [of p1 user r lk2, OF _ _ _ labels2 case_label_known second_gate] bound [of lk2] ok r
    by (simp_all add: now counted)
  show ?thesis using first second by (auto simp: less_max_iff_disj)
qed

lemma in_concat_map: "y \<in> set (concat (map f xs)) \<longleftrightarrow> (\<exists>x\<in>set xs. y \<in> set (f x))"
  by simp

lemma active_row_None: "active_row p u = None \<longleftrightarrow> \<not> is_active_user p u"
  by (auto simp: active_row_def is_active_user_def find_None_iff list_ex_iff)

lemma require_global_passes:
  "fst (require_global clock user perm p) = Inr () \<longleftrightarrow>
      (\<exists>s. global_step_up p (cu_user user) perm = Some s \<and> (s \<longrightarrow> fresh clock user))"
  by (auto simp: require_global_def fresh_def Let_def split: option.splits)

lemma require_global_evaluates:
  "fst (require_global clock user perm p) = Inr () \<longleftrightarrow>
      (\<exists>ctx. resolve_global (cu_user user) perm ''CLEAR'' {} (cu_mfa_at user) p = Inr ctx \<and> allowed (evaluate clock ctx))"
proof (cases "map_of (pf_permissions p) perm = None \<or> active_row p (cu_user user) = None")
  case True
  then have "global_step_up p (cu_user user) perm = None"
    by (auto simp: global_step_up_def holds_global_def list_ex_iff active_row_None)
  moreover from True have "resolve_global (cu_user user) perm ''CLEAR'' {} (cu_mfa_at user) p \<noteq> Inr ctx" for ctx
    by (cases "map_of (pf_permissions p) perm") (simp_all add: resolve_global_def)
  ultimately show ?thesis unfolding require_global_passes by simp
next
  case False
  then obtain s r where s: "map_of (pf_permissions p) perm = Some s" and r: "active_row p (cu_user user) = Some r" by auto
  then have active: "is_active_user p (cu_user user)" using active_row_None [of p "cu_user user"] by simp
  have clear: "tlp_from_name ''CLEAR'' = Inr CLEAR" using tlp_from_name_name [of CLEAR] by simp
  have least: "CLEAR \<le> l" for l by (simp add: less_eq_tlp_def)
  have held: "holds_global p (cu_user user) perm \<longleftrightarrow>
      perm \<in> set (concat (map (\<lambda>(v, role). if v = cu_user user
        then map snd (filter (\<lambda>rp. fst rp = role) (pf_role_permissions p)) else []) (pf_user_roles p)))"
    unfolding holds_global_def list_ex_iff in_concat_map
    by (rule bex_cong [OF refl]) (use permissions_of_role_iff [of perm p, unfolded permissions_of_role_def] active in \<open>auto simp del: permissions_of_role_iff\<close>)
  define ctx where "ctx = \<lparr>permission_key = perm, permission_requires_step_up = s,
    role_permissions = set (concat (map (\<lambda>(v, role). if v = cu_user user
      then map snd (filter (\<lambda>rp. fst rp = role) (pf_role_permissions p)) else []) (pf_user_roles p))),
    has_unexpired_assignment = True, user_clearance = ur_clearance r, object_classification = CLEAR,
    user_compartments = set (ur_compartments r), object_compartments = {}, mfa_satisfied_at = cu_mfa_at user\<rparr>"
  have resolved: "resolve_global (cu_user user) perm ''CLEAR'' {} (cu_mfa_at user) p = Inr ctx"
    by (simp add: resolve_global_def s r clear ctx_def)
  have "allowed (evaluate clock ctx) \<longleftrightarrow> holds_global p (cu_user user) perm \<and> (s \<longrightarrow> fresh clock user)"
    unfolding held allowed_iff all_access_checks by (auto simp: ctx_def least fresh_def split: option.splits)
  then show ?thesis unfolding require_global_passes resolved by (simp add: global_step_up_def s)
qed

lemma require_global_any_passes:
  "fst (require_global_any clock user perms p) = Inr () \<longleftrightarrow>
      (\<exists>perm\<in>set perms. fst (require_global clock user perm p) = Inr ())"
proof -
  have flags: "s \<in> set (List.map_filter (global_step_up p (cu_user user)) (sort (remdups perms))) \<longleftrightarrow>
      (\<exists>perm\<in>set perms. global_step_up p (cu_user user) perm = Some s)" for s
    using set_map_filtered [of s "global_step_up p (cu_user user)" "sort (remdups perms)"] by simp
  define held where "held = List.map_filter (global_step_up p (cu_user user)) (sort (remdups perms))"
  have "fst (require_global_any clock user perms p) = Inr () \<longleftrightarrow> held \<noteq> [] \<and> (list_all id held \<longrightarrow> fresh clock user)"
    by (simp add: require_global_any_def Let_def flip: held_def)
  also have "\<dots> \<longleftrightarrow> (\<exists>s\<in>set held. s \<longrightarrow> fresh clock user)"
    by (cases held) (auto simp: list_all_iff)
  also have "\<dots> \<longleftrightarrow> (\<exists>perm\<in>set perms. fst (require_global clock user perm p) = Inr ())"
    unfolding require_global_passes held_def by (auto simp: flags Bex_def)
  finally show ?thesis .
qed

text \<open>The three global gates are one gate, and it is the evaluator: a verb passes exactly when the evaluator
  allows it on the facts \<open>resolve_global\<close> reads for an object without labels; forcing the second factor aside
  \<open>authorize_global\<close> is the same function; and the gate over several verbs passes exactly when one of them does.\<close>

theorem global_gates_are_the_evaluator:
  "(fst (require_global clock user perm p) = Inr () \<longleftrightarrow>
      (\<exists>ctx. resolve_global (cu_user user) perm ''CLEAR'' {} (cu_mfa_at user) p = Inr ctx \<and> allowed (evaluate clock ctx))) \<and>
   authorize_global clock user perm False p = require_global clock user perm p \<and>
   (fst (require_global_any clock user perms p) = Inr () \<longleftrightarrow>
      (\<exists>perm\<in>set perms. fst (require_global clock user perm p) = Inr ()))"
proof (intro conjI require_global_evaluates require_global_any_passes)
  show "authorize_global clock user perm False p = require_global clock user perm p"
    by (auto simp: authorize_global_def require_global_def fresh_def Let_def split: option.splits)
qed

text \<open>On a read-only case no request that writes content is let through, whatever the caller holds.\<close>

lemma read_only_case_refuses_content:
  assumes "case_by_id p c = Some k" "cs_status k \<in> content_read_only_states" "content_write \<or> perm \<in> content_write_permissions"
  shows "fst (authorize_object lk clock user c perm count_use again classification compartments content_write p) \<noteq> Inr ()"
proof
  assume passed: "fst (authorize_object lk clock user c perm count_use again classification compartments content_write p) = Inr ()"
  have same: "case_by_id p' = case_by_id p" if "resolve lk clock u c perm label comps mfa n p = (Inr ctx, p')"
    for u label comps mfa n ctx p'
    using that same_tables_lookups(1) [OF record_use_same]
    by (auto simp: resolve_def Let_def split: option.splits sum.splits prod.splits if_splits)
  show False
    using passed assms
    by (auto simp: authorize_object_def refuse_if_case_read_only_def Let_def dest!: same split: sum.splits prod.splits if_splits)
qed

section \<open>A small deployment\<close>

definition demo_user :: "uuid \<Rightarrow> string \<Rightarrow> tlp \<Rightarrow> string list \<Rightarrow> user_row" where
  "demo_user i email clearance comps = sample_user\<lparr>ur_id := i, ur_email := email, ur_clearance := clearance, ur_compartments := comps\<rparr>"

definition demo_case :: case_row where
  "demo_case = \<lparr>cs_id = 10, cs_code = ''OP-1'', cs_title = ''t'', cs_summary = None, cs_status = ACTIVE,
     cs_classification = GREEN, cs_compartments = [''K1''], cs_owner = 2, cs_deputy = None, cs_legal_basis = ''b'',
     cs_authority_ref = None, cs_retention_until = 900, cs_review_due = 800, cs_created_at = 0, cs_closed_at = None,
     cs_legal_hold = False, cs_legal_hold_reason = None\<rparr>"

definition demo_grant :: grant where
  "demo_grant = \<lparr>gr_id = 30, gr_user = 4, gr_case = Some 10, gr_justification = ''an incident is under way'',
     gr_started_at = 0, gr_expires_at = hours 2, gr_classification = Some RED, gr_permissions = [], gr_used_at = None,
     gr_action_count = 0, gr_revoked_at = None, gr_revoked_by = None, gr_reviewed_by = None, gr_reviewed_at = None,
     gr_outcome = None\<rparr>"

text \<open>An analyst cleared to GREEN with an emergency grant, the owner of the case and a security officer.\<close>

definition demo_platform :: platform where
  "demo_platform = \<lparr>pf_users = [demo_user 4 ''a'' GREEN [''K1''], demo_user 2 ''o'' RED [''K1''], demo_user 3 ''s'' RED []],
     pf_user_roles = [(2, ''SYS_ADMIN''), (3, ''SECURITY_OFFICER''), (3, ''SYS_ADMIN'')],
     pf_roles = [''SYS_ADMIN'', ''SECURITY_OFFICER'', ''CASE_OWNER'', ''ANALYST'', ''LIAISON''],
     pf_permissions = [(''case.read'', False), (''graph.read'', False), (''user.manage'', True)],
     pf_role_permissions = [(''ANALYST'', ''case.read''), (''ANALYST'', ''graph.read''), (''CASE_OWNER'', ''case.read''),
       (''LIAISON'', ''case.read''), (''SYS_ADMIN'', ''user.manage'')],
     pf_registry = [\<lparr>cp_key = ''K1'', cp_label = ''kestrel'', cp_created_by = None, cp_created_at = 0\<rparr>],
     pf_cases = [demo_case],
     pf_assignments = [\<lparr>as_case = 10, as_user = 4, as_role = ''ANALYST'', as_granted_by = 2, as_granted_at = 0, as_expires_at = None\<rparr>,
       \<lparr>as_case = 10, as_user = 2, as_role = ''CASE_OWNER'', as_granted_by = 2, as_granted_at = 0, as_expires_at = None\<rparr>],
     pf_grants = [demo_grant], pf_sessions = [], pf_trail = []\<rparr>"

definition demo_link :: "instant \<Rightarrow> link" where
  "demo_link now = \<lparr>lk_connection = \<lparr>cn_exempt = True, cn_proof = None, cn_now = now\<rparr>, lk_ticket = None, lk_sha = id\<rparr>"

definition demo_current :: "uuid \<Rightarrow> current_user" where
  "demo_current u = \<lparr>cu_user = u, cu_session = 50, cu_mfa_at = None\<rparr>"

lemmas demo_defs = demo_platform_def demo_user_def sample_user_def demo_case_def demo_grant_def demo_link_def demo_current_def

lemma demo_platform_ok: "platform_ok demo_platform"
  by (simp add: platform_ok_def users_ok_def demo_defs lower_def lower_char_def code_point_def)

lemma demo_lookups:
  "active_row demo_platform 4 = Some (demo_user 4 ''a'' GREEN [''K1''])"
  "case_by_id demo_platform 10 = Some demo_case"
  "map_of (pf_permissions demo_platform) ''case.read'' = Some False"
  "map_of (pf_permissions demo_platform) ''graph.read'' = Some False"
  by (simp_all add: active_row_def case_by_id_def demo_defs)

theorem listing_is_the_gate_witness:
  "demo_case \<in> set (list_for_user 5 4 demo_platform) \<longleftrightarrow>
    fst (authorize_object (demo_link 5) 5 (demo_current 4) 10 ''case.read'' True False None {} False demo_platform) = Inr ()"
  using listing_is_the_gate [OF demo_platform_ok demo_lookups(3), of demo_case "demo_link 5" "demo_current 4" 5 True False]
  by (simp add: demo_defs)

definition demo_access :: "string \<Rightarrow> bool \<Rightarrow> string option \<Rightarrow> platform \<Rightarrow> (problem + unit) \<times> platform" where
  "demo_access perm again label p = authorize_object (demo_link 5) 5 (demo_current 4) 10 perm True again label {} False p"

lemma demo_gates:
  "fst (demo_access ''case.read'' False None demo_platform) = Inr ()"
  "fst (demo_access ''graph.read'' True (Some (tlp_name AMBER)) (snd (demo_access ''case.read'' False None demo_platform))) = Inr ()"
  by code_simp+

theorem one_access_one_use_witness:
  "uses (snd (demo_access ''graph.read'' True (Some (tlp_name AMBER)) (snd (demo_access ''case.read'' False None demo_platform)))) =
   uses demo_platform + 1"
proof -
  let ?p1 = "snd (demo_access ''case.read'' False None demo_platform)"
  have first: "authorize_object (demo_link 5) 5 (demo_current 4) 10 ''case.read'' True False None {} False demo_platform = (Inr (), ?p1)"
    using demo_gates(1) by (simp add: demo_access_def prod_eq_iff)
  have second: "authorize_object (demo_link 5) 5 (demo_current 4) 10 ''graph.read'' True True (Some (tlp_name AMBER)) {} False ?p1 =
      (Inr (), snd (demo_access ''graph.read'' True (Some (tlp_name AMBER)) ?p1))"
    using demo_gates(2) by (simp add: demo_access_def prod_eq_iff)
  have row: "active_row demo_platform (cu_user (demo_current 4)) = Some (demo_user 4 ''a'' GREEN [''K1''])"
    by (simp add: demo_lookups demo_current_def)
  have "uses (snd (demo_access ''graph.read'' True (Some (tlp_name AMBER)) ?p1)) =
      uses demo_platform + of_bool (ur_clearance (demo_user 4 ''a'' GREEN [''K1'']) < max (cs_classification demo_case) AMBER)"
    by (rule one_access_one_use [THEN conjunct1, OF demo_platform_ok row demo_lookups(2) _ first second]) (auto simp: demo_link_def)
  then show ?thesis by (simp add: demo_user_def demo_case_def less_tlp_def less_eq_tlp_def max_def)
qed

theorem grant_raises_clearance_only_witness:
  "\<exists>ctx plain. fst (resolve (demo_link 5) 5 4 10 ''case.read'' ''AMBER'' {} None True demo_platform) = Inr ctx \<and>
     fst (resolve (demo_link 5) 5 4 10 ''case.read'' ''AMBER'' {} None True (demo_platform\<lparr>pf_grants := []\<rparr>)) = Inr plain \<and>
     user_clearance plain \<le> user_clearance ctx"
proof -
  obtain ctx where ctx: "fst (resolve (demo_link 5) 5 4 10 ''case.read'' ''AMBER'' {} None True demo_platform) = Inr ctx"
    using resolve_known [OF demo_lookups(3,1) tlp_from_name_name [of AMBER] refl] by simp
  with grant_raises_clearance_only [OF ctx] show ?thesis by blast
qed

theorem unassigned_caller_learns_nothing_witness:
  "fst (authorize_object (demo_link 5) 5 (demo_current 4) 11 ''case.read'' True False None {} False demo_platform) = Inl NotFound"
  by (rule unassigned_caller_learns_nothing [where r = "demo_user 4 ''a'' GREEN [''K1'']", OF demo_lookups(3)])
    (simp_all add: demo_lookups demo_current_def assignment_of_def, simp add: demo_platform_def)

theorem row_security_is_the_gate_witness:
  "10 \<in> set (rls_cases (demo_link 5\<lparr>lk_ticket := Some 4\<rparr>) demo_platform) \<longleftrightarrow>
    (\<exists>ctx. fst (resolve (demo_link 5\<lparr>lk_ticket := Some 4\<rparr>) 5 4 10 ''case.read'' ''GREEN'' {''K1''} None True demo_platform) = Inr ctx \<and>
       set (failed_checks (evaluate 5 ctx)) \<subseteq> {CHECK_ROLE, CHECK_STEP_UP})"
  using row_security_is_the_gate [OF demo_platform_ok _ demo_lookups(3,2), of "demo_link 5\<lparr>lk_ticket := Some 4\<rparr>" 4 5 None True]
  by (simp add: actor_of_def rls_actor_def demo_defs)

end
