(* ===== verification/BreakGlass.thy ===== *)
theory BreakGlass
  imports Gate
begin

text \<open>
  Break-glass access, \<open>break_glass.py\<close>: a grant is easy to obtain and loud in every other way. It needs a
  justification and somebody else who can review it, it ends within eight hours, its uses are counted (in
  \<open>Gate\<close>), it may be revoked, and it is reviewed once, by somebody else, after it has ended. The alerts
  \<open>invoke\<close> hands to the notification service are returned with the grant.

  The theorems follow a grant over any run of invocations, revocations, reviews and gate calls.
\<close>

section \<open>The service\<close>

definition default_duration :: duration where
  "default_duration = hours 2"

definition max_duration :: duration where
  "max_duration = hours 8"

definition min_justification :: nat where
  "min_justification = 20"

datatype break_glass_error =
    JustificationTooShort
  | CappedAtMaxDuration
  | OnlyOfficerIsInvoker
  | NobodyCanReview
  | NoLiveGrant
  | UnknownOutcome
  | NoSuchGrant
  | AlreadyReviewed
  | OwnEmergency
  | GrantStillLive
  | ReviewedFirstBySomeoneElse
  | GrantDatabaseError db_failure

definition is_live :: "instant \<Rightarrow> grant \<Rightarrow> bool" where
  "is_live now g \<longleftrightarrow> gr_revoked_at g = None \<and> now < gr_expires_at g"

definition awaiting_review :: "grant \<Rightarrow> bool" where
  "awaiting_review g \<longleftrightarrow> gr_reviewed_at g = None"

definition security_officers :: "platform \<Rightarrow> uuid list" where
  "security_officers p = active_role_holders p ''SECURITY_OFFICER''"

definition break_glass_event :: "uuid option \<Rightarrow> uuid \<Rightarrow> string \<Rightarrow> uuid \<Rightarrow> (string \<times> detail_value) list \<Rightarrow> event" where
  "break_glass_event c actor action i d =
     \<lparr>ev_actor = Some actor, ev_action = action, ev_object_type = ''break_glass'', ev_object = Some i, ev_case = c,
      ev_denied = False, ev_detail = d\<rparr>"

definition note_of_text :: "string option \<Rightarrow> detail_value" where
  "note_of_text s = (case s of None \<Rightarrow> NNull | Some t \<Rightarrow> NText t)"

text \<open>
  The insert of a grant: the cast of the level to \<open>core.tlp\<close>, the CHECK constraints of migration 0032
  (\<open>btrim\<close> of a stripped text is that text) and the foreign keys.
\<close>

definition db_level :: "string option \<Rightarrow> db_failure + tlp option" where
  "db_level l =
     (case l of None \<Rightarrow> Inr None
      | Some n \<Rightarrow> (case tlp_from_name n of Inl _ \<Rightarrow> Inl DbInvalidText | Inr t \<Rightarrow> Inr (Some t)))"

definition db_insert_grant :: "grant \<Rightarrow> platform \<Rightarrow> db_failure + platform" where
  "db_insert_grant g p =
     (if \<not> gr_expires_at g \<le> gr_started_at g + hours 8 \<or> \<not> 20 < length (gr_justification g) then Inl DbCheck
      else if list_ex (\<lambda>h. gr_id h = gr_id g) (pf_grants p) then Inl DbUnique
      else if user_row_of p (gr_user g) = None \<or> (case gr_case g of None \<Rightarrow> False | Some c \<Rightarrow> case_by_id p c = None) then Inl DbForeignKey
      else Inr (p\<lparr>pf_grants := pf_grants p @ [g]\<rparr>))"

text \<open>The checks of \<open>invoke\<close> before anything is written.\<close>

definition invoke_refusal :: "uuid \<Rightarrow> string \<Rightarrow> duration \<Rightarrow> platform \<Rightarrow> break_glass_error option" where
  "invoke_refusal u justification span p =
     (if length justification < min_justification then Some JustificationTooShort
      else if max_duration < span then Some CappedAtMaxDuration
      else let everyone = security_officers p;
               officers = filter (\<lambda>s. s \<noteq> u) everyone
           in if officers = [] \<and> everyone \<noteq> [] then Some OnlyOfficerIsInvoker
           else if officers = [] then Some NobodyCanReview
           else None)"

definition granted_row ::
    "instant \<Rightarrow> uuid \<Rightarrow> uuid \<Rightarrow> uuid option \<Rightarrow> string \<Rightarrow> tlp option \<Rightarrow> string list \<Rightarrow> duration \<Rightarrow> grant" where
  "granted_row now i u c justification level permissions span =
     \<lparr>gr_id = i, gr_user = u, gr_case = c, gr_justification = justification, gr_started_at = now,
      gr_expires_at = now + span, gr_classification = level, gr_permissions = permissions,
      gr_used_at = None, gr_action_count = 0, gr_revoked_at = None, gr_revoked_by = None,
      gr_reviewed_by = None, gr_reviewed_at = None, gr_outcome = None\<rparr>"

text \<open>\<open>i\<close> is the identifier the database draws, \<open>clock\<close> Python's \<open>datetime.now\<close>.\<close>

definition invoke ::
    "instant \<Rightarrow> uuid \<Rightarrow> uuid \<Rightarrow> uuid option \<Rightarrow> string \<Rightarrow> string option \<Rightarrow> string list \<Rightarrow> duration \<Rightarrow> platform \<Rightarrow>
     (break_glass_error + grant \<times> uuid list) \<times> platform" where
  "invoke clock i u c justification classification permissions span p =
     (let j = strip justification in
      case invoke_refusal u j span p of
        Some e \<Rightarrow> (Inl e, p)
      | None \<Rightarrow>
        (case db_level classification of
           Inl e \<Rightarrow> (Inl (GrantDatabaseError e), p)
         | Inr level \<Rightarrow>
           let g = granted_row clock i u c j level permissions span
           in (case db_insert_grant g p of
                 Inl e \<Rightarrow> (Inl (GrantDatabaseError e), p)
               | Inr p' \<Rightarrow> (Inr (g, filter (\<lambda>s. s \<noteq> u) (security_officers p)),
                   log_event (break_glass_event c u ''BREAK_GLASS_INVOKED'' i
                     [(''justification'', NText j), (''expires_at'', NTime (clock + span)),
                      (''classification'', note_of_text classification), (''permissions'', NTexts permissions),
                      (''base_clearance'', note_of_text (map_option (\<lambda>r. tlp_name (ur_clearance r)) (user_row_of p u)))])
                     p'))))"

definition live_grants :: "instant \<Rightarrow> uuid \<Rightarrow> platform \<Rightarrow> grant list" where
  "live_grants now u p = order_grants (filter (\<lambda>g. gr_user g = u \<and> live_row now g) (pf_grants p))"

definition live_grant :: "instant \<Rightarrow> uuid \<Rightarrow> uuid option \<Rightarrow> platform \<Rightarrow> grant option" where
  "live_grant now u c p =
     (case order_grants (filter (\<lambda>g. applies_to u c g \<and> live_row now g) (pf_grants p)) of [] \<Rightarrow> None | g # _ \<Rightarrow> Some g)"

definition grant_by_id :: "platform \<Rightarrow> uuid \<Rightarrow> grant option" where
  "grant_by_id p i = find (\<lambda>g. gr_id g = i) (pf_grants p)"

definition revoked_row :: "instant \<Rightarrow> uuid \<Rightarrow> grant \<Rightarrow> grant" where
  "revoked_row now actor g = g\<lparr>gr_revoked_at := Some now, gr_revoked_by := Some actor\<rparr>"

definition revoke_grant :: "link \<Rightarrow> uuid \<Rightarrow> uuid \<Rightarrow> platform \<Rightarrow> (break_glass_error + grant) \<times> platform" where
  "revoke_grant lk i actor p =
     (case find (\<lambda>g. gr_id g = i \<and> gr_revoked_at g = None) (pf_grants p) of
        None \<Rightarrow> (Inl NoLiveGrant, p)
      | Some g \<Rightarrow>
        if user_row_of p actor = None then (Inl (GrantDatabaseError DbForeignKey), p)
        else (Inr (revoked_row (db_now lk) actor g),
              log_event (break_glass_event (gr_case g) actor ''BREAK_GLASS_REVOKED'' i [(''revoked_by'', NUuid actor)])
                (p\<lparr>pf_grants := update_where (\<lambda>g. gr_id g = i \<and> gr_revoked_at g = None)
                     (revoked_row (db_now lk) actor) (pf_grants p)\<rparr>)))"

definition unreviewed :: "nat \<Rightarrow> platform \<Rightarrow> grant list" where
  "unreviewed limit p = take limit (sort_key (\<lambda>g. - gr_started_at g) (filter awaiting_review (pf_grants p)))"

definition outcomes :: "string list" where
  "outcomes = [''JUSTIFIED'', ''UNJUSTIFIED'', ''INCONCLUSIVE'']"

definition reviewed_row :: "instant \<Rightarrow> uuid \<Rightarrow> string \<Rightarrow> grant \<Rightarrow> grant" where
  "reviewed_row now reviewer verdict g =
     g\<lparr>gr_reviewed_by := Some reviewer, gr_reviewed_at := Some now, gr_outcome := Some verdict\<rparr>"

definition reviewable :: "instant \<Rightarrow> uuid \<Rightarrow> grant \<Rightarrow> bool" where
  "reviewable now i g \<longleftrightarrow> gr_id g = i \<and> gr_reviewed_at g = None \<and> (gr_revoked_at g \<noteq> None \<or> gr_expires_at g \<le> now)"

text \<open>
  The checks read the grant on Python's clock; the statement that writes decides on the database's. What the
  statement meets may be a later table, after the write of another request.
\<close>

definition review_check :: "instant \<Rightarrow> uuid \<Rightarrow> uuid \<Rightarrow> string \<Rightarrow> platform \<Rightarrow> break_glass_error option" where
  "review_check clock i reviewer verdict p =
     (if verdict \<notin> set outcomes then Some UnknownOutcome
      else (case grant_by_id p i of
              None \<Rightarrow> Some NoSuchGrant
            | Some current \<Rightarrow>
              if gr_reviewed_at current \<noteq> None then Some AlreadyReviewed
              else if reviewer = gr_user current then Some OwnEmergency
              else if is_live clock current then Some GrantStillLive
              else None))"

definition review_write ::
    "link \<Rightarrow> uuid \<Rightarrow> uuid \<Rightarrow> string \<Rightarrow> string option \<Rightarrow> platform \<Rightarrow> (break_glass_error + grant) \<times> platform" where
  "review_write lk i reviewer verdict comment p =
     (case find (reviewable (db_now lk) i) (pf_grants p) of
        None \<Rightarrow> (Inl (case grant_by_id p i of
                        None \<Rightarrow> ReviewedFirstBySomeoneElse
                      | Some latest \<Rightarrow> if gr_reviewed_at latest = None then GrantStillLive else ReviewedFirstBySomeoneElse), p)
      | Some g \<Rightarrow>
        (Inr (reviewed_row (db_now lk) reviewer verdict g),
         log_event (break_glass_event (gr_case g) reviewer ''BREAK_GLASS_REVIEWED'' i
             [(''outcome'', NText verdict), (''note'', note_of_text comment), (''invoked_by'', NUuid (gr_user g)),
              (''actions_taken'', NNat (gr_action_count g))])
           (p\<lparr>pf_grants := update_where (reviewable (db_now lk) i) (reviewed_row (db_now lk) reviewer verdict) (pf_grants p)\<rparr>)))"

definition review ::
    "link \<Rightarrow> instant \<Rightarrow> uuid \<Rightarrow> uuid \<Rightarrow> string \<Rightarrow> string option \<Rightarrow> platform \<Rightarrow> (break_glass_error + grant) \<times> platform" where
  "review lk clock i reviewer verdict comment p =
     (case review_check clock i reviewer verdict p of
        Some e \<Rightarrow> (Inl e, p)
      | None \<Rightarrow> review_write lk i reviewer verdict comment p)"

section \<open>What one operation does to the grants\<close>

lemma find_in: "find P xs = Some x \<Longrightarrow> x \<in> set xs \<and> P x"
  by (auto simp: find_Some_iff)

lemma resolve_effect:
  obtains (same) "snd (resolve lk clock u c perm label comps mfa m p) = p"
  | (counted) i g where "snd (resolve lk clock u c perm label comps mfa m p) = record_use lk i perm (Some c) p"
      "g \<in> set (pf_grants p)" "gr_id g = i" "live_row (db_now lk) g"
proof (cases "\<exists>s r l. map_of (pf_permissions p) perm = Some s \<and> active_row p u = Some r \<and> tlp_from_name label = Inr l")
  case False
  then have "snd (resolve lk clock u c perm label comps mfa m p) = p"
    by (cases "map_of (pf_permissions p) perm"; cases "active_row p u"; cases "tlp_from_name label")
      (simp_all add: resolve_def split: prod.split)
  then show ?thesis by (rule same)
next
  case True
  then obtain s r l where known: "map_of (pf_permissions p) perm = Some s" "active_row p u = Some r" "tlp_from_name label = Inr l"
    by blast
  note eq = resolve_known [OF known refl, of lk clock c comps mfa m]
  show ?thesis
  proof (cases "snd (raised_clearance (db_now lk) u c label (ur_clearance r) p)")
    case None
    then show ?thesis by (intro same) (simp add: eq)
  next
    case (Some i)
    from raised_clearance_snd(2) [OF known(3) Some] obtain g where
      "g \<in> set (pf_grants p)" "gr_id g = i" "live_row (db_now lk) g" by blast
    then have "snd (resolve lk clock u c perm label comps mfa m p) = p \<or>
        snd (resolve lk clock u c perm label comps mfa m p) = record_use lk i perm (Some c) p"
      by (simp add: eq Some)
    then show ?thesis using same counted [of i g] \<open>g \<in> set (pf_grants p)\<close> \<open>gr_id g = i\<close> \<open>live_row (db_now lk) g\<close> by blast
  qed
qed

text \<open>The grants and the ledger after a gate: as they were, or with one live grant counted.\<close>

definition books :: "platform \<Rightarrow> grant list \<times> event list" where
  "books p = (pf_grants p, filter is_use (pf_trail p))"

lemma books_log [simp]: "\<not> is_use e \<Longrightarrow> books (log_event e p) = books p"
  by (simp add: books_def log_event_def)

lemma refuse_if_books: "books (snd (refuse_if_case_read_only user c perm p)) = books p"
  by (simp add: refuse_if_case_read_only_def is_use_def split: option.split)

lemma authorize_books:
  obtains (same) "books (snd (authorize_object lk clock user c perm n again cl comps cw p)) = books p"
  | (counted) i g where "books (snd (authorize_object lk clock user c perm n again cl comps cw p)) =
      books (record_use lk i perm (Some c) p)" "g \<in> set (pf_grants p)" "gr_id g = i" "live_row (db_now lk) g"
proof (cases "effective_labels c cl comps p")
  case (Inl e)
  then show ?thesis by (intro same) (simp add: authorize_object_def)
next
  case (Inr labels)
  obtain label comps' where labels: "labels = (label, comps')" by (cases labels)
  let ?m = "if again \<and> n then \<not> counted_at_case_gate (cu_user user) c p else n"
  obtain result q where resolved: "resolve lk clock (cu_user user) c perm label comps' (cu_mfa_at user) ?m p = (result, q)"
    by (cases "resolve lk clock (cu_user user) c perm label comps' (cu_mfa_at user) ?m p")
  have "books (snd (authorize_object lk clock user c perm n again cl comps cw p)) = books q"
    using resolved
    by (simp add: authorize_object_def Inr labels Let_def auth_refusal_def is_use_def refuse_if_books split: sum.split)
  then show ?thesis
    using resolve_effect [of lk clock "cu_user user" c perm label comps' "cu_mfa_at user" ?m p] same counted resolved
    by (metis snd_conv)
qed

lemma count_books:
  assumes "distinct (map gr_id (pf_grants p))" "g \<in> set (pf_grants p)" "gr_id g = i"
  shows "books (record_use lk i action c p) =
    (if may_count lk p g
     then (map (\<lambda>h. if gr_id h = i then count_one (db_now lk) h else h) (pf_grants p),
           filter is_use (pf_trail p) @ [use_event (count_one (db_now lk) g) action c])
     else books p)"
proof -
  have unique: "h = g" if "h \<in> set (pf_grants p)" "gr_id h = i" for h
    using assms that by (metis distinct_map inj_onD)
  let ?hit = "\<lambda>h. gr_id h = i \<and> may_count lk p h"
  have any: "list_ex ?hit (pf_grants p) = may_count lk p g" unfolding list_ex_iff using unique assms by blast
  show ?thesis
  proof (cases "may_count lk p g")
    case True
    have upd: "update_where ?hit (count_one (db_now lk)) (pf_grants p) =
        map (\<lambda>h. if gr_id h = i then count_one (db_now lk) h else h) (pf_grants p)"
      unfolding update_where_def by (rule map_cong [OF refl]) (use True unique in metis)
    have "filter (\<lambda>h. gr_id h = i) (map (\<lambda>h. if gr_id h = i then count_one (db_now lk) h else h) (pf_grants p)) =
        [count_one (db_now lk) g]"
    proof -
      obtain as bs where split: "pf_grants p = as @ g # bs" using assms(2) by (meson split_list)
      then have "\<forall>h\<in>set (as @ bs). gr_id h \<noteq> i" using assms(1,3) by (force simp: image_iff)
      then show ?thesis using assms(3) by (auto simp: split filter_empty_conv)
    qed
    with True any upd show ?thesis
      by (simp add: books_def record_use_def rls_record_use_def Let_def is_use_def use_event_def)
  next
    case False
    have "update_where ?hit (count_one (db_now lk)) (pf_grants p) = pf_grants p"
      by (rule update_where_none) (use False unique in blast)
    with False any show ?thesis by (simp add: books_def record_use_def rls_record_use_def Let_def)
  qed
qed
lemma not_use_event [simp]:
  "action \<noteq> ''BREAK_GLASS_ACTION'' \<Longrightarrow> \<not> is_use (break_glass_event c actor action i d)"
  by (simp add: is_use_def break_glass_event_def)

lemma books_grants [simp]: "books (p\<lparr>pf_grants := gs\<rparr>) = (gs, snd (books p))"
  by (simp add: books_def)

lemma db_insert_grant_Inr:
  "db_insert_grant g p = Inr p' \<Longrightarrow> p' = p\<lparr>pf_grants := pf_grants p @ [g]\<rparr> \<and>
     gr_expires_at g \<le> gr_started_at g + hours 8 \<and> 20 < length (gr_justification g) \<and>
     (\<forall>h\<in>set (pf_grants p). gr_id h \<noteq> gr_id g)"
  by (auto simp: db_insert_grant_def list_ex_iff split: if_splits)

definition new_grant :: "instant \<Rightarrow> grant \<Rightarrow> bool" where
  "new_grant clock g \<longleftrightarrow> gr_expires_at g \<le> gr_started_at g + hours 8 \<and> 20 < length (gr_justification g) \<and>
     gr_action_count g = 0 \<and> gr_reviewed_at g = None \<and> gr_started_at g = clock"

lemma invoke_books:
  obtains (refused) "books (snd (invoke clock i u c j l ps d p)) = books p"
  | (granted) g where "books (snd (invoke clock i u c j l ps d p)) = (pf_grants p @ [g], snd (books p))"
      "new_grant clock g" "gr_id g = i" "gr_user g = u" "\<forall>h\<in>set (pf_grants p). gr_id h \<noteq> i"
proof (cases "fst (invoke clock i u c j l ps d p)")
  case (Inl e)
  then have "snd (invoke clock i u c j l ps d p) = p"
    by (auto simp: invoke_def Let_def split: sum.splits option.splits)
  then show ?thesis by (intro refused) simp
next
  case (Inr result)
  then obtain g officers where result: "result = (g, officers)" by (cases result)
  from Inr obtain ev where ins: "db_insert_grant g p = Inr (p\<lparr>pf_grants := pf_grants p @ [g]\<rparr>)"
    and after: "snd (invoke clock i u c j l ps d p) = log_event ev (p\<lparr>pf_grants := pf_grants p @ [g]\<rparr>)" "\<not> is_use ev"
    and g: "gr_id g = i" "gr_user g = u" "gr_started_at g = clock" "gr_action_count g = 0" "gr_reviewed_at g = None"
    unfolding result invoke_def Let_def
    by (auto simp: granted_row_def dest: db_insert_grant_Inr split: option.splits sum.splits)
  from db_insert_grant_Inr [OF ins] after g have "new_grant clock g \<and> gr_id g = i \<and> gr_user g = u \<and>
      (\<forall>h\<in>set (pf_grants p). gr_id h \<noteq> i) \<and> books (snd (invoke clock i u c j l ps d p)) = (pf_grants p @ [g], snd (books p))"
    by (simp add: new_grant_def)
  then show ?thesis by (intro granted) auto
qed

lemma revoke_books:
  obtains (refused) "books (snd (revoke_grant lk i actor p)) = books p"
  | (revoked) "books (snd (revoke_grant lk i actor p)) =
      (update_where (\<lambda>g. gr_id g = i \<and> gr_revoked_at g = None) (revoked_row (db_now lk) actor) (pf_grants p), snd (books p))"
proof (cases "fst (revoke_grant lk i actor p)")
  case (Inl e)
  then show ?thesis by (intro refused) (auto simp: revoke_grant_def split: option.splits if_splits)
next
  case (Inr g)
  then show ?thesis by (intro revoked) (auto simp: revoke_grant_def split: option.splits if_splits)
qed

lemma review_books:
  obtains (refused) "books (snd (review_write lk i reviewer v comment p)) = books p"
  | (reviewed) "books (snd (review_write lk i reviewer v comment p)) =
      (update_where (reviewable (db_now lk) i) (reviewed_row (db_now lk) reviewer v) (pf_grants p), snd (books p))"
proof (cases "find (reviewable (db_now lk) i) (pf_grants p)")
  case None
  then show ?thesis by (intro refused) (simp add: review_write_def)
next
  case (Some g)
  then show ?thesis by (intro reviewed) (simp add: review_write_def)
qed

section \<open>Any run of emergencies\<close>

text \<open>
  A desk: the tables, the reviews whose checks have passed and whose write is still to come, and the clock of
  the database. The steps are the operations, in any order and by anybody, a gate call of any request, the
  passing of time, and any change elsewhere that leaves the grants and the ledger alone. Python's clock may
  show any time.
\<close>

type_synonym desk = "platform \<times> (uuid \<times> uuid \<times> string \<times> string option) list \<times> instant"

inductive desk_step :: "desk \<Rightarrow> desk \<Rightarrow> bool" where
  time_passes: "now \<le> now' \<Longrightarrow> desk_step (p, pend, now) (p, pend, now')"
| elsewhere: "books p' = books p \<Longrightarrow> desk_step (p, pend, now) (p', pend, now)"
| invoked: "desk_step (p, pend, now) (snd (invoke clock i u c j l ps d p), pend, now)"
| ended: "db_now lk = now \<Longrightarrow> desk_step (p, pend, now) (snd (revoke_grant lk i actor p), pend, now)"
| review_begins: "review_check clock i reviewer v p = None \<Longrightarrow>
    desk_step (p, pend, now) (p, (i, reviewer, v, comment) # pend, now)"
| review_ends: "(i, reviewer, v, comment) \<in> set pend \<Longrightarrow> db_now lk = now \<Longrightarrow>
    desk_step (p, pend, now) (snd (review_write lk i reviewer v comment p), remove1 (i, reviewer, v, comment) pend, now)"
| gate: "db_now lk = now \<Longrightarrow>
    desk_step (p, pend, now) (snd (authorize_object lk clock user c perm n again cl comps cw p), pend, now)"

definition ended_by :: "instant \<Rightarrow> grant \<Rightarrow> bool" where
  "ended_by now g \<longleftrightarrow> gr_revoked_at g \<noteq> None \<or> gr_expires_at g \<le> now"

definition reviewed_properly :: "instant \<Rightarrow> grant \<Rightarrow> bool" where
  "reviewed_properly now g \<longleftrightarrow>
     ended_by now g \<and> (\<exists>r v. gr_reviewed_by g = Some r \<and> r \<noteq> gr_user g \<and> gr_outcome g = Some v \<and> v \<in> set outcomes)"

definition grant_ok :: "instant \<Rightarrow> event list \<Rightarrow> grant \<Rightarrow> bool" where
  "grant_ok now used g \<longleftrightarrow>
     gr_expires_at g \<le> gr_started_at g + max_duration \<and> min_justification < length (gr_justification g) \<and>
     gr_action_count g = length (filter (\<lambda>e. ev_object e = Some (gr_id g)) used) \<and>
     (gr_reviewed_at g \<noteq> None \<longrightarrow> reviewed_properly now g)"

definition pending_ok :: "grant list \<Rightarrow> uuid \<times> uuid \<times> string \<times> string option \<Rightarrow> bool" where
  "pending_ok gs q = (case q of (i, reviewer, v, comment) \<Rightarrow> v \<in> set outcomes \<and> (\<exists>g\<in>set gs. gr_id g = i \<and> gr_user g \<noteq> reviewer))"

definition desk_ok :: "desk \<Rightarrow> bool" where
  "desk_ok s = (case s of (p, pend, now) \<Rightarrow> case books p of (gs, used) \<Rightarrow>
     distinct (map gr_id gs) \<and> (\<forall>g\<in>set gs. grant_ok now used g) \<and>
     (\<forall>e\<in>set used. \<exists>g\<in>set gs. ev_object e = Some (gr_id g)) \<and> (\<forall>q\<in>set pend. pending_ok gs q))"

lemma grant_ok_later: "grant_ok now used g \<Longrightarrow> now \<le> now' \<Longrightarrow> grant_ok now' used g"
  by (auto simp: grant_ok_def reviewed_properly_def ended_by_def)

lemma desk_okI:
  assumes "books p = (gs, used)" "map gr_id gs = ids" "distinct ids" "\<And>g. g \<in> set gs \<Longrightarrow> grant_ok now used g"
    "\<And>e. e \<in> set used \<Longrightarrow> \<exists>g\<in>set gs. ev_object e = Some (gr_id g)" "\<And>q. q \<in> set pend \<Longrightarrow> pending_ok gs q"
  shows "desk_ok (p, pend, now)"
  using assms by (simp add: desk_ok_def)

lemma pending_ok_map:
  assumes "\<And>g. gr_id (f g) = gr_id g \<and> gr_user (f g) = gr_user g" "pending_ok gs q"
  shows "pending_ok (map f gs) q"
proof -
  obtain i reviewer v comment g where "q = (i, reviewer, v, comment)" "v \<in> set outcomes" "g \<in> set gs" "gr_id g = i" "gr_user g \<noteq> reviewer"
    using assms(2) by (auto simp: pending_ok_def)
  then show ?thesis using assms(1) [of g] by (auto simp: pending_ok_def intro!: bexI [of _ g])
qed

lemma desk_ok_map:
  assumes "desk_ok (p, pend, now)" "books p' = (map f (pf_grants p), snd (books p))"
    and "\<And>g. gr_id (f g) = gr_id g \<and> gr_user (f g) = gr_user g"
    and "\<And>g. g \<in> set (pf_grants p) \<Longrightarrow> grant_ok now (snd (books p)) g \<Longrightarrow> grant_ok now (snd (books p)) (f g)"
  shows "desk_ok (p', pend, now)"
proof -
  have ids: "map gr_id (map f (pf_grants p)) = map gr_id (pf_grants p)" using assms(3) by simp
  have "pending_ok (map f (pf_grants p)) q" if "pending_ok (pf_grants p) q" for q
    using assms(3) that by (rule pending_ok_map)
  moreover have "\<exists>g\<in>set (map f (pf_grants p)). ev_object e = Some (gr_id g)"
    if "\<exists>g\<in>set (pf_grants p). ev_object e = Some (gr_id g)" for e
    using that assms(3) by auto
  moreover have "distinct (map gr_id (pf_grants p))" "\<forall>g\<in>set (pf_grants p). grant_ok now (snd (books p)) g"
      "\<forall>e\<in>set (snd (books p)). \<exists>g\<in>set (pf_grants p). ev_object e = Some (gr_id g)" "\<forall>q\<in>set pend. pending_ok (pf_grants p) q"
    using assms(1) by (simp_all add: desk_ok_def books_def)
  ultimately show ?thesis
    using assms(4) ids by (simp add: desk_ok_def assms(2) del: map_map) blast
qed

lemma desk_ok_step:
  assumes "desk_step s s'" "desk_ok s"
  shows "desk_ok s'"
  using assms
proof (induction rule: desk_step.induct)
  case (time_passes now now' p pend)
  then show ?case by (auto simp: desk_ok_def dest: grant_ok_later split: prod.splits)
next
  case (elsewhere p' p pend now)
  then show ?case by (simp add: desk_ok_def)
next
  case (invoked p pend now clock i u c j l ps d)
  show ?case
  proof (cases rule: invoke_books [of clock i u c j l ps d p])
    case refused
    with invoked show ?thesis by (simp add: desk_ok_def)
  next
    case (granted g)
    let ?used = "snd (books p)"
    have old: "distinct (map gr_id (pf_grants p))" "\<forall>g\<in>set (pf_grants p). grant_ok now ?used g"
        "\<forall>e\<in>set ?used. \<exists>g\<in>set (pf_grants p). ev_object e = Some (gr_id g)" "\<forall>q\<in>set pend. pending_ok (pf_grants p) q"
      using invoked by (simp_all add: desk_ok_def books_def)
    have "filter (\<lambda>e. ev_object e = Some i) ?used = []"
      using old(3) granted(5) by (auto simp: filter_empty_conv)
    then have "grant_ok now ?used g"
      using granted(2,3) by (simp add: new_grant_def grant_ok_def max_duration_def min_justification_def)
    moreover have "pending_ok (pf_grants p @ [g]) q" if "pending_ok (pf_grants p) q" for q
      using that by (auto simp: pending_ok_def)
    ultimately show ?thesis using old granted(3,5) by (auto simp: desk_ok_def granted(1))
  qed
next
  case (ended lk now p pend i actor)
  show ?case
  proof (cases rule: revoke_books [of lk i actor p])
    case refused
    with ended show ?thesis by (simp add: desk_ok_def)
  next
    case revoked
    then show ?thesis unfolding update_where_def
      by (rule desk_ok_map [OF ended.prems]) (auto simp: revoked_row_def grant_ok_def reviewed_properly_def ended_by_def)
  qed
next
  case (review_begins clock i reviewer v p pend now comment)
  then have "pending_ok (pf_grants p) (i, reviewer, v, comment)"
    by (auto simp: review_check_def pending_ok_def grant_by_id_def dest!: find_in split: if_splits option.splits)
  with review_begins show ?case by (simp add: desk_ok_def books_def)
next
  case (review_ends i reviewer v comment pend lk now p)
  let ?pend = "remove1 (i, reviewer, v, comment) pend"
  have fewer: "desk_ok (p, ?pend, now)"
    using review_ends(3) set_remove1_subset [of "(i, reviewer, v, comment)" pend] by (auto simp: desk_ok_def)
  have "pending_ok (pf_grants p) (i, reviewer, v, comment)" and ids: "distinct (map gr_id (pf_grants p))"
    using review_ends by (auto simp: desk_ok_def books_def)
  then obtain g where g: "g \<in> set (pf_grants p)" "gr_id g = i" "gr_user g \<noteq> reviewer" and v: "v \<in> set outcomes"
    by (auto simp: pending_ok_def)
  have other: "gr_user h \<noteq> reviewer" if "h \<in> set (pf_grants p)" "gr_id h = i" for h
    using g ids that by (metis distinct_map inj_onD)
  show ?case
  proof (cases rule: review_books [of lk i reviewer v comment p])
    case refused
    with fewer show ?thesis by (simp add: desk_ok_def)
  next
    case reviewed
    then show ?thesis unfolding update_where_def
      by (rule desk_ok_map [OF fewer])
        (auto simp: reviewed_row_def reviewable_def grant_ok_def reviewed_properly_def ended_by_def review_ends(2) v dest: other)
  qed
next
  case (gate lk now p pend clock user c perm n again cl comps cw)
  show ?case
  proof (cases rule: authorize_books [of lk clock user c perm n again cl comps cw p])
    case same
    with gate show ?thesis by (simp add: desk_ok_def)
  next
    case (counted i g)
    have ids: "distinct (map gr_id (pf_grants p))" using gate by (simp add: desk_ok_def books_def)
    note after = counted(1) [unfolded count_books [OF ids counted(2,3)]]
    show ?thesis
    proof (cases "may_count lk p g")
      case False
      with after gate show ?thesis by (simp add: desk_ok_def)
    next
      case True
      let ?used = "snd (books p)" and ?e = "use_event (count_one (db_now lk) g) perm (Some c)"
      let ?f = "\<lambda>h. if gr_id h = i then count_one (db_now lk) h else h"
      have old: "\<forall>g\<in>set (pf_grants p). grant_ok now ?used g"
          "\<forall>e\<in>set ?used. \<exists>g\<in>set (pf_grants p). ev_object e = Some (gr_id g)" "\<forall>q\<in>set pend. pending_ok (pf_grants p) q"
        using gate by (simp_all add: desk_ok_def books_def)
      have e: "ev_object ?e = Some i" by (simp add: use_event_def counted(3))
      have unique: "h = g" if "h \<in> set (pf_grants p)" "gr_id h = i" for h
        using counted(2,3) ids that by (metis distinct_map inj_onD)
      have running: "gr_reviewed_at g = None"
        using old(1) counted(2,4) gate(1) by (auto simp: grant_ok_def reviewed_properly_def ended_by_def live_row_def)
      have rows: "grant_ok now (?used @ [?e]) (?f h)" if "h \<in> set (pf_grants p)" for h
      proof -
        have ok: "grant_ok now ?used h" using old(1) that by blast
        show ?thesis
        proof (cases "gr_id h = i")
          case True
          then have "h = g" by (rule unique [OF that])
          with ok running show ?thesis by (simp add: grant_ok_def e counted(3))
        next
          case False
          with ok show ?thesis by (simp add: grant_ok_def e)
        qed
      qed
      have waiting: "pending_ok (map ?f (pf_grants p)) q" if "pending_ok (pf_grants p) q" for q
        using _ that by (rule pending_ok_map) simp
      have named: "\<exists>g\<in>set (map ?f (pf_grants p)). ev_object e' = Some (gr_id g)"
        if e': "e' \<in> set (?used @ [?e])" for e'
      proof -
        obtain g' where "g' \<in> set (pf_grants p)" "ev_object e' = Some (gr_id g')"
          using e' old(2) e counted(2,3) by fastforce
        then show ?thesis by (intro bexI [of _ "?f g'"]) auto
      qed
      show ?thesis
      proof (rule desk_okI)
        show "books (snd (authorize_object lk clock user c perm n again cl comps cw p)) = (map ?f (pf_grants p), ?used @ [?e])"
          using after True by (simp add: books_def)
        show "map gr_id (map ?f (pf_grants p)) = map gr_id (pf_grants p)" by simp
        show "distinct (map gr_id (pf_grants p))" by (rule ids)
        show "grant_ok now (?used @ [?e]) h" if "h \<in> set (map ?f (pf_grants p))" for h
          using that rows unfolding set_map by blast
        show "\<exists>g\<in>set (map ?f (pf_grants p)). ev_object e' = Some (gr_id g)" if "e' \<in> set (?used @ [?e])" for e'
          using that by (rule named)
        show "pending_ok (map ?f (pf_grants p)) q" if "q \<in> set pend" for q
          using that old(3) by (intro waiting) blast
      qed
    qed
  qed
qed
lemma desk_ok_run: "desk_step\<^sup>*\<^sup>* s s' \<Longrightarrow> desk_ok s \<Longrightarrow> desk_ok s'"
  by (induction rule: rtranclp_induct) (auto intro: desk_ok_step)

lemma desk_ok_start: "books p = ([], []) \<Longrightarrow> desk_ok (p, [], now)"
  by (simp add: desk_ok_def)

section \<open>Properties\<close>

text \<open>C5: The books of break-glass agree. However invocations, revocations, reviews and requests follow one
  another from the empty table, every grant ends within eight hours of its start, its counter is the number of
  its rows in the ledger, and if it has been reviewed, then by somebody other than its invoker and after it had
  been revoked or had run out.\<close>

theorem emergency_books_agree:
  assumes "desk_step\<^sup>*\<^sup>* (p0, [], now0) (p, pend, now)" "books p0 = ([], [])" "g \<in> set (pf_grants p)"
  shows "gr_expires_at g \<le> gr_started_at g + hours 8 \<and>
    gr_action_count g = length (filter (\<lambda>e. is_use e \<and> ev_object e = Some (gr_id g)) (pf_trail p)) \<and>
    (gr_reviewed_at g \<noteq> None \<longrightarrow>
      (\<exists>r. gr_reviewed_by g = Some r \<and> r \<noteq> gr_user g) \<and> (gr_revoked_at g \<noteq> None \<or> gr_expires_at g \<le> now))"
proof -
  have "grant_ok now (filter is_use (pf_trail p)) g"
    using desk_ok_run [OF assms(1) desk_ok_start [OF assms(2)]] assms(3) by (simp add: desk_ok_def books_def)
  then show ?thesis
    by (auto simp: grant_ok_def max_duration_def reviewed_properly_def ended_by_def conj_commute)
qed

definition same_record :: "grant \<Rightarrow> grant \<Rightarrow> bool" where
  "same_record g h \<longleftrightarrow>
     gr_id h = gr_id g \<and> gr_user h = gr_user g \<and> gr_case h = gr_case g \<and> gr_justification h = gr_justification g \<and>
     gr_started_at h = gr_started_at g \<and> gr_expires_at h = gr_expires_at g \<and> gr_classification h = gr_classification g \<and>
     gr_used_at h = gr_used_at g \<and> gr_action_count h = gr_action_count g \<and> gr_reviewed_by h = gr_reviewed_by g \<and>
     gr_reviewed_at h = gr_reviewed_at g \<and> gr_outcome h = gr_outcome g"

lemma same_record_refl [simp]: "same_record g g"
  by (simp add: same_record_def)

lemma same_record_trans: "same_record g h \<Longrightarrow> same_record h k \<Longrightarrow> same_record g k"
  by (simp add: same_record_def)

lemma step_keeps_record:
  assumes "desk_step (p, pend, now) (p', pend', now')" "desk_ok (p, pend, now)" "g \<in> set (pf_grants p)" "gr_reviewed_at g \<noteq> None"
  shows "\<exists>h\<in>set (pf_grants p'). same_record g h"
proof -
  have ended: "\<not> live_row now g"
    using assms(2-4) by (auto simp: desk_ok_def books_def grant_ok_def reviewed_properly_def ended_by_def live_row_def)
  have ids: "distinct (map gr_id (pf_grants p))" using assms(2) by (simp add: desk_ok_def books_def)
  have kept: "\<exists>h\<in>set (pf_grants q). same_record g h" if "books q = (map f (pf_grants p), used)" "same_record g (f g)" for q f used
    using that assms(3) by (auto simp: books_def)
  have unchanged: "\<exists>h\<in>set (pf_grants q). same_record g h" if "books q = books p" for q
    using that assms(3) by (auto simp: books_def intro!: bexI [of _ g])
  from assms(1) show ?thesis
  proof cases
    case (invoked clock i u c j l ps d)
    then show ?thesis
      using invoke_books [of clock i u c j l ps d p] unchanged assms(3) same_record_refl
      by (metis (no_types, lifting) UnCI books_def fst_conv set_append)
  next
    case (ended lk i actor)
    show ?thesis
    proof (cases rule: revoke_books [of lk i actor p])
      case revoked
      then show ?thesis unfolding ended update_where_def by (rule kept) (simp add: same_record_def revoked_row_def)
    qed (simp add: ended unchanged)
  next
    case (review_ends i reviewer v comment lk)
    show ?thesis
    proof (cases rule: review_books [of lk i reviewer v comment p])
      case reviewed
      then show ?thesis unfolding review_ends update_where_def by (rule kept) (simp add: reviewable_def assms(4))
    qed (simp add: review_ends unchanged)
  next
    case (gate lk clock user c perm n again cl comps cw)
    show ?thesis
    proof (cases rule: authorize_books [of lk clock user c perm n again cl comps cw p])
      case (counted i k)
      have other: "gr_id g \<noteq> i"
        using counted(2-4) ended gate assms(3) ids by (metis distinct_map inj_onD)
      show ?thesis
      proof (cases "may_count lk p k")
        case True
        show ?thesis unfolding gate(1)
          by (rule kept [OF counted(1) [unfolded count_books [OF ids counted(2,3)] if_P [OF True]]]) (simp add: other)
      next
        case False
        show ?thesis unfolding gate(1)
          by (rule unchanged [OF counted(1) [unfolded count_books [OF ids counted(2,3)] if_not_P [OF False]]])
      qed
    qed (simp add: gate unchanged)
  qed (use unchanged assms(3) same_record_refl in auto)
qed

text \<open>C6: A review is final. What a reviewed grant says (who invoked it, why, for what, how often it was used, who
  reviewed it and with what verdict) is what it says after any further run: nothing is used under it any more
  and nobody reviews it again.\<close>

theorem review_is_final:
  assumes "desk_step\<^sup>*\<^sup>* (p0, [], now0) (p, pend, now)" "books p0 = ([], [])"
    and "g \<in> set (pf_grants p)" "gr_reviewed_at g \<noteq> None" "desk_step\<^sup>*\<^sup>* (p, pend, now) (p', pend', now')"
  shows "\<exists>h\<in>set (pf_grants p'). same_record g h"
proof -
  have "\<exists>h\<in>set (pf_grants (fst s)). same_record g h" if "desk_step\<^sup>*\<^sup>* (p, pend, now) s" for s
    using that
  proof (induction rule: rtranclp_induct)
    case base
    show ?case using assms(3) by (auto intro!: bexI [of _ g])
  next
    case (step s s')
    obtain h where h: "h \<in> set (pf_grants (fst s))" "same_record g h" using step.IH by blast
    obtain q pend1 now1 where s: "s = (q, pend1, now1)" by (cases s)
    obtain q' pend2 now2 where s': "s' = (q', pend2, now2)" by (cases s')
    have ok: "desk_ok (q, pend1, now1)"
      using desk_ok_run [OF rtranclp_trans [OF assms(1) step.hyps(1)] desk_ok_start [OF assms(2)]] s by simp
    have "gr_reviewed_at h \<noteq> None" using h(2) assms(4) by (simp add: same_record_def)
    from step_keeps_record [OF step.hyps(2) [unfolded s s'] ok _ this] h s s' show ?case
      by (auto intro: same_record_trans)
  qed
  from this [OF assms(5)] show ?thesis by simp
qed

text \<open>C8: The review can always be made. A grant that has ended on both clocks and was never reviewed accepts the
  verdict of anybody but its invoker; until then it stays in the queue.\<close>

theorem ended_grant_reviewable:
  assumes "platform_ok p" "g \<in> set (pf_grants p)" "gr_reviewed_at g = None" "ended_by (db_now lk) g" "ended_by clock g"
    and "reviewer \<noteq> gr_user g" "v \<in> set outcomes"
  shows "fst (review lk clock (gr_id g) reviewer v comment p) = Inr (reviewed_row (db_now lk) reviewer v g) \<and>
    (length (pf_grants p) \<le> limit \<longrightarrow> g \<in> set (unreviewed limit p))"
proof (intro conjI impI)
  have ids: "distinct (map gr_id (pf_grants p))" using assms(1) by (simp add: platform_ok_def)
  have unique: "h = g" if "h \<in> set (pf_grants p)" "gr_id h = gr_id g" for h
    using key_unique [OF ids that(1) assms(2) that(2)] .
  have "grant_by_id p (gr_id g) = Some g"
    unfolding grant_by_id_def by (rule find_unique [OF assms(2) _ unique]) simp_all
  moreover have "find (reviewable (db_now lk) (gr_id g)) (pf_grants p) = Some g"
    using assms(3,4) by (intro find_unique [OF assms(2) _ unique]) (auto simp: reviewable_def ended_by_def)
  ultimately show "fst (review lk clock (gr_id g) reviewer v comment p) = Inr (reviewed_row (db_now lk) reviewer v g)"
    using assms(3,5-7) by (auto simp: review_def review_check_def review_write_def is_live_def ended_by_def)
next
  assume "length (pf_grants p) \<le> limit"
  then have "length (filter awaiting_review (pf_grants p)) \<le> limit"
    by (meson length_filter_le order_trans)
  then show "g \<in> set (unreviewed limit p)" using assms(2,3) by (simp add: unreviewed_def awaiting_review_def)
qed

lemma invoke_allowed:
  "fst (invoke clock i u c j l ps d p) \<in> range Inr \<longleftrightarrow>
     20 < length (strip j) \<and> d \<le> hours 8 \<and>
     (\<exists>s. s \<noteq> u \<and> (s, ''SECURITY_OFFICER'') \<in> set (pf_user_roles p) \<and> is_active_user p s) \<and>
     (\<exists>level. db_level l = Inr level) \<and> (\<forall>g\<in>set (pf_grants p). gr_id g \<noteq> i) \<and>
     user_row_of p u \<noteq> None \<and> (\<forall>k. c = Some k \<longrightarrow> case_by_id p k \<noteq> None)"
proof -
  let ?officers = "filter (\<lambda>s. s \<noteq> u) (security_officers p)"
  have some: "?officers \<noteq> [] \<longleftrightarrow> (\<exists>s. s \<noteq> u \<and> (s, ''SECURITY_OFFICER'') \<in> set (pf_user_roles p) \<and> is_active_user p s)"
    by (auto simp: filter_empty_conv security_officers_def)
  have refusal: "invoke_refusal u (strip j) d p = None \<longleftrightarrow> 20 \<le> length (strip j) \<and> d \<le> hours 8 \<and> ?officers \<noteq> []"
    by (auto simp: invoke_refusal_def Let_def max_duration_def min_justification_def)
  have "fst (invoke clock i u c j l ps d p) \<in> range Inr \<longleftrightarrow> invoke_refusal u (strip j) d p = None \<and>
      (\<exists>level. db_level l = Inr level \<and> db_insert_grant (granted_row clock i u c (strip j) level ps d) p \<in> range Inr)"
    by (auto simp: invoke_def Let_def image_iff split: option.splits sum.splits)
  also have "\<dots> \<longleftrightarrow> 20 < length (strip j) \<and> d \<le> hours 8 \<and> ?officers \<noteq> [] \<and>
     (\<exists>level. db_level l = Inr level) \<and> (\<forall>g\<in>set (pf_grants p). gr_id g \<noteq> i) \<and>
     user_row_of p u \<noteq> None \<and> (\<forall>k. c = Some k \<longrightarrow> case_by_id p k \<noteq> None)"
    unfolding refusal by (auto simp: db_insert_grant_def granted_row_def list_ex_iff image_iff split: option.split)
  finally show ?thesis unfolding some .
qed

lemma invoke_alerts:
  assumes "fst (invoke clock i u c j l ps d p) = Inr (g, alerted)"
  shows "set alerted = {s. s \<noteq> u \<and> (s, ''SECURITY_OFFICER'') \<in> set (pf_user_roles p) \<and> is_active_user p s}"
proof -
  have "alerted = filter (\<lambda>s. s \<noteq> u) (security_officers p)"
    using assms unfolding invoke_def Let_def by (auto split: option.splits sum.splits)
  then show ?thesis by (auto simp: security_officers_def)
qed

text \<open>C7: When emergency access is granted: exactly when the stripped justification is longer than twenty
  characters, the duration at most eight hours, and somebody other than the invoker who is active holds
  SECURITY_OFFICER (and the identifier, the account and the case are good and the level is one). The officers
  alerted are all of those, and only those.\<close>

theorem invoke_exact:
  "(fst (invoke clock i u c j l ps d p) \<in> range Inr \<longleftrightarrow>
     20 < length (strip j) \<and> d \<le> hours 8 \<and>
     (\<exists>s. s \<noteq> u \<and> (s, ''SECURITY_OFFICER'') \<in> set (pf_user_roles p) \<and> is_active_user p s) \<and>
     (\<exists>level. db_level l = Inr level) \<and> (\<forall>g\<in>set (pf_grants p). gr_id g \<noteq> i) \<and>
     user_row_of p u \<noteq> None \<and> (\<forall>k. c = Some k \<longrightarrow> case_by_id p k \<noteq> None)) \<and>
   (\<forall>g alerted. fst (invoke clock i u c j l ps d p) = Inr (g, alerted) \<longrightarrow>
     set alerted = {s. s \<noteq> u \<and> (s, ''SECURITY_OFFICER'') \<in> set (pf_user_roles p) \<and> is_active_user p s})"
  using invoke_allowed [of clock i u c j l ps d p] invoke_alerts [of clock i u c j l ps d p] by blast

section \<open>Two edges\<close>

text \<open>A justification of exactly twenty characters passes the service and is refused by the table.\<close>

theorem twenty_characters_crash:
  assumes "length (strip j) = 20" "invoke_refusal u (strip j) d p = None" "db_level l = Inr level"
  shows "fst (invoke clock i u c j l ps d p) = Inl (GrantDatabaseError DbCheck)"
  using assms by (simp add: invoke_def db_insert_grant_def granted_row_def Let_def)

text \<open>A grant that ran out and was reviewed can still be revoked: the statement asks only that it was not revoked
  before, where the refusal speaks of a live grant.\<close>

theorem reviewed_grant_still_revocable:
  assumes "platform_ok p" "g \<in> set (pf_grants p)" "gr_revoked_at g = None" "user_row_of p actor \<noteq> None"
  shows "fst (revoke_grant lk (gr_id g) actor p) = Inr (revoked_row (db_now lk) actor g)"
proof -
  have ids: "distinct (map gr_id (pf_grants p))" using assms(1) by (simp add: platform_ok_def)
  have "find (\<lambda>h. gr_id h = gr_id g \<and> gr_revoked_at h = None) (pf_grants p) = Some g"
    by (rule find_unique [OF assms(2)]) (use assms(2,3) key_unique [OF ids _ assms(2)] in auto)
  then show ?thesis using assms(4) by (auto simp: revoke_grant_def)
qed

section \<open>One emergency from start to end\<close>

definition quiet_platform :: platform where
  "quiet_platform = demo_platform\<lparr>pf_grants := []\<rparr>"

definition demo_reason :: string where
  "demo_reason = ''an incident is under way''"

definition invoked_platform :: platform where
  "invoked_platform = snd (invoke 0 30 4 (Some 10) demo_reason (Some ''RED'') [] (hours 2) quiet_platform)"

definition used_platform :: platform where
  "used_platform = snd (authorize_object (demo_link 5) 5 (demo_current 4) 10 ''case.read'' True False (Some ''AMBER'') {} False invoked_platform)"

definition reviewed_platform :: platform where
  "reviewed_platform = snd (review_write (demo_link (hours 3)) 30 3 ''JUSTIFIED'' None used_platform)"

definition demo_reviewed :: grant where
  "demo_reviewed = \<lparr>gr_id = 30, gr_user = 4, gr_case = Some 10, gr_justification = demo_reason,
     gr_started_at = 0, gr_expires_at = hours 2, gr_classification = Some RED, gr_permissions = [], gr_used_at = Some 5,
     gr_action_count = 1, gr_revoked_at = None, gr_revoked_by = None, gr_reviewed_by = Some 3, gr_reviewed_at = Some (hours 3),
     gr_outcome = Some ''JUSTIFIED''\<rparr>"

lemma quiet_books: "books quiet_platform = ([], [])"
  by (simp add: quiet_platform_def books_def demo_platform_def)

lemma reviewed_grants: "pf_grants reviewed_platform = [demo_reviewed]"
  by code_simp

lemma demo_review_check: "review_check (hours 3) 30 3 ''JUSTIFIED'' used_platform = None"
  by code_simp

lemma demo_run: "desk_step\<^sup>*\<^sup>* (quiet_platform, [], 5) (reviewed_platform, [], hours 3)"
proof -
  let ?q = "(30, 3, ''JUSTIFIED'', None)"
  have "desk_step\<^sup>*\<^sup>* (quiet_platform, [], 5) (invoked_platform, [], 5)"
    unfolding invoked_platform_def by (rule r_into_rtranclp, rule invoked)
  also have "desk_step (invoked_platform, [], 5) (used_platform, [], 5)"
    unfolding used_platform_def by (rule gate) (simp add: demo_link_def)
  also have "desk_step (used_platform, [], 5) (used_platform, [], hours 3)" by (rule time_passes) simp
  also have "desk_step (used_platform, [], hours 3) (used_platform, [?q], hours 3)" by (rule review_begins [OF demo_review_check])
  also have "desk_step (used_platform, [?q], hours 3) (reviewed_platform, [], hours 3)"
    using review_ends [of 30 3 "''JUSTIFIED''" None "[?q]" "demo_link (hours 3)" "hours 3" used_platform]
    by (simp add: reviewed_platform_def demo_link_def)
  finally show ?thesis .
qed

theorem emergency_books_agree_witness:
  "gr_action_count demo_reviewed = length (filter (\<lambda>e. is_use e \<and> ev_object e = Some 30) (pf_trail reviewed_platform))"
  using emergency_books_agree [OF demo_run quiet_books, of demo_reviewed]
  by (simp add: reviewed_grants demo_reviewed_def)

theorem review_is_final_witness:
  "\<exists>h\<in>set (pf_grants (snd (authorize_object (demo_link (hours 3)) 5 (demo_current 4) 10 ''case.read'' True False (Some ''AMBER'') {} False
      reviewed_platform))). same_record demo_reviewed h"
proof (rule review_is_final [OF demo_run quiet_books])
  show "demo_reviewed \<in> set (pf_grants reviewed_platform)" by (simp add: reviewed_grants)
  show "gr_reviewed_at demo_reviewed \<noteq> None" by (simp add: demo_reviewed_def)
  show "desk_step\<^sup>*\<^sup>* (reviewed_platform, [], hours 3) (snd (authorize_object (demo_link (hours 3)) 5 (demo_current 4) 10 ''case.read''
      True False (Some ''AMBER'') {} False reviewed_platform), [], hours 3)"
    by (rule r_into_rtranclp, rule gate) (simp add: demo_link_def)
qed

theorem ended_grant_reviewable_witness:
  "fst (review (demo_link (hours 3)) (hours 4) 30 3 ''JUSTIFIED'' None demo_platform) =
     Inr (reviewed_row (hours 3) 3 ''JUSTIFIED'' demo_grant)"
  using ended_grant_reviewable [OF demo_platform_ok, of demo_grant "demo_link (hours 3)" "hours 4" 3 "''JUSTIFIED''" None]
  by (simp add: demo_platform_def demo_grant_def demo_link_def ended_by_def outcomes_def)

theorem invoke_exact_witness:
  "set [3] = {s. s \<noteq> 4 \<and> (s, ''SECURITY_OFFICER'') \<in> set (pf_user_roles quiet_platform) \<and> is_active_user quiet_platform s}"
proof (rule invoke_exact [THEN conjunct2, rule_format])
  show "fst (invoke 0 30 4 (Some 10) demo_reason (Some ''RED'') [] (hours 2) quiet_platform) =
      Inr (granted_row 0 30 4 (Some 10) demo_reason (Some RED) [] (hours 2), [3])"
    by code_simp
qed

end
