(* ===== verification/Cases.thy ===== *)
theory Cases
  imports BreakGlass
begin

text \<open>
  Cases, \<open>cases.py\<close> and \<open>http/routers/cases.py\<close>: their creation with the owner's assignment, the edits of
  their record, their lifecycle, and who is assigned to them. The services raise, so they answer an error or
  the new tables; the routes add their own refusals and the audit rows a refusal leaves.

  A handler is the composition of its reads and its writes, each a definition of its own. Composed as here it serves a
  request alone; theory \<open>CaseRequests\<close> interleaves the pieces of many requests, as the autocommit connections do.

  A date is a day number; an instant's date is taken in UTC. Every end of an assignment is an instant (a body
  without an offset is refused before this). The changed fields of an edit stand directly in the detail of its
  audit row, without the enclosing key. The lock of the exhibits that follows an extended retention
  (\<open>_extend_exhibit_locks\<close>) is in the object store and is not modelled.
\<close>

section \<open>The lifecycle\<close>

fun transitions :: "case_status \<Rightarrow> case_status list" where
  "transitions DRAFT = [ACTIVE, ARCHIVED]"
| "transitions ACTIVE = [DORMANT, CLOSED]"
| "transitions DORMANT = [ACTIVE, CLOSED]"
| "transitions CLOSED = [ACTIVE, ARCHIVED]"
| "transitions ARCHIVED = [PURGED]"
| "transitions PURGED = []"

definition lifecycle_order :: "case_status list" where
  "lifecycle_order = [DRAFT, ACTIVE, DORMANT, CLOSED, ARCHIVED, PURGED]"

definition allowed_transitions :: "case_status \<Rightarrow> case_status list" where
  "allowed_transitions s = filter (\<lambda>t. t \<in> set (transitions s)) lifecycle_order"

section \<open>Errors\<close>

definition single_case_roles :: "string set" where
  "single_case_roles = {''LIAISON''}"

text \<open>
  \<open>RawDatabaseError\<close> and \<open>LabelKeyError\<close> are the errors no \<open>CaseError\<close> wraps: an error of the driver, and the
  \<open>KeyError\<close> of \<open>Tlp[classification]\<close>.
\<close>

datatype case_error =
    NoLawfulBasis
  | ReviewAfterRetention
  | HolderNotFound string uuid
  | ClearanceBelow string tlp string
  | Unregistered "string list"
  | NotReadInto string "string list"
  | CodeInUse string
  | CaseDatabaseError db_failure
  | CaseNotFound uuid
  | IllegalTransition case_status string
  | RoleHeldOnAnotherCase string
  | CannotRevokeOwner
  | NoSuchAssignment
  | LabelKeyError string
  | RawDatabaseError db_failure

definition first_error :: "'e option list \<Rightarrow> 'e option" where
  "first_error es = (case List.map_filter id es of [] \<Rightarrow> None | e # _ \<Rightarrow> Some e)"

definition case_event :: "string \<Rightarrow> uuid \<Rightarrow> uuid \<Rightarrow> (string \<times> detail_value) list \<Rightarrow> event" where
  "case_event action actor c d =
     \<lparr>ev_actor = Some actor, ev_action = action, ev_object_type = ''case'', ev_object = Some c, ev_case = Some c,
      ev_denied = False, ev_detail = d\<rparr>"

section \<open>Who may hold a case\<close>

definition require_clearance :: "uuid \<Rightarrow> string \<Rightarrow> string \<Rightarrow> platform \<Rightarrow> case_error option" where
  "require_clearance u classification who p =
     (case user_row_of p u of
        None \<Rightarrow> Some (HolderNotFound who u)
      | Some r \<Rightarrow>
        (case tlp_from_name classification of
           Inl _ \<Rightarrow> Some (LabelKeyError classification)
         | Inr l \<Rightarrow> if ur_clearance r < l then Some (ClearanceBelow who (ur_clearance r) classification) else None))"

definition require_registered :: "string list \<Rightarrow> platform \<Rightarrow> case_error option" where
  "require_registered keys p =
     (let unknown = sort (remdups (filter (\<lambda>k. \<not> registered p k) keys))
      in if unknown = [] then None else Some (Unregistered unknown))"

definition require_compartments :: "uuid \<Rightarrow> string list \<Rightarrow> string \<Rightarrow> platform \<Rightarrow> case_error option" where
  "require_compartments u keys who p =
     (case user_row_of p u of
        None \<Rightarrow> Some (HolderNotFound who u)
      | Some r \<Rightarrow>
        let missing = sort (remdups (filter (\<lambda>k. k \<notin> set (ur_compartments r)) keys))
        in if missing = [] then None else Some (NotReadInto who missing))"

section \<open>Assignments\<close>

definition held_elsewhere :: "instant \<Rightarrow> uuid \<Rightarrow> uuid \<Rightarrow> string \<Rightarrow> platform \<Rightarrow> bool" where
  "held_elsewhere now c u role p =
     list_ex (\<lambda>a. as_user a = u \<and> as_role a = role \<and> as_case a \<noteq> c \<and> unexpired now a) (pf_assignments p)"

text \<open>\<open>ON CONFLICT (case_id, user_id) DO UPDATE\<close>: an omitted expiry keeps the one in place.\<close>

definition regraded :: "instant \<Rightarrow> string \<Rightarrow> uuid \<Rightarrow> instant option \<Rightarrow> assignment \<Rightarrow> assignment" where
  "regraded now role by expires a =
     a\<lparr>as_role := role, as_granted_by := by,
       as_expires_at := (case expires of None \<Rightarrow> as_expires_at a | Some t \<Rightarrow> Some t), as_granted_at := now\<rparr>"

definition upsert_assignment ::
    "instant \<Rightarrow> uuid \<Rightarrow> uuid \<Rightarrow> string \<Rightarrow> uuid \<Rightarrow> instant option \<Rightarrow> assignment list \<Rightarrow> assignment list" where
  "upsert_assignment now c u role by expires as =
     (if list_ex (\<lambda>a. as_case a = c \<and> as_user a = u) as
      then update_where (\<lambda>a. as_case a = c \<and> as_user a = u) (regraded now role by expires) as
      else as @ [\<lparr>as_case = c, as_user = u, as_role = role, as_granted_by = by, as_granted_at = now, as_expires_at = expires\<rparr>])"

definition grant_on_case ::
    "instant \<Rightarrow> uuid \<Rightarrow> uuid \<Rightarrow> string \<Rightarrow> uuid \<Rightarrow> instant option \<Rightarrow> platform \<Rightarrow> case_error + platform" where
  "grant_on_case now c u role by expires p =
     (if role \<in> single_case_roles \<and> held_elsewhere now c u role p then Inl (RoleHeldOnAnotherCase role)
      else if case_by_id p c = None \<or> user_row_of p u = None \<or> role \<notin> set (pf_roles p) then Inl (RawDatabaseError DbForeignKey)
      else Inr (p\<lparr>pf_assignments := upsert_assignment now c u role by expires (pf_assignments p)\<rparr>))"

definition assign_user ::
    "instant \<Rightarrow> uuid \<Rightarrow> uuid \<Rightarrow> string \<Rightarrow> uuid \<Rightarrow> instant option \<Rightarrow> platform \<Rightarrow> case_error + platform" where
  "assign_user now c u role by expires p =
     map_sum id (log_event (case_event ''CASE_ACCESS_GRANTED'' by c [(''user_id'', NUuid u), (''role'', NText role)]))
       (grant_on_case now c u role by expires p)"

text \<open>The reads of \<open>assign_user_checked\<close>, before \<open>assign_user\<close>.\<close>

definition assignee_refusal :: "uuid \<Rightarrow> uuid \<Rightarrow> platform \<Rightarrow> case_error option" where
  "assignee_refusal c u p =
     (case case_by_id p c of
        None \<Rightarrow> Some (CaseNotFound c)
      | Some k \<Rightarrow> first_error [require_clearance u (tlp_name (cs_classification k)) ''assignee'' p,
                           require_compartments u (cs_compartments k) ''assignee'' p])"

definition assign_user_checked ::
    "instant \<Rightarrow> uuid \<Rightarrow> uuid \<Rightarrow> string \<Rightarrow> uuid \<Rightarrow> instant option \<Rightarrow> platform \<Rightarrow> case_error + platform" where
  "assign_user_checked now c u role by expires p =
     (case assignee_refusal c u p of
        Some e \<Rightarrow> Inl e
      | None \<Rightarrow> assign_user now c u role by expires p)"

text \<open>\<open>revoke_user\<close> reads the owner, and deletes in a transaction of its own.\<close>

definition revoke_refusal :: "uuid \<Rightarrow> uuid \<Rightarrow> platform \<Rightarrow> case_error option" where
  "revoke_refusal c u p = (if map_option cs_owner (case_by_id p c) = Some u then Some CannotRevokeOwner else None)"

definition delete_assignment :: "uuid \<Rightarrow> uuid \<Rightarrow> uuid \<Rightarrow> platform \<Rightarrow> case_error + platform" where
  "delete_assignment c u by p =
     (if assignment_of p c u = None then Inl NoSuchAssignment
      else Inr (log_event (case_event ''CASE_ACCESS_REVOKED'' by c [(''user_id'', NUuid u)])
        (p\<lparr>pf_assignments := filter (\<lambda>a. \<not> (as_case a = c \<and> as_user a = u)) (pf_assignments p)\<rparr>)))"

definition revoke_user :: "uuid \<Rightarrow> uuid \<Rightarrow> uuid \<Rightarrow> platform \<Rightarrow> case_error + platform" where
  "revoke_user c u by p = (case revoke_refusal c u p of Some e \<Rightarrow> Inl e | None \<Rightarrow> delete_assignment c u by p)"

section \<open>Creating and editing\<close>

record new_case =
  nc_code :: string
  nc_title :: string
  nc_legal_basis :: string
  nc_retention_until :: int
  nc_review_due :: int
  nc_owner :: uuid
  nc_created_by :: uuid
  nc_classification :: string
  nc_compartments :: "string list"
  nc_summary :: "string option"
  nc_authority_ref :: "string option"
  nc_deputy :: "uuid option"

definition date_of :: "instant \<Rightarrow> int" where
  "date_of t = t div days 1"

definition create_refusal :: "new_case \<Rightarrow> platform \<Rightarrow> case_error option" where
  "create_refusal n p =
     first_error
      ([if strip (nc_legal_basis n) = [] then Some NoLawfulBasis else None,
        if nc_retention_until n < nc_review_due n then Some ReviewAfterRetention else None,
        require_clearance (nc_owner n) (nc_classification n) ''owner'' p] @
       (case nc_deputy n of None \<Rightarrow> [] | Some d \<Rightarrow> [require_clearance d (nc_classification n) ''deputy'' p]) @
       [require_registered (nc_compartments n) p,
        require_compartments (nc_owner n) (nc_compartments n) ''owner'' p] @
       (case nc_deputy n of None \<Rightarrow> [] | Some d \<Rightarrow> [require_compartments d (nc_compartments n) ''deputy'' p]))"

text \<open>
  The insert with the constraints of \<open>core."case"\<close> (migrations 0004, 0014 and 0059): the keys, the retention
  after the day of creation, the accounts and the registered compartments.
\<close>

definition case_draft :: "instant \<Rightarrow> uuid \<Rightarrow> tlp \<Rightarrow> new_case \<Rightarrow> case_row" where
  "case_draft now i l n =
     \<lparr>cs_id = i, cs_code = nc_code n, cs_title = nc_title n, cs_summary = nc_summary n,
      cs_status = DRAFT, cs_classification = l, cs_compartments = nc_compartments n, cs_owner = nc_owner n,
      cs_deputy = nc_deputy n, cs_legal_basis = nc_legal_basis n, cs_authority_ref = nc_authority_ref n,
      cs_retention_until = nc_retention_until n, cs_review_due = nc_review_due n, cs_created_at = now,
      cs_closed_at = None, cs_legal_hold = False, cs_legal_hold_reason = None\<rparr>"

definition db_insert_case :: "instant \<Rightarrow> uuid \<Rightarrow> new_case \<Rightarrow> platform \<Rightarrow> db_failure + platform" where
  "db_insert_case now i n p =
     (case tlp_from_name (nc_classification n) of
        Inl _ \<Rightarrow> Inl DbInvalidText
      | Inr l \<Rightarrow>
        if \<not> list_all (registered p) (nc_compartments n) then Inl DbRaised
        else if nc_retention_until n \<le> date_of now then Inl DbCheck
        else if list_ex (\<lambda>k. cs_id k = i \<or> cs_code k = nc_code n) (pf_cases p) then Inl DbUnique
        else if user_row_of p (nc_owner n) = None \<or> (case nc_deputy n of None \<Rightarrow> False | Some d \<Rightarrow> user_row_of p d = None)
          then Inl DbForeignKey
        else Inr (p\<lparr>pf_cases := pf_cases p @ [case_draft now i l n]\<rparr>))"

text \<open>The transaction of \<open>create\<close>: any error of the driver becomes a \<open>CaseError\<close>.\<close>

definition wrapped :: "string \<Rightarrow> case_error \<Rightarrow> case_error" where
  "wrapped code e =
     (case e of RawDatabaseError DbUnique \<Rightarrow> CodeInUse code | RawDatabaseError d \<Rightarrow> CaseDatabaseError d | _ \<Rightarrow> e)"

definition insert_case :: "instant \<Rightarrow> uuid \<Rightarrow> new_case \<Rightarrow> platform \<Rightarrow> case_error + platform" where
  "insert_case now i n p =
     (case db_insert_case now i n p of
        Inl d \<Rightarrow> Inl (wrapped (nc_code n) (RawDatabaseError d))
      | Inr p1 \<Rightarrow>
        (case grant_on_case now i (nc_owner n) ''CASE_OWNER'' (nc_created_by n) None p1 of
           Inl e \<Rightarrow> Inl (wrapped (nc_code n) e)
         | Inr p2 \<Rightarrow>
           (case (case nc_deputy n of None \<Rightarrow> Inr p2
                  | Some d \<Rightarrow> grant_on_case now i d ''CASE_OWNER'' (nc_created_by n) None p2) of
              Inl e \<Rightarrow> Inl (wrapped (nc_code n) e)
            | Inr p3 \<Rightarrow> Inr (log_event (case_event ''CASE_CREATED'' (nc_created_by n) i
                [(''code'', NText (nc_code n)), (''classification'', NText (nc_classification n))]) p3))))"

definition create_case :: "instant \<Rightarrow> uuid \<Rightarrow> new_case \<Rightarrow> platform \<Rightarrow> case_error + platform" where
  "create_case now i n p = (case create_refusal n p of Some e \<Rightarrow> Inl e | None \<Rightarrow> insert_case now i n p)"

record case_edit =
  ed_title :: "string option"
  ed_summary :: "string option"
  ed_authority_ref :: "string option"
  ed_review_due :: "int option"
  ed_retention_until :: "int option"
  ed_classification :: "string option"

definition orelse :: "'a option \<Rightarrow> 'a \<Rightarrow> 'a" where
  "orelse o' d = (case o' of None \<Rightarrow> d | Some x \<Rightarrow> x)"

definition changed_fields :: "case_edit \<Rightarrow> (string \<times> detail_value) list" where
  "changed_fields e = List.map_filter id
     [map_option (\<lambda>v. (''title'', NText v)) (ed_title e), map_option (\<lambda>v. (''summary'', NText v)) (ed_summary e),
      map_option (\<lambda>v. (''authority_ref'', NText v)) (ed_authority_ref e),
      map_option (\<lambda>v. (''review_due'', NInt v)) (ed_review_due e),
      map_option (\<lambda>v. (''retention_until'', NInt v)) (ed_retention_until e),
      map_option (\<lambda>v. (''classification'', NText v)) (ed_classification e)]"

definition edited :: "case_edit \<Rightarrow> tlp option \<Rightarrow> case_row \<Rightarrow> case_row" where
  "edited e l k =
     k\<lparr>cs_title := orelse (ed_title e) (cs_title k),
       cs_summary := (case ed_summary e of None \<Rightarrow> cs_summary k | Some v \<Rightarrow> Some v),
       cs_authority_ref := (case ed_authority_ref e of None \<Rightarrow> cs_authority_ref k | Some v \<Rightarrow> Some v),
       cs_review_due := orelse (ed_review_due e) (cs_review_due k),
       cs_retention_until := orelse (ed_retention_until e) (cs_retention_until k),
       cs_classification := orelse l (cs_classification k)\<rparr>"

text \<open>
  The service reads the row and checks, then writes the columns given in a transaction that names the row by its id
  alone: between the two statements another request may have written. The constraint is on the row as it is then.
\<close>

definition metadata_refusal :: "case_edit \<Rightarrow> case_row \<Rightarrow> case_error option" where
  "metadata_refusal e k =
     (if orelse (ed_retention_until e) (cs_retention_until k) < orelse (ed_review_due e) (cs_review_due k)
      then Some ReviewAfterRetention else None)"

definition write_metadata :: "uuid \<Rightarrow> uuid \<Rightarrow> case_edit \<Rightarrow> platform \<Rightarrow> case_error + platform" where
  "write_metadata c by e p =
     (if changed_fields e = [] then Inr p
      else (case (case ed_classification e of None \<Rightarrow> Inr None | Some n \<Rightarrow> map_sum id Some (tlp_from_name n)) of
              Inl _ \<Rightarrow> Inl (RawDatabaseError DbInvalidText)
            | Inr l \<Rightarrow>
              let ks = update_where (\<lambda>k. cs_id k = c) (edited e l) (pf_cases p)
              in if list_ex (\<lambda>k. cs_id k = c \<and> cs_retention_until k \<le> date_of (cs_created_at k)) ks
                 then Inl (RawDatabaseError DbCheck)
                 else Inr (log_event (case_event ''CASE_UPDATED'' by c (changed_fields e)) (p\<lparr>pf_cases := ks\<rparr>))))"

definition update_metadata :: "uuid \<Rightarrow> uuid \<Rightarrow> case_edit \<Rightarrow> platform \<Rightarrow> case_error + platform" where
  "update_metadata c by e p =
     (case case_by_id p c of
        None \<Rightarrow> Inl (CaseNotFound c)
      | Some k \<Rightarrow> (case metadata_refusal e k of Some err \<Rightarrow> Inl err | None \<Rightarrow> write_metadata c by e p))"

definition moved :: "instant \<Rightarrow> case_status \<Rightarrow> case_row \<Rightarrow> case_row" where
  "moved now s k = k\<lparr>cs_status := s, cs_closed_at := (if s = CLOSED then Some now else cs_closed_at k)\<rparr>"

definition next_status :: "case_row \<Rightarrow> string \<Rightarrow> case_error + case_status" where
  "next_status k new_status =
     (case find (\<lambda>s. status_name s = new_status) (transitions (cs_status k)) of
        None \<Rightarrow> Inl (IllegalTransition (cs_status k) new_status)
      | Some s \<Rightarrow> Inr s)"

text \<open>The write does not ask what the status is by now; its audit row tells the status that was read.\<close>

definition write_status :: "instant \<Rightarrow> uuid \<Rightarrow> case_status \<Rightarrow> case_status \<Rightarrow> uuid \<Rightarrow> platform \<Rightarrow> platform" where
  "write_status now c was s actor p =
     log_event (case_event ''CASE_STATUS_CHANGED'' actor c [(''from'', NText (status_name was)), (''to'', NText (status_name s))])
       (p\<lparr>pf_cases := update_where (\<lambda>k. cs_id k = c) (moved now s) (pf_cases p)\<rparr>)"

definition transition_status :: "instant \<Rightarrow> uuid \<Rightarrow> string \<Rightarrow> uuid \<Rightarrow> platform \<Rightarrow> case_error + platform" where
  "transition_status now c new_status actor p =
     (case case_by_id p c of
        None \<Rightarrow> Inl (CaseNotFound c)
      | Some k \<Rightarrow> (case next_status k new_status of Inl e \<Rightarrow> Inl e | Inr s \<Rightarrow> Inr (write_status now c (cs_status k) s actor p)))"

section \<open>The routes\<close>

datatype route_error =
    GateRefused problem
  | CaseDoesNotExist
  | PurgedRecord
  | ShortensRetention
  | UnknownLabel string
  | LowersLabel
  | LabelAboveClearance
  | NothingToChange
  | NameExactlyOne
  | ExpiryInPast
  | UnknownRole string
  | RoleGrantsNothing string
  | GrantMustEnd string
  | NoActiveAccount
  | NoSuchUser
  | AccountDeactivated
  | OwnsTheCase
  | CannotBeGiven
  | CouldNotOpen
  | NotOnThisCase
  | ServiceRefused case_error

text \<open>\<open>require(permission)\<close> on a case route, before the handler.\<close>

definition behind ::
    "link \<Rightarrow> instant \<Rightarrow> current_user \<Rightarrow> uuid \<Rightarrow> string \<Rightarrow> (platform \<Rightarrow> (route_error + 'a) \<times> platform) \<Rightarrow> platform \<Rightarrow>
     (route_error + 'a) \<times> platform" where
  "behind lk clock user c perm handler p =
     (case authorize_object lk clock user c perm True False None {} False p of
        (Inl e, p') \<Rightarrow> (Inl (GateRefused e), p')
      | (Inr (), p') \<Rightarrow> handler p')"

definition served :: "case_error + platform \<Rightarrow> platform \<Rightarrow> (route_error + unit) \<times> platform" where
  "served r p = (case r of Inl e \<Rightarrow> (Inl (ServiceRefused e), p) | Inr p' \<Rightarrow> (Inr (), p'))"

text \<open>The route makes the caller the owner, and names no deputy.\<close>

definition own_new_case :: "current_user \<Rightarrow> new_case \<Rightarrow> new_case" where
  "own_new_case user n = n\<lparr>nc_owner := cu_user user, nc_created_by := cu_user user, nc_deputy := None\<rparr>"

definition create_case_route :: "instant \<Rightarrow> instant \<Rightarrow> uuid \<Rightarrow> current_user \<Rightarrow> new_case \<Rightarrow> platform \<Rightarrow> (route_error + unit) \<times> platform" where
  "create_case_route now clock i user n p =
     (case require_global clock user ''case.create'' p of
        (Inl e, p') \<Rightarrow> (Inl (GateRefused e), p')
      | (Inr (), p') \<Rightarrow> served (create_case now i (own_new_case user n) p') p')"

text \<open>The live assignees a raise of the label locks out.\<close>

definition assignees_below :: "instant \<Rightarrow> uuid \<Rightarrow> tlp \<Rightarrow> platform \<Rightarrow> uuid list" where
  "assignees_below now c l p =
     List.map_filter (\<lambda>a. case user_row_of p (as_user a) of
         None \<Rightarrow> None
       | Some r \<Rightarrow> if as_case a = c \<and> unexpired now a \<and> ur_is_active r \<and> ur_clearance r < l then Some (ur_id r) else None)
       (pf_assignments p)"

definition nothing_supplied :: "case_edit \<Rightarrow> bool" where
  "nothing_supplied e \<longleftrightarrow>
     ed_title e = None \<and> ed_summary e = None \<and> ed_authority_ref e = None \<and> ed_review_due e = None \<and>
     ed_retention_until e = None \<and> ed_classification e = None"

text \<open>The body after the label was looked at, and who loses access.\<close>

definition label_edit ::
    "instant \<Rightarrow> current_user \<Rightarrow> uuid \<Rightarrow> case_row \<Rightarrow> case_edit \<Rightarrow> platform \<Rightarrow> route_error + case_edit \<times> uuid list" where
  "label_edit now user c k e p =
     (case ed_classification e of
        None \<Rightarrow> Inr (e, [])
      | Some n \<Rightarrow>
        (case tlp_from_name n of
           Inl _ \<Rightarrow> Inl (UnknownLabel n)
         | Inr l \<Rightarrow>
             if l < cs_classification k then Inl LowersLabel
             else if l = cs_classification k then Inr (e\<lparr>ed_classification := None\<rparr>, [])
             else if \<not> writable_labels now user l {} p then Inl LabelAboveClearance
             else Inr (e, assignees_below now c l p)))"

text \<open>What the handler reads and refuses before it calls the service.\<close>

definition edit_checked ::
    "instant \<Rightarrow> current_user \<Rightarrow> uuid \<Rightarrow> case_edit \<Rightarrow> platform \<Rightarrow> route_error + case_edit \<times> uuid list" where
  "edit_checked now user c e p =
     (case case_by_id p c of
        None \<Rightarrow> Inl CaseDoesNotExist
      | Some k \<Rightarrow>
        if cs_status k = PURGED then Inl PurgedRecord
        else if (case ed_retention_until e of None \<Rightarrow> False | Some d \<Rightarrow> d < cs_retention_until k) then Inl ShortensRetention
        else (case label_edit now user c k e p of
                Inl err \<Rightarrow> Inl err
              | Inr (e', access_lost) \<Rightarrow> if nothing_supplied e' then Inl NothingToChange else Inr (e', access_lost)))"

definition update_case ::
    "instant \<Rightarrow> current_user \<Rightarrow> uuid \<Rightarrow> case_edit \<Rightarrow> platform \<Rightarrow> (route_error + uuid list) \<times> platform" where
  "update_case now user c e p =
     (case edit_checked now user c e p of
        Inl err \<Rightarrow> (Inl err, p)
      | Inr (e', access_lost) \<Rightarrow>
        (case update_metadata c (cu_user user) e' p of
           Inl err \<Rightarrow> (Inl (ServiceRefused err), p)
         | Inr p' \<Rightarrow> (Inr access_lost, p')))"

definition update_case_route ::
    "link \<Rightarrow> instant \<Rightarrow> current_user \<Rightarrow> uuid \<Rightarrow> case_edit \<Rightarrow> platform \<Rightarrow> (route_error + uuid list) \<times> platform" where
  "update_case_route lk clock user c e = behind lk clock user c ''case.update'' (update_case (db_now lk) user c e)"

definition time_boxed_roles :: "string set" where
  "time_boxed_roles = {''LIAISON''}"

definition share_refused :: "current_user \<Rightarrow> uuid \<Rightarrow> string \<Rightarrow> string \<Rightarrow> platform \<Rightarrow> platform" where
  "share_refused user c email reason =
     log_event (auth_refusal ''CASE_SHARE_REFUSED'' (Some (cu_user user)) (Some c)
       [(''by'', NText ''email''), (''email'', NText (lower (strip email))), (''reason'', NText reason)])"

text \<open>The checks of the body before anybody is looked up.\<close>

definition share_refusal :: "instant \<Rightarrow> uuid option \<Rightarrow> string option \<Rightarrow> string \<Rightarrow> instant option \<Rightarrow> platform \<Rightarrow> route_error option" where
  "share_refusal clock by_id by_email role expires p =
     first_error
       [if (by_id = None) = (by_email = None) then Some NameExactlyOne else None,
        case expires of None \<Rightarrow> None | Some t \<Rightarrow> if t \<le> clock then Some ExpiryInPast else None,
        if role \<notin> set (pf_roles p) then Some (UnknownRole role) else None,
        if filter (\<lambda>rp. fst rp = role) (pf_role_permissions p) = [] then Some (RoleGrantsNothing role) else None,
        if role \<in> time_boxed_roles \<and> expires = None then Some (GrantMustEnd role) else None]"

definition active_by_email :: "string \<Rightarrow> platform \<Rightarrow> uuid option" where
  "active_by_email email p =
     map_option ur_id (find (\<lambda>r. lower (ur_email r) = lower (strip email) \<and> ur_is_active r) (pf_users p))"

text \<open>Whom the body names; a refusal by address leaves an audit row.\<close>

definition share_target ::
    "instant \<Rightarrow> current_user \<Rightarrow> uuid \<Rightarrow> uuid option \<Rightarrow> string option \<Rightarrow> string \<Rightarrow> instant option \<Rightarrow> platform \<Rightarrow>
     route_error \<times> platform + case_row \<times> uuid" where
  "share_target clock user c by_id by_email role expires p =
     (case case_by_id p c of
        None \<Rightarrow> Inl (CaseDoesNotExist, p)
      | Some k \<Rightarrow>
        (case share_refusal clock by_id by_email role expires p of
           Some e \<Rightarrow> Inl (e, p)
         | None \<Rightarrow>
           (case by_id of
              Some target \<Rightarrow> Inr (k, target)
            | None \<Rightarrow>
              (case by_email of
                 None \<Rightarrow> Inl (NameExactlyOne, p)
               | Some m \<Rightarrow>
                 (case active_by_email m p of
                    None \<Rightarrow> Inl (NoActiveAccount, share_refused user c m ''no_active_account'' p)
                  | Some target \<Rightarrow> Inr (k, target))))))"

text \<open>What is asked about the account, once it is known.\<close>

definition share_person ::
    "current_user \<Rightarrow> case_row \<Rightarrow> string option \<Rightarrow> uuid \<Rightarrow> string \<Rightarrow> platform \<Rightarrow> (route_error \<times> platform) option" where
  "share_person user k by_email target role p =
     (case user_row_of p target of
        None \<Rightarrow> Some (NoSuchUser, p)
      | Some r \<Rightarrow>
        if \<not> ur_is_active r then Some (AccountDeactivated, p)
        else if target = cs_owner k \<and> role \<noteq> ''CASE_OWNER''
        then Some (OwnsTheCase, (case by_email of None \<Rightarrow> p | Some m \<Rightarrow> share_refused user (cs_id k) m ''owner'' p))
        else None)"

text \<open>The answer to what the service did, over the tables it was called on.\<close>

definition share_answer ::
    "current_user \<Rightarrow> uuid \<Rightarrow> string option \<Rightarrow> uuid \<Rightarrow> string option \<Rightarrow> case_error + platform \<Rightarrow> platform \<Rightarrow>
     (route_error + uuid \<times> string option) \<times> platform" where
  "share_answer user c by_email target replaced result p =
     (case result of
        Inr p' \<Rightarrow> (Inr (target, replaced), p')
      | Inl (RoleHeldOnAnotherCase x) \<Rightarrow>
          (case by_email of
             None \<Rightarrow> (Inl (ServiceRefused (RoleHeldOnAnotherCase x)), p)
           | Some m \<Rightarrow> (Inl CannotBeGiven, share_refused user c m ''role_held_on_another_case'' p))
      | Inl (RawDatabaseError d) \<Rightarrow> (Inl (ServiceRefused (RawDatabaseError d)), p)
      | Inl (LabelKeyError n) \<Rightarrow> (Inl (ServiceRefused (LabelKeyError n)), p)
      | Inl e \<Rightarrow>
          (case by_email of
             None \<Rightarrow> (Inl (ServiceRefused e), p)
           | Some m \<Rightarrow> (Inl CouldNotOpen, share_refused user c m ''labels'' p)))"

definition share_with ::
    "instant \<Rightarrow> current_user \<Rightarrow> case_row \<Rightarrow> string option \<Rightarrow> uuid \<Rightarrow> string \<Rightarrow> instant option \<Rightarrow> platform \<Rightarrow>
     (route_error + uuid \<times> string option) \<times> platform" where
  "share_with now user k by_email target role expires p =
     (case share_person user k by_email target role p of
        Some (e, p') \<Rightarrow> (Inl e, p')
      | None \<Rightarrow>
        share_answer user (cs_id k) by_email target (map_option as_role (assignment_of p (cs_id k) target))
          (assign_user_checked now (cs_id k) target role (cu_user user) expires p) p)"

definition assign_case_user ::
    "instant \<Rightarrow> instant \<Rightarrow> current_user \<Rightarrow> uuid \<Rightarrow> uuid option \<Rightarrow> string option \<Rightarrow> string \<Rightarrow> instant option \<Rightarrow> platform \<Rightarrow>
     (route_error + uuid \<times> string option) \<times> platform" where
  "assign_case_user now clock user c by_id by_email role expires p =
     (case share_target clock user c by_id by_email role expires p of
        Inl (e, p') \<Rightarrow> (Inl e, p')
      | Inr (k, target) \<Rightarrow> share_with now user k by_email target role expires p)"

definition share_route ::
    "link \<Rightarrow> instant \<Rightarrow> current_user \<Rightarrow> uuid \<Rightarrow> uuid option \<Rightarrow> string option \<Rightarrow> string \<Rightarrow> instant option \<Rightarrow> platform \<Rightarrow>
     (route_error + uuid \<times> string option) \<times> platform" where
  "share_route lk clock user c by_id by_email role expires =
     behind lk clock user c ''case.grant'' (assign_case_user (db_now lk) clock user c by_id by_email role expires)"

definition unshare_refusal :: "uuid \<Rightarrow> uuid \<Rightarrow> platform \<Rightarrow> route_error option" where
  "unshare_refusal c u p =
     (case case_by_id p c of
        None \<Rightarrow> Some CaseDoesNotExist
      | Some k \<Rightarrow>
        if u = cs_owner k then Some OwnsTheCase
        else if assignment_of p c u = None \<or> user_row_of p u = None then Some NotOnThisCase
        else None)"

definition revoke_case_user ::
    "current_user \<Rightarrow> uuid \<Rightarrow> uuid \<Rightarrow> platform \<Rightarrow> (route_error + unit) \<times> platform" where
  "revoke_case_user user c u p =
     (case unshare_refusal c u p of
        Some e \<Rightarrow> (Inl e, p)
      | None \<Rightarrow> served (revoke_user c u (cu_user user) p) p)"

definition unshare_route :: "link \<Rightarrow> instant \<Rightarrow> current_user \<Rightarrow> uuid \<Rightarrow> uuid \<Rightarrow> platform \<Rightarrow> (route_error + unit) \<times> platform" where
  "unshare_route lk clock user c u = behind lk clock user c ''case.grant'' (revoke_case_user user c u)"

text \<open>PURGED is asked again under \<open>case.delete\<close>.\<close>

definition purge_gate :: "link \<Rightarrow> instant \<Rightarrow> current_user \<Rightarrow> uuid \<Rightarrow> string \<Rightarrow> platform \<Rightarrow> (problem + unit) \<times> platform" where
  "purge_gate lk clock user c new_status p =
     (if new_status = ''PURGED'' then authorize_object lk clock user c ''case.delete'' True True None {} False p else (Inr (), p))"

definition transition :: "link \<Rightarrow> instant \<Rightarrow> current_user \<Rightarrow> uuid \<Rightarrow> string \<Rightarrow> platform \<Rightarrow> (route_error + unit) \<times> platform" where
  "transition lk clock user c new_status p =
     (case purge_gate lk clock user c new_status p of
        (Inl e, p') \<Rightarrow> (Inl (GateRefused e), p')
      | (Inr (), p') \<Rightarrow> served (transition_status (db_now lk) c new_status (cu_user user) p') p')"

definition transition_route :: "link \<Rightarrow> instant \<Rightarrow> current_user \<Rightarrow> uuid \<Rightarrow> string \<Rightarrow> platform \<Rightarrow> (route_error + unit) \<times> platform" where
  "transition_route lk clock user c new_status = behind lk clock user c ''case.close'' (transition lk clock user c new_status)"

section \<open>The roster\<close>

datatype roster_reason = RoleDoesNotRead | AssignmentExpired | AccountIsDeactivated | BelowClassification | NotReadIn

record roster_entry =
  re_user :: uuid
  re_role :: string
  re_is_owner :: bool
  re_expired :: bool
  re_effective :: bool
  re_reasons :: "roster_reason list"
  re_emergency_until :: "instant option"

text \<open>When the live grants that open the case for a colleague end, the latest of them.\<close>

definition cover_until :: "instant \<Rightarrow> uuid \<Rightarrow> case_row \<Rightarrow> platform \<Rightarrow> instant option" where
  "cover_until now u k p =
     (case map gr_expires_at (filter (\<lambda>g. gr_user g = u \<and> live_row now g \<and>
          (case gr_classification g of None \<Rightarrow> False | Some l \<Rightarrow> cs_classification k \<le> l) \<and>
          (gr_case g = None \<or> gr_case g = Some (cs_id k))) (pf_grants p)) of
        [] \<Rightarrow> None
      | t # ts \<Rightarrow> Some (fold max ts t))"

definition roster_entry_of :: "instant \<Rightarrow> instant \<Rightarrow> bool \<Rightarrow> case_row \<Rightarrow> platform \<Rightarrow> assignment \<Rightarrow> user_row \<Rightarrow> roster_entry" where
  "roster_entry_of now clock can_grant k p a r =
     (let expired = (case as_expires_at a of None \<Rightarrow> False | Some t \<Rightarrow> t \<le> clock);
          cover = cover_until now (as_user a) k p;
          below = ur_clearance r < cs_classification k;
          under_grant = (below \<and> cover \<noteq> None);
          reasons =
            (if \<not> role_has p (as_role a) ''case.read'' then [RoleDoesNotRead] else []) @
            (if expired then [AssignmentExpired] else []) @
            (if \<not> ur_is_active r then [AccountIsDeactivated] else []) @
            (if below \<and> \<not> under_grant then [BelowClassification] else []) @
            (if \<not> set (cs_compartments k) \<subseteq> set (ur_compartments r) then [NotReadIn] else [])
      in \<lparr>re_user = as_user a, re_role = as_role a, re_is_owner = (as_user a = cs_owner k), re_expired = expired,
          re_effective = (reasons = []), re_reasons = reasons,
          re_emergency_until = (if under_grant \<and> reasons = [] \<and> can_grant then cover else None)\<rparr>)"

definition list_case_users :: "instant \<Rightarrow> instant \<Rightarrow> current_user \<Rightarrow> uuid \<Rightarrow> platform \<Rightarrow> (roster_entry list \<times> bool) option" where
  "list_case_users now clock user c p =
     (case case_by_id p c of
        None \<Rightarrow> None
      | Some k \<Rightarrow>
        let can_grant = list_ex (\<lambda>a. as_case a = c \<and> as_user a = cu_user user \<and> unexpired now a \<and> role_has p (as_role a) ''case.grant'')
              (pf_assignments p)
        in Some (List.map_filter (\<lambda>a. if as_case a = c then map_option (roster_entry_of now clock can_grant k p a) (user_row_of p (as_user a)) else None)
             (sort_key as_granted_at (pf_assignments p)), can_grant))"
section \<open>The roster says who can open the case\<close>

lemma clearance_in_force_iff:
  "l \<le> clearance_in_force now u c own p \<longleftrightarrow>
     l \<le> own \<or> (\<exists>g\<in>set (grants_for now u c p). \<exists>m. gr_classification g = Some m \<and> l \<le> m)"
proof (cases "highest_level (grants_for now u c p)")
  case None
  then have "\<forall>g\<in>set (grants_for now u c p). gr_classification g = None" by (simp only: highest_level_None)
  then show ?thesis by (simp add: clearance_in_force_def greatest_def None)
next
  case (Some m)
  note top = this [unfolded highest_level_Some]
  have "l \<le> m \<longleftrightarrow> (\<exists>g\<in>set (grants_for now u c p). \<exists>m. gr_classification g = Some m \<and> l \<le> m)"
    using top by (meson order_trans)
  then show ?thesis by (simp add: clearance_in_force_def greatest_def Some le_max_iff_disj)
qed

lemma cover_until_iff:
  "cover_until now u k p \<noteq> None \<longleftrightarrow>
     (\<exists>g\<in>set (grants_for now u (cs_id k) p). \<exists>m. gr_classification g = Some m \<and> cs_classification k \<le> m)"
proof -
  let ?gs = "filter (\<lambda>g. gr_user g = u \<and> live_row now g \<and>
      (case gr_classification g of None \<Rightarrow> False | Some l \<Rightarrow> cs_classification k \<le> l) \<and>
      (gr_case g = None \<or> gr_case g = Some (cs_id k))) (pf_grants p)"
  have "cover_until now u k p \<noteq> None \<longleftrightarrow> (\<exists>g. g \<in> set ?gs)"
    unfolding cover_until_def by (cases ?gs) (auto simp del: set_filter)
  also have "\<dots> \<longleftrightarrow> (\<exists>g\<in>set (grants_for now u (cs_id k) p). \<exists>m. gr_classification g = Some m \<and> cs_classification k \<le> m)"
    by (auto simp: grants_for_def applies_to_def split: option.splits)
  finally show ?thesis .
qed

lemma unexpired_iff: "unexpired now a \<longleftrightarrow> \<not> (case as_expires_at a of None \<Rightarrow> False | Some t \<Rightarrow> t \<le> now)"
  by (auto simp: unexpired_def split: option.splits)

lemma entry_effective:
  "re_effective (roster_entry_of now now can_grant k p a r) \<longleftrightarrow>
     role_has p (as_role a) ''case.read'' \<and> unexpired now a \<and> ur_is_active r \<and>
     cs_classification k \<le> clearance_in_force now (as_user a) (cs_id k) (ur_clearance r) p \<and>
     set (cs_compartments k) \<subseteq> set (ur_compartments r)"
proof -
  have below: "(ur_clearance r < cs_classification k \<longrightarrow> cover_until now (as_user a) k p \<noteq> None) \<longleftrightarrow>
      cs_classification k \<le> clearance_in_force now (as_user a) (cs_id k) (ur_clearance r) p"
    unfolding clearance_in_force_iff cover_until_iff by (metis linorder_not_less)
  show ?thesis
    unfolding below [symmetric] unexpired_iff by (auto simp: roster_entry_of_def Let_def)
qed

lemma list_for_user_cases: "k \<in> set (list_for_user now u p) \<Longrightarrow> k \<in> set (pf_cases p)"
  by (simp add: list_for_user_def)

lemma entry_listed:
  assumes ok: "platform_ok p" and k: "k \<in> set (pf_cases p)" and a: "a \<in> set (pf_assignments p)" "as_case a = cs_id k"
    and r: "user_row_of p (as_user a) = Some r"
  shows "re_effective (roster_entry_of now now can_grant k p a r) \<longleftrightarrow> k \<in> set (list_for_user now (as_user a) p)"
proof -
  have row: "assignment_of p (cs_id k) (as_user a) = Some a" using a by (simp add: assignment_of_Some [OF ok])
  have active: "active_row p (as_user a) = Some q \<longleftrightarrow> q = r \<and> ur_is_active r" for q
    using r user_row_of_Some [OF ok] active_row_Some [OF ok] by (metis option.inject)
  show ?thesis using k by (auto simp: entry_effective listed_iff [OF ok] row active)
qed

lemma entry_user [simp]: "re_user (roster_entry_of now clock can_grant k p a r) = as_user a"
  by (simp add: roster_entry_of_def Let_def)

lemma set_roster:
  assumes "list_case_users now clock user c p = Some (entries, can_grant)"
  obtains k where "case_by_id p c = Some k"
    "\<And>e. e \<in> set entries \<longleftrightarrow> (\<exists>a\<in>set (pf_assignments p). as_case a = c \<and> (\<exists>r. user_row_of p (as_user a) = Some r \<and>
       e = roster_entry_of now clock can_grant k p a r))"
proof -
  obtain k where k: "case_by_id p c = Some k" using assms by (auto simp: list_case_users_def split: option.splits)
  have entries: "entries = List.map_filter (\<lambda>a. if as_case a = c
      then map_option (roster_entry_of now clock can_grant k p a) (user_row_of p (as_user a)) else None)
      (sort_key as_granted_at (pf_assignments p))"
    using assms k by (simp add: list_case_users_def Let_def) blast
  show ?thesis
    by (rule that [OF k]) (auto simp: entries set_map_filtered split: if_splits)
qed

text \<open>C10: The roster of a case tells its reader who can open it: on one clock, the colleagues it shows as
  effective are exactly the accounts whose own listing holds the case, no one is missing from it and none of
  the reasons it gives is spurious (an entry that is not effective names at least one).\<close>

theorem roster_is_the_listing:
  assumes ok: "platform_ok p" and roster: "list_case_users now now user c p = Some (entries, can_grant)"
  shows "((\<exists>e\<in>set entries. re_user e = u \<and> re_effective e) \<longleftrightarrow> (\<exists>k\<in>set (list_for_user now u p). cs_id k = c)) \<and>
    (\<forall>e\<in>set entries. re_effective e \<longleftrightarrow> re_reasons e = [])"
proof -
  obtain k where k: "case_by_id p c = Some k"
    and entries: "\<And>e. e \<in> set entries \<longleftrightarrow> (\<exists>a\<in>set (pf_assignments p). as_case a = c \<and> (\<exists>r. user_row_of p (as_user a) = Some r \<and>
       e = roster_entry_of now now can_grant k p a r))"
    using set_roster [OF roster] by metis
  have k': "k \<in> set (pf_cases p)" "cs_id k = c" using k case_by_id_Some [OF ok] by auto
  have unique: "k2 = k" if "k2 \<in> set (pf_cases p)" "cs_id k2 = c" for k2
    using that k case_by_id_Some [OF ok] by (metis option.inject)
  have "(\<exists>e\<in>set entries. re_user e = u \<and> re_effective e) \<longleftrightarrow>
      (\<exists>a\<in>set (pf_assignments p). as_case a = c \<and> as_user a = u \<and> (\<exists>r. user_row_of p (as_user a) = Some r \<and>
         re_effective (roster_entry_of now now can_grant k p a r)))"
    unfolding Bex_def entries using entry_user by metis
  also have "\<dots> \<longleftrightarrow> (\<exists>a\<in>set (pf_assignments p). as_case a = c \<and> as_user a = u \<and> user_row_of p u \<noteq> None) \<and>
      k \<in> set (list_for_user now u p)"
    using entry_listed [OF ok k'(1)] k'(2) by (metis not_None_eq)
  also have "\<dots> \<longleftrightarrow> k \<in> set (list_for_user now u p)"
    using k' by (auto simp: listed_iff [OF ok] assignment_of_Some [OF ok] active_row_Some [OF ok] user_row_of_Some [OF ok])
  also have "\<dots> \<longleftrightarrow> (\<exists>k\<in>set (list_for_user now u p). cs_id k = c)"
    using k' unique list_for_user_cases [of _ now u p] by blast
  finally have readers: "(\<exists>e\<in>set entries. re_user e = u \<and> re_effective e) \<longleftrightarrow>
      (\<exists>k\<in>set (list_for_user now u p). cs_id k = c)" .
  moreover have "re_effective e \<longleftrightarrow> re_reasons e = []" if "e \<in> set entries" for e
    using that entries by (auto simp: roster_entry_of_def Let_def)
  ultimately show ?thesis by blast
qed
section \<open>Rows and their keys\<close>

definition case_key :: "assignment \<Rightarrow> uuid \<times> uuid" where
  "case_key a = (as_case a, as_user a)"

lemma log_event_tables [simp]:
  "pf_cases (log_event e p) = pf_cases p" "pf_assignments (log_event e p) = pf_assignments p"
  "pf_users (log_event e p) = pf_users p"
  by (simp_all add: log_event_def)

lemma regraded_fields [simp]:
  "as_case (regraded now role by expires a) = as_case a" "as_user (regraded now role by expires a) = as_user a"
  "as_role (regraded now role by expires a) = role"
  "as_expires_at (regraded now role by expires a) = (case expires of None \<Rightarrow> as_expires_at a | Some t \<Rightarrow> Some t)"
  by (simp_all add: regraded_def)

lemma case_key_upsert:
  "case_key ` set (upsert_assignment now c u role by expires as) = insert (c, u) (case_key ` set as)"
proof (cases "\<exists>a\<in>set as. as_case a = c \<and> as_user a = u")
  case True
  have "map case_key (update_where (\<lambda>a. as_case a = c \<and> as_user a = u) (regraded now role by expires) as) = map case_key as"
    by (rule map_update_where) (simp add: case_key_def regraded_def)
  then have "case_key ` set (update_where (\<lambda>a. as_case a = c \<and> as_user a = u) (regraded now role by expires) as) = case_key ` set as"
    by (simp only: list.set_map [symmetric])
  moreover have "(c, u) \<in> case_key ` set as" using True by (force simp: case_key_def)
  ultimately show ?thesis using True by (simp add: upsert_assignment_def list_ex_iff insert_absorb)
next
  case False
  then have "\<not> list_ex (\<lambda>a. as_case a = c \<and> as_user a = u) as" by (simp add: list_ex_iff)
  then show ?thesis by (simp add: upsert_assignment_def case_key_def)
qed

lemma set_upsert:
  assumes "b \<in> set (upsert_assignment now c u role by expires as)"
  obtains "b \<in> set as" "case_key b \<noteq> (c, u)"
  | "case_key b = (c, u)" "as_role b = role" "expires \<noteq> None \<longrightarrow> as_expires_at b = expires"
proof (cases "list_ex (\<lambda>a. as_case a = c \<and> as_user a = u) as")
  case True
  with assms obtain x where x: "x \<in> set as"
      "b = (if case_key x = (c, u) then regraded now role by expires x else x)"
    by (auto simp: upsert_assignment_def update_where_def case_key_def)
  show ?thesis
  proof (cases "case_key x = (c, u)")
    case True
    with x have "case_key b = (c, u)" "as_role b = role" "expires \<noteq> None \<longrightarrow> as_expires_at b = expires"
      by (auto simp: case_key_def)
    then show ?thesis by (rule that(2))
  qed (use x that(1) in simp)
next
  case False
  then have "upsert_assignment now c u role by expires as =
      as @ [\<lparr>as_case = c, as_user = u, as_role = role, as_granted_by = by, as_granted_at = now, as_expires_at = expires\<rparr>]"
    by (simp add: upsert_assignment_def)
  moreover have "x \<in> set as \<Longrightarrow> case_key x \<noteq> (c, u)" for x using False by (auto simp: list_ex_iff case_key_def)
  ultimately show ?thesis using assms that(1) by (cases "b \<in> set as") (auto intro!: that(2) simp: case_key_def)
qed

lemma distinct_case_key_upsert:
  assumes "distinct (map case_key as)"
  shows "distinct (map case_key (upsert_assignment now c u role by expires as))"
proof (cases "list_ex (\<lambda>a. as_case a = c \<and> as_user a = u) as")
  case True
  have "map case_key (update_where (\<lambda>a. as_case a = c \<and> as_user a = u) (regraded now role by expires) as) = map case_key as"
    by (rule map_update_where) (simp add: case_key_def regraded_def)
  then show ?thesis using assms True by (simp add: upsert_assignment_def)
next
  case False
  then show ?thesis using assms by (auto simp: upsert_assignment_def list_ex_iff case_key_def)
qed

lemma grant_on_case_Inr:
  assumes "grant_on_case now c u role by expires p = Inr p'"
  shows "p' = p\<lparr>pf_assignments := upsert_assignment now c u role by expires (pf_assignments p)\<rparr>"
    "\<not> (role \<in> single_case_roles \<and> held_elsewhere now c u role p)"
  using assms by (auto simp: grant_on_case_def split: if_splits)

lemma first_error_None [simp]: "first_error es = None \<longleftrightarrow> (\<forall>e\<in>set es. e = None)"
proof -
  have "first_error es = None \<longleftrightarrow> List.map_filter id es = []" by (simp add: first_error_def split: list.splits)
  also have "\<dots> \<longleftrightarrow> (\<forall>e\<in>set es. e = None)" by (induction es) (auto simp: List.map_filter_simps split: option.splits)
  finally show ?thesis .
qed

lemma db_insert_case_Inr:
  assumes "db_insert_case now i n p = Inr p'"
  obtains k where "p' = p\<lparr>pf_cases := pf_cases p @ [k]\<rparr>" "cs_id k = i" "cs_code k = nc_code n" "cs_owner k = nc_owner n"
    "cs_review_due k = nc_review_due n" "cs_retention_until k = nc_retention_until n" "cs_created_at k = now"
    "cs_status k = DRAFT" "cs_compartments k = nc_compartments n" "tlp_from_name (nc_classification n) = Inr (cs_classification k)"
    "date_of now < nc_retention_until n" "\<forall>k\<in>set (pf_cases p). cs_id k \<noteq> i \<and> cs_code k \<noteq> nc_code n"
    "user_row_of p (nc_owner n) \<noteq> None"
proof -
  obtain l where l: "tlp_from_name (nc_classification n) = Inr l" "p' = p\<lparr>pf_cases := pf_cases p @ [case_draft now i l n]\<rparr>"
    "date_of now < nc_retention_until n" "\<forall>k\<in>set (pf_cases p). cs_id k \<noteq> i \<and> cs_code k \<noteq> nc_code n"
    "user_row_of p (nc_owner n) \<noteq> None"
    using assms by (auto simp: db_insert_case_def list_ex_iff split: sum.splits if_splits)
  show ?thesis by (rule that [OF l(2)]) (use l in \<open>simp_all add: case_draft_def\<close>)
qed

lemma insert_case_Inr:
  assumes "insert_case now i n p = Inr p'"
  obtains p1 p2 p3 where "db_insert_case now i n p = Inr p1"
    "grant_on_case now i (nc_owner n) ''CASE_OWNER'' (nc_created_by n) None p1 = Inr p2"
    "(nc_deputy n = None \<and> p3 = p2) \<or> (\<exists>d. nc_deputy n = Some d \<and>
        grant_on_case now i d ''CASE_OWNER'' (nc_created_by n) None p2 = Inr p3)"
    "\<exists>e. p' = log_event e p3"
  using assms by (auto simp: insert_case_def split: option.splits sum.splits)

lemma create_case_Inr: "create_case now i n p = Inr p' \<Longrightarrow> create_refusal n p = None \<and> insert_case now i n p = Inr p'"
  by (auto simp: create_case_def split: option.splits)

lemma find_transition: "find (\<lambda>s. status_name s = n) ss = Some s \<Longrightarrow> s \<in> set ss \<and> status_name s = n"
  by (auto simp: find_Some_iff)

lemma orelse_simps [simp]: "orelse None d = d" "orelse (Some x) d = x"
  by (simp_all add: orelse_def)

lemma edited_fields [simp]:
  "cs_id (edited e l k) = cs_id k" "cs_code (edited e l k) = cs_code k" "cs_owner (edited e l k) = cs_owner k"
  "cs_status (edited e l k) = cs_status k" "cs_created_at (edited e l k) = cs_created_at k"
  "cs_compartments (edited e l k) = cs_compartments k" "cs_legal_basis (edited e l k) = cs_legal_basis k"
  "cs_closed_at (edited e l k) = cs_closed_at k" "cs_classification (edited e l k) = orelse l (cs_classification k)"
  "cs_review_due (edited e l k) = orelse (ed_review_due e) (cs_review_due k)"
  "cs_retention_until (edited e l k) = orelse (ed_retention_until e) (cs_retention_until k)"
  by (simp_all add: edited_def)

lemma write_metadata_Inr:
  assumes "write_metadata c by e p = Inr p'"
  obtains (nothing) "p' = p" "changed_fields e = []"
  | (changed) l ev where
      "\<forall>k\<in>set (pf_cases p). cs_id k = c \<longrightarrow> date_of (cs_created_at k) < orelse (ed_retention_until e) (cs_retention_until k)"
      "ed_classification e = None \<and> l = None \<or> (\<exists>n m. ed_classification e = Some n \<and> l = Some m \<and> tlp_from_name n = Inr m)"
      "p' = log_event ev (p\<lparr>pf_cases := update_where (\<lambda>k. cs_id k = c) (edited e l) (pf_cases p)\<rparr>)"
proof (cases "changed_fields e = []")
  case True
  then show ?thesis using assms that(1) by (simp add: write_metadata_def)
next
  case False
  let ?l = "case ed_classification e of None \<Rightarrow> Inr None | Some n \<Rightarrow> map_sum id Some (tlp_from_name n)"
  obtain l where l: "?l = Inr l" using assms False by (cases ?l) (simp_all add: write_metadata_def)
  let ?ks = "update_where (\<lambda>k. cs_id k = c) (edited e l) (pf_cases p)"
  have fresh: "\<not> list_ex (\<lambda>k. cs_id k = c \<and> cs_retention_until k \<le> date_of (cs_created_at k)) ?ks"
    and p': "p' = log_event (case_event ''CASE_UPDATED'' by c (changed_fields e)) (p\<lparr>pf_cases := ?ks\<rparr>)"
    using assms False by (simp_all add: write_metadata_def l Let_def split: if_splits)
  have "date_of (cs_created_at k) < orelse (ed_retention_until e) (cs_retention_until k)"
    if "k \<in> set (pf_cases p)" "cs_id k = c" for k
  proof -
    have "edited e l k \<in> set ?ks" using that by (auto simp: set_update_where)
    with fresh that(2) show ?thesis by (auto simp: list_ex_iff not_le)
  qed
  moreover have "ed_classification e = None \<and> l = None \<or> (\<exists>n m. ed_classification e = Some n \<and> l = Some m \<and> tlp_from_name n = Inr m)"
    using l by (auto split: option.splits sum.splits simp: map_sum_def)
  ultimately show ?thesis using that(2) p' by blast
qed

lemma share_answer_Inr: "share_answer user c by_email target replaced result p = (Inr x, p') \<Longrightarrow> result = Inr p'"
  by (auto simp: share_answer_def split: sum.splits option.splits case_error.splits)

lemma update_metadata_Inr:
  assumes "update_metadata c by e p = Inr p'"
  obtains (nothing) "p' = p" "changed_fields e = []"
  | (changed) k l ev where "case_by_id p c = Some k" "metadata_refusal e k = None"
      "ed_classification e = None \<and> l = None \<or> (\<exists>n m. ed_classification e = Some n \<and> l = Some m \<and> tlp_from_name n = Inr m)"
      "p' = log_event ev (p\<lparr>pf_cases := update_where (\<lambda>k. cs_id k = c) (edited e l) (pf_cases p)\<rparr>)"
proof -
  obtain k where k: "case_by_id p c = Some k" "metadata_refusal e k = None" "write_metadata c by e p = Inr p'"
    using assms by (auto simp: update_metadata_def split: option.splits)
  from k(3) show ?thesis by (rule write_metadata_Inr) (use k that in blast)+
qed

section \<open>What a creation, a share and a raise of the label do\<close>

lemma sort_remdups_Nil [simp]: "sort (remdups xs) = [] \<longleftrightarrow> xs = []"
  by (metis set_empty set_remdups set_sort)

lemma require_clearance_None:
  "require_clearance u n who p = None \<longleftrightarrow>
     (\<exists>r l. user_row_of p u = Some r \<and> tlp_from_name n = Inr l \<and> l \<le> ur_clearance r)"
  by (auto simp: require_clearance_def not_less split: option.split sum.split)

lemma require_compartments_None:
  "require_compartments u keys who p = None \<longleftrightarrow> (\<exists>r. user_row_of p u = Some r \<and> set keys \<subseteq> set (ur_compartments r))"
  by (auto simp: require_compartments_def Let_def filter_empty_conv split: option.split)

lemma upsert_untimed:
  assumes "\<And>a. a \<in> set as \<Longrightarrow> case_key a = (c, u) \<Longrightarrow> as_expires_at a = None"
    and "b \<in> set (upsert_assignment now c u role by None as)" "case_key b = (c, u)"
  shows "as_role b = role \<and> as_expires_at b = None"
proof (cases "list_ex (\<lambda>a. as_case a = c \<and> as_user a = u) as")
  case True
  with assms(2) obtain x where x: "x \<in> set as" "b = (if case_key x = (c, u) then regraded now role by None x else x)"
    by (auto simp: upsert_assignment_def update_where_def case_key_def)
  then have "case_key x = (c, u)" using assms(3) by (metis (full_types))
  then show ?thesis using x assms(1) [OF x(1)] by simp
next
  case False
  then have "case_key x \<noteq> (c, u)" if "x \<in> set as" for x using that by (auto simp: list_ex_iff case_key_def)
  then have "b \<notin> set as" using assms(3) by blast
  then show ?thesis using assms(2) False by (simp add: upsert_assignment_def)
qed

lemma set_upsert_other: "case_key b \<noteq> (c, u) \<Longrightarrow> b \<in> set (upsert_assignment now c u role by e as) \<longleftrightarrow> b \<in> set as"
  by (auto simp: upsert_assignment_def update_where_def case_key_def image_iff split: if_splits)

lemma set_upsert_row: "\<exists>b\<in>set (upsert_assignment now c u role by e as). case_key b = (c, u)"
  using case_key_upsert [of now c u role "by" e as] by (metis imageE insertI1)

lemma own_clearance_listed:
  assumes "k \<in> set (pf_cases p)" "a \<in> set (pf_assignments p)" "r \<in> set (pf_users p)" "as_case a = cs_id k" "as_user a = u"
    "ur_id r = u" "unexpired now a" "ur_is_active r" "cs_classification k \<le> ur_clearance r"
    "set (cs_compartments k) \<subseteq> set (ur_compartments r)" "role_has p (as_role a) ''case.read''"
  shows "k \<in> set (list_for_user now u p)"
proof -
  have "cs_classification k \<le> greatest (ur_clearance r) l" for l
    using assms(9) by (auto simp: greatest_def le_max_iff_disj split: option.split)
  then have "listed now p a r k" using assms by (simp add: listed_def)
  then show ?thesis using assms by (auto simp: list_for_user_def list_ex_iff)
qed

text \<open>The foreign key of the assignments.\<close>

definition assignments_of_cases :: "platform \<Rightarrow> bool" where
  "assignments_of_cases p \<longleftrightarrow> (\<forall>a\<in>set (pf_assignments p). case_by_id p (as_case a) \<noteq> None)"

lemma upsert_gives:
  assumes "\<forall>a\<in>set as. case_key a = (c, u) \<longrightarrow> as_expires_at a = None"
  shows "\<exists>b\<in>set (upsert_assignment now c u role by None as). case_key b = (c, u) \<and> as_role b = role \<and> as_expires_at b = None"
proof -
  obtain b where b: "b \<in> set (upsert_assignment now c u role by None as)" "case_key b = (c, u)" using set_upsert_row by blast
  show ?thesis by (rule bexI [OF _ b(1)]) (use upsert_untimed [OF _ b] assms b(2) in blast)
qed

text \<open>The owner's row after a creation carries no end, whoever the deputy is.\<close>

lemma owner_row_of_creation:
  assumes ok: "assignments_of_cases p" and created: "create_case now i n p = Inr p'"
  obtains k b where "b \<in> set (pf_assignments p')" "case_key b = (i, nc_owner n)" "as_role b = ''CASE_OWNER''" "as_expires_at b = None"
    "pf_cases p' = pf_cases p @ [k]" "pf_users p' = pf_users p" "pf_role_permissions p' = pf_role_permissions p"
    "create_refusal n p = None" "cs_id k = i" "cs_status k = DRAFT" "cs_compartments k = nc_compartments n"
    "tlp_from_name (nc_classification n) = Inr (cs_classification k)" "user_row_of p (nc_owner n) \<noteq> None"
proof -
  let ?u = "nc_owner n"
  obtain p1 p2 p3 where parts: "create_refusal n p = None" "db_insert_case now i n p = Inr p1"
    "grant_on_case now i ?u ''CASE_OWNER'' (nc_created_by n) None p1 = Inr p2"
    "(nc_deputy n = None \<and> p3 = p2) \<or> (\<exists>d. nc_deputy n = Some d \<and>
        grant_on_case now i d ''CASE_OWNER'' (nc_created_by n) None p2 = Inr p3)"
    "\<exists>e. p' = log_event e p3"
    using create_case_Inr [OF created] insert_case_Inr by metis
  obtain k where k: "p1 = p\<lparr>pf_cases := pf_cases p @ [k]\<rparr>" "cs_id k = i" "cs_status k = DRAFT"
    "cs_compartments k = nc_compartments n" "tlp_from_name (nc_classification n) = Inr (cs_classification k)"
    "\<forall>k\<in>set (pf_cases p). cs_id k \<noteq> i \<and> cs_code k \<noteq> nc_code n" "user_row_of p ?u \<noteq> None"
    using db_insert_case_Inr [OF parts(2)] by metis
  note p2 = grant_on_case_Inr(1) [OF parts(3)]
  have none: "case_key a \<noteq> (i, v)" if "a \<in> set (pf_assignments p)" for a v
    using ok that k(6) by (auto simp: assignments_of_cases_def case_key_def case_by_id_def find_Some_iff)
  have two: "as_role b = ''CASE_OWNER'' \<and> as_expires_at b = None" if "b \<in> set (pf_assignments p2)" "case_key b = (i, ?u)" for b
    using upsert_untimed [of "pf_assignments p" i ?u b] none that by (simp add: p2 k(1))
  have given: "\<exists>b\<in>set (pf_assignments p2). case_key b = (i, ?u) \<and> as_role b = ''CASE_OWNER'' \<and> as_expires_at b = None"
    using upsert_gives [of "pf_assignments p" i ?u] none by (simp add: p2 k(1))
  have p3: "\<exists>b\<in>set (pf_assignments p3). case_key b = (i, ?u) \<and> as_role b = ''CASE_OWNER'' \<and> as_expires_at b = None"
    using parts(4)
  proof (elim disjE exE conjE)
    assume "p3 = p2"
    then show "\<exists>b\<in>set (pf_assignments p3). case_key b = (i, ?u) \<and> as_role b = ''CASE_OWNER'' \<and> as_expires_at b = None"
      using given by simp
  next
    fix d assume "grant_on_case now i d ''CASE_OWNER'' (nc_created_by n) None p2 = Inr p3"
    note p3 = grant_on_case_Inr(1) [OF this]
    show "\<exists>b\<in>set (pf_assignments p3). case_key b = (i, ?u) \<and> as_role b = ''CASE_OWNER'' \<and> as_expires_at b = None"
    proof (cases "d = ?u")
      case True
      then show ?thesis using upsert_gives [of "pf_assignments p2" i d] two by (simp add: p3)
    next
      case False
      obtain b where b: "b \<in> set (pf_assignments p2)" "case_key b = (i, ?u)" using given by blast
      then have "b \<in> set (pf_assignments p3)" using set_upsert_other [of b i d] False by (simp add: p3)
      then show ?thesis using b two by blast
    qed
  qed
  have tables: "pf_cases p3 = pf_cases p @ [k]" "pf_users p3 = pf_users p" "pf_role_permissions p3 = pf_role_permissions p"
    using parts(4) by (auto simp: p2 k(1) dest!: grant_on_case_Inr(1))
  obtain b where b: "b \<in> set (pf_assignments p3)" "case_key b = (i, ?u)" "as_role b = ''CASE_OWNER''" "as_expires_at b = None"
    using p3 by blast
  obtain e where p': "p' = log_event e p3" using parts(5) ..
  show ?thesis by (rule that [of b k]) (use b k parts(1) in \<open>simp_all add: p' tables log_event_def\<close>)
qed

text \<open>A created case opens for its owner: whenever \<open>create\<close> succeeds for an active owner, the new case is a draft
  and in the owner's listing at every later time, by the owner's own clearance and compartments and under no
  emergency.\<close>

theorem created_case_opens:
  assumes ok: "platform_ok p" "assignments_of_cases p" and created: "create_case now i n p = Inr p'"
    and active: "is_active_user p (nc_owner n)" and reads: "role_has p ''CASE_OWNER'' ''case.read''"
  shows "\<exists>k\<in>set (list_for_user later (nc_owner n) p'). cs_id k = i \<and> cs_status k = DRAFT"
proof -
  let ?u = "nc_owner n"
  obtain k b where b: "b \<in> set (pf_assignments p')" "case_key b = (i, ?u)" "as_role b = ''CASE_OWNER''" "as_expires_at b = None"
    and p': "pf_cases p' = pf_cases p @ [k]" "pf_users p' = pf_users p" "pf_role_permissions p' = pf_role_permissions p"
    and k: "create_refusal n p = None" "cs_id k = i" "cs_status k = DRAFT" "cs_compartments k = nc_compartments n"
      "tlp_from_name (nc_classification n) = Inr (cs_classification k)" "user_row_of p ?u \<noteq> None"
    using owner_row_of_creation [OF ok(2) created] by metis
  obtain r where r: "user_row_of p ?u = Some r" using k(6) by blast
  have row: "r \<in> set (pf_users p)" "ur_id r = ?u" using r user_row_of_Some [OF ok(1)] by auto
  have "distinct (map ur_id (pf_users p))" using ok(1) by (simp add: platform_ok_def users_ok_def)
  moreover obtain q where "q \<in> set (pf_users p)" "ur_id q = ?u" "ur_is_active q"
    using active by (auto simp: is_active_user_def list_ex_iff)
  ultimately have on: "ur_is_active r" using row key_unique [of ur_id "pf_users p" q r] by simp
  have labels: "cs_classification k \<le> ur_clearance r" "set (cs_compartments k) \<subseteq> set (ur_compartments r)"
    using k(1) r k(4,5)
    by (auto simp: create_refusal_def require_clearance_None require_compartments_None)
  have "k \<in> set (list_for_user later ?u p')"
    by (rule own_clearance_listed [where a = b and r = r])
      (use b row on labels reads k(2) p' in \<open>simp_all add: case_key_def unexpired_def role_has_def\<close>)
  then show ?thesis using k(2,3) by blast
qed
text \<open>What an edit that succeeded wrote.\<close>

lemma update_case_Inr:
  assumes "update_case now user c e p = (Inr lost, p')"
  obtains k e' lo l ev where "case_by_id p c = Some k" "label_edit now user c k e p = Inr (e', lost)"
    "(ed_classification e' = None \<and> l = cs_classification k) \<or> (\<exists>n. ed_classification e' = Some n \<and> tlp_from_name n = Inr l)"
    "orelse lo (cs_classification k) = l"
    "p' = log_event ev (p\<lparr>pf_cases := update_where (\<lambda>k. cs_id k = c) (edited e' lo) (pf_cases p)\<rparr>)"
proof -
  obtain k e' where k: "case_by_id p c = Some k" and label: "label_edit now user c k e p = Inr (e', lost)"
    and some: "\<not> nothing_supplied e'" and saved: "update_metadata c (cu_user user) e' p = Inr p'"
    using assms by (auto simp: update_case_def edit_checked_def split: option.splits sum.splits if_splits)
  have "changed_fields e' \<noteq> []"
    using some by (auto simp: changed_fields_def nothing_supplied_def List.map_filter_simps split: option.splits)
  with saved show ?thesis
  proof (cases rule: update_metadata_Inr)
    case (changed k2 lo ev)
    then have "k2 = k" using k by simp
    with changed(3,4) k label that [of k e' _ lo ev] show ?thesis by auto
  qed simp
qed

text \<open>C12: Nobody is locked out unannounced. When an edit of a case is accepted, everybody who could open the case
  before and cannot open it after is among the colleagues the answer names.\<close>

theorem raise_names_everyone_locked_out:
  assumes ok: "platform_ok p" and saved: "update_case now user c e p = (Inr lost, p')"
    and before: "\<exists>k\<in>set (list_for_user now u p). cs_id k = c"
    and after: "\<not> (\<exists>k\<in>set (list_for_user now u p'). cs_id k = c)"
  shows "u \<in> set lost"
proof -
  obtain k e' lo l ev where k: "case_by_id p c = Some k" and label: "label_edit now user c k e p = Inr (e', lost)"
    and l: "(ed_classification e' = None \<and> l = cs_classification k) \<or> (\<exists>n. ed_classification e' = Some n \<and> tlp_from_name n = Inr l)"
    and lo: "orelse lo (cs_classification k) = l"
    and p': "p' = log_event ev (p\<lparr>pf_cases := update_where (\<lambda>k. cs_id k = c) (edited e' lo) (pf_cases p)\<rparr>)"
    by (rule update_case_Inr [OF saved])
  have kc: "k \<in> set (pf_cases p)" "cs_id k = c" using k case_by_id_Some [OF ok] by auto
  obtain k2 where k2: "k2 \<in> set (list_for_user now u p)" "cs_id k2 = c" using before by blast
  then have "k2 = k" using k case_by_id_Some [OF ok] list_for_user_cases by (metis option.inject)
  with k2 obtain r a where r: "active_row p u = Some r" and a: "assignment_of p c u = Some a" "unexpired now a"
      "role_has p (as_role a) ''case.read''"
    and level: "cs_classification k \<le> clearance_in_force now u c (ur_clearance r) p" "set (cs_compartments k) \<subseteq> set (ur_compartments r)"
    using kc(2) by (auto simp: listed_iff [OF ok])
  have row: "r \<in> set (pf_users p)" "ur_id r = u" "ur_is_active r" "a \<in> set (pf_assignments p)" "as_case a = c" "as_user a = u"
    using r a(1) by (auto simp: active_row_Some [OF ok] assignment_of_Some [OF ok])
  have "edited e' lo k \<in> set (pf_cases p')" using kc by (auto simp: p' set_update_where log_event_def)
  moreover have "clearance_in_force now u c (ur_clearance r) p' = clearance_in_force now u c (ur_clearance r) p"
    by (simp add: clearance_in_force_def grants_for_def p' log_event_def)
  moreover have "listed now p' a r (edited e' lo k) \<longleftrightarrow> l \<le> clearance_in_force now u c (ur_clearance r) p'"
    using row a level(2) kc(2) lo by (simp add: listed_in_force p' role_has_def log_event_def)
  ultimately have above: "\<not> l \<le> clearance_in_force now u c (ur_clearance r) p"
    using after row kc(2) by (auto simp: list_for_user_def list_ex_iff p')
  then have raised: "l \<noteq> cs_classification k" using level(1) by blast
  then have "lost = assignees_below now c l p"
    using label l by (auto simp: label_edit_def split: option.splits sum.splits if_splits)
  moreover have "ur_clearance r < l"
    using above by (auto simp: clearance_in_force_iff not_le)
  moreover have "user_row_of p u = Some r" using row by (simp add: user_row_of_Some [OF ok])
  ultimately show ?thesis
    using row a(2) by (auto simp: assignees_below_def set_map_filtered intro!: bexI [of _ a])
qed

lemma option_eqI: "(\<And>x. a = Some x \<longleftrightarrow> b = Some x) \<Longrightarrow> a = b"
  by (cases a; cases b) auto

lemma assignment_after_upsert:
  assumes "b \<in> set (upsert_assignment now c u role by expires as)" "case_key b = (c, u)" "distinct (map case_key as)"
  shows "as_role b = role \<and> as_expires_at b = (case expires of Some t \<Rightarrow> Some t
     | None \<Rightarrow> (case find (\<lambda>a. as_case a = c \<and> as_user a = u) as of None \<Rightarrow> None | Some a \<Rightarrow> as_expires_at a))"
proof (cases "list_ex (\<lambda>a. as_case a = c \<and> as_user a = u) as")
  case True
  with assms(1) obtain x where x: "x \<in> set as" "b = (if case_key x = (c, u) then regraded now role by expires x else x)"
    by (auto simp: upsert_assignment_def update_where_def case_key_def)
  then have key: "case_key x = (c, u)" using assms(2) by (metis (full_types))
  then have "find (\<lambda>a. as_case a = c \<and> as_user a = u) as = Some x"
    using x(1) key_unique [OF assms(3)] by (intro find_unique) (auto simp: case_key_def)
  then show ?thesis using x(2) key by (simp split: option.split)
next
  case False
  then have none: "find (\<lambda>a. as_case a = c \<and> as_user a = u) as = None" "b \<notin> set as"
    using assms(2) by (auto simp: find_None_iff list_ex_iff case_key_def)
  then show ?thesis using assms(1) False by (simp add: upsert_assignment_def split: option.split)
qed

text \<open>What a share writes. A successful share leaves the colleague with one row on the case, carrying the role
  that was asked for and the end that was asked for, or, when none was, the end of the row it replaces; every
  other row stays, and only an active colleague who meets the label and the compartments of the case gets one.
  The owner is no exception: a row of the owner that was given an end keeps it until another end is given.\<close>

theorem share_writes_one_row:
  assumes ok: "platform_ok p" and k: "case_by_id p c = Some k"
    and shared: "share_with now user k by_email u role expires p = (Inr (u', role'), p')"
  shows "(\<exists>b. assignment_of p' c u = Some b \<and> as_role b = role \<and>
      as_expires_at b = (case expires of Some t \<Rightarrow> Some t
        | None \<Rightarrow> (case assignment_of p c u of None \<Rightarrow> None | Some a \<Rightarrow> as_expires_at a))) \<and>
    (\<forall>d v. (d, v) \<noteq> (c, u) \<longrightarrow> assignment_of p' d v = assignment_of p d v) \<and>
    (\<exists>r. active_row p u = Some r \<and> cs_classification k \<le> ur_clearance r \<and> set (cs_compartments k) \<subseteq> set (ur_compartments r))"
proof -
  have kc: "cs_id k = c" using k case_by_id_Some [OF ok] by auto
  obtain r where r: "user_row_of p u = Some r" "ur_is_active r"
    and done': "assign_user_checked now c u role (cu_user user) expires p = Inr p'"
    using shared kc by (auto simp: share_with_def share_person_def dest: share_answer_Inr split: option.splits if_splits)
  obtain q ev where q: "grant_on_case now c u role (cu_user user) expires p = Inr q" "p' = log_event ev q"
    and labels: "require_clearance u (tlp_name (cs_classification k)) ''assignee'' p = None"
      "require_compartments u (cs_compartments k) ''assignee'' p = None"
    using done' k by (auto simp: assign_user_checked_def assignee_refusal_def assign_user_def map_sum_def split: option.splits sum.splits)
  let ?as = "upsert_assignment now c u role (cu_user user) expires (pf_assignments p)"
  have as': "pf_assignments p' = ?as" using grant_on_case_Inr(1) [OF q(1)] by (simp add: q(2))
  have keys: "distinct (map case_key (pf_assignments p))"
    using ok by (simp add: platform_ok_def case_key_def [abs_def])
  have keys': "distinct (map case_key ?as)"
    by (rule distinct_case_key_upsert [OF keys])
  have at: "assignment_of p' d v = Some b \<longleftrightarrow> b \<in> set ?as \<and> case_key b = (d, v)" for d v b
    using find_key' [OF keys', of "(d, v)" b] by (simp add: assignment_of_def as' case_key_def)
  have at0: "assignment_of p d v = Some b \<longleftrightarrow> b \<in> set (pf_assignments p) \<and> case_key b = (d, v)" for d v b
    using find_key' [OF keys, of "(d, v)" b] by (simp add: assignment_of_def case_key_def)
  obtain b where b: "b \<in> set ?as" "case_key b = (c, u)" using set_upsert_row by blast
  have one: "\<exists>b. assignment_of p' c u = Some b \<and> as_role b = role \<and>
      as_expires_at b = (case expires of Some t \<Rightarrow> Some t
        | None \<Rightarrow> (case assignment_of p c u of None \<Rightarrow> None | Some a \<Rightarrow> as_expires_at a))"
    using at [of c u b] b assignment_after_upsert [OF b keys] unfolding assignment_of_def [of p c u] by blast
  have others: "assignment_of p' d v = assignment_of p d v" if "(d, v) \<noteq> (c, u)" for d v
  proof (rule option_eqI)
    show "assignment_of p' d v = Some x \<longleftrightarrow> assignment_of p d v = Some x" for x
      using that set_upsert_other [of x c u] unfolding at at0 by metis
  qed
  have "active_row p u = Some r" using r by (simp add: active_row_Some [OF ok] user_row_of_Some [OF ok])
  with one others labels r(1) show ?thesis
    by (auto simp: require_clearance_None require_compartments_None)
qed
section \<open>Examples\<close>

definition demo_new :: new_case where
  "demo_new = \<lparr>nc_code = ''OP-2'', nc_title = ''t'', nc_legal_basis = ''b'', nc_retention_until = 900, nc_review_due = 800,
     nc_owner = 2, nc_created_by = 2, nc_classification = ''GREEN'', nc_compartments = [''K1''], nc_summary = None,
     nc_authority_ref = None, nc_deputy = Some 4\<rparr>"

definition empty_platform :: platform where
  "empty_platform = demo_platform\<lparr>pf_cases := [], pf_assignments := [], pf_permissions := [(''case.create'', False)],
     pf_role_permissions := [(''SYS_ADMIN'', ''case.create''), (''CASE_OWNER'', ''case.read'')]\<rparr>"

definition started_platform :: platform where
  "started_platform = snd (create_case_route 5 5 11 (demo_current 2) demo_new empty_platform)"

lemma started_cases: "map cs_id (pf_cases started_platform) = [11]" "map cs_owner (pf_cases started_platform) = [2]"
  by code_simp+

theorem roster_is_the_listing_witness:
  "(\<exists>e\<in>set (fst (the (list_case_users 5 5 (demo_current 2) 10 demo_platform))). re_user e = 4 \<and> re_effective e) \<longleftrightarrow>
   (\<exists>k\<in>set (list_for_user 5 4 demo_platform). cs_id k = 10)"
proof -
  have "list_case_users 5 5 (demo_current 2) 10 demo_platform =
      Some (fst (the (list_case_users 5 5 (demo_current 2) 10 demo_platform)), snd (the (list_case_users 5 5 (demo_current 2) 10 demo_platform)))"
    by (simp add: list_case_users_def demo_lookups Let_def)
  from roster_is_the_listing [OF demo_platform_ok this] show ?thesis by blast
qed

theorem created_case_opens_witness:
  "\<exists>p'. create_case 5 11 demo_new demo_platform = Inr p' \<and> (\<exists>k\<in>set (list_for_user 9 2 p'). cs_id k = 11 \<and> cs_status k = DRAFT)"
proof -
  have "is_ok (create_case 5 11 demo_new demo_platform)" by code_simp
  then obtain p' where p': "create_case 5 11 demo_new demo_platform = Inr p'" by (auto simp: is_ok_iff)
  have "assignments_of_cases demo_platform" by (simp add: assignments_of_cases_def demo_defs case_by_id_def)
  from created_case_opens [OF demo_platform_ok this p', of 9] p' show ?thesis
    by (simp add: demo_new_def demo_defs is_active_user_def role_has_def)
qed

definition raise_to_amber :: case_edit where
  "raise_to_amber = \<lparr>ed_title = None, ed_summary = None, ed_authority_ref = None, ed_review_due = None,
     ed_retention_until = None, ed_classification = Some ''AMBER''\<rparr>"

definition raised_platform :: platform where
  "raised_platform = snd (update_case 5 (demo_current 2) 10 raise_to_amber (demo_platform\<lparr>pf_grants := []\<rparr>))"

theorem raise_names_everyone_locked_out_witness:
  "\<exists>lost. fst (update_case 5 (demo_current 2) 10 raise_to_amber (demo_platform\<lparr>pf_grants := []\<rparr>)) = Inr lost \<and> 4 \<in> set lost"
proof -
  let ?p = "demo_platform\<lparr>pf_grants := []\<rparr>"
  have lost: "fst (update_case 5 (demo_current 2) 10 raise_to_amber ?p) = Inr [4]" by code_simp
  then have "update_case 5 (demo_current 2) 10 raise_to_amber ?p = (Inr [4], raised_platform)"
    by (simp add: raised_platform_def prod_eq_iff)
  moreover have "platform_ok ?p" using demo_platform_ok by (simp add: platform_ok_def)
  moreover have "\<exists>k\<in>set (list_for_user 5 4 ?p). cs_id k = 10" "\<not> (\<exists>k\<in>set (list_for_user 5 4 raised_platform). cs_id k = 10)"
    by code_simp+
  ultimately have "4 \<in> set [4 :: uuid]" by (intro raise_names_everyone_locked_out)
  with lost show ?thesis by blast
qed

definition shared_platform :: platform where
  "shared_platform = snd (share_with 5 (demo_current 2) demo_case None 2 ''CASE_OWNER'' (Some (hours 5)) demo_platform)"

text \<open>The owner of the demonstration case is given an end through the share route, and loses the case when it comes.\<close>

lemma owner_loses_the_case: "list_for_user 5 2 shared_platform \<noteq> [] \<and> list_for_user (hours 5) 2 shared_platform = []"
  by code_simp

theorem share_writes_one_row_witness:
  "(\<exists>b. assignment_of shared_platform 10 2 = Some b \<and> as_role b = ''CASE_OWNER'' \<and> as_expires_at b = Some (hours 5)) \<and>
   assignment_of shared_platform 10 4 = assignment_of demo_platform 10 4"
proof -
  have "fst (share_with 5 (demo_current 2) demo_case None 2 ''CASE_OWNER'' (Some (hours 5)) demo_platform) =
      Inr (2, Some ''CASE_OWNER'')" by code_simp
  then have shared: "share_with 5 (demo_current 2) demo_case None 2 ''CASE_OWNER'' (Some (hours 5)) demo_platform =
      (Inr (2, Some ''CASE_OWNER''), shared_platform)" by (simp add: shared_platform_def prod_eq_iff)
  from share_writes_one_row [OF demo_platform_ok demo_lookups(2) shared] show ?thesis by auto
qed
end
