(* ===== verification/IamAdmin.thy ===== *)
theory IamAdmin
  imports Cases
begin

text \<open>
  The administration of accounts, \<open>iam_admin.py\<close>: accounts and their one-time credentials, activation, clearance,
  global roles, compartments and their registry, the first run, and the password a person chooses. Every
  operation answers an error or the new tables. The hash of a password, the sealing of a secret with the
  environment of the process, and what is drawn at random (identifier, password, secret, nonce) are arguments.

  The reading \<open>list_users\<close> and the provisioning text of a secret are not modelled. A role name is put in upper
  case on its ASCII letters: no grantable role has another letter, nor one that another letter's upper case
  could spell.
\<close>

section \<open>Constants and errors\<close>

definition grantable_roles :: "string set" where
  "grantable_roles = {''SYS_ADMIN'', ''SECURITY_OFFICER'', ''CASE_OWNER'', ''ANALYST'', ''MALWARE_ANALYST'', ''READ_ONLY'',
     ''COLLECTOR'', ''CONTRIBUTOR'', ''LIAISON'', ''REVIEWER''}"

definition load_bearing :: "string list" where
  "load_bearing = [''SYS_ADMIN'', ''SECURITY_OFFICER'']"

definition min_password_length :: nat where
  "min_password_length = 12"

definition max_password_length :: nat where
  "max_password_length = 1024"

datatype admin_error =
    EmailRequired
  | DisplayNameRequired
  | UnknownClearance string
  | NoRoleNamed
  | RolesNotGrantable "string list"
  | RolesNotSeeded "string list"
  | CompartmentsNotRegistered "string list"
  | KekUnavailable
  | SealFailed envelope_error
  | EmailTaken string
  | NoSuchAccount
  | OwnAccount
  | LastHolder string
  | StrandsBelow "(string \<times> bool) list"
  | StrandsOutside "(string \<times> bool \<times> string list) list"
  | OwnPasswordReset
  | BadCompartmentKey string
  | LabelRequired
  | AlreadyRegistered string
  | SetupClosed
  | AdminDatabaseError db_failure

section \<open>Passwords\<close>

datatype password_problem = PasswordTooShort | PasswordTooLong | PasswordUnchanged | PasswordIsAddress

text \<open>
  \<open>str.casefold\<close> on code points below 256: lower case, and a sharp s becomes two letters. (The micro sign folds
  to a letter outside this range that no other letter here folds to, so it may stay.)
\<close>

definition casefold :: "string \<Rightarrow> string" where
  "casefold s = concat (map (\<lambda>c. if code_point c = 223 then ''ss'' else [lower_char c]) s)"

definition new_password_problem :: "string \<Rightarrow> string \<Rightarrow> string option \<Rightarrow> password_problem option" where
  "new_password_problem new email current =
     (if length new < min_password_length then Some PasswordTooShort
      else if max_password_length < length new then Some PasswordTooLong
      else if current = Some new then Some PasswordUnchanged
      else let address = casefold (strip email);
               typed = casefold (strip new)
           in if address \<noteq> [] \<and> (typed = address \<or> typed = hd (split_on (CHR ''@'') address)) then Some PasswordIsAddress
              else None)"

definition admin_event :: "uuid option \<Rightarrow> string \<Rightarrow> uuid \<Rightarrow> (string \<times> detail_value) list \<Rightarrow> event" where
  "admin_event actor action subject d =
     \<lparr>ev_actor = actor, ev_action = action, ev_object_type = ''app_user'', ev_object = Some subject, ev_case = None,
      ev_denied = False, ev_detail = d\<rparr>"

definition update_user :: "uuid \<Rightarrow> (user_row \<Rightarrow> user_row) \<Rightarrow> platform \<Rightarrow> platform" where
  "update_user u f p = p\<lparr>pf_users := update_users (\<lambda>r. ur_id r = u) f (pf_users p)\<rparr>"

text \<open>\<open>clock\<close> is Python's clock; the columns stamped by a statement read the database's.\<close>

definition change_password ::
    "(string \<Rightarrow> string) \<Rightarrow> link \<Rightarrow> instant \<Rightarrow> uuid \<Rightarrow> string \<Rightarrow> uuid option \<Rightarrow> string \<Rightarrow> platform \<Rightarrow> admin_error + nat \<times> platform" where
  "change_password hash lk clock u new keep via p =
     (let p1 = update_user u (\<lambda>r. r\<lparr>ur_password_hash := Some (hash new), ur_must_change := False,
                   ur_password_changed_at := Some (db_now lk)\<rparr>) p
      in (case update_sessions (lk_sha lk) (lk_connection lk)
               (\<lambda>s. ss_user s = u \<and> ss_revoked_at s = None \<and> keep \<noteq> Some (ss_id s))
               (\<lambda>s. s\<lparr>ss_revoked_at := Some clock, ss_revoke_reason := Some ''password changed''\<rparr>) (pf_sessions p) of
            Inl e \<Rightarrow> Inl (AdminDatabaseError (DbSession e))
          | Inr (written, rows) \<Rightarrow>
              Inr (length written, log_event (admin_event (Some u) ''PASSWORD_CHANGED'' u
                [(''via'', NText via), (''sessions_revoked'', NNat (length written))]) (p1\<lparr>pf_sessions := rows\<rparr>))))"

text \<open>\<open>PgSessionStore.revoke_all_for_user\<close> on the tables.\<close>

definition evict_sessions :: "link \<Rightarrow> instant \<Rightarrow> uuid \<Rightarrow> string \<Rightarrow> platform \<Rightarrow> admin_error + nat \<times> platform" where
  "evict_sessions lk clock u reason p =
     (case pg_revoke_all (lk_sha lk) (lk_connection lk) u reason clock (pf_sessions p) of
        Inl e \<Rightarrow> Inl (AdminDatabaseError (DbSession e))
      | Inr (n, rows) \<Rightarrow> Inr (n, p\<lparr>pf_sessions := rows\<rparr>))"

section \<open>Checks\<close>

definition check_clearance :: "string \<Rightarrow> admin_error + tlp" where
  "check_clearance c = (case tlp_from_name c of Inl _ \<Rightarrow> Inl (UnknownClearance c) | Inr l \<Rightarrow> Inr l)"

definition check_roles :: "string list \<Rightarrow> platform \<Rightarrow> admin_error option" where
  "check_roles roles p =
     (let bad = filter (\<lambda>r. r \<notin> grantable_roles) roles;
          missing = filter (\<lambda>r. r \<notin> set (pf_roles p)) roles
      in if bad \<noteq> [] then Some (RolesNotGrantable bad)
         else if missing \<noteq> [] then Some (RolesNotSeeded missing)
         else None)"

definition role_name_of :: "string \<Rightarrow> string" where
  "role_name_of r = map upper_ascii_char (strip r)"

definition unknown_compartments :: "string list \<Rightarrow> platform \<Rightarrow> string list" where
  "unknown_compartments keys p = filter (\<lambda>k. \<not> registered p k) keys"

definition named_keys :: "string list \<Rightarrow> string list" where
  "named_keys keys = dedup (filter (\<lambda>k. k \<noteq> []) (map strip keys))"

definition is_compartment_key :: "string \<Rightarrow> bool" where
  "is_compartment_key =
     matches_dollar (\<lambda>s. list_all (\<lambda>c. (65 \<le> code_point c \<and> code_point c \<le> 90) \<or> is_digit_char c \<or> c = CHR ''_'' \<or> c = CHR ''-'') s \<and>
       2 \<le> length s \<and> length s \<le> 32)"

text \<open>\<open>_refuse_if_load_bearing\<close>, under the lock of the census, which makes check and write one step.\<close>

definition holds_role :: "platform \<Rightarrow> uuid \<Rightarrow> string \<Rightarrow> bool" where
  "holds_role p u role = list_ex (\<lambda>x. x = (u, role)) (pf_user_roles p)"

definition other_holders :: "platform \<Rightarrow> uuid \<Rightarrow> string \<Rightarrow> nat" where
  "other_holders p u role =
     length (filter (\<lambda>(v, r). r = role \<and> is_active_user p v \<and> v \<noteq> u) (pf_user_roles p))"

definition refuse_if_load_bearing :: "uuid \<Rightarrow> string option \<Rightarrow> platform \<Rightarrow> admin_error option" where
  "refuse_if_load_bearing u only p =
     map_option LastHolder (find (\<lambda>role. (only = None \<or> only = Some role) \<and> holds_role p u role \<and> other_holders p u role = 0) load_bearing)"

section \<open>Accounts\<close>

record credentials =
  cr_user :: uuid
  cr_email :: string
  cr_password :: string
  cr_secret :: string

text \<open>What an operation draws: the identifier, the password, the bytes of the secret and the nonce that seals it.\<close>

record drawn =
  dr_user :: uuid
  dr_password :: string
  dr_secret :: "byte list"
  dr_nonce :: "byte list"

record account_tools =
  at_hash :: "string \<Rightarrow> string"
  at_aead :: aead
  at_env :: environment

definition require_kek :: "account_tools \<Rightarrow> admin_error option" where
  "require_kek t = (case load_kek (at_env t) of Inl _ \<Rightarrow> Some KekUnavailable | Inr _ \<Rightarrow> None)"

text \<open>\<open>PgUserStore.enroll_totp\<close> on the tables.\<close>

definition enrol :: "account_tools \<Rightarrow> drawn \<Rightarrow> link \<Rightarrow> uuid \<Rightarrow> platform \<Rightarrow> admin_error + platform" where
  "enrol t d lk u p =
     (case pg_enroll_totp (at_aead t) (at_env t) (dr_nonce d) (db_now lk) u (generate_secret (dr_secret d)) (pf_users p) of
        Inl e \<Rightarrow> Inl (SealFailed e)
      | Inr rows \<Rightarrow> Inr (p\<lparr>pf_users := rows\<rparr>))"

text \<open>\<open>INSERT INTO iam.app_user\<close> with the defaults of the columns (migrations 0012 and 0066).\<close>

definition pg_create_user :: "account_tools \<Rightarrow> link \<Rightarrow> uuid \<Rightarrow> string \<Rightarrow> string \<Rightarrow> string \<Rightarrow> user_row list \<Rightarrow> db_failure + user_row list" where
  "pg_create_user t lk i email name password rows =
     (if list_ex (\<lambda>r. ur_id r = i \<or> lower (ur_email r) = lower email) rows then Inl DbUnique
      else Inr (rows @ [\<lparr>ur_id = i, ur_email = email, ur_display_name = name, ur_password_hash = Some (at_hash t password),
        ur_is_active = True, ur_clearance = GREEN, ur_compartments = [], ur_totp_secret = None, ur_totp_key_id = None,
        ur_totp_enrolled_at = None, ur_totp_last_counter = None, ur_recovery_codes = None, ur_failed_logins = 0,
        ur_locked_until = None, ur_last_login_at = None, ur_must_change = False, ur_password_changed_at = None,
        ur_created_at = db_now lk, ur_deactivated_at = None\<rparr>]))"

record new_account =
  na_email :: string
  na_name :: string
  na_clearance :: string
  na_roles :: "string list"
  na_compartments :: "string list"
  na_must_change :: bool

definition roles_wanted :: "new_account \<Rightarrow> string list" where
  "roles_wanted n = dedup (map role_name_of (filter (\<lambda>r. strip r \<noteq> []) (na_roles n)))"

definition account_refusal :: "account_tools \<Rightarrow> new_account \<Rightarrow> platform \<Rightarrow> admin_error option" where
  "account_refusal t n p =
     first_error
       [if strip (na_email n) = [] \<or> CHR ''@'' \<notin> set (strip (na_email n)) then Some EmailRequired else None,
        if strip (na_name n) = [] then Some DisplayNameRequired else None,
        case check_clearance (na_clearance n) of Inl e \<Rightarrow> Some e | Inr _ \<Rightarrow> None,
        if roles_wanted n = [] then Some NoRoleNamed else None,
        check_roles (roles_wanted n) p,
        (let unknown = unknown_compartments (named_keys (na_compartments n)) p
         in if unknown \<noteq> [] then Some (CompartmentsNotRegistered unknown) else None),
        require_kek t]"

definition grant_roles :: "uuid \<Rightarrow> string list \<Rightarrow> (uuid \<times> string) list \<Rightarrow> (uuid \<times> string) list" where
  "grant_roles u roles urs = fold (\<lambda>role urs. if (u, role) \<in> set urs then urs else urs @ [(u, role)]) roles urs"

definition create_analyst ::
    "account_tools \<Rightarrow> drawn \<Rightarrow> link \<Rightarrow> new_account \<Rightarrow> uuid option \<Rightarrow> platform \<Rightarrow> admin_error + credentials \<times> platform" where
  "create_analyst t d lk n actor p =
     (case account_refusal t n p of
        Some e \<Rightarrow> Inl e
      | None \<Rightarrow>
        let email = strip (na_email n); u = dr_user d; keys = named_keys (na_compartments n); roles = roles_wanted n
        in (case (check_clearance (na_clearance n), pg_create_user t lk u email (strip (na_name n)) (dr_password d) (pf_users p)) of
              (Inl e, _) \<Rightarrow> Inl e
            | (Inr _, Inl e) \<Rightarrow> Inl (EmailTaken email)
            | (Inr level, Inr rows) \<Rightarrow>
              (case enrol t d lk u (update_user u (\<lambda>r. r\<lparr>ur_clearance := level, ur_compartments := keys, ur_must_change := na_must_change n\<rparr>)
                      (p\<lparr>pf_users := rows, pf_user_roles := grant_roles u roles (pf_user_roles p)\<rparr>)) of
                 Inl e \<Rightarrow> Inl e
               | Inr p' \<Rightarrow> Inr (\<lparr>cr_user = u, cr_email = email, cr_password = dr_password d, cr_secret = generate_secret (dr_secret d)\<rparr>,
                   log_event (admin_event actor ''USER_CREATED'' u
                     [(''email'', NText email), (''roles'', NTexts roles), (''tlp_clearance'', NText (na_clearance n)),
                      (''compartments'', NTexts keys), (''must_change_password'', NFlag (na_must_change n))]) p'))))"

section \<open>Activation, clearance and roles\<close>

definition set_active :: "link \<Rightarrow> instant \<Rightarrow> uuid \<Rightarrow> bool \<Rightarrow> uuid \<Rightarrow> platform \<Rightarrow> admin_error + platform" where
  "set_active lk clock u active actor p =
     (case user_row_of p u of
        None \<Rightarrow> Inl NoSuchAccount
      | Some r \<Rightarrow>
        if ur_is_active r = active then Inr p
        else if \<not> active \<and> u = actor then Inl OwnAccount
        else (case (if active then None else refuse_if_load_bearing u None p) of
                Some e \<Rightarrow> Inl e
              | None \<Rightarrow>
                let p1 = update_user u (\<lambda>r. r\<lparr>ur_is_active := active,
                           ur_deactivated_at := (if active then None else Some (db_now lk))\<rparr>) p
                in (case (if active then Inr (0, p1) else evict_sessions lk clock u ''account deactivated'' p1) of
                      Inl e \<Rightarrow> Inl e
                    | Inr (_, p2) \<Rightarrow> Inr (log_event (admin_event (Some actor)
                        (if active then ''USER_REACTIVATED'' else ''USER_DEACTIVATED'') u [(''email'', NText (ur_email r))]) p2))))"

definition held_by :: "uuid \<Rightarrow> case_row \<Rightarrow> bool" where
  "held_by u k \<longleftrightarrow> cs_owner k = u \<or> cs_deputy k = Some u"

text \<open>The cases a holder would be left below, five at most, by code, each with whether the holder owns it.\<close>

definition stranded_below :: "uuid \<Rightarrow> tlp \<Rightarrow> platform \<Rightarrow> (string \<times> bool) list" where
  "stranded_below u l p =
     take 5 (sort_key fst (map (\<lambda>k. (cs_code k, cs_owner k = u))
       (filter (\<lambda>k. held_by u k \<and> cs_status k \<noteq> CLOSED \<and> l < cs_classification k) (pf_cases p))))"

definition set_clearance :: "uuid \<Rightarrow> string \<Rightarrow> uuid \<Rightarrow> platform \<Rightarrow> admin_error + platform" where
  "set_clearance u clearance actor p =
     (case check_clearance clearance of
        Inl e \<Rightarrow> Inl e
      | Inr l \<Rightarrow>
        (case user_row_of p u of
           None \<Rightarrow> Inl NoSuchAccount
         | Some r \<Rightarrow>
           if ur_clearance r = l then Inr p
           else if stranded_below u l p \<noteq> [] then Inl (StrandsBelow (stranded_below u l p))
           else Inr (log_event (admin_event (Some actor) ''USER_CLEARANCE_CHANGED'' u
                  [(''email'', NText (ur_email r)), (''from'', NText (tlp_name (ur_clearance r))), (''to'', NText clearance)])
                (update_user u (\<lambda>r. r\<lparr>ur_clearance := l\<rparr>) p))))"

definition grant_role :: "uuid \<Rightarrow> string \<Rightarrow> uuid \<Rightarrow> platform \<Rightarrow> admin_error + platform" where
  "grant_role u role actor p =
     (let role = role_name_of role in
      case check_roles [role] p of
        Some e \<Rightarrow> Inl e
      | None \<Rightarrow>
        if user_row_of p u = None then Inl NoSuchAccount
        else if holds_role p u role then Inr p
        else Inr (log_event (admin_event (Some actor) ''ROLE_GRANTED'' u [(''role'', NText role)])
               (p\<lparr>pf_user_roles := pf_user_roles p @ [(u, role)]\<rparr>)))"

definition revoke_role :: "uuid \<Rightarrow> string \<Rightarrow> uuid \<Rightarrow> platform \<Rightarrow> admin_error + platform" where
  "revoke_role u role actor p =
     (let role = role_name_of role in
      if user_row_of p u = None then Inl NoSuchAccount
      else (case (if role \<in> set load_bearing then refuse_if_load_bearing u (Some role) p else None) of
              Some e \<Rightarrow> Inl e
            | None \<Rightarrow>
              if \<not> holds_role p u role then Inr p
              else Inr (log_event (admin_event (Some actor) ''ROLE_REVOKED'' u [(''role'', NText role)])
                     (p\<lparr>pf_user_roles := filter (\<lambda>x. x \<noteq> (u, role)) (pf_user_roles p)\<rparr>))))"

section \<open>Credentials\<close>

definition reenrol_totp ::
    "account_tools \<Rightarrow> drawn \<Rightarrow> link \<Rightarrow> instant \<Rightarrow> uuid \<Rightarrow> uuid \<Rightarrow> platform \<Rightarrow> admin_error + credentials \<times> platform" where
  "reenrol_totp t d lk clock u actor p =
     (case require_kek t of
        Some e \<Rightarrow> Inl e
      | None \<Rightarrow>
        (case user_row_of p u of
           None \<Rightarrow> Inl NoSuchAccount
         | Some r \<Rightarrow>
           (case enrol t d lk u p of
              Inl e \<Rightarrow> Inl e
            | Inr p1 \<Rightarrow>
              (case evict_sessions lk clock u ''TOTP re-enrolled'' p1 of
                 Inl e \<Rightarrow> Inl e
               | Inr (ended, p2) \<Rightarrow> Inr (\<lparr>cr_user = u, cr_email = ur_email r, cr_password = [], cr_secret = generate_secret (dr_secret d)\<rparr>,
                   log_event (admin_event (Some actor) ''TOTP_REENROLLED'' u
                     [(''email'', NText (ur_email r)), (''sessions_revoked'', NNat ended)]) p2)))))"

definition time_note :: "instant option \<Rightarrow> detail_value" where
  "time_note t = (case t of None \<Rightarrow> NNull | Some i \<Rightarrow> NTime i)"

definition reset_password ::
    "account_tools \<Rightarrow> drawn \<Rightarrow> link \<Rightarrow> instant \<Rightarrow> uuid \<Rightarrow> uuid option \<Rightarrow> platform \<Rightarrow> admin_error + credentials \<times> platform" where
  "reset_password t d lk clock u actor p =
     (if actor = Some u then Inl OwnPasswordReset
      else (case user_row_of p u of
              None \<Rightarrow> Inl NoSuchAccount
            | Some r \<Rightarrow>
              let p1 = update_user u (\<lambda>r. r\<lparr>ur_password_hash := Some (at_hash t (dr_password d)), ur_must_change := True,
                         ur_password_changed_at := Some (db_now lk), ur_failed_logins := 0, ur_locked_until := None\<rparr>) p
              in (case evict_sessions lk clock u ''password reset'' p1 of
                    Inl e \<Rightarrow> Inl e
                  | Inr (ended, p2) \<Rightarrow> Inr (\<lparr>cr_user = u, cr_email = ur_email r, cr_password = dr_password d, cr_secret = []\<rparr>,
                      log_event (admin_event actor ''PASSWORD_RESET'' u
                        [(''email'', NText (ur_email r)), (''sessions_revoked'', NNat ended),
                         (''was_locked_until'', time_note (ur_locked_until r)), (''failed_logins'', NInt (ur_failed_logins r)),
                         (''via'', NText (if actor = None then ''bootstrap.py'' else ''admin''))]) p2))))"

definition unlock :: "uuid \<Rightarrow> uuid \<Rightarrow> platform \<Rightarrow> admin_error + platform" where
  "unlock u actor p =
     (case user_row_of p u of
        None \<Rightarrow> Inl NoSuchAccount
      | Some r \<Rightarrow> Inr (log_event (admin_event (Some actor) ''USER_UNLOCKED'' u
            [(''email'', NText (ur_email r)), (''failed_logins'', NInt (ur_failed_logins r)),
             (''was_locked_until'', time_note (ur_locked_until r))])
          (update_user u (\<lambda>r. r\<lparr>ur_failed_logins := 0, ur_locked_until := None\<rparr>) p)))"

section \<open>Compartments\<close>

definition list_compartments :: "uuid option \<Rightarrow> platform \<Rightarrow> compartment list" where
  "list_compartments holder p =
     sort_key cp_key (case holder of
        None \<Rightarrow> pf_registry p
      | Some u \<Rightarrow> filter (\<lambda>c. case user_row_of p u of None \<Rightarrow> False | Some r \<Rightarrow> cp_key c \<in> set (ur_compartments r)) (pf_registry p))"

definition register_compartment :: "link \<Rightarrow> string \<Rightarrow> string \<Rightarrow> uuid option \<Rightarrow> platform \<Rightarrow> admin_error + compartment \<times> platform" where
  "register_compartment lk key label actor p =
     (let key = strip key; label = strip label in
      if \<not> is_compartment_key key then Inl (BadCompartmentKey key)
      else if label = [] then Inl LabelRequired
      else if registered p key then Inl (AlreadyRegistered key)
      else let c = \<lparr>cp_key = key, cp_label = label, cp_created_by = actor, cp_created_at = db_now lk\<rparr>
           in Inr (c, log_event \<lparr>ev_actor = actor, ev_action = ''COMPARTMENT_REGISTERED'', ev_object_type = ''compartment'',
                ev_object = None, ev_case = None, ev_denied = False, ev_detail = [(''key'', NText key), (''label'', NText label)]\<rparr>
                (p\<lparr>pf_registry := pf_registry p @ [c]\<rparr>)))"

definition meets :: "string list \<Rightarrow> string list \<Rightarrow> bool" where
  "meets xs ys \<longleftrightarrow> list_ex (\<lambda>x. x \<in> set ys) xs"

definition stranded_outside :: "uuid \<Rightarrow> string list \<Rightarrow> platform \<Rightarrow> (string \<times> bool \<times> string list) list" where
  "stranded_outside u removed p =
     take 5 (sort_key fst (map (\<lambda>k. (cs_code k, cs_owner k = u, sort (filter (\<lambda>x. x \<in> set removed) (cs_compartments k))))
       (filter (\<lambda>k. held_by u k \<and> cs_status k \<noteq> CLOSED \<and> meets (cs_compartments k) removed) (pf_cases p))))"

definition stranded_assignments :: "instant \<Rightarrow> uuid \<Rightarrow> string list \<Rightarrow> platform \<Rightarrow> string list" where
  "stranded_assignments now u removed p =
     take 20 (sort (remdups (concat (map (\<lambda>a. map cs_code (filter (\<lambda>k. cs_id k = as_case a \<and> cs_status k \<noteq> CLOSED \<and>
          meets (cs_compartments k) removed) (pf_cases p)))
       (filter (\<lambda>a. as_user a = u \<and> unexpired now a) (pf_assignments p))))))"

definition set_compartments :: "link \<Rightarrow> uuid \<Rightarrow> string list \<Rightarrow> uuid \<Rightarrow> platform \<Rightarrow> admin_error + string list \<times> platform" where
  "set_compartments lk u keys actor p =
     (let keys = named_keys keys in
      case user_row_of p u of
        None \<Rightarrow> Inl NoSuchAccount
      | Some r \<Rightarrow>
        let current = ur_compartments r; unknown = unknown_compartments keys p;
            removed = sort (remdups (filter (\<lambda>k. k \<notin> set keys) current))
        in if sort current = sort keys then Inr (current, p)
           else if unknown \<noteq> [] then Inl (CompartmentsNotRegistered unknown)
           else if stranded_outside u removed p \<noteq> [] then Inl (StrandsOutside (stranded_outside u removed p))
           else Inr (keys, log_event (admin_event (Some actor) ''USER_COMPARTMENTS_CHANGED'' u
                  ([(''email'', NText (ur_email r)), (''from'', NTexts current), (''to'', NTexts keys)] @
                   (if removed = [] then [] else [(''stranded_assignments'', NTexts (stranded_assignments (db_now lk) u removed p))])))
                (update_user u (\<lambda>r. r\<lparr>ur_compartments := keys\<rparr>) p)))"

section \<open>The first run\<close>

definition needs_setup :: "platform \<Rightarrow> bool" where
  "needs_setup p \<longleftrightarrow> pf_users p = []"

definition create_first_admin ::
    "account_tools \<Rightarrow> drawn \<Rightarrow> link \<Rightarrow> string \<Rightarrow> string \<Rightarrow> platform \<Rightarrow> admin_error + credentials \<times> platform" where
  "create_first_admin t d lk email name p =
     (case require_kek t of
        Some e \<Rightarrow> Inl e
      | None \<Rightarrow>
        if \<not> needs_setup p then Inl SetupClosed
        else create_analyst t d lk \<lparr>na_email = email, na_name = name, na_clearance = ''RED'',
          na_roles = [''SYS_ADMIN'', ''SECURITY_OFFICER'', ''CASE_OWNER'', ''ANALYST''], na_compartments = [], na_must_change = False\<rparr> None p)"
section \<open>What an operation leaves of the accounts\<close>

lemma user_row_of_update:
  assumes "\<And>r. ur_id (f r) = ur_id r"
  shows "user_row_of (update_user u f p) v = map_option (\<lambda>r. if ur_id r = u then f r else r) (user_row_of p v)"
  using user_at_update [of f "\<lambda>r. ur_id r = u" "pf_users p" v] assms by (simp add: user_row_of_def update_user_def user_at_def)

lemma is_active_update:
  assumes "\<And>r. ur_id (f r) = ur_id r" "\<And>r. ur_is_active (f r) = ur_is_active r"
  shows "is_active_user (update_user u f p) v = is_active_user p v"
proof -
  have "list_ex (\<lambda>r. ur_id r = v \<and> ur_is_active r) (update_users P f rows) = list_ex (\<lambda>r. ur_id r = v \<and> ur_is_active r) rows" for P rows
    by (induction rows) (auto simp: update_users_def assms)
  then show ?thesis by (simp add: is_active_user_def update_user_def)
qed

lemma update_user_tables [simp]:
  "pf_cases (update_user u f p) = pf_cases p" "pf_user_roles (update_user u f p) = pf_user_roles p"
  "pf_sessions (update_user u f p) = pf_sessions p" "pf_assignments (update_user u f p) = pf_assignments p"
  "pf_registry (update_user u f p) = pf_registry p"
  by (simp_all add: update_user_def)

lemma log_event_accounts [simp]:
  "pf_user_roles (log_event e p) = pf_user_roles p" "pf_sessions (log_event e p) = pf_sessions p"
  "user_row_of (log_event e p) = user_row_of p" "is_active_user (log_event e p) = is_active_user p"
  by (simp_all add: log_event_def user_row_of_def is_active_user_def fun_eq_iff)

lemma session_accounts [simp]:
  "user_row_of (p\<lparr>pf_sessions := s\<rparr>) = user_row_of p" "is_active_user (p\<lparr>pf_sessions := s\<rparr>) = is_active_user p"
  by (simp_all add: user_row_of_def is_active_user_def fun_eq_iff)

lemma registry_accounts [simp]:
  "user_row_of (p\<lparr>pf_registry := s\<rparr>) = user_row_of p" "is_active_user (p\<lparr>pf_registry := s\<rparr>) = is_active_user p"
  by (simp_all add: user_row_of_def is_active_user_def fun_eq_iff)

lemma role_accounts [simp]:
  "user_row_of (p\<lparr>pf_user_roles := s\<rparr>) = user_row_of p" "is_active_user (p\<lparr>pf_user_roles := s\<rparr>) = is_active_user p"
  by (simp_all add: user_row_of_def is_active_user_def fun_eq_iff)

text \<open>The roles the deployment cannot do without are held by an active account.\<close>

definition staffed :: "platform \<Rightarrow> bool" where
  "staffed p \<longleftrightarrow> (\<forall>role\<in>set load_bearing. active_role_holders p role \<noteq> [])"

text \<open>Whoever holds an open case can read it.\<close>

definition seated :: "platform \<Rightarrow> bool" where
  "seated p \<longleftrightarrow> (\<forall>k\<in>set (pf_cases p). cs_status k \<noteq> CLOSED \<longrightarrow> (\<forall>u. held_by u k \<longrightarrow>
     (\<exists>r. user_row_of p u = Some r \<and> cs_classification k \<le> ur_clearance r \<and> set (cs_compartments k) \<subseteq> set (ur_compartments r))))"

lemma staffed_iff: "staffed p \<longleftrightarrow> (\<forall>role\<in>set load_bearing. \<exists>u. (u, role) \<in> set (pf_user_roles p) \<and> is_active_user p u)"
proof -
  have "active_role_holders p role \<noteq> [] \<longleftrightarrow> (\<exists>u. u \<in> set (active_role_holders p role))" for role
    by (cases "active_role_holders p role") auto
  then show ?thesis by (simp add: staffed_def)
qed

definition keeps_staff :: "platform \<Rightarrow> platform \<Rightarrow> bool" where
  "keeps_staff p q \<longleftrightarrow> set (pf_user_roles p) \<subseteq> set (pf_user_roles q) \<and> (\<forall>v. is_active_user p v \<longrightarrow> is_active_user q v)"

definition keeps_seats :: "platform \<Rightarrow> platform \<Rightarrow> bool" where
  "keeps_seats p q \<longleftrightarrow> pf_cases q = pf_cases p \<and> (\<forall>v r. user_row_of p v = Some r \<longrightarrow>
     (\<exists>r'. user_row_of q v = Some r' \<and> ur_clearance r' = ur_clearance r \<and> ur_compartments r' = ur_compartments r))"

lemma staffed_kept: "keeps_staff p q \<Longrightarrow> staffed p \<Longrightarrow> staffed q"
  unfolding staffed_iff keeps_staff_def by blast

lemma seated_kept:
  assumes "keeps_seats p q" "seated p"
  shows "seated q"
  unfolding seated_def
proof (intro ballI impI allI)
  fix k u assume k: "k \<in> set (pf_cases q)" "cs_status k \<noteq> CLOSED" "held_by u k"
  then obtain r where "user_row_of p u = Some r" "cs_classification k \<le> ur_clearance r" "set (cs_compartments k) \<subseteq> set (ur_compartments r)"
    using assms unfolding seated_def keeps_seats_def by metis
  then show "\<exists>r. user_row_of q u = Some r \<and> cs_classification k \<le> ur_clearance r \<and> set (cs_compartments k) \<subseteq> set (ur_compartments r)"
    using assms(1) unfolding keeps_seats_def by metis
qed

lemma keeps_update:
  assumes "\<And>r. ur_id (f r) = ur_id r"
  shows "(\<And>r. ur_is_active (f r) = ur_is_active r) \<Longrightarrow> keeps_staff p (update_user u f p)"
    and "(\<And>r. ur_clearance (f r) = ur_clearance r) \<Longrightarrow> (\<And>r. ur_compartments (f r) = ur_compartments r) \<Longrightarrow> keeps_seats p (update_user u f p)"
  by (simp_all add: keeps_staff_def is_active_update assms keeps_seats_def user_row_of_update)

lemma keeps_log [simp]: "keeps_staff p (log_event e q) = keeps_staff p q" "keeps_seats p (log_event e q) = keeps_seats p q"
  by (simp_all add: keeps_staff_def keeps_seats_def)

lemma keeps_sessions [simp]:
  "keeps_staff p (q\<lparr>pf_sessions := s\<rparr>) = keeps_staff p q" "keeps_seats p (q\<lparr>pf_sessions := s\<rparr>) = keeps_seats p q"
  by (simp_all add: keeps_staff_def keeps_seats_def)

lemma keeps_refl [simp]: "keeps_staff p p" "keeps_seats p p"
  by (simp_all add: keeps_staff_def keeps_seats_def)

lemma enrol_Inr:
  assumes "enrol t d lk u p = Inr q"
  obtains f where "q = update_user u f p" "\<And>r. ur_id (f r) = ur_id r" "\<And>r. ur_is_active (f r) = ur_is_active r"
    "\<And>r. ur_clearance (f r) = ur_clearance r" "\<And>r. ur_compartments (f r) = ur_compartments r"
  using assms by (auto simp: enrol_def pg_enroll_totp_def update_user_def split: sum.splits prod.splits)

lemma evict_sessions_Inr:
  assumes "evict_sessions lk clock u reason p = Inr (n, q)"
  obtains rows where "q = p\<lparr>pf_sessions := rows\<rparr>" "\<And>s. s \<in> set rows \<Longrightarrow> ss_user s = u \<Longrightarrow> ss_revoked_at s \<noteq> None"
proof -
  let ?rows = "map (\<lambda>s. if ss_user s = u \<and> ss_revoked_at s = None
      then s\<lparr>ss_revoked_at := Some clock, ss_revoke_reason := Some reason\<rparr> else s) (pf_sessions p)"
  have "q = p\<lparr>pf_sessions := ?rows\<rparr>"
    using assms by (auto simp: evict_sessions_def pg_revoke_all_def update_sessions_def split: sum.splits if_splits)
  moreover have "list_all (\<lambda>s. ss_user s = u \<longrightarrow> ss_revoked_at s \<noteq> None) ?rows"
    unfolding list_all_length by (simp add: list_all_length)
  then have "ss_revoked_at s \<noteq> None" if "s \<in> set ?rows" "ss_user s = u" for s
    using that unfolding list_all_iff by blast
  ultimately show ?thesis by (rule that)
qed
section \<open>Properties\<close>

text \<open>A write of \<open>iam_admin.py\<close> that went through, by anybody, with any arguments and draws.\<close>

inductive admin_step :: "platform \<Rightarrow> platform \<Rightarrow> bool" where
  account_made: "create_analyst t d lk n actor p = Inr (c, q) \<Longrightarrow> admin_step p q"
| activity_set: "set_active lk clock u active by p = Inr q \<Longrightarrow> admin_step p q"
| clearance_set: "set_clearance u clearance by p = Inr q \<Longrightarrow> admin_step p q"
| role_given: "grant_role u role by p = Inr q \<Longrightarrow> admin_step p q"
| role_taken: "revoke_role u role by p = Inr q \<Longrightarrow> admin_step p q"
| second_factor_renewed: "reenrol_totp t d lk clock u by p = Inr (c, q) \<Longrightarrow> admin_step p q"
| password_renewed: "reset_password t d lk clock u actor p = Inr (c, q) \<Longrightarrow> admin_step p q"
| lock_lifted: "unlock u by p = Inr q \<Longrightarrow> admin_step p q"
| key_registered: "register_compartment lk key label actor p = Inr (k, q) \<Longrightarrow> admin_step p q"
| read_ins_set: "set_compartments lk u keys by p = Inr (ks, q) \<Longrightarrow> admin_step p q"
| own_password_set: "change_password hash lk clock u new keep via p = Inr (m, q) \<Longrightarrow> admin_step p q"

lemma set_grant_roles: "set (grant_roles u roles urs) = set urs \<union> Pair u ` set roles"
proof (induction roles arbitrary: urs)
  case (Cons r roles)
  have "grant_roles u (r # roles) urs = grant_roles u roles (if (u, r) \<in> set urs then urs else urs @ [(u, r)])"
    by (simp add: grant_roles_def)
  then show ?case using Cons.IH by auto
qed (simp add: grant_roles_def)

lemma create_analyst_Inr:
  assumes "create_analyst t d lk n actor p = Inr (c, q)"
  obtains r where "user_row_of p (dr_user d) = None" "ur_id r = dr_user d" "ur_is_active r"
    "pf_users q = pf_users p @ [r]" "pf_cases q = pf_cases p" "pf_user_roles q = grant_roles (dr_user d) (roles_wanted n) (pf_user_roles p)"
proof -
  let ?u = "dr_user d"
  obtain level rows p' e where level: "check_clearance (na_clearance n) = Inr level"
    and rows: "pg_create_user t lk ?u (strip (na_email n)) (strip (na_name n)) (dr_password d) (pf_users p) = Inr rows"
    and sealed: "enrol t d lk ?u (update_user ?u (\<lambda>r. r\<lparr>ur_clearance := level, ur_compartments := named_keys (na_compartments n),
        ur_must_change := na_must_change n\<rparr>) (p\<lparr>pf_users := rows, pf_user_roles := grant_roles ?u (roles_wanted n) (pf_user_roles p)\<rparr>)) = Inr p'"
    and q: "q = log_event e p'"
    using assms by (auto simp: create_analyst_def Let_def split: option.splits sum.splits)
  obtain f where f: "p' = update_user ?u f (update_user ?u (\<lambda>r. r\<lparr>ur_clearance := level, ur_compartments := named_keys (na_compartments n),
        ur_must_change := na_must_change n\<rparr>) (p\<lparr>pf_users := rows, pf_user_roles := grant_roles ?u (roles_wanted n) (pf_user_roles p)\<rparr>))"
      "\<And>r. ur_id (f r) = ur_id r" "\<And>r. ur_is_active (f r) = ur_is_active r"
    by (rule enrol_Inr [OF sealed]) blast
  obtain r where r: "rows = pf_users p @ [r]" "ur_id r = ?u" "ur_is_active r" and fresh: "\<forall>x\<in>set (pf_users p). ur_id x \<noteq> ?u"
    using rows by (auto simp: pg_create_user_def list_ex_iff split: if_splits)
  let ?r = "f (r\<lparr>ur_clearance := level, ur_compartments := named_keys (na_compartments n), ur_must_change := na_must_change n\<rparr>)"
  have users: "pf_users q = pf_users p @ [?r]"
    using fresh r by (auto simp: q f(1) update_user_def update_users_def map_idI)
  have none: "user_row_of p ?u = None"
    using fresh by (auto simp: user_row_of_def user_by_id_def find_None_iff)
  show ?thesis by (rule that [of ?r, OF none _ _ users]) (use f(2,3) r(2,3) in \<open>simp_all add: q f(1)\<close>)
qed

lemma create_analyst_keeps:
  assumes "create_analyst t d lk n actor p = Inr (c, q)"
  shows "keeps_staff p q" "keeps_seats p q"
    "role \<in> set (roles_wanted n) \<Longrightarrow> (dr_user d, role) \<in> set (pf_user_roles q)" "is_active_user q (dr_user d)"
proof -
  obtain r where r: "user_row_of p (dr_user d) = None" "ur_id r = dr_user d" "ur_is_active r"
    "pf_users q = pf_users p @ [r]" "pf_cases q = pf_cases p" "pf_user_roles q = grant_roles (dr_user d) (roles_wanted n) (pf_user_roles p)"
    by (rule create_analyst_Inr [OF assms])
  show "keeps_staff p q" "role \<in> set (roles_wanted n) \<Longrightarrow> (dr_user d, role) \<in> set (pf_user_roles q)" "is_active_user q (dr_user d)"
    using r by (auto simp: keeps_staff_def set_grant_roles is_active_user_def)
  have "find P (xs @ ys) = Some x" if "find P xs = Some x" for P and xs ys :: "user_row list" and x
    using that by (induction xs) (auto split: if_splits)
  then show "keeps_seats p q" using r(4,5) by (auto simp: keeps_seats_def user_row_of_def user_by_id_def)
qed

lemma set_active_staff:
  assumes staffed: "staffed p" and off: "refuse_if_load_bearing u None p = None"
    and q: "set (pf_user_roles q) = set (pf_user_roles p)" "\<And>v. v \<noteq> u \<Longrightarrow> is_active_user p v \<Longrightarrow> is_active_user q v"
  shows "staffed q"
  unfolding staffed_iff
proof
  fix role assume role: "role \<in> set load_bearing"
  then obtain v where v: "(v, role) \<in> set (pf_user_roles p)" "is_active_user p v" using staffed by (auto simp: staffed_iff)
  show "\<exists>v. (v, role) \<in> set (pf_user_roles q) \<and> is_active_user q v"
  proof (cases "v = u")
    case True
    have "\<not> (holds_role p u role \<and> other_holders p u role = 0)"
      using off role by (auto simp: refuse_if_load_bearing_def find_None_iff)
    then obtain w where "(w, role) \<in> set (pf_user_roles p)" "is_active_user p w" "w \<noteq> u"
      using v(1) True by (auto simp: holds_role_def other_holders_def list_ex_iff filter_empty_conv)
    then show ?thesis using q by auto
  qed (use v q in auto)
qed
lemma revoke_role_staff:
  assumes staffed: "staffed p" and saved: "revoke_role u role by p = Inr q"
  shows "staffed q"
proof (cases "q = p")
  case False
  let ?role = "role_name_of role"
  obtain e where q: "q = log_event e (p\<lparr>pf_user_roles := filter (\<lambda>x. x \<noteq> (u, ?role)) (pf_user_roles p)\<rparr>)"
    and guard: "?role \<in> set load_bearing \<Longrightarrow> refuse_if_load_bearing u (Some ?role) p = None"
    using saved False by (auto simp: revoke_role_def Let_def split: option.splits if_splits)
  show ?thesis
    unfolding staffed_iff
  proof
    fix r assume r: "r \<in> set load_bearing"
    then obtain v where v: "(v, r) \<in> set (pf_user_roles p)" "is_active_user p v" using staffed by (auto simp: staffed_iff)
    show "\<exists>v. (v, r) \<in> set (pf_user_roles q) \<and> is_active_user q v"
    proof (cases "(v, r) = (u, ?role)")
      case True
      then have "\<not> (holds_role p u r \<and> other_holders p u r = 0)"
        using guard r by (auto simp: refuse_if_load_bearing_def find_None_iff)
      then obtain w where "(w, r) \<in> set (pf_user_roles p)" "is_active_user p w" "w \<noteq> u"
        using v(1) True by (auto simp: holds_role_def other_holders_def list_ex_iff filter_empty_conv)
      then show ?thesis by (auto simp: q)
    qed (use v in \<open>auto simp: q\<close>)
  qed
qed (use staffed in simp)

lemma take_Nil_iff: "0 < n \<Longrightarrow> take n xs = [] \<longleftrightarrow> xs = []"
  by (cases n) auto

lemma sort_key_Nil [simp]: "sort_key f xs = [] \<longleftrightarrow> xs = []"
  by (metis length_0_conv length_sort)

lemma stranded_below_Nil:
  "stranded_below u l p = [] \<longleftrightarrow> (\<forall>k\<in>set (pf_cases p). held_by u k \<longrightarrow> cs_status k \<noteq> CLOSED \<longrightarrow> cs_classification k \<le> l)"
  by (auto simp: stranded_below_def take_Nil_iff filter_empty_conv not_less)

lemma stranded_outside_Nil:
  "stranded_outside u removed p = [] \<longleftrightarrow>
     (\<forall>k\<in>set (pf_cases p). held_by u k \<longrightarrow> cs_status k \<noteq> CLOSED \<longrightarrow> set (cs_compartments k) \<inter> set removed = {})"
  by (auto simp: stranded_outside_def take_Nil_iff filter_empty_conv meets_def list_ex_iff)

text \<open>A change of what one account may read keeps the seats when its new labels dominate what it holds.\<close>

lemma seated_update:
  assumes seated: "seated p" and f: "\<And>r. ur_id (f r) = ur_id r"
    and q: "pf_cases q = pf_cases p" "user_row_of q = user_row_of (update_user u f p)"
    and dominates: "\<And>k r. k \<in> set (pf_cases p) \<Longrightarrow> held_by u k \<Longrightarrow> cs_status k \<noteq> CLOSED \<Longrightarrow> user_row_of p u = Some r \<Longrightarrow>
      cs_classification k \<le> ur_clearance r \<Longrightarrow> set (cs_compartments k) \<subseteq> set (ur_compartments r) \<Longrightarrow>
      cs_classification k \<le> ur_clearance (f r) \<and> set (cs_compartments k) \<subseteq> set (ur_compartments (f r))"
  shows "seated q"
  unfolding seated_def q(1)
proof (intro ballI impI allI)
  fix k v assume k: "k \<in> set (pf_cases p)" "cs_status k \<noteq> CLOSED" "held_by v k"
  then obtain r where r: "user_row_of p v = Some r" "cs_classification k \<le> ur_clearance r" "set (cs_compartments k) \<subseteq> set (ur_compartments r)"
    using seated unfolding seated_def by blast
  have id: "ur_id r = v" using r(1) by (auto simp: user_row_of_def user_by_id_def find_Some_iff)
  have row: "user_row_of q v = Some (if v = u then f r else r)"
    unfolding q(2) user_row_of_update [of f, OF f] using r(1) id by simp
  show "\<exists>r. user_row_of q v = Some r \<and> cs_classification k \<le> ur_clearance r \<and> set (cs_compartments k) \<subseteq> set (ur_compartments r)"
    unfolding row using dominates [of k r] k r by (cases "v = u") auto
qed

lemma set_clearance_keeps:
  assumes "set_clearance u clearance by p = Inr q"
  shows "keeps_staff p q" "seated p \<Longrightarrow> seated q"
proof -
  have "keeps_staff p q \<and> (seated p \<longrightarrow> seated q)"
  proof (cases "q = p")
    case False
    obtain l e where saved: "stranded_below u l p = []" "q = log_event e (update_user u (\<lambda>r. r\<lparr>ur_clearance := l\<rparr>) p)"
      using assms False by (auto simp: set_clearance_def split: sum.splits option.splits if_splits)
    have "seated q" if "seated p"
      by (rule seated_update [where u = u and f = "\<lambda>r. r\<lparr>ur_clearance := l\<rparr>", OF that])
        (use saved in \<open>auto simp: stranded_below_Nil\<close>)
    moreover have "keeps_staff p q" using saved(2) by (simp add: keeps_update)
    ultimately show ?thesis by blast
  qed simp
  then show "keeps_staff p q" "seated p \<Longrightarrow> seated q" by auto
qed

lemma set_compartments_keeps:
  assumes "set_compartments lk u keys by p = Inr (ks, q)"
  shows "keeps_staff p q" "seated p \<Longrightarrow> seated q"
proof -
  have "keeps_staff p q \<and> (seated p \<longrightarrow> seated q)"
  proof (cases "q = p")
    case False
    obtain r e where r: "user_row_of p u = Some r"
      and saved: "stranded_outside u (sort (remdups (filter (\<lambda>k. k \<notin> set (named_keys keys)) (ur_compartments r)))) p = []"
        "q = log_event e (update_user u (\<lambda>r. r\<lparr>ur_compartments := named_keys keys\<rparr>) p)"
      using assms False by (auto simp: set_compartments_def Let_def split: option.splits if_splits)
    have "seated q" if "seated p"
      by (rule seated_update [where u = u and f = "\<lambda>r. r\<lparr>ur_compartments := named_keys keys\<rparr>", OF that])
        (use saved r in \<open>auto simp: stranded_outside_Nil\<close>)
    moreover have "keeps_staff p q" using saved(2) by (simp add: keeps_update)
    ultimately show ?thesis by blast
  qed simp
  then show "keeps_staff p q" "seated p \<Longrightarrow> seated q" by auto
qed

lemma is_active_set:
  "is_active_user (update_user u (\<lambda>r. r\<lparr>ur_is_active := active, ur_deactivated_at := t\<rparr>) p) v \<longleftrightarrow>
     (if v = u then active \<and> user_row_of p u \<noteq> None else is_active_user p v)"
proof -
  have "list_ex (\<lambda>r. ur_id r = v \<and> ur_is_active r) (update_users (\<lambda>r. ur_id r = u) (\<lambda>r. r\<lparr>ur_is_active := active, ur_deactivated_at := t\<rparr>) rows) \<longleftrightarrow>
      (if v = u then active \<and> list_ex (\<lambda>r. ur_id r = u) rows else list_ex (\<lambda>r. ur_id r = v \<and> ur_is_active r) rows)" for rows
    by (induction rows) (auto simp: update_users_def)
  then show ?thesis
    by (auto simp: is_active_user_def update_user_def user_row_of_def user_by_id_def find_None_iff list_ex_iff)
qed

lemma set_active_Inr:
  assumes "set_active lk clock u active by p = Inr q"
  obtains (same) r where "q = p" "user_row_of p u = Some r" "ur_is_active r = active"
  | (changed) r rows e where "user_row_of p u = Some r" "ur_is_active r \<noteq> active" "\<not> active \<Longrightarrow> refuse_if_load_bearing u None p = None"
      "q = log_event e ((update_user u (\<lambda>r. r\<lparr>ur_is_active := active,
         ur_deactivated_at := (if active then None else Some (db_now lk))\<rparr>) p)\<lparr>pf_sessions := rows\<rparr>)"
      "\<not> active \<Longrightarrow> \<forall>s\<in>set rows. ss_user s = u \<longrightarrow> ss_revoked_at s \<noteq> None"
proof (cases "\<exists>r. user_row_of p u = Some r \<and> ur_is_active r = active")
  case False
  let ?p1 = "update_user u (\<lambda>r. r\<lparr>ur_is_active := active, ur_deactivated_at := (if active then None else Some (db_now lk))\<rparr>) p"
  obtain r m p2 e where r: "user_row_of p u = Some r" "ur_is_active r \<noteq> active" "\<not> active \<Longrightarrow> refuse_if_load_bearing u None p = None"
    and p2: "(if active then Inr (0, ?p1) else evict_sessions lk clock u ''account deactivated'' ?p1) = Inr (m, p2)" and q: "q = log_event e p2"
    using assms False by (auto simp: set_active_def Let_def split: option.splits sum.splits if_splits)
  show ?thesis
  proof (cases active)
    case True
    have "?p1\<lparr>pf_sessions := pf_sessions p\<rparr> = ?p1" by (simp add: update_user_def)
    with True p2 q have "q = log_event e (?p1\<lparr>pf_sessions := pf_sessions p\<rparr>)" by simp
    then show ?thesis using changed [of r e "pf_sessions p"] r True by blast
  next
    case False
    then have "evict_sessions lk clock u ''account deactivated'' ?p1 = Inr (m, p2)" using p2 by simp
    then show ?thesis by (rule evict_sessions_Inr) (use changed [OF r] False q in auto)
  qed
next
  case True
  with assms same show ?thesis by (auto simp: set_active_def)
qed

lemma set_active_keeps:
  assumes saved: "set_active lk clock u active by p = Inr q"
  shows "staffed p \<Longrightarrow> staffed q" "keeps_seats p q"
proof -
  have "(staffed p \<longrightarrow> staffed q) \<and> keeps_seats p q"
    using saved
  proof (cases rule: set_active_Inr)
    case (changed r rows e)
    let ?p1 = "update_user u (\<lambda>r. r\<lparr>ur_is_active := active, ur_deactivated_at := (if active then None else Some (db_now lk))\<rparr>) p"
    have others: "is_active_user ?p1 v = is_active_user p v" if "v \<noteq> u" for v
      unfolding is_active_set using that by simp
    have on: "is_active_user ?p1 v" if "active" "is_active_user p v" for v
      unfolding is_active_set using that changed(1) by simp
    have "staffed q" if "staffed p"
    proof (cases active)
      case True
      then have "keeps_staff p q" using on changed(4) by (simp add: keeps_staff_def)
      then show ?thesis using that staffed_kept by blast
    next
      case False
      show ?thesis
        by (rule set_active_staff [OF that changed(3)]) (use False others changed(4) in simp_all)
    qed
    moreover have "keeps_seats p q" using changed(4) by (simp add: keeps_update)
    ultimately show ?thesis by blast
  qed simp
  then show "staffed p \<Longrightarrow> staffed q" "keeps_seats p q" by auto
qed
lemma admin_step_keeps:
  assumes "admin_step p q"
  shows "(staffed p \<longrightarrow> staffed q) \<and> (seated p \<longrightarrow> seated q)"
  using assms
proof (cases rule: admin_step.cases)
  case (account_made t d lk n actor c)
  then show ?thesis using create_analyst_keeps staffed_kept seated_kept by metis
next
  case (activity_set lk clock u active "by")
  then show ?thesis using set_active_keeps seated_kept by metis
next
  case (clearance_set u clearance "by")
  then show ?thesis using set_clearance_keeps staffed_kept by metis
next
  case (role_given u role "by")
  then have "keeps_staff p q" "keeps_seats p q"
    by (auto simp: grant_role_def Let_def keeps_staff_def keeps_seats_def split: option.splits if_splits)
  then show ?thesis using staffed_kept seated_kept by blast
next
  case (role_taken u role "by")
  then have "keeps_seats p q"
    by (auto simp: revoke_role_def Let_def keeps_seats_def split: option.splits if_splits)
  then show ?thesis using role_taken revoke_role_staff seated_kept by blast
next
  case (second_factor_renewed t d lk clock u "by" c)
  then obtain r p1 m p2 e where "enrol t d lk u p = Inr p1" "evict_sessions lk clock u ''TOTP re-enrolled'' p1 = Inr (m, p2)" and q: "q = log_event e p2"
    by (auto simp: reenrol_totp_def split: option.splits sum.splits)
  then have "keeps_staff p q \<and> keeps_seats p q"
    by (elim enrol_Inr evict_sessions_Inr) (simp add: keeps_update)
  then show ?thesis using staffed_kept seated_kept by blast
next
  case (password_renewed t d lk clock u actor c)
  then obtain f m p2 e where "evict_sessions lk clock u ''password reset'' (update_user u f p) = Inr (m, p2)" and q: "q = log_event e p2"
    and f: "f = (\<lambda>r. r\<lparr>ur_password_hash := Some (at_hash t (dr_password d)), ur_must_change := True,
        ur_password_changed_at := Some (db_now lk), ur_failed_logins := 0, ur_locked_until := None\<rparr>)"
    by (auto simp: reset_password_def Let_def split: option.splits sum.splits if_splits)
  then have "keeps_staff p q \<and> keeps_seats p q"
    by (elim evict_sessions_Inr) (simp add: keeps_update f)
  then show ?thesis using staffed_kept seated_kept by blast
next
  case (lock_lifted u "by")
  then have "keeps_staff p q \<and> keeps_seats p q"
    by (auto simp: unlock_def keeps_update split: option.splits)
  then show ?thesis using staffed_kept seated_kept by blast
next
  case (key_registered lk key label actor k)
  then have "keeps_staff p q \<and> keeps_seats p q"
    by (auto simp: register_compartment_def Let_def keeps_staff_def keeps_seats_def split: if_splits)
  then show ?thesis using staffed_kept seated_kept by blast
next
  case (read_ins_set lk u keys "by" ks)
  then show ?thesis using set_compartments_keeps staffed_kept by metis
next
  case (own_password_set hash lk clock u new keep via m)
  then have "keeps_staff p q \<and> keeps_seats p q"
    by (auto simp: change_password_def Let_def keeps_update split: sum.splits)
  then show ?thesis using staffed_kept seated_kept by blast
qed

lemma admin_run_keeps:
  "admin_step\<^sup>*\<^sup>* p q \<Longrightarrow> (staffed p \<longrightarrow> staffed q) \<and> (seated p \<longrightarrow> seated q)"
  by (induction rule: rtranclp_induct) (use admin_step_keeps in blast)+

lemma first_admin_staffs:
  assumes "create_first_admin t d lk email name p = Inr (c, q)"
  shows "staffed q"
proof -
  let ?n = "\<lparr>na_email = email, na_name = name, na_clearance = ''RED'', na_roles = [''SYS_ADMIN'', ''SECURITY_OFFICER'', ''CASE_OWNER'', ''ANALYST''],
      na_compartments = [], na_must_change = False\<rparr>"
  have made: "create_analyst t d lk ?n None p = Inr (c, q)"
    using assms by (auto simp: create_first_admin_def split: option.splits if_splits)
  have "roles_wanted ?n = roles_wanted (?n\<lparr>na_email := [], na_name := []\<rparr>)" by (simp add: roles_wanted_def)
  also have "\<dots> = [''SYS_ADMIN'', ''SECURITY_OFFICER'', ''CASE_OWNER'', ''ANALYST'']" unfolding new_account.simps by code_simp
  finally have "role \<in> set (roles_wanted ?n)" if "role \<in> set load_bearing" for role using that by (auto simp: load_bearing_def)
  then show ?thesis using create_analyst_keeps(3,4) [OF made] unfolding staffed_iff by blast
qed

text \<open>C13: The building stays open. From the first run on, whatever the administrators do (accounts made, switched
  off and on, roles given and taken, labels and credentials changed, in any order and by anybody), an active
  account holds SYS_ADMIN and an active account holds SECURITY_OFFICER.\<close>

theorem the_building_stays_open:
  assumes "create_first_admin t d lk email name p0 = Inr (c, p)" "admin_step\<^sup>*\<^sup>* p q"
  shows "active_role_holders q ''SYS_ADMIN'' \<noteq> [] \<and> active_role_holders q ''SECURITY_OFFICER'' \<noteq> []"
  using admin_run_keeps [OF assms(2)] first_admin_staffs [OF assms(1)] by (simp add: staffed_def load_bearing_def)

text \<open>C14: Administration leaves the holders of an open case cleared for it. If every owner and deputy of a case that is not
  closed has an account whose clearance reaches its label and which is read into its compartments, then so after any
  run of account administration: a clearance is not lowered and a compartment not taken away below what its holder's
  open cases need. Whether the account is active is another matter: a holder may be deactivated.\<close>

theorem administration_keeps_holders_cleared:
  assumes "admin_step\<^sup>*\<^sup>* p q"
    and "\<forall>k\<in>set (pf_cases p). cs_status k \<noteq> CLOSED \<longrightarrow> (\<forall>u. held_by u k \<longrightarrow> (\<exists>r. user_row_of p u = Some r \<and>
      cs_classification k \<le> ur_clearance r \<and> set (cs_compartments k) \<subseteq> set (ur_compartments r)))"
  shows "\<forall>k\<in>set (pf_cases q). cs_status k \<noteq> CLOSED \<longrightarrow> (\<forall>u. held_by u k \<longrightarrow> (\<exists>r. user_row_of q u = Some r \<and>
      cs_classification k \<le> ur_clearance r \<and> set (cs_compartments k) \<subseteq> set (ur_compartments r)))"
  using admin_run_keeps [OF assms(1)] assms(2) unfolding seated_def by blast

text \<open>C15: Deactivation is complete. Once an account is deactivated its sessions are all revoked, it holds no
  permission through a global role, no case is listed for it, no gate of any case lets it through, and the row
  security shows a connection bound to it nothing.\<close>

theorem deactivation_is_complete:
  assumes saved: "set_active lk clock u False actor p = Inr q" and active: "user_row_of p u = Some r" "ur_is_active r"
  shows "\<not> list_ex (\<lambda>s. ss_user s = u \<and> ss_revoked_at s = None) (pf_sessions q) \<and> \<not> holds_global q u perm \<and>
    list_for_user now u q = [] \<and>
    fst (authorize_object lk' clock' (me\<lparr>cu_user := u\<rparr>) c perm count again label comps write q) \<noteq> Inr () \<and>
    (actor_of lk' q = Some u \<longrightarrow> rls_cases lk' q = [] \<and> rls_clearance lk' q = None)"
  using saved
proof (cases rule: set_active_Inr)
  case (same r')
  with active show ?thesis by simp
next
  case (changed r' rows e)
  have off: "\<not> is_active_user q u" unfolding changed(4) by (simp add: is_active_set)
  then have row: "active_row q u = None" by (simp add: active_row_None)
  have "list_for_user now u q = []"
    using off by (auto simp: list_for_user_def filter_empty_conv list_ex_iff listed_def is_active_user_def)
  moreover have "\<not> holds_global q u perm" using off by (auto simp: holds_global_def list_ex_iff)
  moreover have "\<not> list_ex (\<lambda>s. ss_user s = u \<and> ss_revoked_at s = None) (pf_sessions q)"
    using changed(5) unfolding changed(4) by (auto simp: list_ex_iff)
  moreover have "fst (authorize_object lk' clock' (me\<lparr>cu_user := u\<rparr>) c perm count again label comps write q) \<noteq> Inr ()"
    by (auto simp: authorize_object_def resolve_def row Let_def split: sum.splits option.splits prod.splits)
  moreover have "actor_of lk' q = Some u \<Longrightarrow> rls_cases lk' q = [] \<and> rls_clearance lk' q = None"
    by (simp add: rls_cases_def rls_clearance_def row)
  ultimately show ?thesis by blast
qed

section \<open>Witnesses\<close>

definition sample_tools :: account_tools where
  "sample_tools = \<lparr>at_hash = id, at_aead = sample_aead, at_env = sample_env\<rparr>"

definition sample_drawn :: drawn where
  "sample_drawn = \<lparr>dr_user = 1, dr_password = ''pw'', dr_secret = [1, 2, 3, 4, 5], dr_nonce = replicate 12 7\<rparr>"

definition bare_platform :: platform where
  "bare_platform = demo_platform\<lparr>pf_users := [], pf_user_roles := [], pf_cases := [], pf_assignments := [], pf_grants := []\<rparr>"

lemma sample_kek_ok: "require_kek sample_tools = None"
  by (simp add: require_kek_def sample_tools_def sample_load)

lemma sample_seals: "\<exists>blob. encrypt sample_aead sample_env (replicate 12 7) s = Inr (blob, default_key_id)"
  by (simp add: encrypt_def sample_ring sample_load Let_def)

lemma sample_tools_sel: "at_aead sample_tools = sample_aead" "at_env sample_tools = sample_env" "at_hash sample_tools = id"
  by (simp_all add: sample_tools_def)

lemma sample_first_run: "\<exists>c p. create_first_admin sample_tools sample_drawn (demo_link 5) ''a@b'' ''A'' bare_platform = Inr (c, p)"
proof -
  let ?n = "\<lparr>na_email = ''a@b'', na_name = ''A'', na_clearance = ''RED'', na_roles = [''SYS_ADMIN'', ''SECURITY_OFFICER'', ''CASE_OWNER'', ''ANALYST''],
      na_compartments = [], na_must_change = False\<rparr>"
  obtain blob where blob: "encrypt sample_aead sample_env (replicate 12 7) (generate_secret [1, 2, 3, 4, 5]) = Inr (blob, default_key_id)"
    using sample_seals by blast
  have "account_refusal sample_tools ?n bare_platform = None"
    using sample_kek_ok by (simp add: account_refusal_def) code_simp
  moreover have "check_clearance ''RED'' = Inr RED" by code_simp
  moreover have "enrol sample_tools sample_drawn lk u p = Inr (p\<lparr>pf_users := update_users (\<lambda>r. ur_id r = u) (\<lambda>r. r\<lparr>ur_totp_secret := Some blob,
      ur_totp_key_id := Some default_key_id, ur_totp_enrolled_at := Some (db_now lk)\<rparr>) (pf_users p)\<rparr>)" for lk u p
    by (simp add: enrol_def pg_enroll_totp_def sample_tools_sel sample_drawn_def blob)
  ultimately show ?thesis
    by (simp add: create_first_admin_def needs_setup_def sample_kek_ok create_analyst_def Let_def pg_create_user_def bare_platform_def)
qed

definition first_platform :: platform where
  "first_platform = snd (projr (create_first_admin sample_tools sample_drawn (demo_link 5) ''a@b'' ''A'' bare_platform))"

theorem the_building_stays_open_witness:
  "\<exists>q. unlock 1 1 first_platform = Inr q \<and> active_role_holders q ''SYS_ADMIN'' \<noteq> [] \<and> active_role_holders q ''SECURITY_OFFICER'' \<noteq> []"
proof -
  obtain c p where first: "create_first_admin sample_tools sample_drawn (demo_link 5) ''a@b'' ''A'' bare_platform = Inr (c, p)"
    using sample_first_run by blast
  then have p: "first_platform = p" by (simp add: first_platform_def)
  have "is_active_user p 1"
    using create_analyst_keeps(4) [of sample_tools sample_drawn] first
    by (auto simp: create_first_admin_def sample_drawn_def split: option.splits if_splits)
  then have "user_row_of p 1 \<noteq> None"
    by (auto simp: is_active_user_def user_row_of_def user_by_id_def find_None_iff list_ex_iff)
  then obtain q where q: "unlock 1 1 p = Inr q" by (auto simp: unlock_def)
  then have "admin_step\<^sup>*\<^sup>* p q" by (intro r_into_rtranclp lock_lifted)
  from the_building_stays_open [OF first this] q show ?thesis unfolding p by blast
qed

theorem administration_keeps_holders_cleared_witness:
  "\<exists>q r. set_clearance 2 ''GREEN'' 3 demo_platform = Inr q \<and> user_row_of q 2 = Some r \<and>
     cs_classification demo_case \<le> ur_clearance r \<and> set (cs_compartments demo_case) \<subseteq> set (ur_compartments r)"
proof -
  have "is_ok (set_clearance 2 ''GREEN'' 3 demo_platform)" by code_simp
  then obtain q where q: "set_clearance 2 ''GREEN'' 3 demo_platform = Inr q" by (auto simp: is_ok_iff)
  then have step: "admin_step\<^sup>*\<^sup>* demo_platform q" by (intro r_into_rtranclp clearance_set)
  have "user_row_of demo_platform 2 = Some (demo_user 2 ''o'' RED [''K1''])" by code_simp
  then have "\<forall>k\<in>set (pf_cases demo_platform). cs_status k \<noteq> CLOSED \<longrightarrow> (\<forall>u. held_by u k \<longrightarrow> (\<exists>r. user_row_of demo_platform u = Some r \<and>
      cs_classification k \<le> ur_clearance r \<and> set (cs_compartments k) \<subseteq> set (ur_compartments r)))"
    by (simp add: demo_defs held_by_def less_eq_tlp_def)
  from administration_keeps_holders_cleared [OF step this]
  have "\<forall>k\<in>set (pf_cases q). cs_status k \<noteq> CLOSED \<longrightarrow> (\<forall>u. held_by u k \<longrightarrow> (\<exists>r. user_row_of q u = Some r \<and>
      cs_classification k \<le> ur_clearance r \<and> set (cs_compartments k) \<subseteq> set (ur_compartments r)))" .
  moreover have "demo_case \<in> set (pf_cases q)" "cs_status demo_case \<noteq> CLOSED" "held_by 2 demo_case"
    using q by (auto simp: set_clearance_def demo_defs held_by_def update_user_def log_event_def split: sum.splits option.splits if_splits)
  ultimately show ?thesis using q by blast
qed

theorem deactivation_is_complete_witness:
  "\<exists>q. set_active (demo_link 5) 5 4 False 3 demo_platform = Inr q \<and> list_for_user 9 4 q = [] \<and> \<not> holds_global q 4 ''case.read'' \<and>
     fst (authorize_object (demo_link 9) 9 (demo_current 4) 10 ''case.read'' True False None {} False q) \<noteq> Inr ()"
proof -
  have "is_ok (set_active (demo_link 5) 5 4 False 3 demo_platform)" by code_simp
  then obtain q where q: "set_active (demo_link 5) 5 4 False 3 demo_platform = Inr q" by (auto simp: is_ok_iff)
  have row: "user_row_of demo_platform 4 = Some (demo_user 4 ''a'' GREEN [''K1''])" "ur_is_active (demo_user 4 ''a'' GREEN [''K1''])"
    by code_simp+
  have "demo_current 4\<lparr>cu_user := 4\<rparr> = demo_current 4" by (simp add: demo_current_def)
  with deactivation_is_complete [OF q row, of "''case.read''" 9 "demo_link 9" 9 "demo_current 4" 10 True False None "{}" False] q
  show ?thesis by auto
qed

text \<open>
  The guards of \<open>set_clearance\<close> and \<open>set_compartments\<close> pass over closed cases, and reopening one asks nothing about
  its owner: a clearance lowered while the case was closed strands the owner of an active case.
\<close>

definition closed_platform :: platform where
  "closed_platform = demo_platform\<lparr>pf_cases := [demo_case\<lparr>cs_status := CLOSED, cs_classification := AMBER\<rparr>]\<rparr>"

lemma reopening_strands:
  "\<exists>p1 p2. set_clearance 2 ''GREEN'' 3 closed_platform = Inr p1 \<and> transition_status 5 10 ''ACTIVE'' 2 p1 = Inr p2 \<and>
     seated closed_platform \<and> \<not> seated p2"
proof -
  let ?p1 = "projr (set_clearance 2 ''GREEN'' 3 closed_platform)"
  let ?p2 = "projr (transition_status 5 10 ''ACTIVE'' 2 ?p1)"
  have "is_ok (set_clearance 2 ''GREEN'' 3 closed_platform)" "is_ok (transition_status 5 10 ''ACTIVE'' 2 ?p1)" by code_simp+
  then have "set_clearance 2 ''GREEN'' 3 closed_platform = Inr ?p1" "transition_status 5 10 ''ACTIVE'' 2 ?p1 = Inr ?p2"
    by (auto simp: is_ok_iff)
  moreover have "seated closed_platform" by (simp add: seated_def closed_platform_def)
  moreover have "map cs_owner (pf_cases ?p2) = [2] \<and> map cs_status (pf_cases ?p2) = [ACTIVE] \<and> map cs_classification (pf_cases ?p2) = [AMBER] \<and>
      map_option ur_clearance (user_row_of ?p2 2) = Some GREEN" by code_simp
  then have "\<not> seated ?p2"
    by (cases "pf_cases ?p2") (auto simp: seated_def held_by_def less_eq_tlp_def)
  ultimately show ?thesis by blast
qed
end
