(* ===== verification/CaseRequests.thy ===== *)
theory CaseRequests
  imports Cases
begin

text \<open>
  The routes of cases as the server runs them: many requests at once, each a sequence of statements on a connection
  that commits every one of them (\<open>get_conn\<close> hands out autocommit connections). A request passes its gate, reads and
  checks, and writes in a transaction that names the case by its id alone; between two of its statements any other
  request may write. The functions of theory \<open>Cases\<close> are the pieces, and a request that nothing interrupts does
  what its route function there does (lemma \<open>served_alone\<close>). The reads that stand between two stages here are taken
  at one instant.

  What holds under any interleaving is proved for any; what needs that no request writes a case another one has
  written since it was read is proved under that condition, and the lemmas at the end show that it is needed.
\<close>

section \<open>Requests in flight\<close>

text \<open>The stage a request has reached, with its local variables: the rows it has read, and the body as it left it.\<close>

datatype pending =
    CreateRead current_user new_case
  | CreateWrite current_user new_case
  | EditRead current_user uuid case_edit
  | EditService current_user uuid case_edit case_row
  | EditWrite current_user uuid case_edit case_row
  | StatusAgain current_user uuid string
  | StatusRead current_user uuid string
  | StatusWrite current_user uuid case_status case_row
  | ShareRead current_user uuid "uuid option" "string option" string "instant option"
  | ShareService current_user case_row "string option" uuid string "instant option"
  | ShareWrite current_user case_row "string option" uuid string "instant option"
  | UnshareRead current_user uuid uuid
  | UnshareService current_user uuid uuid
  | UnshareWrite current_user uuid uuid

definition past_gate :: "pending \<Rightarrow> (problem + unit) \<times> platform \<Rightarrow> pending option \<times> platform" where
  "past_gate r answer = (case answer of (Inl _, q) \<Rightarrow> (None, q) | (Inr _, q) \<Rightarrow> (Some r, q))"

definition case_gate :: "link \<Rightarrow> instant \<Rightarrow> current_user \<Rightarrow> uuid \<Rightarrow> string \<Rightarrow> platform \<Rightarrow> (problem + unit) \<times> platform" where
  "case_gate lk clock user c perm p = authorize_object lk clock user c perm True False None {} False p"

text \<open>A request arrives at its first stage, through the dependency of its route.\<close>

fun arrive :: "link \<Rightarrow> instant \<Rightarrow> pending \<Rightarrow> platform \<Rightarrow> pending option \<times> platform" where
  "arrive lk clock (CreateRead user n) p = past_gate (CreateRead user n) (require_global clock user ''case.create'' p)"
| "arrive lk clock (EditRead user c e) p = past_gate (EditRead user c e) (case_gate lk clock user c ''case.update'' p)"
| "arrive lk clock (StatusAgain user c s) p = past_gate (StatusAgain user c s) (case_gate lk clock user c ''case.close'' p)"
| "arrive lk clock (ShareRead user c i m role t) p = past_gate (ShareRead user c i m role t) (case_gate lk clock user c ''case.grant'' p)"
| "arrive lk clock (UnshareRead user c u) p = past_gate (UnshareRead user c u) (case_gate lk clock user c ''case.grant'' p)"
| "arrive lk clock _ p = (None, p)"

text \<open>The next statements of a request: the stage after it, if it goes on, and the tables. A refusal ends it.\<close>

fun advance :: "link \<Rightarrow> instant \<Rightarrow> uuid \<Rightarrow> pending \<Rightarrow> platform \<Rightarrow> pending option \<times> platform" where
  "advance lk clock new (CreateRead user n) p =
     (if create_refusal (own_new_case user n) p = None then Some (CreateWrite user (own_new_case user n)) else None, p)"
| "advance lk clock new (CreateWrite user n) p = (None, snd (served (insert_case (db_now lk) new n p) p))"
| "advance lk clock new (EditRead user c e) p =
     (case edit_checked (db_now lk) user c e p of
        Inl _ \<Rightarrow> None
      | Inr (e', _) \<Rightarrow> map_option (EditService user c e') (case_by_id p c), p)"
| "advance lk clock new (EditService user c e _) p =
     (case case_by_id p c of
        None \<Rightarrow> None
      | Some k \<Rightarrow> if metadata_refusal e k = None then Some (EditWrite user c e k) else None, p)"
| "advance lk clock new (EditWrite user c e _) p = (None, snd (served (write_metadata c (cu_user user) e p) p))"
| "advance lk clock new (StatusAgain user c s) p = past_gate (StatusRead user c s) (purge_gate lk clock user c s p)"
| "advance lk clock new (StatusRead user c s) p =
     (case case_by_id p c of
        None \<Rightarrow> None
      | Some k \<Rightarrow> (case next_status k s of Inl _ \<Rightarrow> None | Inr t \<Rightarrow> Some (StatusWrite user c t k)), p)"
| "advance lk clock new (StatusWrite user c t k) p = (None, write_status (db_now lk) c (cs_status k) t (cu_user user) p)"
| "advance lk clock new (ShareRead user c i m role t) p =
     (case share_target clock user c i m role t p of
        Inl (_, q) \<Rightarrow> (None, q)
      | Inr (k, target) \<Rightarrow>
        (case share_person user k m target role p of
           Some (_, q) \<Rightarrow> (None, q)
         | None \<Rightarrow> (Some (ShareService user k m target role t), p)))"
| "advance lk clock new (ShareService user k m target role t) p =
     (case assignee_refusal (cs_id k) target p of
        Some e \<Rightarrow> (None, snd (share_answer user (cs_id k) m target None (Inl e) p))
      | None \<Rightarrow> (Some (ShareWrite user k m target role t), p))"
| "advance lk clock new (ShareWrite user k m target role t) p =
     (None, snd (share_answer user (cs_id k) m target None (assign_user (db_now lk) (cs_id k) target role (cu_user user) t p) p))"
| "advance lk clock new (UnshareRead user c u) p =
     (if unshare_refusal c u p = None then Some (UnshareService user c u) else None, p)"
| "advance lk clock new (UnshareService user c u) p =
     (if revoke_refusal c u p = None then Some (UnshareWrite user c u) else None, p)"
| "advance lk clock new (UnshareWrite user c u) p = (None, snd (served (delete_assignment c u (cu_user user) p) p))"

text \<open>The case a request goes by is still as it read it.\<close>

fun as_read :: "pending \<Rightarrow> platform \<Rightarrow> bool" where
  "as_read (EditService user c e k) p \<longleftrightarrow> case_by_id p c = Some k"
| "as_read (EditWrite user c e k) p \<longleftrightarrow> case_by_id p c = Some k"
| "as_read (StatusWrite user c t k) p \<longleftrightarrow> case_by_id p c = Some k"
| "as_read _ p \<longleftrightarrow> True"

section \<open>One request after the other\<close>

fun serve :: "nat \<Rightarrow> link \<Rightarrow> instant \<Rightarrow> uuid \<Rightarrow> pending \<Rightarrow> platform \<Rightarrow> platform" where
  "serve 0 lk clock new r p = p"
| "serve (Suc n) lk clock new r p =
     (case advance lk clock new r p of (None, q) \<Rightarrow> q | (Some r', q) \<Rightarrow> serve n lk clock new r' q)"

definition serve_route :: "link \<Rightarrow> instant \<Rightarrow> uuid \<Rightarrow> pending \<Rightarrow> platform \<Rightarrow> platform" where
  "serve_route lk clock new r p = (case arrive lk clock r p of (None, q) \<Rightarrow> q | (Some r', q) \<Rightarrow> serve 4 lk clock new r' q)"

declare serve.simps(2) [simp del]

lemma serve_ended [simp]: "advance lk clock new r p = (None, q) \<Longrightarrow> serve (Suc n) lk clock new r p = q"
  by (simp add: serve.simps(2))

lemma serve_next [simp]: "advance lk clock new r p = (Some r', q) \<Longrightarrow> serve (Suc n) lk clock new r p = serve n lk clock new r' q"
  by (simp add: serve.simps(2))

lemma four: "4 = Suc (Suc (Suc (Suc 0)))"
  by simp

lemma behind_past_gate:
  "snd (behind lk clock user c perm h p) =
     (case past_gate r (case_gate lk clock user c perm p) of (None, q) \<Rightarrow> q | (Some _, q) \<Rightarrow> snd (h q))"
  by (simp add: behind_def past_gate_def case_gate_def split: prod.split sum.split unit.split)

lemma snd_share_answer: "snd (share_answer user c m target x result p) = snd (share_answer user c m target y result p)"
  by (simp add: share_answer_def split: sum.split case_error.split option.split)

lemma edit_checked_row: "edit_checked now user c e p = Inr x \<Longrightarrow> \<exists>k. case_by_id p c = Some k"
  by (auto simp: edit_checked_def split: option.splits)

lemma served_edit: "serve 4 lk clock new (EditRead user c e) p = snd (update_case (db_now lk) user c e p)"
proof (cases "edit_checked (db_now lk) user c e p")
  case (Inl err)
  then show ?thesis by (simp add: four update_case_def)
next
  case (Inr x)
  obtain e' lost where x: "x = (e', lost)" by (cases x)
  obtain k where k: "case_by_id p c = Some k" using edit_checked_row [OF Inr] by blast
  show ?thesis
    using Inr k x by (cases "metadata_refusal e' k") (simp_all add: four update_case_def update_metadata_def served_def split: sum.split)
qed

lemma served_status: "serve 4 lk clock new (StatusAgain user c s) p = snd (transition lk clock user c s p)"
proof (cases "fst (purge_gate lk clock user c s p)")
  case (Inl e)
  then obtain q where "purge_gate lk clock user c s p = (Inl e, q)" by (cases "purge_gate lk clock user c s p") simp
  then show ?thesis by (simp add: four transition_def past_gate_def)
next
  case (Inr z)
  then obtain q where q: "purge_gate lk clock user c s p = (Inr (), q)" by (cases "purge_gate lk clock user c s p") simp
  have "snd (transition lk clock user c s p) = snd (served (transition_status (db_now lk) c s (cu_user user) q) q)"
    by (simp add: transition_def q split: unit.split)
  moreover have "serve 4 lk clock new (StatusAgain user c s) p = serve 3 lk clock new (StatusRead user c s) q"
    by (simp add: four past_gate_def q eval_nat_numeral)
  moreover have "serve 3 lk clock new (StatusRead user c s) q = snd (served (transition_status (db_now lk) c s (cu_user user) q) q)"
  proof (cases "case_by_id q c")
    case (Some k)
    then show ?thesis by (cases "next_status k s") (simp_all add: eval_nat_numeral transition_status_def served_def)
  qed (simp add: eval_nat_numeral transition_status_def served_def)
  ultimately show ?thesis by simp
qed

lemma served_share: "serve 4 lk clock new (ShareRead user c i m role t) p = snd (assign_case_user (db_now lk) clock user c i m role t p)"
proof (cases "share_target clock user c i m role t p")
  case (Inl x)
  then show ?thesis by (cases x) (simp add: four assign_case_user_def)
next
  case (Inr x)
  obtain k target where x: "x = (k, target)" by (cases x)
  show ?thesis
  proof (cases "share_person user k m target role p")
    case (Some y)
    then show ?thesis using Inr x by (cases y) (simp add: four assign_case_user_def share_with_def)
  next
    case None
    then show ?thesis
      using Inr x by (cases "assignee_refusal (cs_id k) target p")
        (simp_all add: four assign_case_user_def share_with_def assign_user_checked_def
          snd_share_answer [of user "cs_id k" m target None _ p "map_option as_role (assignment_of p (cs_id k) target)"])
  qed
qed

lemma served_unshare: "serve 4 lk clock new (UnshareRead user c u) p = snd (revoke_case_user user c u p)"
proof (cases "unshare_refusal c u p")
  case None
  then show ?thesis
    by (cases "revoke_refusal c u p") (simp_all add: four revoke_case_user_def revoke_user_def served_def)
qed (simp add: four revoke_case_user_def)

lemma served_create: "serve 4 lk clock new (CreateRead user n) p = snd (served (create_case (db_now lk) new (own_new_case user n) p) p)"
  by (cases "create_refusal (own_new_case user n) p") (simp_all add: four create_case_def served_def)

text \<open>Nothing in between: a request does what its route function does.\<close>

lemma served_alone:
  "serve_route lk clock new (EditRead user c e) p = snd (update_case_route lk clock user c e p)"
  "serve_route lk clock new (StatusAgain user c s) p = snd (transition_route lk clock user c s p)"
  "serve_route lk clock new (ShareRead user c i m role t) p = snd (share_route lk clock user c i m role t p)"
  "serve_route lk clock new (UnshareRead user c u) p = snd (unshare_route lk clock user c u p)"
  "serve_route lk clock new (CreateRead user n) p = snd (create_case_route (db_now lk) clock new user n p)"
proof -
  have gate: "serve_route lk clock new r p = snd (behind lk clock user c perm h p)"
    if "arrive lk clock r p = past_gate r (case_gate lk clock user c perm p)" "\<And>q. serve 4 lk clock new r q = snd (h q)"
    for r c perm and h :: "platform \<Rightarrow> (route_error + 'a) \<times> platform"
    using that by (simp add: serve_route_def behind_past_gate [of lk clock user c perm h p r] past_gate_def split: prod.split sum.split unit.split)
  show "serve_route lk clock new (EditRead user c e) p = snd (update_case_route lk clock user c e p)"
    unfolding update_case_route_def by (rule gate) (simp_all add: served_edit)
  show "serve_route lk clock new (StatusAgain user c s) p = snd (transition_route lk clock user c s p)"
    unfolding transition_route_def by (rule gate) (simp_all add: served_status)
  show "serve_route lk clock new (ShareRead user c i m role t) p = snd (share_route lk clock user c i m role t p)"
    unfolding share_route_def by (rule gate) (simp_all add: served_share)
  show "serve_route lk clock new (UnshareRead user c u) p = snd (unshare_route lk clock user c u p)"
    unfolding unshare_route_def by (rule gate) (simp_all add: served_unshare)
  show "serve_route lk clock new (CreateRead user n) p = snd (create_case_route (db_now lk) clock new user n p)"
    by (simp add: serve_route_def create_case_route_def past_gate_def served_create split: prod.split sum.split unit.split)
qed

section \<open>What the tables keep\<close>

text \<open>With \<open>alone\<close>, what needs that no request writes a case another has written since it was read.\<close>

definition assignments_ok :: "instant \<Rightarrow> assignment list \<Rightarrow> bool" where
  "assignments_ok now as \<longleftrightarrow> distinct (map case_key as) \<and>
     (\<forall>a\<in>set as. as_role a \<in> single_case_roles \<longrightarrow> as_expires_at a \<noteq> None) \<and>
     (\<forall>a\<in>set as. \<forall>b\<in>set as. as_role a \<in> single_case_roles \<and> as_role b = as_role a \<and> as_user b = as_user a \<and>
        unexpired now a \<and> unexpired now b \<longrightarrow> as_case b = as_case a)"

definition case_row_ok :: "bool \<Rightarrow> case_row \<Rightarrow> bool" where
  "case_row_ok alone k \<longleftrightarrow> (alone \<longrightarrow> cs_review_due k \<le> cs_retention_until k) \<and> date_of (cs_created_at k) < cs_retention_until k \<and>
     (cs_status k = CLOSED \<longrightarrow> cs_closed_at k \<noteq> None)"

definition owners_on :: "case_row list \<Rightarrow> assignment list \<Rightarrow> bool" where
  "owners_on ks as \<longleftrightarrow> (\<forall>k\<in>set ks. (cs_id k, cs_owner k) \<in> case_key ` set as)"

definition cases_ok :: "bool \<Rightarrow> instant \<Rightarrow> platform \<Rightarrow> bool" where
  "cases_ok alone now p \<longleftrightarrow> assignments_ok now (pf_assignments p) \<and> owners_on (pf_cases p) (pf_assignments p) \<and>
     distinct (map cs_id (pf_cases p)) \<and> distinct (map cs_code (pf_cases p)) \<and> list_all (case_row_ok alone) (pf_cases p)"

lemma unexpired_later: "unexpired later a \<Longrightarrow> now \<le> later \<Longrightarrow> unexpired now a"
  by (auto simp: unexpired_def split: option.splits)

lemma cases_ok_later: "cases_ok alone now p \<Longrightarrow> now \<le> later \<Longrightarrow> cases_ok alone later p"
  unfolding cases_ok_def assignments_ok_def by (meson unexpired_later)

lemma cases_ok_same: "pf_cases q = pf_cases p \<Longrightarrow> pf_assignments q = pf_assignments p \<Longrightarrow> cases_ok alone now q = cases_ok alone now p"
  by (simp add: cases_ok_def)

lemma upsert_keeps:
  assumes ok: "assignments_ok now as" and new: "\<not> (role \<in> single_case_roles \<and>
      list_ex (\<lambda>a. as_user a = u \<and> as_role a = role \<and> as_case a \<noteq> c \<and> unexpired now a) as)"
    and boxed: "role \<in> single_case_roles \<Longrightarrow> expires \<noteq> None"
  shows "assignments_ok now (upsert_assignment now c u role by expires as)"
proof -
  let ?as = "upsert_assignment now c u role by expires as"
  have "distinct (map case_key ?as)" using ok by (intro distinct_case_key_upsert) (simp add: assignments_ok_def)
  moreover have "as_expires_at b \<noteq> None" if "b \<in> set ?as" "as_role b \<in> single_case_roles" for b
    using that(1) by (rule set_upsert) (use ok boxed that(2) in \<open>auto simp: assignments_ok_def\<close>)
  moreover have "as_case b = as_case a"
    if ab: "a \<in> set ?as" "b \<in> set ?as" "as_role a \<in> single_case_roles" "as_role b = as_role a" "as_user b = as_user a"
      "unexpired now a" "unexpired now b" for a b
  proof -
    have other: "as_case x = c" if "x \<in> set as" "as_role x = role" "as_user x = u" "unexpired now x" "role \<in> single_case_roles" for x
      using new that by (auto simp: list_ex_iff)
    show ?thesis
      using ab(1)
    proof (rule set_upsert)
      assume a: "a \<in> set as" "case_key a \<noteq> (c, u)"
      show ?thesis using ab(2)
      proof (rule set_upsert)
        assume "b \<in> set as"
        with ok a(1) ab(3-7) show ?thesis unfolding assignments_ok_def by blast
      next
        assume "case_key b = (c, u)" "as_role b = role"
        with other [OF a(1)] ab(3-7) show ?thesis by (simp add: case_key_def)
      qed
    next
      assume a: "case_key a = (c, u)" "as_role a = role"
      show ?thesis using ab(2)
        by (rule set_upsert) (use a ab other [of b] in \<open>auto simp: case_key_def\<close>)
    qed
  qed
  ultimately show ?thesis unfolding assignments_ok_def by blast
qed

lemma grant_keeps:
  assumes ok: "assignments_ok now (pf_assignments p)" and granted: "grant_on_case now c u role by expires p = Inr p'"
    and boxed: "role \<in> single_case_roles \<Longrightarrow> expires \<noteq> None"
  shows "assignments_ok now (pf_assignments p')" "pf_cases p' = pf_cases p"
    "case_key ` set (pf_assignments p') = insert (c, u) (case_key ` set (pf_assignments p))"
  using upsert_keeps [OF ok _ boxed] grant_on_case_Inr [OF granted] by (auto simp: held_elsewhere_def case_key_upsert)

lemmas owner_grant_keeps = grant_keeps [where role = "''CASE_OWNER''", simplified single_case_roles_def, simplified]

lemma insert_case_keeps:
  assumes ok: "cases_ok alone now p" and created: "insert_case now i n p = Inr p'"
    and review: "nc_review_due n \<le> nc_retention_until n"
  shows "cases_ok alone now p'" "\<exists>k. pf_cases p' = pf_cases p @ [k]"
proof -
  obtain p1 p2 p3 where parts: "db_insert_case now i n p = Inr p1"
    "grant_on_case now i (nc_owner n) ''CASE_OWNER'' (nc_created_by n) None p1 = Inr p2"
    "(nc_deputy n = None \<and> p3 = p2) \<or> (\<exists>d. nc_deputy n = Some d \<and>
        grant_on_case now i d ''CASE_OWNER'' (nc_created_by n) None p2 = Inr p3)"
    "\<exists>e. p' = log_event e p3"
    using insert_case_Inr [OF created] by metis
  obtain k where k: "p1 = p\<lparr>pf_cases := pf_cases p @ [k]\<rparr>" "cs_id k = i" "cs_code k = nc_code n" "cs_owner k = nc_owner n"
    "cs_review_due k = nc_review_due n" "cs_retention_until k = nc_retention_until n" "cs_created_at k = now"
    "cs_status k = DRAFT" "date_of now < nc_retention_until n"
    "\<forall>k\<in>set (pf_cases p). cs_id k \<noteq> i \<and> cs_code k \<noteq> nc_code n"
    using db_insert_case_Inr [OF parts(1)] by metis
  have one: "assignments_ok now (pf_assignments p1)" using ok k(1) by (simp add: cases_ok_def)
  note two = owner_grant_keeps [OF one parts(2)]
  have three: "assignments_ok now (pf_assignments p3) \<and> pf_cases p3 = pf_cases p1 \<and>
      case_key ` set (pf_assignments p2) \<subseteq> case_key ` set (pf_assignments p3)"
    using parts(3)
  proof (elim disjE exE conjE)
    fix d
    assume "grant_on_case now i d ''CASE_OWNER'' (nc_created_by n) None p2 = Inr p3"
    from owner_grant_keeps [OF two(1) this] two(2) show ?thesis by auto
  qed (use two in auto)
  have keys: "case_key ` set (pf_assignments p) \<subseteq> case_key ` set (pf_assignments p3)"
      "(i, nc_owner n) \<in> case_key ` set (pf_assignments p3)"
    using three two(3) k(1) by auto
  show "\<exists>k. pf_cases p' = pf_cases p @ [k]" using parts(4) three k(1) by auto
  have "owners_on (pf_cases p3) (pf_assignments p3)"
    using ok keys k(1,2,4) three by (auto simp: cases_ok_def owners_on_def)
  moreover have "cs_id k \<notin> cs_id ` set (pf_cases p)" "cs_code k \<notin> cs_code ` set (pf_cases p)"
    unfolding k(2,3) image_iff using k(10) by metis+
  moreover have "case_row_ok alone k" using k review by (simp add: case_row_ok_def)
  moreover have "pf_cases p' = pf_cases p @ [k]" "pf_assignments p' = pf_assignments p3" using parts(4) three k(1) by auto
  ultimately show "cases_ok alone now p'" using ok three k(1) by (simp add: cases_ok_def)
qed

lemma assign_keeps:
  assumes ok: "cases_ok alone now p" and saved: "assign_user now c u role by expires p = Inr p'"
    and boxed: "role \<in> single_case_roles \<Longrightarrow> expires \<noteq> None"
  shows "cases_ok alone now p'" "pf_cases p' = pf_cases p"
proof -
  obtain q e where q: "grant_on_case now c u role by expires p = Inr q" "p' = log_event e q"
    using saved by (auto simp: assign_user_def map_sum_def split: option.splits sum.splits)
  have "assignments_ok now (pf_assignments p)" using ok by (simp add: cases_ok_def)
  note kept = grant_keeps [OF this q(1) boxed]
  show "pf_cases p' = pf_cases p" by (simp add: q(2) kept)
  show "cases_ok alone now p'" using ok kept by (auto simp: cases_ok_def q(2) owners_on_def)
qed

lemma revoke_keeps:
  assumes ok: "cases_ok alone now p" and saved: "delete_assignment c u by p = Inr p'"
    and other: "\<exists>k\<in>set (pf_cases p). cs_id k = c \<and> cs_owner k \<noteq> u"
  shows "cases_ok alone now p'" "pf_cases p' = pf_cases p"
proof -
  let ?as = "filter (\<lambda>a. \<not> (as_case a = c \<and> as_user a = u)) (pf_assignments p)"
  obtain e where p': "p' = log_event e (p\<lparr>pf_assignments := ?as\<rparr>)"
    using saved by (auto simp: delete_assignment_def split: if_splits)
  show "pf_cases p' = pf_cases p" by (simp add: p')
  have "assignments_ok now ?as"
    using ok by (auto simp: cases_ok_def assignments_ok_def distinct_map inj_on_def)
  moreover have "(cs_id k, cs_owner k) \<in> case_key ` set ?as" if k: "k \<in> set (pf_cases p)" for k
  proof -
    obtain a where a: "a \<in> set (pf_assignments p)" "case_key a = (cs_id k, cs_owner k)"
      using ok k by (auto simp: cases_ok_def owners_on_def image_iff)
    obtain k' where k': "k' \<in> set (pf_cases p)" "cs_id k' = c" "cs_owner k' \<noteq> u" using other by blast
    have "cs_id k = c \<Longrightarrow> k = k'" using ok k k'(1,2) by (auto simp: cases_ok_def intro: key_unique)
    then have "\<not> (as_case a = c \<and> as_user a = u)" using a(2) k'(3) by (auto simp: case_key_def)
    then show ?thesis using a by (auto intro!: image_eqI [of _ _ a])
  qed
  ultimately show "cases_ok alone now p'" using ok by (simp add: cases_ok_def p' owners_on_def)
qed

text \<open>The life of a case: which of its phases an operation may lead to.\<close>

fun phase :: "case_status \<Rightarrow> nat" where
  "phase DRAFT = 0"
| "phase ACTIVE = 4"
| "phase DORMANT = 4"
| "phase CLOSED = 4"
| "phase ARCHIVED = 5"
| "phase PURGED = 6"

definition carried_on :: "bool \<Rightarrow> case_row \<Rightarrow> case_row \<Rightarrow> bool" where
  "carried_on alone k k' \<longleftrightarrow>
     cs_id k' = cs_id k \<and> cs_code k' = cs_code k \<and> cs_owner k' = cs_owner k \<and> cs_legal_basis k' = cs_legal_basis k \<and>
     cs_created_at k' = cs_created_at k \<and> cs_compartments k' = cs_compartments k \<and>
     (alone \<longrightarrow> cs_classification k \<le> cs_classification k' \<and> cs_retention_until k \<le> cs_retention_until k' \<and>
        phase (cs_status k) \<le> phase (cs_status k'))"

definition all_carried_on :: "bool \<Rightarrow> platform \<Rightarrow> platform \<Rightarrow> bool" where
  "all_carried_on alone p q \<longleftrightarrow> (\<forall>k\<in>set (pf_cases p). \<exists>k'\<in>set (pf_cases q). carried_on alone k k')"

lemma carried_on_refl [simp]: "carried_on alone k k"
  by (simp add: carried_on_def)

lemma carried_on_trans: "carried_on alone k l \<Longrightarrow> carried_on alone l m \<Longrightarrow> carried_on alone k m"
  unfolding carried_on_def by (auto intro: order_trans)

lemma all_carried_on_trans: "all_carried_on alone p q \<Longrightarrow> all_carried_on alone q r \<Longrightarrow> all_carried_on alone p r"
  unfolding all_carried_on_def by (meson carried_on_trans)

lemma all_carried_on_same: "set (pf_cases p) \<subseteq> set (pf_cases q) \<Longrightarrow> all_carried_on alone p q"
  by (auto simp: all_carried_on_def intro!: bexI)

lemma transition_phase: "s \<in> set (transitions t) \<Longrightarrow> phase t \<le> phase s"
  by (cases t) auto

text \<open>An update of the rows of one case that keeps the fields the invariant reads.\<close>

lemma update_one_keeps:
  assumes ok: "cases_ok alone now p"
    and f: "\<And>x. cs_id (f x) = cs_id x \<and> cs_code (f x) = cs_code x \<and> cs_owner (f x) = cs_owner x"
    and row: "\<And>x. x \<in> set (pf_cases p) \<Longrightarrow> cs_id x = c \<Longrightarrow> case_row_ok alone x \<Longrightarrow> case_row_ok alone (f x)"
    and on: "\<And>x. x \<in> set (pf_cases p) \<Longrightarrow> cs_id x = c \<Longrightarrow> carried_on alone x (f x)"
  shows "cases_ok alone now (log_event e (p\<lparr>pf_cases := update_where (\<lambda>x. cs_id x = c) f (pf_cases p)\<rparr>)) \<and>
    all_carried_on alone p (log_event e (p\<lparr>pf_cases := update_where (\<lambda>x. cs_id x = c) f (pf_cases p)\<rparr>))"
proof -
  let ?ks = "update_where (\<lambda>x. cs_id x = c) f (pf_cases p)"
  have ids: "map cs_id ?ks = map cs_id (pf_cases p)" "map cs_code ?ks = map cs_code (pf_cases p)"
    using f by (intro map_update_where; simp)+
  have "owners_on ?ks (pf_assignments p)" "list_all (case_row_ok alone) ?ks"
    using ok f row by (auto simp: cases_ok_def owners_on_def list_all_iff set_update_where)
  then have "cases_ok alone now (log_event e (p\<lparr>pf_cases := ?ks\<rparr>))" using ok by (simp add: cases_ok_def ids)
  moreover have "all_carried_on alone p (log_event e (p\<lparr>pf_cases := ?ks\<rparr>))"
    unfolding all_carried_on_def
  proof
    fix x assume x: "x \<in> set (pf_cases p)"
    have "(if cs_id x = c then f x else x) \<in> set ?ks" using x by (auto simp: set_update_where)
    moreover have "carried_on alone x (if cs_id x = c then f x else x)" using x on by simp
    ultimately show "\<exists>x'\<in>set (pf_cases (log_event e (p\<lparr>pf_cases := ?ks\<rparr>))). carried_on alone x x'" by auto
  qed
  ultimately show ?thesis by blast
qed

text \<open>What the handler checked of an edit against the row it read.\<close>

definition goes_forward :: "case_edit \<Rightarrow> case_row \<Rightarrow> bool" where
  "goes_forward e k \<longleftrightarrow> cs_retention_until k \<le> orelse (ed_retention_until e) (cs_retention_until k) \<and>
     (\<forall>n l. ed_classification e = Some n \<longrightarrow> tlp_from_name n = Inr l \<longrightarrow> cs_classification k \<le> l)"

lemma edit_checked_forward:
  assumes "edit_checked now user c e p = Inr (e', lost)" "case_by_id p c = Some k"
  shows "goes_forward e' k"
  using assms by (auto simp: edit_checked_def goes_forward_def label_edit_def split: option.splits sum.splits if_splits)

lemma only_row: "cases_ok alone now p \<Longrightarrow> case_by_id p c = Some k \<Longrightarrow> x \<in> set (pf_cases p) \<Longrightarrow> cs_id x = c \<Longrightarrow> x = k"
  by (auto simp: case_by_id_def find_Some_iff cases_ok_def intro: key_unique)

lemma write_metadata_keeps:
  assumes ok: "cases_ok alone now p" and saved: "write_metadata c by e p = Inr p'"
    and read: "alone \<Longrightarrow> case_by_id p c = Some k \<and> goes_forward e k \<and> metadata_refusal e k = None"
  shows "cases_ok alone now p' \<and> all_carried_on alone p p'"
  using saved
proof (cases rule: write_metadata_Inr)
  case nothing
  then show ?thesis using ok by (simp add: all_carried_on_same)
next
  case (changed l ev)
  have one: "x = k" if "alone" "x \<in> set (pf_cases p)" "cs_id x = c" for x using only_row [OF ok] read that by blast
  have kept: "case_row_ok alone (edited e l x)" if "x \<in> set (pf_cases p)" "cs_id x = c" "case_row_ok alone x" for x
    using that one [OF _ that(1,2)] read changed(1) by (auto simp: case_row_ok_def metadata_refusal_def split: if_splits)
  have on: "carried_on alone x (edited e l x)" if "x \<in> set (pf_cases p)" "cs_id x = c" for x
    using that one [OF _ that] read changed(2) by (auto simp: carried_on_def goes_forward_def)
  show ?thesis unfolding changed(3) by (rule update_one_keeps [OF ok _ kept on]) simp_all
qed

lemma write_status_keeps:
  assumes ok: "cases_ok alone now p" and read: "alone \<Longrightarrow> case_by_id p c = Some k" "t \<in> set (transitions (cs_status k))"
  shows "cases_ok alone now (write_status now c (cs_status k) t actor p) \<and>
    all_carried_on alone p (write_status now c (cs_status k) t actor p)"
  unfolding write_status_def
proof (rule update_one_keeps [OF ok])
  show "carried_on alone x (moved now t x)" if "x \<in> set (pf_cases p)" "cs_id x = c" for x
    using only_row [OF ok _ that] read transition_phase [OF read(2)] by (auto simp: carried_on_def moved_def)
qed (auto simp: moved_def case_row_ok_def)

text \<open>A gate leaves the cases and the assignments as they were, whatever it answers.\<close>

definition same_cases :: "platform \<Rightarrow> platform \<Rightarrow> bool" where
  "same_cases p q \<longleftrightarrow> pf_cases q = pf_cases p \<and> pf_assignments q = pf_assignments p"

lemma same_cases_log [simp]: "same_cases p (log_event e q) = same_cases p q"
  by (simp add: same_cases_def)

lemma same_cases_refl [simp]: "same_cases p p"
  by (simp add: same_cases_def)

lemma resolve_same_cases: "same_cases p (snd (resolve lk clock u c perm label comps mfa m p))"
  by (rule resolve_effect [of lk clock u c perm label comps mfa m p])
    (use record_use_same in \<open>auto simp: same_tables_def same_cases_def\<close>)

lemma refuse_if_same_cases: "same_cases p (snd (refuse_if_case_read_only user c perm p))"
  by (simp add: refuse_if_case_read_only_def split: option.split)

lemma authorize_same_cases: "same_cases p (snd (authorize_object lk clock user c perm n again label comps w p))"
proof (cases "effective_labels c label comps p")
  case (Inl e)
  then show ?thesis by (simp add: authorize_object_def)
next
  case (Inr lc)
  obtain l cs where lc: "lc = (l, cs)" by (cases lc)
  let ?n = "if again \<and> n then \<not> counted_at_case_gate (cu_user user) c p else n"
  obtain r q where r: "resolve lk clock (cu_user user) c perm l cs (cu_mfa_at user) ?n p = (r, q)" by (metis surj_pair)
  have q: "same_cases p q" using resolve_same_cases [of p lk clock "cu_user user" c perm l cs "cu_mfa_at user" ?n] by (simp add: r)
  moreover have "same_cases p (snd (refuse_if_case_read_only user c perm q))"
    using q refuse_if_same_cases [of q user c perm] by (simp add: same_cases_def)
  ultimately show ?thesis
    by (cases r) (simp_all add: authorize_object_def Inr lc r Let_def)
qed

lemma require_global_same_cases: "same_cases p (snd (require_global clock user perm p))"
  by (simp add: require_global_def Let_def split: option.splits)

lemma past_gate_same: "same_cases p (snd answer) \<Longrightarrow> same_cases p (snd (past_gate r answer))"
  by (cases answer; cases "fst answer") (simp_all add: past_gate_def)

lemma arrive_same_cases: "same_cases p (snd (arrive lk clock r p))"
  by (cases r) (simp_all add: past_gate_same case_gate_def authorize_same_cases require_global_same_cases)

section \<open>Any number of requests at once\<close>

record server =
  sv_now :: instant
  sv_platform :: platform
  sv_requests :: "nat \<Rightarrow> pending option"

text \<open>
  A step of the deployment as the cases see it: time, anything that leaves their tables alone, a request arriving, a
  request going on with its next statements, and a request given up. With \<open>alone\<close>, a request goes on only while the
  case it goes by is as it read it: no other request has written the case in between.
\<close>

inductive request_step :: "bool \<Rightarrow> server \<Rightarrow> server \<Rightarrow> bool" for alone where
  time_goes_on: "sv_now s \<le> t \<Longrightarrow> request_step alone s (s\<lparr>sv_now := t\<rparr>)"
| elsewhere: "same_cases (sv_platform s) q \<Longrightarrow> request_step alone s (s\<lparr>sv_platform := q\<rparr>)"
| arrives: "sv_requests s i = None \<Longrightarrow> db_now lk = sv_now s \<Longrightarrow> arrive lk clock r (sv_platform s) = (x, q) \<Longrightarrow>
    request_step alone s (s\<lparr>sv_platform := q, sv_requests := (sv_requests s)(i := x)\<rparr>)"
| advances: "sv_requests s i = Some r \<Longrightarrow> db_now lk = sv_now s \<Longrightarrow> (alone \<Longrightarrow> as_read r (sv_platform s)) \<Longrightarrow>
    advance lk clock new r (sv_platform s) = (x, q) \<Longrightarrow>
    request_step alone s (s\<lparr>sv_platform := q, sv_requests := (sv_requests s)(i := x)\<rparr>)"
| given_up: "request_step alone s (s\<lparr>sv_requests := (sv_requests s)(i := None)\<rparr>)"

definition fresh_server :: "server \<Rightarrow> bool" where
  "fresh_server s \<longleftrightarrow> pf_cases (sv_platform s) = [] \<and> pf_assignments (sv_platform s) = [] \<and> sv_requests s = (\<lambda>_. None)"

text \<open>What a stage knows.\<close>

fun request_ok :: "bool \<Rightarrow> platform \<Rightarrow> pending \<Rightarrow> bool" where
  "request_ok alone p (CreateWrite user n) \<longleftrightarrow> nc_review_due n \<le> nc_retention_until n"
| "request_ok alone p (EditService user c e k) \<longleftrightarrow> (alone \<longrightarrow> goes_forward e k)"
| "request_ok alone p (EditWrite user c e k) \<longleftrightarrow> (alone \<longrightarrow> goes_forward e k) \<and> metadata_refusal e k = None"
| "request_ok alone p (StatusWrite user c t k) \<longleftrightarrow> t \<in> set (transitions (cs_status k))"
| "request_ok alone p (ShareService user k m target role t) \<longleftrightarrow> (role \<in> single_case_roles \<longrightarrow> t \<noteq> None)"
| "request_ok alone p (ShareWrite user k m target role t) \<longleftrightarrow> (role \<in> single_case_roles \<longrightarrow> t \<noteq> None)"
| "request_ok alone p (UnshareService user c u) \<longleftrightarrow> (\<exists>k\<in>set (pf_cases p). cs_id k = c)"
| "request_ok alone p (UnshareWrite user c u) \<longleftrightarrow> (\<exists>k\<in>set (pf_cases p). cs_id k = c \<and> cs_owner k \<noteq> u)"
| "request_ok alone p _ \<longleftrightarrow> True"

lemma request_ok_carried: "request_ok alone p r \<Longrightarrow> all_carried_on alone p q \<Longrightarrow> request_ok alone q r"
  by (cases r) (auto simp: all_carried_on_def carried_on_def, metis+)

lemma request_ok_arrived: "arrive lk clock r p = (Some r', q) \<Longrightarrow> request_ok alone q r'"
  by (cases r) (auto simp: past_gate_def split: prod.splits sum.splits)

definition server_ok :: "bool \<Rightarrow> server \<Rightarrow> bool" where
  "server_ok alone s \<longleftrightarrow> cases_ok alone (sv_now s) (sv_platform s) \<and>
     (\<forall>i r. sv_requests s i = Some r \<longrightarrow> request_ok alone (sv_platform s) r)"

text \<open>What one request does with its next statements.\<close>

definition went_well :: "bool \<Rightarrow> instant \<Rightarrow> platform \<Rightarrow> pending option \<times> platform \<Rightarrow> bool" where
  "went_well alone now p = (\<lambda>(x, q). cases_ok alone now q \<and> all_carried_on alone p q \<and> (\<forall>r. x = Some r \<longrightarrow> request_ok alone q r))"

lemma went_well_same:
  "cases_ok alone now p \<Longrightarrow> same_cases p q \<Longrightarrow> (\<And>r. x = Some r \<Longrightarrow> request_ok alone q r) \<Longrightarrow> went_well alone now p (x, q)"
  using cases_ok_same [of q p alone now] by (auto simp: went_well_def same_cases_def intro: all_carried_on_same)

lemma went_well_served:
  assumes "cases_ok alone now p" "\<And>q. result = Inr q \<Longrightarrow> cases_ok alone now q \<and> all_carried_on alone p q"
  shows "went_well alone now p (None, snd (served result p))"
  using assms by (auto simp: went_well_def served_def all_carried_on_same split: sum.splits)

lemma share_answer_tables: "same_cases p (snd (share_answer user c m target x result p)) \<or> result = Inr (snd (share_answer user c m target x result p))"
  by (cases result) (simp_all add: share_answer_def share_refused_def split: case_error.split option.split)

lemma share_person_same: "share_person user k m target role p = Some (e, q) \<Longrightarrow> same_cases p q"
  by (auto simp: share_person_def share_refused_def split: option.splits if_splits)

lemma share_target_same: "share_target clock user c i m role t p = Inl (e, q) \<Longrightarrow> same_cases p q"
  by (auto simp: share_target_def share_refused_def split: option.splits)

lemma share_target_boxed: "share_target clock user c i m role t p = Inr x \<Longrightarrow> role \<in> single_case_roles \<Longrightarrow> t \<noteq> None"
  by (auto simp: share_target_def share_refusal_def time_boxed_roles_def single_case_roles_def split: option.splits if_splits)

lemma case_by_id_ok: "case_by_id p c = Some k \<Longrightarrow> k \<in> set (pf_cases p) \<and> cs_id k = c"
  by (auto simp: case_by_id_def find_Some_iff)

lemma create_went_well:
  assumes "cases_ok alone now p" "db_now lk = now" "request_ok alone p (CreateWrite user n)"
  shows "went_well alone now p (advance lk clock new (CreateWrite user n) p)"
proof -
  have "went_well alone now p (None, snd (served (insert_case now new n p) p))"
  proof (rule went_well_served [OF assms(1)])
    show "cases_ok alone now q \<and> all_carried_on alone p q" if "insert_case now new n p = Inr q" for q
      using insert_case_keeps [OF assms(1) that] assms(3) by (auto intro: all_carried_on_same)
  qed
  then show ?thesis by (simp add: assms(2))
qed

lemma edit_went_well:
  assumes ok: "cases_ok alone now p" and lk: "db_now lk = now"
  shows "went_well alone now p (advance lk clock new (EditRead user c e) p)"
    and "request_ok alone p (EditService user c e k) \<Longrightarrow> (alone \<Longrightarrow> case_by_id p c = Some k) \<Longrightarrow>
      went_well alone now p (advance lk clock new (EditService user c e k) p)"
    and "request_ok alone p (EditWrite user c e k) \<Longrightarrow> (alone \<Longrightarrow> case_by_id p c = Some k) \<Longrightarrow>
      went_well alone now p (advance lk clock new (EditWrite user c e k) p)"
proof -
  show "went_well alone now p (advance lk clock new (EditRead user c e) p)"
    unfolding advance.simps using edit_checked_forward
    by (intro went_well_same [OF ok]) (auto split: sum.splits prod.splits)
  show "went_well alone now p (advance lk clock new (EditService user c e k) p)"
    if "request_ok alone p (EditService user c e k)" "alone \<Longrightarrow> case_by_id p c = Some k"
    unfolding advance.simps using that by (intro went_well_same [OF ok]) (auto split: option.splits if_splits)
  show "went_well alone now p (advance lk clock new (EditWrite user c e k) p)"
    if "request_ok alone p (EditWrite user c e k)" "alone \<Longrightarrow> case_by_id p c = Some k"
    unfolding advance.simps
  proof (rule went_well_served [OF ok])
    show "cases_ok alone now q \<and> all_carried_on alone p q" if "write_metadata c (cu_user user) e p = Inr q" for q
      by (rule write_metadata_keeps [OF ok that, of k]) (use \<open>request_ok alone p _\<close> \<open>alone \<Longrightarrow> _\<close> in simp)
  qed
qed

lemma status_went_well:
  assumes ok: "cases_ok alone now p" and lk: "db_now lk = now"
  shows "went_well alone now p (advance lk clock new (StatusAgain user c s) p)"
    and "went_well alone now p (advance lk clock new (StatusRead user c s) p)"
    and "request_ok alone p (StatusWrite user c t k) \<Longrightarrow> (alone \<Longrightarrow> case_by_id p c = Some k) \<Longrightarrow>
      went_well alone now p (advance lk clock new (StatusWrite user c t k) p)"
proof -
  have "same_cases p (snd (purge_gate lk clock user c s p))"
    using authorize_same_cases [of p lk clock user c "''case.delete''" True True None "{}" False] by (simp add: purge_gate_def)
  then show "went_well alone now p (advance lk clock new (StatusAgain user c s) p)"
    using ok by (cases "purge_gate lk clock user c s p"; cases "fst (purge_gate lk clock user c s p)")
      (auto simp: past_gate_def intro: went_well_same)
  show "went_well alone now p (advance lk clock new (StatusRead user c s) p)"
    unfolding advance.simps
    by (intro went_well_same [OF ok]) (auto simp: next_status_def dest: find_transition split: option.splits sum.splits)
  show "went_well alone now p (advance lk clock new (StatusWrite user c t k) p)"
    if "request_ok alone p (StatusWrite user c t k)" "alone \<Longrightarrow> case_by_id p c = Some k"
    using write_status_keeps [OF ok that(2)] that(1) by (simp add: went_well_def lk)
qed

lemma share_went_well:
  assumes ok: "cases_ok alone now p" and lk: "db_now lk = now"
  shows "went_well alone now p (advance lk clock new (ShareRead user c i m role t) p)"
    and "request_ok alone p (ShareService user k m target role t) \<Longrightarrow>
      went_well alone now p (advance lk clock new (ShareService user k m target role t) p)"
    and "request_ok alone p (ShareWrite user k m target role t) \<Longrightarrow>
      went_well alone now p (advance lk clock new (ShareWrite user k m target role t) p)"
proof -
  show "went_well alone now p (advance lk clock new (ShareRead user c i m role t) p)"
    using share_target_same share_person_same share_target_boxed
    by (auto intro!: went_well_same [OF ok] split: sum.split prod.split option.split)
  show "went_well alone now p (advance lk clock new (ShareService user k m target role t) p)"
    if "request_ok alone p (ShareService user k m target role t)"
  proof (cases "assignee_refusal (cs_id k) target p")
    case (Some e)
    then show ?thesis
      using share_answer_tables [of p user "cs_id k" m target None "Inl e"] by (auto intro!: went_well_same [OF ok])
  qed (use that in \<open>auto intro!: went_well_same [OF ok]\<close>)
  show "went_well alone now p (advance lk clock new (ShareWrite user k m target role t) p)"
    if boxed: "request_ok alone p (ShareWrite user k m target role t)"
  proof -
    let ?r = "assign_user now (cs_id k) target role (cu_user user) t p"
    let ?q = "snd (share_answer user (cs_id k) m target None ?r p)"
    have "went_well alone now p (None, ?q)"
    proof (cases "same_cases p ?q")
      case True
      then show ?thesis by (auto intro: went_well_same [OF ok])
    next
      case False
      then have "?r = Inr ?q" using share_answer_tables by blast
      from assign_keeps [OF ok this] boxed show ?thesis by (auto simp: went_well_def intro: all_carried_on_same)
    qed
    then show ?thesis by (simp add: lk)
  qed
qed

lemma unshare_went_well:
  assumes ok: "cases_ok alone now p"
  shows "went_well alone now p (advance lk clock new (UnshareRead user c u) p)"
    and "request_ok alone p (UnshareService user c u) \<Longrightarrow> went_well alone now p (advance lk clock new (UnshareService user c u) p)"
    and "request_ok alone p (UnshareWrite user c u) \<Longrightarrow> went_well alone now p (advance lk clock new (UnshareWrite user c u) p)"
proof -
  show "went_well alone now p (advance lk clock new (UnshareRead user c u) p)"
  proof (cases "case_by_id p c")
    case (Some k)
    with case_by_id_ok [OF this] show ?thesis unfolding advance.simps by (intro went_well_same [OF ok]) (auto split: if_splits)
  qed (use ok in \<open>auto simp: unshare_refusal_def intro: went_well_same\<close>)
  show "went_well alone now p (advance lk clock new (UnshareService user c u) p)"
    if found: "request_ok alone p (UnshareService user c u)"
  proof -
    obtain k where "case_by_id p c = Some k" using found by (cases "case_by_id p c") (auto simp: case_by_id_def find_None_iff)
    with case_by_id_ok [OF this] show ?thesis
      unfolding advance.simps by (intro went_well_same [OF ok]) (auto simp: revoke_refusal_def split: if_splits)
  qed
  show "went_well alone now p (advance lk clock new (UnshareWrite user c u) p)"
    if found: "request_ok alone p (UnshareWrite user c u)"
    unfolding advance.simps
  proof (rule went_well_served [OF ok])
    show "cases_ok alone now q \<and> all_carried_on alone p q" if "delete_assignment c u (cu_user user) p = Inr q" for q
      using revoke_keeps [OF ok that] found by (auto intro: all_carried_on_same)
  qed
qed

lemma advance_went_well:
  assumes "cases_ok alone now p" "db_now lk = now" "request_ok alone p r" "alone \<Longrightarrow> as_read r p"
  shows "went_well alone now p (advance lk clock new r p)"
proof (cases r)
  case (CreateRead user n)
  have "went_well alone now p (advance lk clock new (CreateRead user n) p)"
    unfolding advance.simps by (intro went_well_same [OF assms(1)]) (auto simp: create_refusal_def split: if_splits)
  then show ?thesis by (simp only: CreateRead)
next
  case (CreateWrite user n)
  then show ?thesis using create_went_well [OF assms(1,2)] assms(3) by simp
qed (use assms edit_went_well [OF assms(1,2)] status_went_well [OF assms(1,2)] share_went_well [OF assms(1,2)]
      unshare_went_well [OF assms(1)] in \<open>simp_all del: advance.simps\<close>)

lemma request_step_ok:
  assumes "request_step alone s s'" "server_ok alone s"
  shows "server_ok alone s' \<and> all_carried_on alone (sv_platform s) (sv_platform s')"
proof -
  have ok: "cases_ok alone (sv_now s) (sv_platform s)" and known: "\<And>i r. sv_requests s i = Some r \<Longrightarrow> request_ok alone (sv_platform s) r"
    using assms(2) by (auto simp: server_ok_def)
  have moved: "server_ok alone (s\<lparr>sv_platform := q, sv_requests := (sv_requests s)(i := x)\<rparr>) \<and> all_carried_on alone (sv_platform s) q"
    if "went_well alone (sv_now s) (sv_platform s) (x, q)" for x q i
    using that request_ok_carried [OF known] by (auto simp: server_ok_def went_well_def)
  from assms(1) show ?thesis
  proof (cases rule: request_step.cases)
    case (time_goes_on t)
    then show ?thesis using ok known cases_ok_later by (auto simp: server_ok_def all_carried_on_same)
  next
    case (elsewhere q)
    then have "went_well alone (sv_now s) (sv_platform s) (None, q)" by (intro went_well_same [OF ok]) auto
    then show ?thesis using elsewhere request_ok_carried [OF known] by (auto simp: went_well_def server_ok_def)
  next
    case (arrives i lk clock r x q)
    have "went_well alone (sv_now s) (sv_platform s) (x, q)"
      using arrive_same_cases [of "sv_platform s" lk clock r] arrives request_ok_arrived by (intro went_well_same [OF ok]) auto
    then show ?thesis using moved arrives(1) by simp
  next
    case (advances i r lk clock new x q)
    have "went_well alone (sv_now s) (sv_platform s) (advance lk clock new r (sv_platform s))"
      by (rule advance_went_well [OF ok advances(3) known [OF advances(2)]]) (rule advances(4))
    then have "went_well alone (sv_now s) (sv_platform s) (x, q)" by (simp only: advances(5))
    then show ?thesis using moved advances(1) by simp
  next
    case (given_up i)
    then show ?thesis using ok known by (auto simp: server_ok_def all_carried_on_same)
  qed
qed

lemma request_run_ok:
  assumes "(request_step alone)\<^sup>*\<^sup>* s s'" "server_ok alone s"
  shows "server_ok alone s' \<and> all_carried_on alone (sv_platform s) (sv_platform s')"
  using assms(1)
proof (induction rule: rtranclp_induct)
  case base
  show ?case using assms(2) by (simp add: all_carried_on_same)
next
  case (step q r)
  then show ?case using request_step_ok [OF step.hyps(2)] all_carried_on_trans by blast
qed

lemma fresh_server_ok: "fresh_server s \<Longrightarrow> server_ok alone s"
  by (simp add: fresh_server_def server_ok_def cases_ok_def assignments_ok_def owners_on_def)

text \<open>A request that nothing interrupts is such a run.\<close>

lemma advance_as_read: "advance lk clock new r p = (Some r', q) \<Longrightarrow> as_read r' q"
  by (cases r) (auto simp: past_gate_def split: option.splits sum.splits prod.splits if_splits)

lemma arrive_as_read: "arrive lk clock r p = (Some r', q) \<Longrightarrow> as_read r' q"
  by (cases r) (auto simp: past_gate_def split: sum.splits prod.splits)

lemma serve_run:
  assumes "sv_requests s i = Some r" "db_now lk = sv_now s" "as_read r (sv_platform s)"
  shows "(request_step alone)\<^sup>*\<^sup>* s
    (s\<lparr>sv_platform := serve n lk clock new r (sv_platform s), sv_requests := (sv_requests s)(i := None)\<rparr>)"
  using assms
proof (induction n arbitrary: s r)
  case 0
  have "s\<lparr>sv_platform := sv_platform s, sv_requests := (sv_requests s)(i := None)\<rparr> = s\<lparr>sv_requests := (sv_requests s)(i := None)\<rparr>"
    by (cases s) simp
  then show ?case using r_into_rtranclp [where r = "request_step alone", OF given_up [of alone s i]] by (simp only: serve.simps)
next
  case (Suc n)
  obtain x q where x: "advance lk clock new r (sv_platform s) = (x, q)" by (cases "advance lk clock new r (sv_platform s)")
  let ?t = "s\<lparr>sv_platform := q, sv_requests := (sv_requests s)(i := x)\<rparr>"
  have step: "request_step alone s ?t" by (rule advances [OF Suc.prems(1,2) _ x]) (rule Suc.prems(3))
  show ?case
  proof (cases x)
    case None
    have "s\<lparr>sv_platform := serve (Suc n) lk clock new r (sv_platform s), sv_requests := (sv_requests s)(i := None)\<rparr> = ?t"
      by (simp add: None serve_ended [OF x [unfolded None]])
    then show ?thesis using r_into_rtranclp [where r = "request_step alone", OF step] by (simp only:)
  next
    case (Some r')
    have "(request_step alone)\<^sup>*\<^sup>* ?t
      (?t\<lparr>sv_platform := serve n lk clock new r' q, sv_requests := (sv_requests ?t)(i := None)\<rparr>)"
      using Suc.IH [of ?t r'] Some Suc.prems(2) advance_as_read [OF x [unfolded Some]]
      by (simp del: fun_upd_apply add: fun_upd_same)
    then show ?thesis using step x Some by (simp del: fun_upd_apply add: converse_rtranclp_into_rtranclp)
  qed
qed

lemma route_run:
  assumes "sv_requests s i = None" "db_now lk = sv_now s"
  shows "(request_step alone)\<^sup>*\<^sup>* s (s\<lparr>sv_platform := serve_route lk clock new r (sv_platform s)\<rparr>)"
proof -
  obtain x q where x: "arrive lk clock r (sv_platform s) = (x, q)" by (cases "arrive lk clock r (sv_platform s)")
  let ?t = "s\<lparr>sv_platform := q, sv_requests := (sv_requests s)(i := x)\<rparr>"
  have step: "request_step alone s ?t" by (rule arrives [OF assms x])
  have same: "(sv_requests s)(i := None) = sv_requests s" using assms(1) by auto
  show ?thesis
  proof (cases x)
    case None
    then show ?thesis using step x same by (simp del: fun_upd_apply add: serve_route_def r_into_rtranclp)
  next
    case (Some r')
    have "(request_step alone)\<^sup>*\<^sup>* ?t (?t\<lparr>sv_platform := serve 4 lk clock new r' q, sv_requests := (sv_requests ?t)(i := None)\<rparr>)"
      using serve_run [of ?t i r' lk alone 4 clock new] assms(2) Some arrive_as_read [OF x [unfolded Some]] by (simp del: fun_upd_apply add: fun_upd_same)
    then show ?thesis using step x Some same by (simp del: fun_upd_apply add: serve_route_def converse_rtranclp_into_rtranclp)
  qed
qed

section \<open>What holds under any interleaving, and what a case keeps\<close>

text \<open>C9: What every run of the case routes keeps, however the statements of the requests interleave. From no cases at
  all: every case has a row of access for its owner; its retention ends after the day of its creation; closed, it
  says when it was closed; every assignment of a liaison ends; and an account is never a liaison, unexpired, on two
  cases at once. A review falls due no later than retention ends as long as no request writes a case that
  another has written since it read it.\<close>

theorem case_tables_keep_their_promises:
  assumes "(request_step alone)\<^sup>*\<^sup>* s0 s" "fresh_server s0"
  shows "(\<forall>k\<in>set (pf_cases (sv_platform s)). assignment_of (sv_platform s) (cs_id k) (cs_owner k) \<noteq> None \<and>
      date_of (cs_created_at k) < cs_retention_until k \<and> (cs_status k = CLOSED \<longrightarrow> cs_closed_at k \<noteq> None) \<and>
      (alone \<longrightarrow> cs_review_due k \<le> cs_retention_until k)) \<and>
    (\<forall>a\<in>set (pf_assignments (sv_platform s)). as_role a = ''LIAISON'' \<longrightarrow> as_expires_at a \<noteq> None \<and>
      (\<forall>b\<in>set (pf_assignments (sv_platform s)). as_role b = ''LIAISON'' \<and> as_user b = as_user a \<and>
         unexpired (sv_now s) a \<and> unexpired (sv_now s) b \<longrightarrow> as_case b = as_case a))"
proof -
  let ?p = "sv_platform s"
  have ok: "cases_ok alone (sv_now s) ?p"
    using request_run_ok [OF assms(1) fresh_server_ok [OF assms(2)]] by (simp add: server_ok_def)
  have row: "assignment_of ?p (cs_id k) (cs_owner k) \<noteq> None" if "k \<in> set (pf_cases ?p)" for k
  proof -
    obtain a where "a \<in> set (pf_assignments ?p)" "case_key a = (cs_id k, cs_owner k)"
      using ok \<open>k \<in> set (pf_cases ?p)\<close> by (auto simp: cases_ok_def owners_on_def image_iff)
    then show ?thesis by (auto simp: assignment_of_def find_None_iff case_key_def)
  qed
  have once: "assignments_ok (sv_now s) (pf_assignments ?p)" using ok by (simp add: cases_ok_def)
  have liaison: "as_case b = as_case a"
    if "a \<in> set (pf_assignments ?p)" "b \<in> set (pf_assignments ?p)" "as_role a = ''LIAISON''" "as_role b = ''LIAISON''"
      "as_user b = as_user a" "unexpired (sv_now s) a" "unexpired (sv_now s) b" for a b
  proof -
    have "as_role a \<in> single_case_roles" "as_role b = as_role a" using that by (simp_all add: single_case_roles_def)
    with once that show ?thesis unfolding assignments_ok_def by blast
  qed
  have ends: "as_expires_at a \<noteq> None" if "a \<in> set (pf_assignments ?p)" "as_role a = ''LIAISON''" for a
    using once that by (simp add: assignments_ok_def single_case_roles_def)
  have "case_row_ok alone k" if "k \<in> set (pf_cases ?p)" for k using ok that by (simp add: cases_ok_def list_all_iff)
  then show ?thesis using row liaison ends unfolding case_row_ok_def by blast
qed

text \<open>C11: A case only goes forward. However the statements of the requests interleave, a case keeps its code, its owner,
  its legal basis and its compartments. As long as no request writes a case that another has written since it read
  it, the label is also never lowered and the retention never shortened; an archived case is never reopened, and one
  that was started is never a draft again.\<close>

theorem case_only_goes_forward:
  assumes "(request_step alone)\<^sup>*\<^sup>* s0 s" "fresh_server s0" "(request_step alone)\<^sup>*\<^sup>* s t" "k \<in> set (pf_cases (sv_platform s))"
  shows "\<exists>k'\<in>set (pf_cases (sv_platform t)). cs_id k' = cs_id k \<and> cs_code k' = cs_code k \<and> cs_owner k' = cs_owner k \<and>
    cs_legal_basis k' = cs_legal_basis k \<and> cs_compartments k' = cs_compartments k \<and>
    (alone \<longrightarrow> cs_classification k \<le> cs_classification k' \<and> cs_retention_until k \<le> cs_retention_until k' \<and>
      (cs_status k \<in> {ARCHIVED, PURGED} \<longrightarrow> cs_status k' \<in> {ARCHIVED, PURGED}) \<and>
      (cs_status k = PURGED \<longrightarrow> cs_status k' = PURGED) \<and> (cs_status k \<noteq> DRAFT \<longrightarrow> cs_status k' \<noteq> DRAFT))"
proof -
  have "server_ok alone s" using request_run_ok [OF assms(1) fresh_server_ok [OF assms(2)]] by blast
  then obtain k' where k': "k' \<in> set (pf_cases (sv_platform t))" "carried_on alone k k'"
    using request_run_ok [OF assms(3)] assms(4) by (auto simp: all_carried_on_def)
  show ?thesis
    by (rule bexI [OF _ k'(1)]) (use k'(2) in \<open>cases "cs_status k"; cases "cs_status k'"; simp add: carried_on_def\<close>)
qed

section \<open>What an overtaken request does\<close>

text \<open>The requests that go on one after the other, on one clock.\<close>

definition next_of :: "link \<Rightarrow> uuid \<Rightarrow> nat \<Rightarrow> server \<Rightarrow> server" where
  "next_of lk new i s =
     (case sv_requests s i of
        None \<Rightarrow> s
      | Some r \<Rightarrow> (case advance lk (db_now lk) new r (sv_platform s) of
          (x, q) \<Rightarrow> s\<lparr>sv_platform := q, sv_requests := (sv_requests s)(i := x)\<rparr>))"

lemma next_of_step:
  assumes "db_now lk = sv_now s"
  shows "(request_step False)\<^sup>*\<^sup>* s (next_of lk new i s)" "sv_now (next_of lk new i s) = sv_now s"
proof -
  show "(request_step False)\<^sup>*\<^sup>* s (next_of lk new i s)"
  proof (cases "sv_requests s i")
    case (Some r)
    obtain x q where x: "advance lk (db_now lk) new r (sv_platform s) = (x, q)" by (cases "advance lk (db_now lk) new r (sv_platform s)")
    show ?thesis using advances [OF Some assms _ x] by (simp add: next_of_def Some x r_into_rtranclp)
  qed (simp add: next_of_def)
  show "sv_now (next_of lk new i s) = sv_now s" by (simp add: next_of_def split: option.split prod.split)
qed

lemma next_of_run:
  assumes "db_now lk = sv_now s"
  shows "(request_step False)\<^sup>*\<^sup>* s (fold (next_of lk new) is s)"
  using assms
proof (induction "is" arbitrary: s)
  case (Cons i "is")
  then show ?case using next_of_step [of lk s new i] Cons.IH [of "next_of lk new i s"] by (simp add: rtranclp_trans)
qed simp

lemma demo_clock: "db_now (demo_link 5) = 5"
  by code_simp

definition closed_server :: server where
  "closed_server = \<lparr>sv_now = 5, sv_platform = demo_platform\<lparr>pf_cases := [demo_case\<lparr>cs_status := CLOSED, cs_closed_at := Some 4\<rparr>]\<rparr>,
     sv_requests = (\<lambda>_. None)(0 := Some (StatusRead (demo_current 2) 10 ''ARCHIVED''), 1 := Some (StatusRead (demo_current 2) 10 ''ACTIVE''))\<rparr>"

text \<open>Two changes of state of one closed case, past their gates: both read it, the first archives it, the second reopens it.\<close>

lemma archived_case_reopened:
  "\<exists>s t. (request_step False)\<^sup>*\<^sup>* closed_server s \<and> map cs_status (pf_cases (sv_platform s)) = [ARCHIVED] \<and>
     (request_step False)\<^sup>*\<^sup>* s t \<and> map cs_status (pf_cases (sv_platform t)) = [ACTIVE]"
proof -
  let ?s = "fold (next_of (demo_link 5) 0) [0, 1, 0] closed_server" and ?t = "fold (next_of (demo_link 5) 0) [0, 1, 0, 1] closed_server"
  have s: "(request_step False)\<^sup>*\<^sup>* closed_server ?s" by (rule next_of_run) (simp add: demo_clock closed_server_def)
  have "sv_now ?s = 5" by code_simp
  then have "(request_step False)\<^sup>*\<^sup>* ?s (fold (next_of (demo_link 5) 0) [1] ?s)" by (intro next_of_run) (simp only: demo_clock)
  then have t: "(request_step False)\<^sup>*\<^sup>* ?s ?t" by simp
  show ?thesis
  proof (intro exI conjI)
    show "(request_step False)\<^sup>*\<^sup>* closed_server ?s" by (rule s)
    show "(request_step False)\<^sup>*\<^sup>* ?s ?t" by (rule t)
    show "map cs_status (pf_cases (sv_platform ?s)) = [ARCHIVED]"
      "map cs_status (pf_cases (sv_platform ?t)) = [ACTIVE]" by code_simp+
  qed
qed

definition date_edit :: "int option \<Rightarrow> int \<Rightarrow> case_edit" where
  "date_edit due retention = \<lparr>ed_title = None, ed_summary = None, ed_authority_ref = None, ed_review_due = due,
     ed_retention_until = Some retention, ed_classification = None\<rparr>"

definition dated_server :: server where
  "dated_server = \<lparr>sv_now = 5, sv_platform = demo_platform,
     sv_requests = (\<lambda>_. None)(0 := Some (EditRead (demo_current 2) 10 (date_edit (Some 990) 990)), 1 := Some (EditRead (demo_current 2) 10 (date_edit None 910)))\<rparr>"

text \<open>Two edits that each extend the retention: the second shortens what the first wrote, below the new review.\<close>

lemma retention_shortened:
  "\<exists>s t. (request_step False)\<^sup>*\<^sup>* dated_server s \<and> map (\<lambda>k. (cs_review_due k, cs_retention_until k)) (pf_cases (sv_platform s)) = [(990, 990)] \<and>
     (request_step False)\<^sup>*\<^sup>* s t \<and> map (\<lambda>k. (cs_review_due k, cs_retention_until k)) (pf_cases (sv_platform t)) = [(990, 910)]"
proof -
  let ?s = "fold (next_of (demo_link 5) 0) [0, 0, 1, 1, 0] dated_server"
    and ?t = "fold (next_of (demo_link 5) 0) [0, 0, 1, 1, 0, 1] dated_server"
  have s: "(request_step False)\<^sup>*\<^sup>* dated_server ?s" by (rule next_of_run) (simp add: demo_clock dated_server_def)
  have "sv_now ?s = 5" by code_simp
  then have "(request_step False)\<^sup>*\<^sup>* ?s (fold (next_of (demo_link 5) 0) [1] ?s)" by (intro next_of_run) (simp only: demo_clock)
  then have t: "(request_step False)\<^sup>*\<^sup>* ?s ?t" by simp
  show ?thesis
  proof (intro exI conjI)
    show "(request_step False)\<^sup>*\<^sup>* dated_server ?s" by (rule s)
    show "(request_step False)\<^sup>*\<^sup>* ?s ?t" by (rule t)
    show "map (\<lambda>k. (cs_review_due k, cs_retention_until k)) (pf_cases (sv_platform ?s)) = [(990, 990)]"
      "map (\<lambda>k. (cs_review_due k, cs_retention_until k)) (pf_cases (sv_platform ?t)) = [(990, 910)]" by code_simp+
  qed
qed

section \<open>Witnesses\<close>

definition empty_server :: server where
  "empty_server = \<lparr>sv_now = 5,
     sv_platform = empty_platform\<lparr>pf_permissions := [(''case.create'', False), (''case.close'', False)],
       pf_role_permissions := [(''SYS_ADMIN'', ''case.create''), (''CASE_OWNER'', ''case.read''), (''CASE_OWNER'', ''case.close'')]\<rparr>,
     sv_requests = (\<lambda>_. None)\<rparr>"

definition first_server :: server where
  "first_server = empty_server\<lparr>sv_platform :=
     serve_route (demo_link 5) 5 11 (CreateRead (demo_current 2) demo_new) (sv_platform empty_server)\<rparr>"

definition active_server :: server where
  "active_server = first_server\<lparr>sv_platform :=
     serve_route (demo_link 5) 5 0 (StatusAgain (demo_current 2) 11 ''ACTIVE'') (sv_platform first_server)\<rparr>"

lemma empty_server_fresh: "fresh_server empty_server"
  by (simp add: fresh_server_def empty_server_def empty_platform_def)

lemma first_server_run: "(request_step alone)\<^sup>*\<^sup>* empty_server first_server"
  unfolding first_server_def by (rule route_run [of _ 0]) (simp_all add: empty_server_def demo_clock)

lemma active_server_run: "(request_step alone)\<^sup>*\<^sup>* first_server active_server"
  unfolding active_server_def by (rule route_run [of _ 0]) (simp_all add: first_server_def empty_server_def demo_clock)

lemma first_server_cases: "map (\<lambda>k. (cs_id k, cs_owner k, cs_status k)) (pf_cases (sv_platform first_server)) = [(11, 2, DRAFT)]"
  "map (\<lambda>k. (cs_id k, cs_status k)) (pf_cases (sv_platform active_server)) = [(11, ACTIVE)]"
  by code_simp+

theorem case_tables_keep_their_promises_witness:
  "map cs_id (pf_cases (sv_platform active_server)) = [11] \<and>
   (\<exists>k. pf_cases (sv_platform active_server) = [k] \<and> cs_review_due k \<le> cs_retention_until k)"
proof -
  have "(request_step True)\<^sup>*\<^sup>* empty_server active_server" using first_server_run active_server_run by (rule rtranclp_trans)
  from case_tables_keep_their_promises [OF this empty_server_fresh]
  have "\<forall>k\<in>set (pf_cases (sv_platform active_server)). cs_review_due k \<le> cs_retention_until k" by blast
  moreover obtain k where "pf_cases (sv_platform active_server) = [k]" "cs_id k = 11" using first_server_cases(2) by auto
  ultimately show ?thesis by simp
qed

theorem case_only_goes_forward_witness:
  "\<exists>k k'. pf_cases (sv_platform first_server) = [k] \<and> pf_cases (sv_platform active_server) = [k'] \<and> cs_status k' = ACTIVE \<and>
     cs_owner k' = cs_owner k \<and> cs_retention_until k \<le> cs_retention_until k'"
proof -
  obtain k where k: "pf_cases (sv_platform first_server) = [k]" using first_server_cases(1) by auto
  obtain k' where k': "pf_cases (sv_platform active_server) = [k']" "cs_status k' = ACTIVE" using first_server_cases(2) by auto
  from case_only_goes_forward [OF first_server_run [of True] empty_server_fresh active_server_run, of k]
  show ?thesis using k k' by auto
qed
end
