(* ===== verification/Periods.thy ===== *)
theory Periods
  imports NocPrelude
begin

text \<open>
  Dated periods, the second part of \<open>affiliation.py\<close>'s helpers: the union of closed intervals as a sorted list of
  disjoint ones (\<open>_periods\<close>), where two such unions overlap (\<open>_overlap\<close>), the latest period in which they do
  (\<open>_last_overlap\<close>), and the arithmetic that bounds the merges of a transaction (\<open>_flow_steps\<close>). \<open>None\<close> is
  unbounded on its side. The lemmas read a list of periods as the set of instants it covers.
\<close>

type_synonym period = "instant option \<times> instant option"

definition always :: "period list" where
  "always = [(None, None)]"

section \<open>The union\<close>

definition not_backwards :: "period \<Rightarrow> bool" where
  "not_backwards iv \<longleftrightarrow> (case iv of (Some s, Some e) \<Rightarrow> s \<le> e | _ \<Rightarrow> True)"

text \<open>\<open>ivs.sort(key=...)\<close>, which is stable: undated starts first, then by start.\<close>

definition by_start :: "period list \<Rightarrow> period list" where
  "by_start ivs = filter (\<lambda>p. fst p = None) ivs @ sort_key (\<lambda>p. the (fst p)) (filter (\<lambda>p. fst p \<noteq> None) ivs)"

fun join_periods :: "period \<Rightarrow> period list \<Rightarrow> period list" where
  "join_periods p [] = [p]"
| "join_periods (ps, None) ivs = [(ps, None)]"
| "join_periods (ps, Some pe) ((s, e) # ivs) =
     (if (case s of None \<Rightarrow> True | Some t \<Rightarrow> t \<le> pe)
      then join_periods (ps, case e of None \<Rightarrow> None | Some t \<Rightarrow> Some (max pe t)) ivs
      else (ps, Some pe) # join_periods (s, e) ivs)"

definition periods :: "period list \<Rightarrow> period list" where
  "periods intervals =
     (case by_start (filter not_backwards intervals) of
        [] \<Rightarrow> []
      | p # ps \<Rightarrow> if (None, None) \<in> set intervals then always else join_periods p ps)"

section \<open>The overlap\<close>

definition later_start :: "instant option \<Rightarrow> instant option \<Rightarrow> instant option" where
  "later_start a b = (case (a, b) of (None, t) \<Rightarrow> t | (t, None) \<Rightarrow> t | (Some s, Some t) \<Rightarrow> Some (max s t))"

definition earlier_end :: "instant option \<Rightarrow> instant option \<Rightarrow> instant option" where
  "earlier_end a b = (case (a, b) of (None, t) \<Rightarrow> t | (t, None) \<Rightarrow> t | (Some s, Some t) \<Rightarrow> Some (min s t))"

definition meet :: "period \<Rightarrow> period \<Rightarrow> period" where
  "meet p q = (later_start (fst p) (fst q), earlier_end (snd p) (snd q))"

fun merge_overlap :: "period list \<Rightarrow> period list \<Rightarrow> period list" where
  "merge_overlap [] b = []"
| "merge_overlap (p # a) [] = []"
| "merge_overlap (p # a) (q # b) =
     (let out = (if not_backwards (meet p q) then [meet p q] else [])
      in out @ (case (snd p, snd q) of
                  (None, _) \<Rightarrow> merge_overlap (p # a) b
                | (Some _, None) \<Rightarrow> merge_overlap a (q # b)
                | (Some e, Some f) \<Rightarrow>
                    if e < f then merge_overlap a (q # b)
                    else if f < e then merge_overlap (p # a) b
                    else merge_overlap a b))"

definition overlap :: "period list \<Rightarrow> period list \<Rightarrow> period list" where
  "overlap a b = (if a = always then b else if b = always then a else merge_overlap a b)"

definition before :: "period \<Rightarrow> period \<Rightarrow> bool" where
  "before p q \<longleftrightarrow> (case (snd p, fst q) of (Some e, Some s) \<Rightarrow> e < s | _ \<Rightarrow> False)"

text \<open>The walk back from the end, on the reversed lists.\<close>

fun walk_back :: "period list \<Rightarrow> period list \<Rightarrow> period option" where
  "walk_back [] b = None"
| "walk_back (p # a) [] = None"
| "walk_back (p # a) (q # b) =
     (if before q p then walk_back a (q # b)
      else if before p q then walk_back (p # a) b
      else Some (meet p q))"

definition last_overlap :: "period list \<Rightarrow> period list \<Rightarrow> period option" where
  "last_overlap a b =
     (if a = always then (if b = [] then None else Some (last b))
      else if b = always then (if a = [] then None else Some (last a))
      else walk_back (rev a) (rev b))"

text \<open>Per wallet: the periods of its leg, its controllers and their periods.\<close>

definition flow_steps :: "(nat \<times> nat \<times> nat) list \<Rightarrow> (nat \<times> nat \<times> nat) list \<Rightarrow> nat" where
  "flow_steps ins outs =
     (let n_i = length ins; n_o = length outs;
          t_i = sum_list (map (\<lambda>(t, _, _). t) ins); a_i = sum_list (map (\<lambda>(_, a, _). a) ins);
          s_i = sum_list (map (\<lambda>(_, _, s). s) ins); at_i = sum_list (map (\<lambda>(t, a, _). t * a) ins);
          t_o = sum_list (map (\<lambda>(t, _, _). t) outs); b_o = sum_list (map (\<lambda>(_, b, _). b) outs);
          s_o = sum_list (map (\<lambda>(_, _, s). s) outs); bt_o = sum_list (map (\<lambda>(t, b, _). t * b) outs);
          legs = t_i * n_o + n_i * t_o;
          payers = at_i * n_o + a_i * t_o + s_i * n_o;
          payees = at_i * b_o + a_i * bt_o + s_i * b_o + a_i * s_o
      in legs + payers + payees)"

section \<open>What a list of periods covers\<close>

fun inside :: "instant \<Rightarrow> period \<Rightarrow> bool" where
  "inside t (s, e) \<longleftrightarrow> (case s of None \<Rightarrow> True | Some x \<Rightarrow> x \<le> t) \<and> (case e of None \<Rightarrow> True | Some x \<Rightarrow> t \<le> x)"

declare inside.simps [simp del]

definition covers :: "period list \<Rightarrow> instant \<Rightarrow> bool" where
  "covers ps t \<longleftrightarrow> list_ex (inside t) ps"

text \<open>A sorted list of disjoint periods, none ending before it starts.\<close>

definition separated :: "period list \<Rightarrow> bool" where
  "separated ps \<longleftrightarrow> list_all not_backwards ps \<and> sorted_wrt before ps"

definition starts_before :: "period \<Rightarrow> period \<Rightarrow> bool" where
  "starts_before p q \<longleftrightarrow> (case (fst p, fst q) of (None, _) \<Rightarrow> True | (Some _, None) \<Rightarrow> False | (Some s, Some t) \<Rightarrow> s \<le> t)"

lemma covers_simps [simp]:
  "\<not> covers [] t" "covers (p # ps) t \<longleftrightarrow> inside t p \<or> covers ps t" "covers (ps @ qs) t \<longleftrightarrow> covers ps t \<or> covers qs t"
  "covers (rev ps) t = covers ps t"
  by (auto simp: covers_def list_ex_iff)

lemma covers_iff: "covers ps t \<longleftrightarrow> (\<exists>p\<in>set ps. inside t p)"
  by (simp add: covers_def list_ex_iff)

lemma covers_always [simp]: "covers always t"
  by (simp add: always_def inside.simps)

lemma inside_meet: "inside t (meet p q) \<longleftrightarrow> inside t p \<and> inside t q"
  by (cases p; cases q) (auto simp: inside.simps meet_def later_start_def earlier_end_def split: option.splits)

lemma inside_not_backwards: "inside t p \<Longrightarrow> not_backwards p"
  by (cases p) (auto simp: inside.simps not_backwards_def split: option.splits)

lemma not_backwards_inside:
  assumes "not_backwards p"
  shows "\<exists>t. inside t p"
proof -
  have "inside (case p of (Some s, _) \<Rightarrow> s | (None, Some e) \<Rightarrow> e | _ \<Rightarrow> 0) p"
    using assms by (cases p) (auto simp: inside.simps not_backwards_def split: option.splits)
  then show ?thesis by blast
qed

lemma before_trans: "not_backwards q \<Longrightarrow> before p q \<Longrightarrow> before q r \<Longrightarrow> before p r"
  by (auto simp: before_def not_backwards_def split: option.splits)

lemma before_not_both: "before p q \<Longrightarrow> inside t p \<Longrightarrow> \<not> inside t q"
  by (cases p; cases q) (auto simp: inside.simps before_def split: option.splits)

lemma separated_Cons: "separated (p # ps) \<longleftrightarrow> not_backwards p \<and> list_all (before p) ps \<and> separated ps"
  by (auto simp: separated_def list_all_iff)

lemma separated_Nil [simp]: "separated []"
  by (simp add: separated_def)

lemma separated_always [simp]: "separated always"
  by (simp add: separated_def always_def not_backwards_def)

text \<open>It is enough to compare neighbours.\<close>

lemma separated_head:
  assumes "not_backwards p" "separated (q # qs)" "before p q"
  shows "separated (p # q # qs)"
proof -
  have "list_all (before q) qs" "not_backwards q" using assms(2) by (auto simp: separated_Cons)
  then have "list_all (before p) qs" using before_trans [OF _ assms(3)] by (auto simp: list_all_iff)
  then show ?thesis using assms by (simp add: separated_Cons)
qed

lemma starts_before_trans: "starts_before p q \<Longrightarrow> starts_before q r \<Longrightarrow> starts_before p r"
  by (auto simp: starts_before_def split: option.splits)

lemma by_start_set [simp]: "set (by_start ivs) = set ivs"
  by (auto simp: by_start_def)

lemma by_start_sorted: "sorted_wrt starts_before (by_start ivs)"
proof -
  have "sorted_wrt starts_before (filter (\<lambda>p. fst p = None) ivs)"
    by (induction ivs) (auto simp: starts_before_def)
  moreover have "sorted_wrt starts_before (sort_key (\<lambda>p. the (fst p)) (filter (\<lambda>p. fst p \<noteq> None) ivs))"
    using sorted_sort_key [of "\<lambda>p. the (fst p)" "filter (\<lambda>p. fst p \<noteq> None) ivs"] unfolding sorted_map
    by (rule sorted_wrt_mono_rel [rotated]) (auto simp: starts_before_def)
  ultimately show ?thesis by (auto simp: by_start_def sorted_wrt_append starts_before_def)
qed

lemma starts_inside: "starts_before p q \<Longrightarrow> snd p = None \<Longrightarrow> inside t q \<Longrightarrow> inside t p"
  by (cases p; cases q) (auto simp: inside.simps starts_before_def split: option.splits)

lemma join_periods_ok:
  assumes "not_backwards p" "list_all not_backwards ivs" "sorted_wrt starts_before (p # ivs)"
  shows "(covers (join_periods p ivs) t \<longleftrightarrow> inside t p \<or> covers ivs t) \<and> separated (join_periods p ivs) \<and>
    (\<exists>q qs. join_periods p ivs = q # qs \<and> fst q = fst p)"
  using assms
proof (induction p ivs rule: join_periods.induct)
  case (1 p)
  then show ?case by (simp add: separated_Cons)
next
  case (2 ps iv ivs)
  have "inside t q \<Longrightarrow> inside t (ps, None)" if "q \<in> set (iv # ivs)" for q
    by (rule starts_inside) (use 2 that in auto)
  then have "covers (iv # ivs) t \<Longrightarrow> inside t (ps, None)" unfolding covers_iff by blast
  then show ?case using 2 by (auto simp: separated_Cons)
next
  case (3 ps pe s e ivs)
  let ?e = "case e of None \<Rightarrow> None | Some t \<Rightarrow> Some (max pe t)"
  have pair: "starts_before (ps, Some pe) (s, e)" "not_backwards (ps, Some pe)" "not_backwards (s, e)"
    and rest: "list_all not_backwards ivs" "sorted_wrt starts_before ((s, e) # ivs)" "sorted_wrt starts_before ((ps, Some pe) # ivs)"
    using 3(3,4,5) by auto
  show ?case
  proof (cases "case s of None \<Rightarrow> True | Some t \<Rightarrow> t \<le> pe")
    case True
    have joined: "inside t (ps, ?e) \<longleftrightarrow> inside t (ps, Some pe) \<or> inside t (s, e)"
      using pair True by (cases s; cases ps; cases e) (auto simp: inside.simps starts_before_def)
    have "not_backwards (ps, ?e)" "sorted_wrt starts_before ((ps, ?e) # ivs)"
      using pair rest(3) by (auto simp: not_backwards_def starts_before_def split: option.splits)
    from 3(1) [OF True this(1) rest(1) this(2)] True joined show ?thesis by auto
  next
    case False
    from 3(2) [OF False pair(3) rest(1,2)] obtain q qs where
      q: "join_periods (s, e) ivs = q # qs" "fst q = s" "separated (q # qs)" "covers (q # qs) t \<longleftrightarrow> inside t (s, e) \<or> covers ivs t"
      by fastforce
    have "before (ps, Some pe) q" using False q(2) by (auto simp: before_def split: option.splits)
    from separated_head [OF pair(2) q(3) this] q(1,4) False show ?thesis by auto
  qed
qed

text \<open>\<open>_periods\<close> is the union of the intervals, as a sorted list of disjoint periods.\<close>

lemma periods_ok: "covers (periods ivs) t \<longleftrightarrow> covers ivs t" "separated (periods ivs)"
proof -
  let ?ivs = "by_start (filter not_backwards ivs)"
  have "p \<in> set ?ivs \<longleftrightarrow> p \<in> set ivs \<and> not_backwards p" for p by simp
  then have cov: "covers ?ivs t \<longleftrightarrow> covers ivs t" using inside_not_backwards unfolding covers_iff by blast
  have ok: "list_all not_backwards ?ivs" by (simp add: list_all_iff)
  show "covers (periods ivs) t \<longleftrightarrow> covers ivs t" "separated (periods ivs)"
  proof (atomize (full), cases ?ivs)
    case Nil
    then show "(covers (periods ivs) t \<longleftrightarrow> covers ivs t) \<and> separated (periods ivs)" using cov by (simp add: periods_def)
  next
    case (Cons p ps)
    show "(covers (periods ivs) t \<longleftrightarrow> covers ivs t) \<and> separated (periods ivs)"
    proof (cases "(None, None) \<in> set ivs")
      case True
      then have "covers ivs t" unfolding covers_iff by (intro bexI [of _ "(None, None)"]) (simp_all add: inside.simps)
      then show ?thesis using Cons True by (simp add: periods_def)
    next
      case False
      have "not_backwards p" "list_all not_backwards ps" "sorted_wrt starts_before (p # ps)"
        using ok by_start_sorted [of "filter not_backwards ivs"] unfolding Cons by auto
      from join_periods_ok [OF this, of t] cov show ?thesis using Cons False by (simp add: periods_def)
    qed
  qed
qed
section \<open>The overlap of two unions\<close>

lemma before_start: "before p q \<Longrightarrow> \<exists>e s. snd p = Some e \<and> fst q = Some s \<and> e < s"
  by (auto simp: before_def split: option.splits)

text \<open>The pass finds exactly the meetings of a period of one union with a period of the other.\<close>

definition meetings :: "period list \<Rightarrow> period list \<Rightarrow> period set" where
  "meetings a b = {m. \<exists>p\<in>set a. \<exists>q\<in>set b. m = meet p q \<and> not_backwards m}"

lemma in_meetings: "m \<in> meetings a b \<longleftrightarrow> (\<exists>p\<in>set a. \<exists>q\<in>set b. m = meet p q \<and> not_backwards m)"
  by (simp add: meetings_def)

lemma meetings_Nil [simp]: "meetings [] b = {}" "meetings a [] = {}"
  by (auto simp: meetings_def)

lemma meetings_Cons:
  "meetings (p # a) (q # b) =
     (if not_backwards (meet p q) then {meet p q} else {}) \<union> meetings a (q # b) \<union> meetings (p # a) b"
  by (rule set_eqI) (auto simp: in_meetings)

lemma meetings_covers: "(\<exists>m\<in>meetings a b. inside t m) \<longleftrightarrow> covers a t \<and> covers b t"
  unfolding covers_iff Bex_def in_meetings using inside_meet inside_not_backwards by blast

lemma meet_backwards: "before p q \<Longrightarrow> \<not> not_backwards (meet p q)" "before p q \<Longrightarrow> \<not> not_backwards (meet q p)"
  using before_not_both not_backwards_inside inside_meet by blast+

text \<open>A period that ends no later than another meets nothing that comes after that one.\<close>

definition ends_by :: "period \<Rightarrow> period \<Rightarrow> bool" where
  "ends_by p q \<longleftrightarrow> (case (snd p, snd q) of (_, None) \<Rightarrow> True | (None, Some _) \<Rightarrow> False | (Some e, Some f) \<Rightarrow> e \<le> f)"

lemma ends_by_before: "ends_by p q \<Longrightarrow> before q r \<Longrightarrow> before p r"
  by (auto simp: ends_by_def before_def split: option.splits)

lemma meetings_sym: "meetings a b = meetings b a"
proof -
  have "meet p q = meet q p" for p q
    by (auto simp: meet_def later_start_def earlier_end_def split: option.splits)
  then show ?thesis unfolding set_eq_iff in_meetings by metis
qed

lemma meetings_drop:
  assumes "separated (p # a)" "ends_by q p"
  shows "meetings a (q # b) = meetings a b"
proof -
  have "\<not> not_backwards (meet p' q)" if "p' \<in> set a" for p'
  proof -
    have "before p p'" using assms(1) that by (auto simp: separated_Cons list_all_iff)
    then show ?thesis using ends_by_before [OF assms(2)] meet_backwards(2) by blast
  qed
  then show ?thesis by (intro set_eqI) (auto simp: in_meetings)
qed

lemma meetings_drop2:
  assumes "separated (q # b)" "ends_by p q"
  shows "meetings (p # a) b = meetings a b"
  using meetings_drop [OF assms, of a] by (simp add: meetings_sym)

lemma meetings_mono: "set a \<subseteq> set a' \<Longrightarrow> set b \<subseteq> set b' \<Longrightarrow> meetings a b \<subseteq> meetings a' b'"
  unfolding subset_iff in_meetings by blast

text \<open>Which of the two lists a step drops its head from.\<close>

lemma merge_overlap_step:
  obtains (first) "ends_by p q" "merge_overlap (p # a) (q # b) =
      (if not_backwards (meet p q) then [meet p q] else []) @ merge_overlap a (q # b)"
  | (second) "ends_by q p" "merge_overlap (p # a) (q # b) =
      (if not_backwards (meet p q) then [meet p q] else []) @ merge_overlap (p # a) b"
  | (both) "ends_by p q" "ends_by q p" "merge_overlap (p # a) (q # b) =
      (if not_backwards (meet p q) then [meet p q] else []) @ merge_overlap a b"
  by (cases "snd p"; cases "snd q"; cases "the (snd p) < the (snd q)"; cases "the (snd q) < the (snd p)")
    (simp_all add: ends_by_def Let_def)

lemma before_meet: "before p p' \<Longrightarrow> before (meet p q) (meet p' q')" "before q q' \<Longrightarrow> before (meet p q) (meet p' q')"
  by (auto simp: before_def meet_def later_start_def earlier_end_def split: option.splits)

lemma merge_overlap_ok:
  assumes "separated a" "separated b"
  shows "set (merge_overlap a b) = meetings a b \<and> separated (merge_overlap a b) \<and> length (merge_overlap a b) \<le> length a + length b"
  using assms
proof (induction "length a + length b" arbitrary: a b rule: less_induct)
  case less
  show ?case
  proof (cases "a = [] \<or> b = []")
    case True
    then show ?thesis by (cases a) auto
  next
    case False
    then obtain p a' q b' where ab: "a = p # a'" "b = q # b'" by (auto simp: neq_Nil_conv)
    have sep: "separated (p # a')" "separated (q # b')" "separated a'" "separated b'"
      using less.prems by (auto simp: ab separated_Cons)
    have ends: "list_all (before p) a'" "list_all (before q) b'" using sep by (auto simp: separated_Cons)
    let ?m = "if not_backwards (meet p q) then [meet p q] else []"
    have m: "set ?m \<union> meetings a' (q # b') \<union> meetings (p # a') b' = meetings (p # a') (q # b')"
      by (simp add: meetings_Cons)
    have after: "list_all (before (meet p q)) xs" if "set xs \<subseteq> meetings a' (q # b') \<or> set xs \<subseteq> meetings (p # a') b'" for xs
      using that before_meet ends unfolding subset_iff in_meetings list_all_iff by blast
    have push: "separated (?m @ xs)" if "separated xs" "list_all (before (meet p q)) xs" for xs
      using that by (simp add: separated_Cons)
    from merge_overlap_step [of p q a' b'] show ?thesis
    proof cases
      case first
      have "set (merge_overlap a' (q # b')) = meetings a' (q # b') \<and> separated (merge_overlap a' (q # b')) \<and>
          length (merge_overlap a' (q # b')) \<le> length a' + length (q # b')"
        by (rule less.hyps) (use sep ab in simp_all)
      then show ?thesis
        using m meetings_drop2 [OF sep(2) first(1), of a'] meetings_mono [of a' a' b' "q # b'"] push after
        unfolding ab first(2) by auto
    next
      case second
      have "set (merge_overlap (p # a') b') = meetings (p # a') b' \<and> separated (merge_overlap (p # a') b') \<and>
          length (merge_overlap (p # a') b') \<le> length (p # a') + length b'"
        by (rule less.hyps) (use sep ab in simp_all)
      then show ?thesis
        using m meetings_drop [OF sep(1) second(1), of b'] meetings_mono [of a' "p # a'" b' b'] push after
        unfolding ab second(2) by auto
    next
      case both
      have "set (merge_overlap a' b') = meetings a' b' \<and> separated (merge_overlap a' b') \<and>
          length (merge_overlap a' b') \<le> length a' + length b'"
        by (rule less.hyps) (use sep ab in simp_all)
      then show ?thesis
        using m meetings_drop2 [OF sep(2) both(1), of a'] meetings_drop [OF sep(1) both(2), of b'] push after
        unfolding ab both(3) by auto
    qed
  qed
qed

text \<open>
  \<open>_overlap\<close> is the intersection, as a sorted list of disjoint periods. The object \<open>_ALWAYS\<close> is told from a
  list equal to it by nothing here: a list is that constant exactly when it has that value.
\<close>

lemma overlap_ok:
  assumes "separated a" "separated b"
  shows "covers (overlap a b) t \<longleftrightarrow> covers a t \<and> covers b t" "separated (overlap a b)" "length (overlap a b) \<le> length a + length b"
proof -
  have "covers (merge_overlap a b) t \<longleftrightarrow> covers a t \<and> covers b t"
    using merge_overlap_ok [OF assms] meetings_covers [of a b t] by (simp add: covers_iff)
  then show "covers (overlap a b) t \<longleftrightarrow> covers a t \<and> covers b t" "separated (overlap a b)" "length (overlap a b) \<le> length a + length b"
    using merge_overlap_ok [OF assms] assms by (auto simp: overlap_def)
qed

section \<open>The latest overlap\<close>

lemma walk_back_ok:
  assumes "separated (rev a)" "separated (rev b)"
  shows "case walk_back a b of None \<Rightarrow> meetings a b = {}
    | Some m \<Rightarrow> m \<in> meetings a b \<and> (\<forall>n\<in>meetings a b. n = m \<or> before n m)"
  using assms
proof (induction a b rule: walk_back.induct)
  case (3 p a q b)
  have rev_Cons: "separated (rev (x # xs)) \<Longrightarrow> separated (rev xs) \<and> list_all (\<lambda>y. before y x) xs" for x xs
    by (auto simp: separated_def sorted_wrt_append list_all_iff)
  have sep: "separated (rev a)" "separated (rev b)" and ends: "list_all (\<lambda>y. before y p) a" "list_all (\<lambda>y. before y q) b"
    using rev_Cons 3(3,4) by blast+
  consider (first) "before q p" | (second) "\<not> before q p" "before p q" | (meet) "\<not> before q p" "\<not> before p q" by blast
  then show ?case
  proof cases
    case first
    have "before r p" if "r \<in> set (q # b)" for r
    proof (cases "r = q")
      case False
      then have "before r q" using that ends(2) by (auto simp: list_all_iff)
      moreover have "not_backwards q" using 3(4) by (auto simp: separated_def)
      ultimately show ?thesis using before_trans first by blast
    qed (use first in simp)
    then have "\<forall>r\<in>set (q # b). \<not> not_backwards (meet p r)" using meet_backwards(2) by blast
    then have eq: "meetings (p # a) (q # b) = meetings a (q # b)" by (intro set_eqI) (auto simp: in_meetings)
    show ?thesis unfolding eq using 3(1) [OF first sep(1) 3(4)] first by simp
  next
    case second
    have "before r q" if "r \<in> set (p # a)" for r
    proof (cases "r = p")
      case False
      then have "before r p" using that ends(1) by (auto simp: list_all_iff)
      moreover have "not_backwards p" using 3(3) by (auto simp: separated_def)
      ultimately show ?thesis using before_trans second by blast
    qed (use second in simp)
    then have "\<forall>r\<in>set (p # a). \<not> not_backwards (meet r q)" using meet_backwards(1) by blast
    then have eq: "meetings (p # a) (q # b) = meetings (p # a) b" by (intro set_eqI) (auto simp: in_meetings)
    show ?thesis unfolding eq using 3(2) [OF second 3(3) sep(2)] second by simp
  next
    case meet
    have ok: "not_backwards p" "not_backwards q" using 3(3,4) by (auto simp: separated_def)
    then have "not_backwards (meet p q)" using meet
      by (auto simp: before_def meet_def not_backwards_def later_start_def earlier_end_def split: option.splits)
    moreover have "n = meet p q \<or> before n (meet p q)" if "n \<in> meetings (p # a) (q # b)" for n
      using that before_meet ends unfolding in_meetings list_all_iff by (metis set_ConsD)
    moreover have "walk_back (p # a) (q # b) = Some (meet p q)" using meet by simp
    ultimately show ?thesis by (simp add: in_meetings)
  qed
qed simp_all

lemma last_of_separated:
  assumes "separated ps" "m \<in> set ps" "\<And>n. n \<in> set ps \<Longrightarrow> n = m \<or> before n m"
  shows "last ps = m"
proof (rule ccontr)
  assume neq: "last ps \<noteq> m"
  obtain qs l where ps: "ps = qs @ [l]" using assms(2) by (cases ps rule: rev_cases) auto
  then have "m \<in> set qs" "l \<noteq> m" using assms(2) neq by auto
  then have "before m l" "not_backwards m" "not_backwards l" using assms(1) by (auto simp: ps separated_def sorted_wrt_append list_all_iff)
  moreover have "before l m" using assms(3) [of l] \<open>l \<noteq> m\<close> by (simp add: ps)
  ultimately have "before m m" using before_trans by blast
  then show False using before_not_both not_backwards_inside \<open>not_backwards m\<close> by blast
qed

text \<open>\<open>_last_overlap\<close> answers the last period of the overlap, or nothing when there is none.\<close>

lemma last_overlap_ok:
  assumes "separated a" "separated b"
  shows "last_overlap a b = (if overlap a b = [] then None else Some (last (overlap a b)))"
proof (cases "a = always \<or> b = always")
  case True
  then show ?thesis by (auto simp: last_overlap_def overlap_def)
next
  case False
  have m: "set (merge_overlap a b) = meetings (rev a) (rev b)" "separated (merge_overlap a b)"
    using merge_overlap_ok [OF assms] by (simp_all add: set_eq_iff in_meetings)
  have w: "case walk_back (rev a) (rev b) of None \<Rightarrow> meetings (rev a) (rev b) = {}
      | Some m \<Rightarrow> m \<in> meetings (rev a) (rev b) \<and> (\<forall>n\<in>meetings (rev a) (rev b). n = m \<or> before n m)"
    by (rule walk_back_ok) (use assms in simp_all)
  show ?thesis
  proof (cases "walk_back (rev a) (rev b)")
    case None
    with w m(1) have "merge_overlap a b = []" by simp
    with None False show ?thesis by (simp add: last_overlap_def overlap_def)
  next
    case (Some x)
    with w m(1) have x: "x \<in> set (merge_overlap a b)" "\<And>n. n \<in> set (merge_overlap a b) \<Longrightarrow> n = x \<or> before n x" by auto
    then have "last (merge_overlap a b) = x" "merge_overlap a b \<noteq> []" using last_of_separated [OF m(2)] by auto
    with Some False show ?thesis by (simp add: last_overlap_def overlap_def)
  qed
qed

lemma last_overlap_None:
  assumes "separated a" "separated b"
  shows "last_overlap a b = None \<longleftrightarrow> (\<nexists>t. covers a t \<and> covers b t)"
proof -
  have "overlap a b = [] \<longleftrightarrow> (\<nexists>t. covers (overlap a b) t)"
    using overlap_ok(2) [OF assms] not_backwards_inside by (cases "overlap a b") (auto simp: separated_Cons)
  then show ?thesis unfolding last_overlap_ok [OF assms] by (simp add: overlap_ok(1) [OF assms])
qed

section \<open>The arithmetic of the merges of a transaction\<close>

text \<open>
  Per leg the periods of the two legs are merged, then what is left with those of each payer, then that with those
  of each payee. \<open>_flow_steps\<close> sums the bounds of those merges over all wallets, payers and payees without
  enumerating them.
\<close>

lemma flow_steps_sum:
  "flow_steps ins outs =
     sum_list (map (\<lambda>(t_i, a_i, s_i). sum_list (map (\<lambda>(t_o, b_o, s_o).
       (t_i + t_o) + (a_i * (t_i + t_o) + s_i) + (a_i * b_o * (t_i + t_o) + s_i * b_o + a_i * s_o)) outs)) ins)"
proof (induction ins)
  case Nil
  then show ?case by (simp add: flow_steps_def Let_def)
next
  case (Cons x ins)
  obtain t a s where x: "x = (t, a, s)" by (cases x)
  have row: "sum_list (map (\<lambda>(t_o, b_o, s_o). (t + t_o) + (a * (t + t_o) + s) + (a * b_o * (t + t_o) + s * b_o + a * s_o)) outs) =
      flow_steps [x] outs"
    by (induction outs) (auto simp: flow_steps_def Let_def x algebra_simps)
  have "flow_steps (x # ins) outs = flow_steps [x] outs + flow_steps ins outs"
    by (simp add: flow_steps_def Let_def x algebra_simps)
  then show ?case using Cons.IH row by (simp add: x)
qed

lemma before_instant: "before n m \<Longrightarrow> inside t n \<Longrightarrow> \<exists>s. fst m = Some s \<and> t < s"
  by (cases n; cases m) (auto simp: before_def inside.simps split: option.splits)

text \<open>The latest overlap is exact. Two memberships recorded by any rows are found not to meet exactly when no
  instant lies in a period of both; otherwise what is found is not empty, holds only common instants, and every
  common instant outside it comes before it.\<close>

theorem latest_overlap_exact:
  "case last_overlap (periods xs) (periods ys) of
     None \<Rightarrow> {t. covers xs t \<and> covers ys t} = {}
   | Some m \<Rightarrow> {t. inside t m} \<noteq> {} \<and> {t. inside t m} \<subseteq> {t. covers xs t \<and> covers ys t} \<and>
       {t. covers xs t \<and> covers ys t} - {t. inside t m} \<subseteq> {t. \<exists>s. fst m = Some s \<and> t < s}"
proof -
  let ?o = "overlap (periods xs) (periods ys)"
  have sep: "separated ?o" and cov: "covers ?o t \<longleftrightarrow> covers xs t \<and> covers ys t" for t
    using overlap_ok [OF periods_ok(2) periods_ok(2), of xs ys] by (simp_all add: periods_ok(1))
  show ?thesis
  proof (cases ?o rule: rev_cases)
    case Nil
    then have "last_overlap (periods xs) (periods ys) = None" by (simp add: last_overlap_ok periods_ok(2))
    then show ?thesis using cov Nil by auto
  next
    case (snoc qs m)
    then have found: "last_overlap (periods xs) (periods ys) = Some m" by (simp add: last_overlap_ok periods_ok(2))
    have m: "not_backwards m" "\<And>n. n \<in> set qs \<Longrightarrow> before n m"
      using sep unfolding snoc by (auto simp: separated_def sorted_wrt_append)
    have "{t. inside t m} \<noteq> {}" using not_backwards_inside [OF m(1)] by simp
    moreover have "covers xs t \<and> covers ys t \<longleftrightarrow> covers qs t \<or> inside t m" for t
      unfolding cov [symmetric] snoc by simp
    moreover have "\<exists>s. fst m = Some s \<and> t < s" if "covers qs t" for t
      using that before_instant [OF m(2)] unfolding covers_iff by blast
    ultimately show ?thesis unfolding found option.case by blast
  qed
qed
end
