(* ===== verification/IdentityClusters.thy ===== *)
theory IdentityClusters
  imports NocPrelude
begin

text \<open>
  The union-find of \<open>affiliation.py\<close> (\<open>_UnionFind\<close>), which holds who is recorded as the same identity: the loop that
  climbs to a root, the one that compresses the path behind it, and the union that keeps the smaller id as root. A
  climb is \<open>None\<close> while it has not returned, so that it returns is a theorem. Ids are numbers ordered as their texts.
\<close>

type_synonym parents = "uuid \<rightharpoonup> uuid"

definition no_parents :: parents where
  "no_parents = Map.empty"

text \<open>\<open>while p[root] != root: root = p[root]\<close>, a missing key being a \<open>KeyError\<close> that no reachable state meets.\<close>

partial_function (option) climb :: "parents \<Rightarrow> uuid \<Rightarrow> uuid option" where
  "climb p x = (case p x of None \<Rightarrow> None | Some y \<Rightarrow> if y = x then Some x else climb p y)"

text \<open>\<open>while p[x] != root: p[x], x = root, p[x]\<close>.\<close>

partial_function (option) compress :: "uuid \<Rightarrow> parents \<Rightarrow> uuid \<Rightarrow> parents option" where
  "compress root p x = (case p x of None \<Rightarrow> None | Some y \<Rightarrow> if y = root then Some p else compress root (p(x \<mapsto> root)) y)"

definition find_root :: "parents \<Rightarrow> uuid \<Rightarrow> (uuid \<times> parents) option" where
  "find_root p x =
     (if p x = None then Some (x, p)
      else (case climb p x of
              None \<Rightarrow> None
            | Some root \<Rightarrow> map_option (\<lambda>q. (root, q)) (compress root p x)))"

definition set_default :: "uuid \<Rightarrow> parents \<Rightarrow> parents" where
  "set_default x p = (if p x = None then p(x \<mapsto> x) else p)"

definition unite :: "uuid \<Rightarrow> uuid \<Rightarrow> parents \<Rightarrow> parents option" where
  "unite a b p =
     (case find_root (set_default b (set_default a p)) a of
        None \<Rightarrow> None
      | Some (ra, p1) \<Rightarrow>
        (case find_root p1 b of
           None \<Rightarrow> None
         | Some (rb, p2) \<Rightarrow> Some (if ra = rb then p2 else p2(max ra rb \<mapsto> min ra rb))))"

text \<open>\<open>not self._p\<close> needs no test of its own: an empty table holds neither id.\<close>

definition same :: "uuid \<Rightarrow> uuid \<Rightarrow> parents \<Rightarrow> (bool \<times> parents) option" where
  "same a b p =
     (if p a = None \<and> p b = None then Some (a = b, p)
      else (case find_root p a of
              None \<Rightarrow> None
            | Some (ra, p1) \<Rightarrow>
              (case find_root p1 b of None \<Rightarrow> None | Some (rb, p2) \<Rightarrow> Some (ra = rb, p2))))"

fun unite_all :: "(uuid \<times> uuid) list \<Rightarrow> parents \<Rightarrow> parents option" where
  "unite_all [] p = Some p"
| "unite_all ((a, b) # links) p = (case unite a b p of None \<Rightarrow> None | Some q \<Rightarrow> unite_all links q)"

section \<open>The invariant\<close>

text \<open>Every parent is a key, and no later in the order than its child: the climb only goes down.\<close>

definition forest :: "parents \<Rightarrow> bool" where
  "forest p \<longleftrightarrow> (\<forall>x y. p x = Some y \<longrightarrow> y \<le> x \<and> p y \<noteq> None)"

lemma forest_empty [simp]: "forest no_parents" "forest Map.empty"
  by (simp_all add: forest_def no_parents_def)

lemma climb_returns:
  assumes "forest p" "p x \<noteq> None"
  shows "\<exists>r. climb p x = Some r \<and> p r = Some r \<and> r \<le> x"
  using assms(2)
proof (induction x rule: less_induct)
  case (less x)
  then obtain y where y: "p x = Some y" by auto
  then have le: "y \<le> x" "p y \<noteq> None" using assms(1) by (auto simp: forest_def)
  show ?case
  proof (cases "y = x")
    case True
    then show ?thesis using y by (subst climb.simps) simp
  next
    case False
    then obtain r where "climb p y = Some r" "p r = Some r" "r \<le> y" using less.IH [of y] le by auto
    then show ?thesis using y False le by (subst climb.simps) auto
  qed
qed

lemma climb_step: "p x = Some y \<Longrightarrow> climb p x = (if y = x then Some x else climb p y)"
  by (subst climb.simps) simp

lemma climb_root: "climb p x = Some r \<Longrightarrow> p x = Some y \<Longrightarrow> climb p y = Some r"
  by (cases "y = x") (auto simp: climb_step)

text \<open>The root an id has, an id that is no key being its own.\<close>

definition root_of :: "parents \<Rightarrow> uuid \<Rightarrow> uuid" where
  "root_of p x = (if p x = None then x else the (climb p x))"

lemma root_of_key:
  assumes "forest p" "p x \<noteq> None"
  shows "climb p x = Some (root_of p x)" "p (root_of p x) = Some (root_of p x)" "root_of p x \<le> x"
  using climb_returns [OF assms] assms(2) by (auto simp: root_of_def)

lemma root_of_parent: "forest p \<Longrightarrow> p x = Some y \<Longrightarrow> root_of p y = root_of p x"
  using root_of_key(1) [of p x] root_of_key(1) [of p y] climb_root [of p x] by (fastforce simp: forest_def)

lemma root_of_none [simp]: "p x = None \<Longrightarrow> root_of p x = x"
  by (simp add: root_of_def)

lemma root_of_self: "forest p \<Longrightarrow> p x = Some x \<Longrightarrow> root_of p x = x"
  by (simp add: root_of_def climb_step)

lemma root_of_root [simp]: "forest p \<Longrightarrow> root_of p (root_of p x) = root_of p x"
  using root_of_key(2) [of p x] root_of_self [of p "root_of p x"] by (cases "p x") auto

text \<open>Hanging an id directly under a root no later than it: what the compression and the union do.\<close>

lemma hang:
  assumes p: "forest p" and r: "p r = Some r" "r \<le> x" "p x \<noteq> None" and x: "root_of p x = r \<or> root_of p x = x"
  shows "forest (p(x \<mapsto> r))" "root_of (p(x \<mapsto> r)) z = (if root_of p z = root_of p x then r else root_of p z)"
proof -
  define q' where "q' = p(x \<mapsto> r)"
  have at: "q' x = Some r" "y \<noteq> x \<Longrightarrow> q' y = p y" for y by (simp_all add: q'_def)
  have q: "forest q'" using p r by (auto simp: forest_def q'_def)
  then show "forest (p(x \<mapsto> r))" by (simp add: q'_def)
  have rr: "root_of p r = r" by (rule root_of_self [OF p r(1)])
  have root_r: "root_of q' r = r" using root_of_self [OF q, of r] r(1) at by (cases "r = x") auto
  have "root_of q' z = (if root_of p z = root_of p x then r else root_of p z)"
  proof (cases "p z")
    case None
    then have "z \<noteq> x" "z \<noteq> r" using r by auto
    moreover have "root_of p x \<noteq> z" using x None r by auto
    ultimately show ?thesis using None at by simp
  next
    case (Some y)
    then show ?thesis
    proof (induction z arbitrary: y rule: less_induct)
      case (less z)
      have key: "p y \<noteq> None" "y \<le> z" using p less.prems by (auto simp: forest_def)
      show ?case
      proof (cases "z = x")
        case True
        have "root_of q' x = root_of q' r" by (rule root_of_parent [OF q, symmetric]) (rule at)
        then show ?thesis using root_r True by simp
      next
        case False
        show ?thesis
        proof (cases "y = z")
          case True
          then have "p z = Some z" using less.prems by simp
          then have z: "root_of p z = z" "root_of q' z = z" using root_of_self [OF p] root_of_self [OF q] False at by auto
          moreover have "z = r" if "root_of p x = z" using x that False by auto
          ultimately show ?thesis by auto
        next
          case neq: False
          then have "y < z" using key by simp
          moreover obtain w where "p y = Some w" using key by auto
          ultimately have "root_of q' y = (if root_of p y = root_of p x then r else root_of p y)" by (rule less.IH)
          moreover have "root_of q' y = root_of q' z" by (rule root_of_parent [OF q]) (use less.prems False at in simp)
          moreover have "root_of p y = root_of p z" by (rule root_of_parent [OF p less.prems])
          ultimately show ?thesis by simp
        qed
      qed
    qed
  qed
  then show "root_of (p(x \<mapsto> r)) z = (if root_of p z = root_of p x then r else root_of p z)" by (simp add: q'_def)
qed

lemma compress_returns:
  assumes "forest p" "p x \<noteq> None" "root_of p x = r"
  shows "\<exists>q. compress r p x = Some q \<and> forest q \<and> dom q = dom p \<and> root_of q = root_of p"
  using assms
proof (induction x arbitrary: p rule: less_induct)
  case (less x)
  obtain y where y: "p x = Some y" using less.prems(2) by auto
  have key: "p y \<noteq> None" "y \<le> x" using less.prems(1) y by (auto simp: forest_def)
  show ?case
  proof (cases "y = r")
    case True
    then show ?thesis using y less.prems(1) by (subst compress.simps) simp
  next
    case False
    have r: "p r = Some r" "r \<le> x" using root_of_key [OF less.prems(1,2)] less.prems(3) by auto
    have "y \<noteq> x"
    proof
      assume "y = x"
      then have "root_of p x = x" using root_of_self [OF less.prems(1)] y by simp
      then show False using \<open>y = x\<close> less.prems(3) False by simp
    qed
    then have lt: "y < x" using key by simp
    let ?p = "p(x \<mapsto> r)"
    have hang': "forest ?p" "root_of ?p z = root_of p z" for z
      using hang [OF less.prems(1) r less.prems(2)] less.prems(3) by auto
    have "?p y \<noteq> None" "root_of ?p y = r" using key hang'(2) root_of_parent [OF less.prems(1) y] less.prems(3) \<open>y \<noteq> x\<close> by auto
    from less.IH [OF lt hang'(1) this] obtain q where
      "compress r ?p y = Some q" "forest q" "dom q = dom ?p" "root_of q = root_of ?p" by blast
    moreover have "compress r p x = compress r ?p y" using y False by (subst compress.simps) simp
    moreover have "dom ?p = dom p" "root_of ?p = root_of p" using y hang'(2) by auto
    ultimately show ?thesis by auto
  qed
qed

lemma find_root_ok:
  assumes "forest p"
  shows "\<exists>q. find_root p x = Some (root_of p x, q) \<and> forest q \<and> dom q = dom p \<and> root_of q = root_of p"
proof (cases "p x = None")
  case False
  from compress_returns [OF assms False refl] root_of_key(1) [OF assms False] False
  show ?thesis by (auto simp: find_root_def)
qed (use assms in \<open>simp add: find_root_def\<close>)

lemma set_default_ok:
  assumes "forest p"
  shows "forest (set_default x p)" "root_of (set_default x p) = root_of p" "dom (set_default x p) = insert x (dom p)"
proof -
  let ?q = "set_default x p"
  show q: "forest ?q" using assms by (auto simp: set_default_def forest_def)
  show "dom ?q = insert x (dom p)" by (auto simp: set_default_def)
  show "root_of ?q = root_of p"
  proof (cases "p x")
    case None
    have "root_of ?q z = root_of p z" if "p z = Some y" for z y
      using that
    proof (induction z arbitrary: y rule: less_induct)
      case (less z)
      have y: "p y \<noteq> None" "y \<le> z" using less.prems assms by (auto simp: forest_def)
      then have z: "z \<noteq> x" "?q z = Some y" "y \<noteq> x" using None less.prems by (auto simp: set_default_def)
      show ?case
      proof (cases "y = z")
        case True
        then show ?thesis using root_of_self [OF assms] root_of_self [OF q] less.prems z(2) by simp
      next
        case False
        then have "root_of ?q y = root_of p y" using less.IH [of y] y by auto
        then show ?thesis using root_of_parent [OF q z(2)] root_of_parent [OF assms less.prems] by simp
      qed
    qed
    moreover have "root_of ?q z = root_of p z" if "p z = None" for z
      using that None root_of_self [OF q, of x] by (cases "z = x") (auto simp: set_default_def)
    ultimately have "root_of ?q z = root_of p z" for z by (cases "p z") auto
    then show ?thesis by blast
  qed (simp add: set_default_def)
qed

lemma unite_ok:
  assumes "forest p"
  shows "\<exists>q. unite a b p = Some q \<and> forest q \<and> dom q = dom p \<union> {a, b} \<and>
    (\<forall>z. root_of q z = (if root_of p z \<in> {root_of p a, root_of p b} then min (root_of p a) (root_of p b) else root_of p z))"
proof -
  let ?p0 = "set_default b (set_default a p)"
  note d1 = set_default_ok [OF assms, of a]
  note d2 = set_default_ok [OF d1(1), of b]
  have p0: "forest ?p0" "root_of ?p0 = root_of p" "dom ?p0 = dom p \<union> {a, b}" using d1 d2 by auto
  obtain p1 where p1: "find_root ?p0 a = Some (root_of p a, p1)" "forest p1" "dom p1 = dom ?p0" "root_of p1 = root_of p"
    using find_root_ok [OF p0(1), of a] p0(2) by auto
  obtain p2 where p2: "find_root p1 b = Some (root_of p b, p2)" "forest p2" "dom p2 = dom ?p0" "root_of p2 = root_of p"
    using find_root_ok [OF p1(2), of b] p1 by auto
  let ?ra = "root_of p a" and ?rb = "root_of p b"
  show ?thesis
  proof (cases "?ra = ?rb")
    case True
    then show ?thesis using p0 p1 p2 by (auto simp: unite_def)
  next
    case False
    have keys: "a \<in> dom p2" "b \<in> dom p2" using p0(3) p2(3) by auto
    then have roots: "p2 ?ra = Some ?ra" "p2 ?rb = Some ?rb"
      using root_of_key(2) [OF p2(2), of a] root_of_key(2) [OF p2(2), of b] p2(4) by auto
    let ?hi = "max ?ra ?rb" and ?lo = "min ?ra ?rb"
    let ?q = "p2(?hi \<mapsto> ?lo)"
    have hl: "p2 ?lo = Some ?lo" "?lo \<le> ?hi" "p2 ?hi \<noteq> None" "root_of p2 ?hi = ?hi"
      using roots root_of_self [OF p2(2)] by (auto simp: max_def min_def)
    have q: "forest ?q" "root_of ?q z = (if root_of p z = ?hi then ?lo else root_of p z)" for z
      using hang [OF p2(2) hl(1,2,3)] hl(4) p2(4) by auto
    have "root_of ?q z = (if root_of p z \<in> {?ra, ?rb} then ?lo else root_of p z)" for z
      unfolding q(2) by (auto simp: max_def min_def)
    moreover have "dom ?q = dom p \<union> {a, b}" using p2(3) p0(3) hl(3) by auto
    moreover have "unite a b p = Some ?q" using False p1(1) p2(1) by (simp add: unite_def)
    ultimately show ?thesis using q(1) by blast
  qed
qed

section \<open>Clusters\<close>

definition cluster :: "parents \<Rightarrow> (uuid \<times> uuid) set" where
  "cluster p = {(x, y). root_of p x = root_of p y}"

text \<open>A chain of links, either way round.\<close>

definition linked :: "(uuid \<times> uuid) list \<Rightarrow> (uuid \<times> uuid) set" where
  "linked links = (set links \<union> (set links)\<inverse>)\<^sup>*"

lemma cluster_rtrancl [simp]: "(cluster p)\<^sup>* = cluster p"
proof -
  have "(x, y) \<in> (cluster p)\<^sup>* \<Longrightarrow> (x, y) \<in> cluster p" for x y
    by (induction rule: rtrancl_induct) (auto simp: cluster_def)
  then show ?thesis by auto
qed

lemma merged_eq:
  fixes x y r s :: uuid
  assumes "(if x \<in> {r, s} then min r s else x) = (if y \<in> {r, s} then min r s else y)"
  shows "x = y \<or> x \<in> {r, s} \<and> y \<in> {r, s}"
proof -
  have "min r s \<in> {r, s}" by (simp add: min_def)
  with assms show ?thesis by metis
qed

lemma cluster_unite:
  assumes "forest p" "unite a b p = Some q"
  shows "cluster q = (cluster p \<union> {(a, b), (b, a)})\<^sup>*"
proof -
  let ?R = "cluster p \<union> {(a, b), (b, a)}"
  have root: "root_of q z = (if root_of p z \<in> {root_of p a, root_of p b} then min (root_of p a) (root_of p b) else root_of p z)" for z
    using unite_ok [OF assms(1), of a b] assms(2) by auto
  have step: "root_of q y = root_of q z" if "(y, z) \<in> ?R" for y z
  proof -
    from that consider "root_of p y = root_of p z" | "y = a" "z = b" | "y = b" "z = a" by (auto simp: cluster_def)
    then show ?thesis by cases (simp_all only: root, simp_all)
  qed
  have "(x, y) \<in> cluster q" if "(x, y) \<in> ?R\<^sup>*" for x y
    using that by (induction rule: rtrancl_induct) (use step in \<open>auto simp: cluster_def\<close>)
  moreover have "(x, y) \<in> ?R\<^sup>*" if "(x, y) \<in> cluster q" for x y
  proof -
    have link: "(a, b) \<in> ?R\<^sup>*" "(b, a) \<in> ?R\<^sup>*" by auto
    have edge: "root_of p u = root_of p v \<Longrightarrow> (u, v) \<in> ?R\<^sup>*" for u v by (auto simp: cluster_def)
    define ra rb where "ra = root_of p a" and "rb = root_of p b"
    have "(if root_of p x \<in> {ra, rb} then min ra rb else root_of p x) = (if root_of p y \<in> {ra, rb} then min ra rb else root_of p y)"
      using that unfolding cluster_def mem_Collect_eq prod.case root ra_def rb_def .
    then have "root_of p x = root_of p y \<or> root_of p x \<in> {ra, rb} \<and> root_of p y \<in> {ra, rb}" by (rule merged_eq)
    then show ?thesis
    proof
      assume "root_of p x \<in> {ra, rb} \<and> root_of p y \<in> {ra, rb}"
      then consider "root_of p x = root_of p y" | "root_of p x = ra" "root_of p y = rb" | "root_of p x = rb" "root_of p y = ra"
        by (elim conjE insertE emptyE) simp_all
      then show ?thesis
      proof cases
        case 2
        then show ?thesis using edge [of x a] edge [of b y] link(1) unfolding ra_def rb_def by (metis rtrancl_trans)
      next
        case 3
        then show ?thesis using edge [of x b] edge [of a y] link(2) unfolding ra_def rb_def by (metis rtrancl_trans)
      qed (rule edge)
    qed (rule edge)
  qed
  ultimately show ?thesis by auto
qed

lemma linked_step: "(linked ls \<union> {(a, b), (b, a)})\<^sup>* = linked ((a, b) # ls)"
proof -
  have "(linked ls \<union> {(a, b), (b, a)})\<^sup>* = ((set ls \<union> (set ls)\<inverse>) \<union> {(a, b), (b, a)})\<^sup>*"
    unfolding linked_def by (metis rtrancl_Un_rtrancl rtrancl_idemp)
  also have "\<dots> = linked ((a, b) # ls)" unfolding linked_def by (rule arg_cong [of _ _ rtrancl]) auto
  finally show ?thesis .
qed

lemma same_ok:
  assumes "forest p"
  shows "\<exists>q. same a b p = Some ((a, b) \<in> cluster p, q) \<and> forest q \<and> cluster q = cluster p"
proof (cases "p a = None \<and> p b = None")
  case True
  then show ?thesis using assms by (simp add: same_def cluster_def)
next
  case False
  obtain p1 where p1: "find_root p a = Some (root_of p a, p1)" "forest p1" "root_of p1 = root_of p"
    using find_root_ok [OF assms] by blast
  obtain p2 where p2: "find_root p1 b = Some (root_of p b, p2)" "forest p2" "root_of p2 = root_of p"
    using find_root_ok [OF p1(2), of b] p1(3) by auto
  show ?thesis using False p1 p2 by (auto simp: same_def cluster_def)
qed

text \<open>What happens to a table, with the links it was given: a union, or a question (which compresses paths).\<close>

inductive identity_step :: "parents \<times> (uuid \<times> uuid) list \<Rightarrow> parents \<times> (uuid \<times> uuid) list \<Rightarrow> bool" where
  united: "unite a b p = Some q \<Longrightarrow> identity_step (p, links) (q, (a, b) # links)"
| asked: "same a b p = Some (r, q) \<Longrightarrow> identity_step (p, links) (q, links)"

inductive_cases identity_stepE: "identity_step (p, links) (q, links')"

lemma identity_run:
  assumes "identity_step\<^sup>*\<^sup>* (no_parents, []) (p, links)"
  shows "forest p \<and> cluster p = linked links"
  using assms
proof (induction rule: rtranclp_induct2)
  case refl
  show ?case by (auto simp: cluster_def linked_def no_parents_def)
next
  case (step p links q links')
  from step.hyps(2) consider (united) a b where "unite a b p = Some q" "links' = (a, b) # links"
    | (asked) a b r where "same a b p = Some (r, q)" "links' = links"
    by (elim identity_stepE) blast+
  then show ?case
  proof cases
    case united
    then have "cluster q = linked ((a, b) # links)" using cluster_unite [of p a b q] step.IH linked_step by simp
    then show ?thesis using united unite_ok [of p a b] step.IH by auto
  next
    case asked
    then show ?thesis using same_ok [of p a b] step.IH by auto
  qed
qed

text \<open>C19: Every question about identities returns. Whatever was united and asked before, in any order, the climb to a
  root and the compression of the path behind it end, so a union and a question of any two ids answer.\<close>

theorem identity_questions_return:
  assumes "identity_step\<^sup>*\<^sup>* (no_parents, []) (p, links)"
  shows "find_root p x \<noteq> None \<and> unite a b p \<noteq> None \<and> same a b p \<noteq> None"
proof -
  have p: "forest p" using identity_run [OF assms] by blast
  show ?thesis using find_root_ok [OF p, of x] unite_ok [OF p, of a b] same_ok [OF p, of a b] by auto
qed

text \<open>C20: Identity clusters are exact. After any run of unions and questions, two ids are answered to be the same
  identity exactly when a chain of the recorded links, read either way, leads from one to the other.\<close>

theorem identity_clusters_exact:
  assumes "identity_step\<^sup>*\<^sup>* (no_parents, []) (p, links)"
  shows "map_option fst (same a b p) = Some ((a, b) \<in> (set links \<union> (set links)\<inverse>)\<^sup>*)"
  using identity_run [OF assms] same_ok [of p a b] by (auto simp: linked_def)

section \<open>Witnesses\<close>

lemma sample_identities:
  "\<exists>p. identity_step\<^sup>*\<^sup>* (no_parents, []) (p, [(3, 2), (5, 3)])"
proof -
  obtain p where p: "unite 5 3 no_parents = Some p" "forest p" using unite_ok [of no_parents 5 3] by auto
  obtain q where q: "unite 3 2 p = Some q" using unite_ok [OF p(2), of 3 2] by auto
  have "identity_step (no_parents, []) (p, [(5, 3)])" by (rule united [OF p(1)])
  moreover have "identity_step (p, [(5, 3)]) (q, [(3, 2), (5, 3)])" by (rule united [OF q])
  ultimately show ?thesis by (meson rtranclp.rtrancl_refl rtranclp.rtrancl_into_rtrancl)
qed

theorem identity_questions_return_witness: "\<exists>p. identity_step\<^sup>*\<^sup>* (no_parents, []) (p, [(3, 2), (5, 3)]) \<and> find_root p 5 \<noteq> None"
  using sample_identities identity_questions_return by meson

theorem identity_clusters_exact_witness:
  "\<exists>p. identity_step\<^sup>*\<^sup>* (no_parents, []) (p, [(3, 2), (5, 3)]) \<and> map_option fst (same 2 5 p) = Some True"
proof -
  obtain p where p: "identity_step\<^sup>*\<^sup>* (no_parents, []) (p, [(3, 2), (5, 3)])" using sample_identities by blast
  have "(2 :: uuid, 5 :: uuid) \<in> (set [(3, 2), (5, 3)] \<union> (set [(3, 2), (5, 3)])\<inverse>)\<^sup>*"
    by (rule rtrancl_trans [of _ "3::uuid"]; rule r_into_rtrancl) simp_all
  then show ?thesis using identity_clusters_exact [OF p, of 2 5] p by auto
qed
end
