(* ===== verification/OneMode.thy ===== *)
theory OneMode
  imports Complex_Main Periods IdentityClusters "HOL-Library.List_Lexorder" "HOL-Library.Char_ord"
    "HOL-Library.Product_Lexorder" "HOL-Library.Multiset"
begin

text \<open>
  The bipartite to one-mode projection of \<open>affiliation.py\<close>: venues (forums, channels, wallets, transactions) leave
  the graph, and the entities that met there are tied instead. The rows are the dictionaries \<open>projections.py\<close> fetches,
  with the columns the transform reads; instants are aware, as the database answers them. Weights are exact rational
  numbers where the program uses floats. A query of the identity clusters compresses paths, which changes no answer
  (theory \<open>IdentityClusters\<close>), so the transform asks the clusters the links left. The notes in prose that the API adds
  to the coverage are not modelled.
\<close>

section \<open>Constants\<close>

definition max_venue_size_range :: "int \<times> int" where
  "max_venue_size_range = (2, 500)"

definition min_shared_range :: "int \<times> int" where
  "min_shared_range = (1, 100)"

definition max_derived_ties :: nat where
  "max_derived_ties = 50000"

definition max_period_steps :: nat where
  "max_period_steps = 1000000"

definition oversized_listed :: nat where
  "oversized_listed = 25"

definition identity_link_types :: "string list" where
  "identity_link_types = [''SAME_AS'', ''ALIAS_OF'', ''ATTRIBUTED_TO'']"

definition suppressing_review :: "string set" where
  "suppressing_review = {''ACCEPTED'', ''PROPOSED''}"

definition forum_venues :: "string list" where
  "forum_venues = [''FORUM'', ''CHANNEL'']"

definition control_types :: "string list" where
  "control_types = [''CONFIRMED_CONTROL_OF'', ''CONTROLS'']"

record family =
  fm_key :: string
  fm_label :: string
  fm_venues :: "string list"
  fm_affiliations :: "string list"

definition families :: "(string \<times> family) list" where
  "families =
     [(''forum'', \<lparr>fm_key = ''forum'', fm_label = ''Forums and channels'', fm_venues = forum_venues, fm_affiliations = [''POSTS_ON'']\<rparr>),
      (''wallet'', \<lparr>fm_key = ''wallet'', fm_label = ''Wallets and transactions'', fm_venues = [''WALLET'', ''TRANSACTION''],
        fm_affiliations = [''CONFIRMED_CONTROL_OF'', ''CONTROLS'', ''PAID'', ''TX_INPUT'', ''TX_OUTPUT'']\<rparr>)]"

definition review_weakness :: "string option \<Rightarrow> nat" where
  "review_weakness state =
     (case state of None \<Rightarrow> 5
      | Some s \<Rightarrow> (case map_of [(''ACCEPTED'', 0), (''DISPUTED'', 1), (''PROPOSED'', 2), (''SUPERSEDED'', 3), (''REJECTED'', 4)] s of
          None \<Rightarrow> 5 | Some w \<Rightarrow> w))"

definition confidence_rank :: "string option \<Rightarrow> int" where
  "confidence_rank c =
     (case c of None \<Rightarrow> -1
      | Some s \<Rightarrow> (case map_of [(''LOW'', 0), (''MODERATE'', 1), (''HIGH'', 2)] s of None \<Rightarrow> -1 | Some r \<Rightarrow> r))"

definition weight_newman :: string where
  "weight_newman = ''NEWMAN''"

definition weight_count :: string where
  "weight_count = ''COUNT''"

definition derived_families :: "string list" where
  "derived_families = [''forum'', ''wallet_control'', ''wallet_flow'']"

section \<open>Parameters\<close>

datatype one_mode_error =
    UnknownFamily string
  | UnknownWeighting string
  | VenueSizeOutOfRange
  | MinSharedOutOfRange
  | TooManyTies nat
  | TooManyPeriods nat

record one_mode_params =
  om_families :: "string list"
  om_weighting :: string
  om_max_venue :: int
  om_min_shared :: int

definition make_one_mode_params :: "string list \<Rightarrow> string \<Rightarrow> int \<Rightarrow> int \<Rightarrow> one_mode_params" where
  "make_one_mode_params fams weighting venue shared =
     \<lparr>om_families = sort (remdups fams), om_weighting = weighting, om_max_venue = venue, om_min_shared = shared\<rparr>"

definition one_mode_enabled :: "one_mode_params \<Rightarrow> bool" where
  "one_mode_enabled p \<longleftrightarrow> om_families p \<noteq> []"

definition validate_one_mode :: "one_mode_params \<Rightarrow> one_mode_error option" where
  "validate_one_mode p =
     (case find (\<lambda>f. map_of families f = None) (om_families p) of
        Some f \<Rightarrow> Some (UnknownFamily f)
      | None \<Rightarrow>
        if om_weighting p \<notin> {weight_count, weight_newman} then Some (UnknownWeighting (om_weighting p))
        else if \<not> (fst max_venue_size_range \<le> om_max_venue p \<and> om_max_venue p \<le> snd max_venue_size_range) then Some VenueSizeOutOfRange
        else if \<not> (fst min_shared_range \<le> om_min_shared p \<and> om_min_shared p \<le> snd min_shared_range) then Some MinSharedOutOfRange
        else None)"

definition material_edge_types :: "string list \<Rightarrow> string list" where
  "material_edge_types fams =
     (let known = List.map_filter (map_of families) fams
      in if known = [] then [] else sort (remdups (identity_link_types @ concat (map fm_affiliations known))))"

definition venue_types :: "string list \<Rightarrow> string list" where
  "venue_types fams = concat (map fm_venues (List.map_filter (map_of families) fams))"

section \<open>Rows\<close>

text \<open>The attribute \<open>member_count\<close> of a node, as JSON gives it: a number is \<open>WholeNumber\<close>, everything else is not.\<close>

datatype count_attribute = NoCount | WholeNumber int | NotACount

record node =
  nd_id :: uuid
  nd_type :: string
  nd_label :: "string option"
  nd_member_count :: count_attribute

record tie =
  ti_id :: uuid
  ti_type :: string
  ti_src :: uuid
  ti_dst :: uuid
  ti_review :: "string option"
  ti_confidence :: "string option"
  ti_evidence :: bool
  ti_from :: "instant option"
  ti_to :: "instant option"

text \<open>A dictionary built over the nodes: the last of two with one id.\<close>

definition node_at :: "node list \<Rightarrow> uuid \<rightharpoonup> node" where
  "node_at ns = map_of (rev (map (\<lambda>n. (nd_id n, n)) ns))"

definition type_at :: "node list \<Rightarrow> uuid \<Rightarrow> string option" where
  "type_at ns i = map_option nd_type (node_at ns i)"

datatype row_kind = ForumRow | ControlRow | InputRow | OutputRow | PaidRow

definition kind_of :: "tie \<Rightarrow> (uuid \<Rightarrow> string option) \<Rightarrow> string list \<Rightarrow> row_kind option" where
  "kind_of r types fams =
     (let et = ti_type r; s = types (ti_src r); d = types (ti_dst r)
      in if ''forum'' \<in> set fams \<and> et = ''POSTS_ON'' \<and> d \<in> Some ` set forum_venues then Some ForumRow
         else if ''wallet'' \<in> set fams then
           (if et \<in> set control_types \<and> d = Some ''WALLET'' then Some ControlRow
            else if et = ''TX_INPUT'' \<and> s = Some ''WALLET'' \<and> d = Some ''TRANSACTION'' then Some InputRow
            else if et = ''TX_OUTPUT'' \<and> s = Some ''TRANSACTION'' \<and> d = Some ''WALLET'' then Some OutputRow
            else if et = ''PAID'' \<and> (s = Some ''WALLET'' \<or> d = Some ''WALLET'') then Some PaidRow
            else None)
         else None)"

definition is_identity_link :: "tie \<Rightarrow> bool" where
  "is_identity_link r \<longleftrightarrow> ti_type r \<in> set identity_link_types"

definition classify_rows :: "node list \<Rightarrow> tie list \<Rightarrow> tie list \<Rightarrow> one_mode_params \<Rightarrow> tie list \<times> tie list \<times> tie list" where
  "classify_rows ns ties material p =
     (let consumed = (\<lambda>r. kind_of r (type_at ns) (om_families p) \<noteq> None)
      in (filter consumed ties @ filter consumed material,
          filter (\<lambda>r. \<not> consumed r) ties,
          filter (\<lambda>r. \<not> consumed r \<and> is_identity_link r) ties @ filter (\<lambda>r. \<not> consumed r \<and> is_identity_link r) material))"

definition row_key :: "tie \<Rightarrow> uuid \<times> uuid \<times> uuid \<times> string" where
  "row_key r = (ti_id r, ti_src r, ti_dst r, ti_type r)"

definition strength :: "tie \<Rightarrow> nat \<times> int \<times> bool \<times> uuid" where
  "strength r = (review_weakness (ti_review r), - confidence_rank (ti_confidence r), \<not> ti_evidence r, ti_id r)"

text \<open>\<open>min\<close> and \<open>max\<close> with a key: the first of those that tie.\<close>

definition first_min :: "('a \<Rightarrow> 'b::linorder) \<Rightarrow> 'a list \<Rightarrow> 'a" where
  "first_min f xs = foldl (\<lambda>m x. if f x < f m then x else m) (hd xs) (tl xs)"

definition first_max :: "('a \<Rightarrow> 'b::linorder) \<Rightarrow> 'a list \<Rightarrow> 'a" where
  "first_max f xs = foldl (\<lambda>m x. if f m < f x then x else m) (hd xs) (tl xs)"

definition best_row :: "tie list \<Rightarrow> tie" where
  "best_row rows = first_min strength rows"

definition interval_of :: "tie \<Rightarrow> period" where
  "interval_of r = (ti_from r, ti_to r)"

definition recorded_members :: "node \<Rightarrow> int option" where
  "recorded_members n = (case nd_member_count n of WholeNumber k \<Rightarrow> if k < 2 then None else Some k | _ \<Rightarrow> None)"

section \<open>Memberships\<close>

text \<open>The gathered dictionaries, read from the rows both of whose ends are known, in the order of their keys.\<close>

definition gathered :: "node list \<Rightarrow> tie list \<Rightarrow> tie list" where
  "gathered ns rows = filter (\<lambda>r. node_at ns (ti_src r) \<noteq> None \<and> node_at ns (ti_dst r) \<noteq> None) (sort_key row_key rows)"

record view =
  vw_nodes :: "node list"
  vw_params :: one_mode_params
  vw_sizing :: "tie list"
  vw_drawing :: "tie list"

definition row_kind_in :: "view \<Rightarrow> tie \<Rightarrow> row_kind option" where
  "row_kind_in w r = kind_of r (type_at (vw_nodes w)) (om_families (vw_params w))"

definition member_rows :: "view \<Rightarrow> tie list \<Rightarrow> uuid \<Rightarrow> uuid \<Rightarrow> tie list" where
  "member_rows w rows v a =
     filter (\<lambda>r. row_kind_in w r \<in> {Some ForumRow, Some ControlRow} \<and> ti_dst r = v \<and> ti_src r = a) rows"

definition members_of :: "view \<Rightarrow> tie list \<Rightarrow> uuid \<Rightarrow> uuid list" where
  "members_of w rows v =
     dedup (map ti_src (filter (\<lambda>r. row_kind_in w r \<in> {Some ForumRow, Some ControlRow} \<and> ti_dst r = v) rows))"

definition input_rows :: "view \<Rightarrow> tie list \<Rightarrow> uuid \<Rightarrow> uuid \<Rightarrow> tie list" where
  "input_rows w rows t x = filter (\<lambda>r. row_kind_in w r = Some InputRow \<and> ti_dst r = t \<and> ti_src r = x) rows"

definition inputs_of :: "view \<Rightarrow> tie list \<Rightarrow> uuid \<Rightarrow> uuid list" where
  "inputs_of w rows t = dedup (map ti_src (filter (\<lambda>r. row_kind_in w r = Some InputRow \<and> ti_dst r = t) rows))"

definition output_rows :: "view \<Rightarrow> tie list \<Rightarrow> uuid \<Rightarrow> uuid \<Rightarrow> tie list" where
  "output_rows w rows t x = filter (\<lambda>r. row_kind_in w r = Some OutputRow \<and> ti_src r = t \<and> ti_dst r = x) rows"

definition outputs_of :: "view \<Rightarrow> tie list \<Rightarrow> uuid \<Rightarrow> uuid list" where
  "outputs_of w rows t = dedup (map ti_dst (filter (\<lambda>r. row_kind_in w r = Some OutputRow \<and> ti_src r = t) rows))"

definition paid_rows :: "view \<Rightarrow> tie list \<Rightarrow> tie list" where
  "paid_rows w rows = filter (\<lambda>r. row_kind_in w r = Some PaidRow) rows"

section \<open>Sizes\<close>

definition size_of :: "view \<Rightarrow> uuid \<Rightarrow> int \<times> int \<times> string" where
  "size_of w v =
     (let t = type_at (vw_nodes w) v; visible = int (length (members_of w (vw_sizing w) v))
      in if t = Some ''TRANSACTION'' then
           (let n = int (length (inputs_of w (vw_sizing w) v)) + int (length (outputs_of w (vw_sizing w) v)) in (n, n, ''case_graph''))
         else if t \<in> Some ` set forum_venues then
           (case Option.bind (node_at (vw_nodes w) v) recorded_members of
              Some recorded \<Rightarrow> if visible < recorded then (recorded, visible, ''recorded'') else (visible, visible, ''case_graph'')
            | None \<Rightarrow> (visible, visible, ''case_graph''))
         else (visible, visible, ''case_graph''))"

definition is_venue :: "view \<Rightarrow> uuid \<Rightarrow> bool" where
  "is_venue w v \<longleftrightarrow> type_at (vw_nodes w) v \<in> Some ` set (venue_types (om_families (vw_params w)))"

definition venues_of :: "view \<Rightarrow> uuid list" where
  "venues_of w = sort (remdups (filter (is_venue w) (map nd_id (vw_nodes w))))"

definition is_oversized :: "view \<Rightarrow> uuid \<Rightarrow> bool" where
  "is_oversized w v \<longleftrightarrow> is_venue w v \<and> om_max_venue (vw_params w) < fst (size_of w v)"

definition co_venues :: "view \<Rightarrow> uuid list" where
  "co_venues w = filter (\<lambda>v. \<not> is_oversized w v \<and> type_at (vw_nodes w) v \<in> Some ` (set forum_venues \<union> {''WALLET''})) (venues_of w)"

definition transactions_of :: "view \<Rightarrow> uuid list" where
  "transactions_of w = filter (\<lambda>v. \<not> is_oversized w v \<and> type_at (vw_nodes w) v = Some ''TRANSACTION'') (venues_of w)"

definition controllers :: "view \<Rightarrow> uuid \<Rightarrow> uuid list" where
  "controllers w x = members_of w (vw_drawing w) x"

definition controller_count :: "view \<Rightarrow> uuid \<Rightarrow> nat" where
  "controller_count w x = length (members_of w (vw_sizing w) x)"

definition is_wallet :: "view \<Rightarrow> uuid \<Rightarrow> bool" where
  "is_wallet w x \<longleftrightarrow> type_at (vw_nodes w) x = Some ''WALLET''"

section \<open>What is bounded before anything is built\<close>

definition end_width :: "view \<Rightarrow> uuid \<Rightarrow> nat" where
  "end_width w x = (if is_wallet w x then if is_oversized w x then 0 else length (controllers w x) else 1)"

definition sized_inputs :: "view \<Rightarrow> uuid \<Rightarrow> uuid list" where
  "sized_inputs w t = filter (\<lambda>x. \<not> is_oversized w x) (inputs_of w (vw_drawing w) t)"

definition sized_outputs :: "view \<Rightarrow> uuid \<Rightarrow> uuid list" where
  "sized_outputs w t = filter (\<lambda>x. \<not> is_oversized w x) (outputs_of w (vw_drawing w) t)"

definition derived_bound :: "view \<Rightarrow> nat" where
  "derived_bound w =
     sum_list (map (\<lambda>v. let k = length (members_of w (vw_drawing w) v) in k * (k - 1) div 2) (co_venues w)) +
     sum_list (map (\<lambda>t. sum_list (map (\<lambda>x. length (controllers w x)) (sized_inputs w t)) *
                        sum_list (map (\<lambda>x. length (controllers w x)) (sized_outputs w t))) (transactions_of w)) +
     sum_list (map (\<lambda>r. end_width w (ti_src r) * end_width w (ti_dst r)) (paid_rows w (vw_drawing w)))"

definition span_of :: "view \<Rightarrow> uuid \<Rightarrow> uuid \<Rightarrow> period list" where
  "span_of w v a = periods (map interval_of (member_rows w (vw_drawing w) v a))"

definition best_of :: "view \<Rightarrow> uuid \<Rightarrow> uuid \<Rightarrow> tie" where
  "best_of w v a = best_row (member_rows w (vw_drawing w) v a)"

definition in_span :: "view \<Rightarrow> uuid \<Rightarrow> uuid \<Rightarrow> period list" where
  "in_span w t x = periods (map interval_of (input_rows w (vw_drawing w) t x))"

definition out_span :: "view \<Rightarrow> uuid \<Rightarrow> uuid \<Rightarrow> period list" where
  "out_span w t x = periods (map interval_of (output_rows w (vw_drawing w) t x))"

definition behind_of :: "view \<Rightarrow> uuid \<Rightarrow> nat" where
  "behind_of w v = sum_list (map (\<lambda>a. length (span_of w v a)) (members_of w (vw_drawing w) v))"

text \<open>One end of a payment: how many stand for it, their periods, and whether it is a wallet; nothing for one skipped.\<close>

definition end_steps :: "view \<Rightarrow> uuid \<Rightarrow> (nat \<times> nat \<times> bool) option" where
  "end_steps w x =
     (if \<not> is_wallet w x then Some (1, 0, False)
      else if is_oversized w x \<or> controllers w x = [] then None
      else Some (length (controllers w x), behind_of w x, True))"

definition paid_steps :: "view \<Rightarrow> tie \<Rightarrow> nat" where
  "paid_steps w r =
     (case (end_steps w (ti_src r), end_steps w (ti_dst r)) of
        (Some (n_a, s_a, wallet_a), Some (n_b, s_b, wallet_b)) \<Rightarrow>
          (if wallet_a then n_a + s_a else 0) + (if wallet_b then n_a * n_b + s_a * n_b + n_a * s_b else 0)
      | _ \<Rightarrow> 0)"

definition period_steps :: "view \<Rightarrow> nat" where
  "period_steps w =
     sum_list (map (\<lambda>v. let k = length (members_of w (vw_drawing w) v) in if 2 \<le> k then (k - 1) * behind_of w v else 0) (co_venues w)) +
     sum_list (map (\<lambda>t. flow_steps
         (map (\<lambda>x. (length (in_span w t x), length (controllers w x), behind_of w x)) (filter (\<lambda>x. controllers w x \<noteq> []) (sized_inputs w t)))
         (map (\<lambda>x. (length (out_span w t x), length (controllers w x), behind_of w x)) (filter (\<lambda>x. controllers w x \<noteq> []) (sized_outputs w t))))
       (transactions_of w)) +
     sum_list (map (paid_steps w) (paid_rows w (vw_drawing w)))"

section \<open>Identity clusters of a view\<close>

record clusters =
  cl_strong :: parents
  cl_anyone :: parents

definition link_pairs :: "node list \<Rightarrow> tie list \<Rightarrow> (uuid \<times> uuid) list" where
  "link_pairs ns rows = map (\<lambda>r. (ti_src r, ti_dst r)) (gathered ns rows)"

definition suppresses :: "tie \<Rightarrow> bool" where
  "suppresses r \<longleftrightarrow> ti_review r \<in> Some ` suppressing_review"

definition clusters_of :: "node list \<Rightarrow> tie list \<Rightarrow> clusters option" where
  "clusters_of ns links =
     (case (unite_all (link_pairs ns (filter suppresses links)) no_parents, unite_all (link_pairs ns links) no_parents) of
        (Some p, Some q) \<Rightarrow> Some \<lparr>cl_strong = p, cl_anyone = q\<rparr>
      | _ \<Rightarrow> None)"

definition asks :: "parents \<Rightarrow> uuid \<Rightarrow> uuid \<Rightarrow> bool" where
  "asks p a b = (case same a b p of None \<Rightarrow> False | Some (answer, _) \<Rightarrow> answer)"

section \<open>Derived ties\<close>

datatype derived_key = PairKey string uuid uuid uuid | TransactionKey uuid uuid uuid | PaymentKey uuid uuid uuid

record derived =
  dv_family :: string
  dv_src :: uuid
  dv_dst :: uuid
  dv_directed :: bool
  dv_weight :: rat
  dv_rows :: "tie list"
  dv_spans :: "period list"
  dv_venues :: "uuid set"

record tally =
  tl_same_identity :: nat
  tl_identity_disputed :: nat
  tl_not_contemporaneous :: nat
  tl_below_min_shared :: nat
  tl_legs_not_contemporaneous :: nat
  tl_unattributed :: nat
  tl_partly_unattributed :: nat
  tl_self_transfers :: nat
  tl_already_paid :: nat
  tl_through_oversized :: nat
  tl_paid_unattributed :: nat

definition no_tally :: tally where
  "no_tally = \<lparr>tl_same_identity = 0, tl_identity_disputed = 0, tl_not_contemporaneous = 0, tl_below_min_shared = 0,
     tl_legs_not_contemporaneous = 0, tl_unattributed = 0, tl_partly_unattributed = 0, tl_self_transfers = 0,
     tl_already_paid = 0, tl_through_oversized = 0, tl_paid_unattributed = 0\<rparr>"

type_synonym canvas = "tally \<times> (derived_key \<times> derived) list"

text \<open>\<open>for i, a in enumerate(actors): for b in actors[i + 1:]\<close>.\<close>

fun all_pairs :: "'a list \<Rightarrow> ('a \<times> 'a) list" where
  "all_pairs [] = []"
| "all_pairs (a # xs) = map (Pair a) xs @ all_pairs xs"

definition newman :: "view \<Rightarrow> bool" where
  "newman w \<longleftrightarrow> om_weighting (vw_params w) = weight_newman"

definition pair_family :: "view \<Rightarrow> uuid \<Rightarrow> string" where
  "pair_family w v = (if type_at (vw_nodes w) v \<in> Some ` set forum_venues then ''forum'' else ''wallet_control'')"

definition draw_pair :: "view \<Rightarrow> clusters \<Rightarrow> uuid \<Rightarrow> uuid \<times> uuid \<Rightarrow> canvas \<Rightarrow> canvas" where
  "draw_pair w cl v = (\<lambda>(a, b) (ta, d).
     if asks (cl_strong cl) a b then (ta\<lparr>tl_same_identity := tl_same_identity ta + 1\<rparr>, d)
     else (case last_overlap (span_of w v a) (span_of w v b) of
             None \<Rightarrow> (ta\<lparr>tl_not_contemporaneous := tl_not_contemporaneous ta + 1\<rparr>, d)
           | Some met \<Rightarrow>
             (if asks (cl_anyone cl) a b then ta\<lparr>tl_identity_disputed := tl_identity_disputed ta + 1\<rparr> else ta,
              dict_set (PairKey (pair_family w v) v a b)
                \<lparr>dv_family = pair_family w v, dv_src = a, dv_dst = b, dv_directed = False,
                 dv_weight = (if newman w then 1 / of_int (fst (size_of w v) - 1) else 1),
                 dv_rows = [best_of w v a, best_of w v b], dv_spans = [met], dv_venues = {v}\<rparr> d)))"

definition draw_venue :: "view \<Rightarrow> clusters \<Rightarrow> uuid \<Rightarrow> canvas \<Rightarrow> canvas" where
  "draw_venue w cl v = fold (draw_pair w cl v) (all_pairs (sort (members_of w (vw_drawing w) v)))"

text \<open>The pairs tied so far, and the venues each is tied through.\<close>

definition pair_of :: "derived_key \<Rightarrow> (string \<times> uuid \<times> uuid) option" where
  "pair_of k = (case k of PairKey f v a b \<Rightarrow> Some (f, a, b) | _ \<Rightarrow> None)"

definition too_few :: "view \<Rightarrow> (derived_key \<times> derived) list \<Rightarrow> string \<times> uuid \<times> uuid \<Rightarrow> bool" where
  "too_few w d pr \<longleftrightarrow> int (length (filter (\<lambda>(k, _). pair_of k = Some pr) d)) < om_min_shared (vw_params w)"

definition prune :: "view \<Rightarrow> canvas \<Rightarrow> canvas" where
  "prune w = (\<lambda>(ta, d).
     (ta\<lparr>tl_below_min_shared := tl_below_min_shared ta +
           length (filter (too_few w d) (dedup (List.map_filter (\<lambda>(k, _). pair_of k) d)))\<rparr>,
      filter (\<lambda>(k, _). case pair_of k of None \<Rightarrow> True | Some pr \<Rightarrow> \<not> too_few w d pr) d))"

definition add_flow ::
    "view \<Rightarrow> derived_key \<Rightarrow> uuid \<Rightarrow> uuid \<Rightarrow> rat \<Rightarrow> tie list \<Rightarrow> period \<Rightarrow> uuid set \<Rightarrow> (derived_key \<times> derived) list \<Rightarrow> (derived_key \<times> derived) list" where
  "add_flow w key a b weight rows met vs d =
     (let x = (case map_of d key of
                 Some x \<Rightarrow> x
               | None \<Rightarrow> \<lparr>dv_family = ''wallet_flow'', dv_src = a, dv_dst = b, dv_directed = True, dv_weight = 0, dv_rows = [],
                   dv_spans = [], dv_venues = {}\<rparr>)
      in dict_set key (x\<lparr>dv_weight := (if newman w then dv_weight x + weight else 1), dv_rows := dv_rows x @ rows,
           dv_spans := dv_spans x @ [met], dv_venues := dv_venues x \<union> vs\<rparr>) d)"

definition already_paid :: "tie list \<Rightarrow> uuid \<Rightarrow> uuid \<Rightarrow> bool" where
  "already_paid ties a b \<longleftrightarrow>
     list_ex (\<lambda>e. ti_type e = ''PAID'' \<and> (ti_src e = a \<and> ti_dst e = b \<or> ti_src e = b \<and> ti_dst e = a)) ties"

text \<open>One payer to one payee: \<open>so_far\<close> is where everything but the payee's control overlaps.\<close>

definition flow_pair ::
    "view \<Rightarrow> clusters \<Rightarrow> tie list \<Rightarrow> uuid \<Rightarrow> uuid \<Rightarrow> period list \<Rightarrow> period list option \<Rightarrow> tie list \<Rightarrow> derived_key \<Rightarrow> rat \<Rightarrow> uuid set \<Rightarrow>
      canvas \<Rightarrow> canvas" where
  "flow_pair w cl ties a b so_far payee rows key weight vs = (\<lambda>(ta, d).
     if a = b \<or> asks (cl_strong cl) a b then (ta\<lparr>tl_self_transfers := tl_self_transfers ta + 1\<rparr>, d)
     else (case (case payee of None \<Rightarrow> if so_far = [] then None else Some (last so_far) | Some ps \<Rightarrow> last_overlap so_far ps) of
             None \<Rightarrow> (ta\<lparr>tl_legs_not_contemporaneous := tl_legs_not_contemporaneous ta + 1\<rparr>, d)
           | Some met \<Rightarrow>
             if already_paid ties a b then (ta\<lparr>tl_already_paid := tl_already_paid ta + 1\<rparr>, d)
             else (if asks (cl_anyone cl) a b then ta\<lparr>tl_identity_disputed := tl_identity_disputed ta + 1\<rparr> else ta,
                   add_flow w key a b weight rows met vs d)))"

definition draw_leg :: "view \<Rightarrow> clusters \<Rightarrow> tie list \<Rightarrow> uuid \<Rightarrow> uuid \<times> uuid \<Rightarrow> canvas \<Rightarrow> canvas" where
  "draw_leg w cl ties t = (\<lambda>(wi, wo).
     let denom = max 1 (length (inputs_of w (vw_sizing w) t) * length (outputs_of w (vw_sizing w) t));
         weight = 1 / of_nat (denom * max 1 (controller_count w wi) * max 1 (controller_count w wo));
         legs = overlap (in_span w t wi) (out_span w t wo)
     in fold (\<lambda>a. let so_far = overlap legs (span_of w wi a)
               in fold (\<lambda>b. flow_pair w cl ties a b so_far (Some (span_of w wo b))
                    [best_of w wi a, best_row (input_rows w (vw_drawing w) t wi), best_row (output_rows w (vw_drawing w) t wo), best_of w wo b]
                    (TransactionKey t a b) weight {t, wi, wo})
                  (sort (controllers w wo)))
          (sort (controllers w wi)))"

definition count_transaction :: "view \<Rightarrow> uuid \<Rightarrow> tally \<Rightarrow> tally" where
  "count_transaction w t ta =
     (let ins = inputs_of w (vw_drawing w) t; outs = outputs_of w (vw_drawing w) t;
          i_ok = length (sized_inputs w t); o_ok = length (sized_outputs w t);
          i_over = length ins - i_ok; o_over = length outs - o_ok;
          attributed = length (filter (\<lambda>x. controllers w x \<noteq> []) (sized_inputs w t)) *
            length (filter (\<lambda>x. controllers w x \<noteq> []) (sized_outputs w t));
          ta = ta\<lparr>tl_through_oversized := tl_through_oversized ta + (i_over * length outs + i_ok * o_over)\<rparr>
      in if i_ok * o_ok \<noteq> 0 \<and> attributed = 0 then ta\<lparr>tl_unattributed := tl_unattributed ta + 1\<rparr>
         else if attributed < i_ok * o_ok then ta\<lparr>tl_partly_unattributed := tl_partly_unattributed ta + 1\<rparr>
         else ta)"

definition draw_transaction :: "view \<Rightarrow> clusters \<Rightarrow> tie list \<Rightarrow> uuid \<Rightarrow> canvas \<Rightarrow> canvas" where
  "draw_transaction w cl ties t = (\<lambda>(ta, d).
     fold (draw_leg w cl ties t)
       (List.product (sort (filter (\<lambda>x. controllers w x \<noteq> []) (sized_inputs w t))) (sort (filter (\<lambda>x. controllers w x \<noteq> []) (sized_outputs w t))))
       (count_transaction w t ta, d))"

text \<open>A wallet end stands for its controllers, each with periods and strongest row; an entity end is itself.\<close>

definition side_of :: "view \<Rightarrow> uuid \<Rightarrow> (uuid \<times> (period list \<times> tie) option) list \<times> nat" where
  "side_of w x =
     (if is_wallet w x then (map (\<lambda>a. (a, Some (span_of w x a, best_of w x a))) (sort (controllers w x)), max 1 (controller_count w x))
      else ([(x, None)], 1))"

definition pay_sides :: "view \<Rightarrow> clusters \<Rightarrow> tie list \<Rightarrow> tie \<Rightarrow> canvas \<Rightarrow> canvas" where
  "pay_sides w cl ties r =
     (let weight = 1 / of_nat (snd (side_of w (ti_src r)) * snd (side_of w (ti_dst r))); row_span = periods [interval_of r];
          wallets = {x \<in> {ti_src r, ti_dst r}. is_wallet w x}
      in fold (\<lambda>(a, pa). let so_far = (case pa of None \<Rightarrow> row_span | Some (ps, _) \<Rightarrow> overlap row_span ps)
            in fold (\<lambda>(b, pb). flow_pair w cl ties a b so_far (map_option fst pb)
                 ((case pa of None \<Rightarrow> [] | Some (_, row) \<Rightarrow> [row]) @ [r] @ (case pb of None \<Rightarrow> [] | Some (_, row) \<Rightarrow> [row]))
                 (PaymentKey (ti_id r) a b) weight wallets)
               (fst (side_of w (ti_dst r))))
           (fst (side_of w (ti_src r))))"

definition draw_payment :: "view \<Rightarrow> clusters \<Rightarrow> tie list \<Rightarrow> tie \<Rightarrow> canvas \<Rightarrow> canvas" where
  "draw_payment w cl ties r = (\<lambda>(ta, d).
     let wallets = filter (is_wallet w) [ti_src r, ti_dst r]
     in if list_ex (is_oversized w) wallets then (ta\<lparr>tl_through_oversized := tl_through_oversized ta + 1\<rparr>, d)
        else if list_ex (\<lambda>x. controllers w x = []) wallets then (ta\<lparr>tl_paid_unattributed := tl_paid_unattributed ta + 1\<rparr>, d)
        else pay_sides w cl ties r (ta, d))"

definition draw_all :: "view \<Rightarrow> clusters \<Rightarrow> tie list \<Rightarrow> canvas" where
  "draw_all w cl ties =
     fold (draw_payment w cl ties) (paid_rows w (vw_drawing w))
       (fold (draw_transaction w cl ties) (transactions_of w)
         (prune w (fold (draw_venue w cl) (co_venues w) (no_tally, []))))"

section \<open>The answer\<close>

record drawn_edge =
  de_family :: string
  de_type :: string
  de_directed :: bool
  de_src :: uuid
  de_dst :: uuid
  de_sign :: int
  de_weight :: rat
  de_confidence :: "string option"
  de_inferred :: bool
  de_review :: "string option"
  de_evidence :: bool
  de_from :: "instant option"
  de_to :: "instant option"

definition edge_of :: "derived \<Rightarrow> drawn_edge" where
  "edge_of x =
     \<lparr>de_family = dv_family x, de_type = ''ONE_MODE:'' @ dv_family x, de_directed = dv_directed x, de_src = dv_src x,
      de_dst = dv_dst x, de_sign = 0, de_weight = dv_weight x,
      de_confidence = first_min confidence_rank (map ti_confidence (dv_rows x)), de_inferred = True,
      de_review = first_max review_weakness (map ti_review (dv_rows x)),
      de_evidence = list_all ti_evidence (dv_rows x),
      de_from = (if list_ex (\<lambda>s. fst s = None) (dv_spans x) then None else Some (Min (set (map (\<lambda>s. the (fst s)) (dv_spans x))))),
      de_to = (if list_ex (\<lambda>s. snd s = None) (dv_spans x) then None else Some (Max (set (map (\<lambda>s. the (snd s)) (dv_spans x)))))\<rparr>"

datatype out_edge = Kept tie | Drawn drawn_edge

definition count_by :: "('a \<Rightarrow> string) \<Rightarrow> 'a list \<Rightarrow> (string \<times> nat) list" where
  "count_by f xs = map (\<lambda>t. (t, length (filter (\<lambda>x. f x = t) xs))) (sort (remdups (map f xs)))"

record oversized_entry =
  oe_node :: uuid
  oe_label :: string
  oe_type :: string
  oe_size :: int
  oe_visible :: int
  oe_basis :: string

record coverage =
  cv_families :: "string list"
  cv_weighting :: string
  cv_max_venue :: int
  cv_min_shared :: int
  cv_bound :: nat
  cv_tally :: tally
  cv_not_drawing :: "nat \<times> nat"
  cv_removed :: "(string \<times> nat) list"
  cv_projected :: "(string \<times> nat) list"
  cv_without_ties :: "(string \<times> nat) list"
  cv_oversized_by_type :: "(string \<times> nat) list"
  cv_oversized_total :: nat
  cv_oversized :: "oversized_entry list"
  cv_derived :: "(string \<times> nat) list"
  cv_dropped :: "(string \<times> nat) list"

definition label_of :: "view \<Rightarrow> uuid \<Rightarrow> string" where
  "label_of w v = (case Option.bind (node_at (vw_nodes w) v) nd_label of None \<Rightarrow> [] | Some l \<Rightarrow> l)"

definition type_name_of :: "view \<Rightarrow> uuid \<Rightarrow> string" where
  "type_name_of w v = (case type_at (vw_nodes w) v of None \<Rightarrow> [] | Some t \<Rightarrow> t)"

definition oversized_of :: "view \<Rightarrow> uuid list" where
  "oversized_of w = filter (is_oversized w) (venues_of w)"

definition oversized_entry_of :: "view \<Rightarrow> uuid \<Rightarrow> oversized_entry" where
  "oversized_entry_of w v =
     (case size_of w v of (n, visible, basis) \<Rightarrow>
        \<lparr>oe_node = v, oe_label = label_of w v, oe_type = type_name_of w v, oe_size = n, oe_visible = visible, oe_basis = basis\<rparr>)"

definition in_order :: "derived list \<Rightarrow> derived list" where
  "in_order ds = sort_key (\<lambda>x. (dv_family x, dv_src x, dv_dst x, sorted_list_of_set (dv_venues x))) ds"

definition coverage_of :: "view \<Rightarrow> nat \<times> nat \<Rightarrow> tie list \<Rightarrow> canvas \<Rightarrow> coverage" where
  "coverage_of w skipped ties = (\<lambda>(ta, d).
     let drew = \<Union>(dv_venues ` snd ` set d); removed = venues_of w
     in \<lparr>cv_families = om_families (vw_params w), cv_weighting = om_weighting (vw_params w), cv_max_venue = om_max_venue (vw_params w),
         cv_min_shared = om_min_shared (vw_params w), cv_bound = derived_bound w, cv_tally = ta, cv_not_drawing = skipped,
         cv_removed = count_by (type_name_of w) removed,
         cv_projected = count_by (type_name_of w) (filter (\<lambda>v. v \<in> drew \<and> \<not> is_oversized w v) removed),
         cv_without_ties = count_by (type_name_of w) (filter (\<lambda>v. v \<notin> drew \<and> \<not> is_oversized w v) removed),
         cv_oversized_by_type = count_by (type_name_of w) (oversized_of w),
         cv_oversized_total = length (oversized_of w),
         cv_oversized = map (oversized_entry_of w)
           (take oversized_listed (sort_key (\<lambda>v. (- fst (size_of w v), label_of w v, v)) (oversized_of w))),
         cv_derived = map (\<lambda>f. (f, length (filter (\<lambda>(_, x). dv_family x = f) d))) derived_families,
         cv_dropped = count_by ti_type (filter (\<lambda>e. is_venue w (ti_src e) \<or> is_venue w (ti_dst e)) ties)\<rparr>)"

definition view_of :: "node list \<Rightarrow> tie list \<Rightarrow> tie list \<Rightarrow> one_mode_params \<Rightarrow> view" where
  "view_of ns consumable drawing p =
     \<lparr>vw_nodes = ns, vw_params = p, vw_sizing = gathered ns consumable, vw_drawing = gathered ns drawing\<rparr>"

text \<open>The clusters always form (\<open>clusters_of_ok\<close>), so the last branch of the case is never met.\<close>

definition to_one_mode ::
    "node list \<Rightarrow> tie list \<Rightarrow> tie list \<Rightarrow> tie list \<Rightarrow> one_mode_params \<Rightarrow> tie list \<Rightarrow> nat \<times> nat \<Rightarrow>
      (one_mode_error + node list \<times> out_edge list \<times> coverage) option" where
  "to_one_mode ns ties consumable links p drawing skipped =
     (let w = view_of ns consumable drawing p
      in case clusters_of ns links of
           None \<Rightarrow> None
         | Some cl \<Rightarrow>
           if max_derived_ties < derived_bound w then Some (Inl (TooManyTies (derived_bound w)))
           else if max_period_steps < period_steps w then Some (Inl (TooManyPeriods (period_steps w)))
           else (let canvas = draw_all w cl ties
                 in Some (Inr (filter (\<lambda>n. \<not> is_venue w (nd_id n)) ns,
                      map Kept (filter (\<lambda>e. \<not> (is_venue w (ti_src e) \<or> is_venue w (ti_dst e))) ties) @
                        map (Drawn \<circ> edge_of) (in_order (map snd (snd canvas))),
                      coverage_of w skipped ties canvas))))"

section \<open>The projection's path through it\<close>

definition kept_confidences :: "string \<Rightarrow> string set" where
  "kept_confidences least = {c \<in> {''LOW'', ''MODERATE'', ''HIGH''}. confidence_rank (Some least) \<le> confidence_rank (Some c)}"

definition review_buckets :: "string list" where
  "review_buckets = [''proposed'', ''disputed'', ''rejected'', ''superseded'', ''other'']"

definition review_bucket :: "string option \<Rightarrow> string" where
  "review_bucket state =
     (case state of None \<Rightarrow> ''other'' | Some s \<Rightarrow> if lower s \<in> set review_buckets then lower s else ''other'')"

definition review_split :: "tie list \<Rightarrow> tie list \<times> (string \<times> nat) list" where
  "review_split rows =
     (let left_out = filter (\<lambda>r. ti_review r \<noteq> Some ''ACCEPTED'') rows
      in (filter (\<lambda>r. ti_review r = Some ''ACCEPTED'') rows,
          map (\<lambda>b. (b, length (filter (\<lambda>r. review_bucket (ti_review r) = b) left_out))) review_buckets))"

text \<open>With the counts of what the accepted scope left out: of the ties, and of the memberships that would have drawn.\<close>

definition one_mode_subgraph ::
    "string \<Rightarrow> bool \<Rightarrow> one_mode_params \<Rightarrow> node list \<Rightarrow> (tie \<times> bool) list \<Rightarrow>
      (one_mode_error + node list \<times> out_edge list \<times> coverage) option \<times> ((string \<times> nat) list \<times> (string \<times> nat) list) option" where
  "one_mode_subgraph least accepted_only p ns rows =
     (let (consumable, ties, links) = classify_rows ns (map fst (filter snd rows)) (map fst (filter (\<lambda>r. \<not> snd r) rows)) p;
          confident = (\<lambda>r. ti_confidence r \<in> Some ` kept_confidences least);
          ties = filter confident ties; drawing = filter confident consumable; links = filter confident links;
          unsure = length consumable - length drawing
      in if accepted_only
         then (let (ties, left_ties) = review_split ties; (drawing, left_memberships) = review_split drawing
               in (to_one_mode ns ties consumable links p drawing (unsure, sum_list (map snd left_memberships)), Some (left_ties, left_memberships)))
         else (to_one_mode ns ties consumable links p drawing (unsure, 0), None))"

section \<open>Folds over a canvas\<close>

lemma fold_length:
  assumes "\<And>x s. x \<in> set xs \<Longrightarrow> length (snd (f x s)) \<le> length (snd s) + g x"
  shows "length (snd (fold f xs s)) \<le> length (snd s) + sum_list (map g xs)"
  using assms
proof (induction xs arbitrary: s)
  case (Cons x xs)
  have "length (snd (fold f xs (f x s))) \<le> length (snd (f x s)) + sum_list (map g xs)" by (rule Cons.IH) (use Cons.prems in simp)
  moreover have "length (snd (f x s)) \<le> length (snd s) + g x" by (rule Cons.prems) simp
  ultimately show ?case by simp
qed simp

lemma dict_set_grows: "length (dict_set k v d) \<le> Suc (length d)"
  by (simp add: dict_set_length)

lemma length_all_pairs: "length (all_pairs xs) = length xs * (length xs - 1) div 2"
proof (induction xs)
  case (Cons a xs)
  show ?case
  proof (cases xs)
    case (Cons b ys)
    then have "length xs * (length xs - 1) div 2 + length xs = (length xs + 1) * length xs div 2" by simp
    then show ?thesis using Cons.IH by simp
  qed simp
qed simp

lemma set_all_pairs: "(a, b) \<in> set (all_pairs xs) \<Longrightarrow> a \<in> set xs \<and> b \<in> set xs"
  by (induction xs) auto

lemma set_all_pairs_sorted:
  "sorted xs \<Longrightarrow> distinct xs \<Longrightarrow> (a, b) \<in> set (all_pairs xs) \<longleftrightarrow> a \<in> set xs \<and> b \<in> set xs \<and> (a::'a::linorder) < b"
  by (induction xs) (auto simp: less_le)

lemma sum_product: "sum_list (map (\<lambda>(x, y). f x * g y) (List.product xs ys)) = sum_list (map f xs) * (sum_list (map g ys) :: nat)"
proof (induction xs)
  case (Cons x xs)
  have "sum_list (map (\<lambda>(x, y). f x * g y) (map (Pair x) ys)) = f x * sum_list (map g ys)"
    by (induction ys) (simp_all add: algebra_simps)
  then show ?case using Cons.IH by (simp add: algebra_simps)
qed simp

lemma sum_const: "sum_list (map (\<lambda>x. c) xs) = length xs * (c::nat)"
  by (induction xs) simp_all

lemma sum_sorted: "sum_list (map f (sort_key h xs)) = (sum_list (map f xs) :: nat)"
proof -
  have insort: "sum_list (map f (insort_key h x ys)) = f x + sum_list (map f ys)" for x ys
    by (induction ys) auto
  show ?thesis by (induction xs) (simp_all add: insort)
qed

lemma sum_filter_zero: "(\<And>x. x \<in> set xs \<Longrightarrow> \<not> P x \<Longrightarrow> f x = (0::nat)) \<Longrightarrow> sum_list (map f (filter P xs)) = sum_list (map f xs)"
  by (induction xs) auto

section \<open>The bound on the derived ties\<close>

lemma draw_pair_length: "length (snd (draw_pair w cl v pr st)) \<le> length (snd st) + 1"
  by (cases pr; cases st) (simp add: draw_pair_def dict_set_grows split: option.split)

lemma draw_venue_length:
  "length (snd (draw_venue w cl v st)) \<le> length (snd st) + (let k = length (members_of w (vw_drawing w) v) in k * (k - 1) div 2)"
proof -
  let ?ps = "all_pairs (sort (members_of w (vw_drawing w) v))"
  have "length (snd (fold (draw_pair w cl v) ?ps st)) \<le> length (snd st) + sum_list (map (\<lambda>_. 1) ?ps)"
    by (rule fold_length) (rule draw_pair_length)
  then show ?thesis by (simp add: draw_venue_def sum_const length_all_pairs Let_def)
qed

lemma prune_length: "length (snd (prune w st)) \<le> length (snd st)"
  by (cases st) (simp add: prune_def)

lemma flow_pair_length: "length (snd (flow_pair w cl ties a b so_far payee rows key weight vs st)) \<le> length (snd st) + 1"
proof -
  have "length (add_flow w key a b weight rows met vs d) \<le> Suc (length d)" for met d
    unfolding add_flow_def Let_def by (rule dict_set_grows)
  then show ?thesis by (cases st) (simp add: flow_pair_def split: option.split)
qed

lemma draw_leg_length:
  "length (snd (draw_leg w cl ties t (wi, wo) st)) \<le> length (snd st) + length (controllers w wi) * length (controllers w wo)"
proof -
  have "length (snd (draw_leg w cl ties t (wi, wo) st)) \<le>
      length (snd st) + sum_list (map (\<lambda>_. sum_list (map (\<lambda>_. 1) (sort (controllers w wo)))) (sort (controllers w wi)))"
    unfolding draw_leg_def Let_def prod.case by (intro fold_length flow_pair_length)
  then show ?thesis by (simp add: sum_const)
qed

lemma draw_transaction_length:
  "length (snd (draw_transaction w cl ties t st)) \<le> length (snd st) +
     sum_list (map (\<lambda>x. length (controllers w x)) (sized_inputs w t)) * sum_list (map (\<lambda>x. length (controllers w x)) (sized_outputs w t))"
proof -
  let ?n = "\<lambda>x. length (controllers w x)" and ?some = "\<lambda>xs. sort (filter (\<lambda>x. controllers w x \<noteq> []) xs)"
  let ?legs = "List.product (?some (sized_inputs w t)) (?some (sized_outputs w t))"
  obtain ta d where st: "st = (ta, d)" by (cases st)
  have "length (snd (fold (draw_leg w cl ties t) ?legs (count_transaction w t ta, d))) \<le>
      length (snd (count_transaction w t ta, d)) + sum_list (map (\<lambda>(x, y). ?n x * ?n y) ?legs)"
    by (rule fold_length) (auto intro: draw_leg_length)
  moreover have "sum_list (map ?n (?some xs)) = sum_list (map ?n xs)" for xs
    unfolding sum_sorted by (rule sum_filter_zero) simp
  ultimately show ?thesis by (simp add: st draw_transaction_def sum_product)
qed

lemma pay_sides_length:
  "length (snd (pay_sides w cl ties r st)) \<le> length (snd st) + length (fst (side_of w (ti_src r))) * length (fst (side_of w (ti_dst r)))"
proof -
  let ?payers = "fst (side_of w (ti_src r))" and ?payees = "fst (side_of w (ti_dst r))"
  have "length (snd (pay_sides w cl ties r st)) \<le> length (snd st) + sum_list (map (\<lambda>_. sum_list (map (\<lambda>_. 1) ?payees)) ?payers)"
    unfolding pay_sides_def Let_def case_prod_unfold by (intro fold_length flow_pair_length)
  then show ?thesis by (simp add: sum_const)
qed

lemma draw_payment_length:
  "length (snd (draw_payment w cl ties r st)) \<le> length (snd st) + end_width w (ti_src r) * end_width w (ti_dst r)"
proof -
  let ?wallets = "filter (is_wallet w) [ti_src r, ti_dst r]"
  obtain ta d where st: "st = (ta, d)" by (cases st)
  show ?thesis
  proof (cases "list_ex (is_oversized w) ?wallets \<or> list_ex (\<lambda>x. controllers w x = []) ?wallets")
    case True
    then have "length (snd (draw_payment w cl ties r st)) = length d" unfolding st draw_payment_def Let_def prod.case by (elim disjE) simp_all
    then show ?thesis by (simp add: st)
  next
    case False
    then have "length (fst (side_of w x)) = end_width w x" if "x \<in> {ti_src r, ti_dst r}" for x
      using that by (auto simp: side_of_def end_width_def list_ex_iff)
    moreover have "draw_payment w cl ties r st = pay_sides w cl ties r st"
      using False unfolding st draw_payment_def Let_def prod.case by simp
    ultimately show ?thesis using pay_sides_length [of w cl ties r st] by simp
  qed
qed

lemma draw_all_length: "length (snd (draw_all w cl ties)) \<le> derived_bound w"
proof -
  let ?s1 = "fold (draw_venue w cl) (co_venues w) (no_tally, [])"
  let ?s2 = "fold (draw_transaction w cl ties) (transactions_of w) (prune w ?s1)"
  let ?v = "\<lambda>v. let k = length (members_of w (vw_drawing w) v) in k * (k - 1) div 2"
  let ?t = "\<lambda>t. sum_list (map (\<lambda>x. length (controllers w x)) (sized_inputs w t)) * sum_list (map (\<lambda>x. length (controllers w x)) (sized_outputs w t))"
  have "length (snd ?s1) \<le> length (snd (no_tally, [] :: (derived_key \<times> derived) list)) + sum_list (map ?v (co_venues w))"
    by (rule fold_length) (rule draw_venue_length)
  moreover have "length (snd ?s2) \<le> length (snd (prune w ?s1)) + sum_list (map ?t (transactions_of w))"
    by (rule fold_length) (rule draw_transaction_length)
  moreover have "length (snd (draw_all w cl ties)) \<le> length (snd ?s2) +
      sum_list (map (\<lambda>r. end_width w (ti_src r) * end_width w (ti_dst r)) (paid_rows w (vw_drawing w)))"
    unfolding draw_all_def by (rule fold_length) (rule draw_payment_length)
  ultimately show ?thesis using prune_length [of w ?s1] by (simp add: derived_bound_def)
qed

section \<open>Which pairs are tied\<close>

text \<open>
  The specification of a tie through a shared venue: the venue is within the limit, both are members in the drawing,
  at a common instant, and no chain of undoubted identity links makes them one. \<open>links\<close> are those links.
\<close>

definition shares_venue :: "view \<Rightarrow> (uuid \<times> uuid) list \<Rightarrow> uuid \<Rightarrow> uuid \<Rightarrow> uuid \<Rightarrow> bool" where
  "shares_venue w links v a b \<longleftrightarrow>
     v \<in> set (co_venues w) \<and> a \<noteq> b \<and> a \<in> set (members_of w (vw_drawing w) v) \<and> b \<in> set (members_of w (vw_drawing w) v) \<and>
     (a, b) \<notin> linked links \<and>
     (\<exists>t. covers (map interval_of (member_rows w (vw_drawing w) v a)) t \<and> covers (map interval_of (member_rows w (vw_drawing w) v b)) t)"

lemma span_overlap:
  "last_overlap (span_of w v a) (span_of w v b) \<noteq> None \<longleftrightarrow>
     (\<exists>t. covers (map interval_of (member_rows w (vw_drawing w) v a)) t \<and> covers (map interval_of (member_rows w (vw_drawing w) v b)) t)"
  using last_overlap_None [of "span_of w v a" "span_of w v b"] by (simp add: span_of_def periods_ok)

text \<open>What a canvas holds: one entry per key, and what each says.\<close>

definition entry_ok :: "derived_key \<Rightarrow> derived \<Rightarrow> bool" where
  "entry_ok k x \<longleftrightarrow>
     (case k of
        PairKey f v a b \<Rightarrow> dv_family x = f \<and> dv_src x = a \<and> dv_dst x = b \<and> f \<noteq> ''wallet_flow''
      | TransactionKey t a b \<Rightarrow> dv_family x = ''wallet_flow'' \<and> dv_src x = a \<and> dv_dst x = b
      | PaymentKey i a b \<Rightarrow> dv_family x = ''wallet_flow'' \<and> dv_src x = a \<and> dv_dst x = b)"

definition drawn_ok :: "(derived_key \<times> derived) list \<Rightarrow> bool" where
  "drawn_ok d \<longleftrightarrow> distinct (map fst d) \<and> (\<forall>k x. map_of d k = Some x \<longrightarrow> entry_ok k x)"

lemma drawn_ok_set: "drawn_ok d \<Longrightarrow> entry_ok k x \<Longrightarrow> drawn_ok (dict_set k x d)"
  by (auto simp: drawn_ok_def dict_set_distinct)

lemma draw_pair_ok: "drawn_ok (snd st) \<Longrightarrow> drawn_ok (snd (draw_pair w cl v pr st))"
  by (cases pr; cases st) (auto simp: draw_pair_def entry_ok_def pair_family_def intro!: drawn_ok_set split: option.split)

definition pair_keys :: "(derived_key \<times> derived) list \<Rightarrow> derived_key set" where
  "pair_keys d = {k \<in> fst ` set d. pair_of k \<noteq> None}"

definition tied :: "view \<Rightarrow> clusters \<Rightarrow> uuid \<Rightarrow> uuid \<Rightarrow> uuid \<Rightarrow> bool" where
  "tied w cl v a b \<longleftrightarrow> \<not> asks (cl_strong cl) a b \<and> last_overlap (span_of w v a) (span_of w v b) \<noteq> None"

lemma draw_pair_keys:
  "pair_keys (snd (draw_pair w cl v (a, b) st)) =
     pair_keys (snd st) \<union> (if tied w cl v a b then {PairKey (pair_family w v) v a b} else {})"
  by (cases st) (auto simp: draw_pair_def tied_def pair_keys_def pair_of_def split: option.split)

lemma draw_pairs_keys:
  "pair_keys (snd (fold (draw_pair w cl v) prs st)) =
     pair_keys (snd st) \<union> {PairKey (pair_family w v) v a b |a b. (a, b) \<in> set prs \<and> tied w cl v a b}"
proof (induction prs arbitrary: st)
  case (Cons pr prs)
  obtain a b where pr: "pr = (a, b)" by (cases pr)
  show ?case unfolding fold_Cons o_apply Cons.IH unfolding pr draw_pair_keys by auto
qed simp

lemma draw_venues_keys:
  "pair_keys (snd (fold (draw_venue w cl) vs st)) =
     pair_keys (snd st) \<union> {PairKey (pair_family w v) v a b |v a b. v \<in> set vs \<and> a \<in> set (members_of w (vw_drawing w) v) \<and>
       b \<in> set (members_of w (vw_drawing w) v) \<and> a < b \<and> tied w cl v a b}"
proof (induction vs arbitrary: st)
  case (Cons v vs)
  have "(a, b) \<in> set (all_pairs (sort (members_of w (vw_drawing w) v))) \<longleftrightarrow>
      a \<in> set (members_of w (vw_drawing w) v) \<and> b \<in> set (members_of w (vw_drawing w) v) \<and> a < b" for a b
    by (subst set_all_pairs_sorted) (auto simp: members_of_def)
  then have "pair_keys (snd (draw_venue w cl v st)) = pair_keys (snd st) \<union>
      {PairKey (pair_family w v) v a b |a b. a \<in> set (members_of w (vw_drawing w) v) \<and> b \<in> set (members_of w (vw_drawing w) v) \<and> a < b \<and> tied w cl v a b}"
    unfolding draw_venue_def draw_pairs_keys by simp
  then show ?case unfolding fold_Cons o_apply Cons.IH by auto
qed simp

lemma fold_ok: "(\<And>x s. P s \<Longrightarrow> P (f x s)) \<Longrightarrow> P s \<Longrightarrow> P (fold f xs s)"
  by (induction xs arbitrary: s) auto

lemma draw_venues_ok: "drawn_ok (snd st) \<Longrightarrow> drawn_ok (snd (fold (draw_venue w cl) vs st))"
  by (rule fold_ok [where P = "\<lambda>s. drawn_ok (snd s)"]; (unfold draw_venue_def)?; (rule fold_ok [where P = "\<lambda>s. drawn_ok (snd s)"])?)
    (auto intro: draw_pair_ok)

section \<open>The flow leaves the pairs alone\<close>

text \<open>What a flow may do to a canvas: add and change entries of its own kind.\<close>

definition flowed :: "(derived_key \<times> derived) list \<Rightarrow> canvas \<Rightarrow> bool" where
  "flowed d st \<longleftrightarrow> drawn_ok (snd st) \<and> (\<forall>k. pair_of k \<noteq> None \<longrightarrow> map_of (snd st) k = map_of d k)"

lemma flow_pair_flowed:
  assumes "flowed d st" "pair_of key = None" "\<And>x. entry_ok key x \<longleftrightarrow> dv_family x = ''wallet_flow'' \<and> dv_src x = a \<and> dv_dst x = b"
  shows "flowed d (flow_pair w cl ties a b so_far payee rows key weight vs st)"
proof -
  have "drawn_ok (add_flow w key a b weight rows met vs d') \<and> (\<forall>k. pair_of k \<noteq> None \<longrightarrow> map_of (add_flow w key a b weight rows met vs d') k = map_of d' k)"
    if ok: "drawn_ok d'" for met d'
  proof (cases "map_of d' key")
    case None
    then have "drawn_ok (add_flow w key a b weight rows met vs d')"
      unfolding add_flow_def Let_def by (intro drawn_ok_set [OF ok]) (simp add: assms(3))
    then show ?thesis using assms(2) by (simp add: add_flow_def Let_def)
  next
    case (Some x)
    then have "entry_ok key x" using ok by (simp add: drawn_ok_def)
    then have "drawn_ok (add_flow w key a b weight rows met vs d')"
      unfolding add_flow_def Let_def by (intro drawn_ok_set [OF ok]) (simp add: assms(3) Some)
    then show ?thesis using assms(2) by (simp add: add_flow_def Let_def)
  qed
  then show ?thesis using assms(1) by (cases st) (simp add: flowed_def flow_pair_def split: option.split)
qed

lemma draw_transaction_flowed: "flowed d st \<Longrightarrow> flowed d (draw_transaction w cl ties t st)"
proof -
  assume st: "flowed d st"
  have leg: "flowed d (draw_leg w cl ties t pr s)" if "flowed d s" for pr s
    unfolding draw_leg_def Let_def case_prod_unfold
    by (intro fold_ok [where P = "flowed d"] flow_pair_flowed that) (simp_all add: pair_of_def entry_ok_def)
  obtain ta d' where "st = (ta, d')" by (cases st)
  moreover have "flowed d (count_transaction w t ta, d')" using st calculation by (simp add: flowed_def)
  ultimately show ?thesis unfolding draw_transaction_def prod.case by (simp only: prod.case) (intro fold_ok [where P = "flowed d"] leg)
qed

lemma draw_payment_flowed: "flowed d st \<Longrightarrow> flowed d (draw_payment w cl ties r st)"
proof -
  assume st: "flowed d st"
  obtain ta d' where s: "st = (ta, d')" by (cases st)
  have "flowed d (pay_sides w cl ties r st)"
    unfolding pay_sides_def Let_def case_prod_unfold
    by (intro fold_ok [where P = "flowed d"] flow_pair_flowed st) (simp_all add: pair_of_def entry_ok_def)
  moreover have "flowed d (ta', d')" for ta' using st s by (simp add: flowed_def)
  ultimately show ?thesis by (simp add: s draw_payment_def Let_def)
qed

section \<open>Counting the ties of a pair\<close>

lemma drawn_ok_entry: "drawn_ok d \<Longrightarrow> (k, x) \<in> set d \<Longrightarrow> entry_ok k x"
  by (auto simp: drawn_ok_def dest: map_of_is_SomeI)

lemma drawn_ok_filter:
  assumes "drawn_ok d"
  shows "drawn_ok (filter P d)"
proof -
  have "distinct (map fst (filter P d))" using assms by (simp add: drawn_ok_def distinct_map_filter)
  then show ?thesis using drawn_ok_entry [OF assms] by (auto simp: drawn_ok_def dest: map_of_SomeD)
qed

lemma count_entries:
  assumes "drawn_ok d" "f \<noteq> ''wallet_flow''"
  shows "length (filter (\<lambda>x. dv_family x = f \<and> dv_src x = a \<and> dv_dst x = b) (map snd d)) = length (filter (\<lambda>(k, _). pair_of k = Some (f, a, b)) d)"
proof -
  have entry: "(dv_family x = f \<and> dv_src x = a \<and> dv_dst x = b) \<longleftrightarrow> pair_of k = Some (f, a, b)" if "(k, x) \<in> set d" for k x
    using drawn_ok_entry [OF assms(1) that] assms(2) by (auto simp: entry_ok_def pair_of_def split: derived_key.splits)
  have "filter (\<lambda>y. dv_family (snd y) = f \<and> dv_src (snd y) = a \<and> dv_dst (snd y) = b) d = filter (\<lambda>(k, _). pair_of k = Some (f, a, b)) d"
  proof (intro filter_cong refl)
    fix y assume y: "y \<in> set d"
    obtain k x where kx: "y = (k, x)" by (rule prod.exhaust)
    show "(dv_family (snd y) = f \<and> dv_src (snd y) = a \<and> dv_dst (snd y) = b) = (case y of (k, _) \<Rightarrow> pair_of k = Some (f, a, b))"
      using entry [of k x] y by (simp add: kx)
  qed
  then show ?thesis by (simp add: filter_map o_def)
qed

lemma count_keys:
  assumes "drawn_ok d"
  shows "length (filter (\<lambda>(k, _). pair_of k = Some (f, a, b)) d) = card {v. PairKey f v a b \<in> fst ` set d}"
proof -
  have keys: "distinct (map fst d)" using assms by (simp add: drawn_ok_def)
  have is_pair: "pair_of k = Some (f, a, b) \<longleftrightarrow> (\<exists>v. k = PairKey f v a b)" for k by (cases k) (auto simp: pair_of_def)
  have "length (filter (\<lambda>(k, _). pair_of k = Some (f, a, b)) d) = length (filter (\<lambda>k. pair_of k = Some (f, a, b)) (map fst d))"
    by (simp add: filter_map o_def case_prod_unfold)
  also have "\<dots> = card {k \<in> fst ` set d. pair_of k = Some (f, a, b)}"
    using distinct_card [of "filter (\<lambda>k. pair_of k = Some (f, a, b)) (map fst d)"] keys by (simp add: Collect_conj_eq Int_commute)
  also have "{k \<in> fst ` set d. pair_of k = Some (f, a, b)} = (\<lambda>v. PairKey f v a b) ` {v. PairKey f v a b \<in> fst ` set d}"
    unfolding is_pair by (rule set_eqI) (simp add: image_iff, metis)
  also have "card \<dots> = card {v. PairKey f v a b \<in> fst ` set d}" by (rule card_image) (simp add: inj_on_def)
  finally show ?thesis .
qed

lemma prune_keys:
  "PairKey f v a b \<in> fst ` set (snd (prune w (ta, d))) \<longleftrightarrow> PairKey f v a b \<in> fst ` set d \<and> \<not> too_few w d (f, a, b)"
proof -
  have "(PairKey f v a b, x) \<in> set (snd (prune w (ta, d))) \<longleftrightarrow> (PairKey f v a b, x) \<in> set d \<and> \<not> too_few w d (f, a, b)" for x
    by (simp add: prune_def pair_of_def)
  then show ?thesis unfolding image_iff Bex_def by (metis prod.collapse fst_conv)
qed

lemma flowed_refl: "drawn_ok (snd st) \<Longrightarrow> flowed (snd st) st"
  by (simp add: flowed_def)

lemma draw_all_pairs_kept:
  defines "s1 \<equiv> \<lambda>w cl. fold (draw_venue w cl) (co_venues w) (no_tally, [])"
  shows "drawn_ok (snd (draw_all w cl ties))"
    "PairKey f v a b \<in> fst ` set (snd (draw_all w cl ties)) \<longleftrightarrow>
       PairKey f v a b \<in> fst ` set (snd (s1 w cl)) \<and> \<not> too_few w (snd (s1 w cl)) (f, a, b)"
proof -
  have s1: "drawn_ok (snd (s1 w cl))" unfolding s1_def by (rule draw_venues_ok) (simp add: drawn_ok_def)
  obtain ta d where s: "s1 w cl = (ta, d)" by (cases "s1 w cl")
  have pruned: "drawn_ok (snd (prune w (s1 w cl)))" using s1 by (simp add: s prune_def drawn_ok_filter)
  have stage: "fold (draw_venue w cl) (co_venues w) (no_tally, []) = s1 w cl" by (simp add: s1_def)
  have "flowed (snd (prune w (s1 w cl))) (draw_all w cl ties)"
    unfolding draw_all_def stage by (intro fold_ok [where P = "flowed (snd (prune w (s1 w cl)))"] draw_payment_flowed draw_transaction_flowed flowed_refl pruned)
  then have flow: "drawn_ok (snd (draw_all w cl ties))"
    "map_of (snd (draw_all w cl ties)) (PairKey f v a b) = map_of (snd (prune w (s1 w cl))) (PairKey f v a b)"
    by (simp_all add: flowed_def pair_of_def)
  show "drawn_ok (snd (draw_all w cl ties))" by (rule flow(1))
  have "PairKey f v a b \<in> fst ` set (snd (draw_all w cl ties)) \<longleftrightarrow> PairKey f v a b \<in> fst ` set (snd (prune w (s1 w cl)))"
    using flow(2) by (metis map_of_eq_None_iff)
  then show "PairKey f v a b \<in> fst ` set (snd (draw_all w cl ties)) \<longleftrightarrow>
       PairKey f v a b \<in> fst ` set (snd (s1 w cl)) \<and> \<not> too_few w (snd (s1 w cl)) (f, a, b)"
    using prune_keys [of f v a b w ta d] by (simp add: s)
qed

definition shared_venues :: "view \<Rightarrow> (uuid \<times> uuid) list \<Rightarrow> string \<Rightarrow> uuid \<Rightarrow> uuid \<Rightarrow> uuid set" where
  "shared_venues w links f a b = {v. shares_venue w links v a b \<and> pair_family w v = f}"

lemma draw_all_count:
  assumes strong: "\<And>x y. asks (cl_strong cl) x y \<longleftrightarrow> (x, y) \<in> linked links" and order: "a < b" and f: "f \<noteq> ''wallet_flow''"
  shows "length (filter (\<lambda>x. dv_family x = f \<and> dv_src x = a \<and> dv_dst x = b) (map snd (snd (draw_all w cl ties)))) =
    (let n = card (shared_venues w links f a b) in if int n < om_min_shared (vw_params w) then 0 else n)"
proof -
  let ?s1 = "fold (draw_venue w cl) (co_venues w) (no_tally, [])"
  let ?n = "card (shared_venues w links f a b)"
  have ok1: "drawn_ok (snd ?s1)" by (rule draw_venues_ok) (simp add: drawn_ok_def)
  have "PairKey f v a b \<in> fst ` set (snd ?s1) \<longleftrightarrow> PairKey f v a b \<in> pair_keys (snd ?s1)" for v
    by (simp add: pair_keys_def pair_of_def)
  then have keys: "PairKey f v a b \<in> fst ` set (snd ?s1) \<longleftrightarrow> v \<in> shared_venues w links f a b" for v
    using order unfolding draw_venues_keys shared_venues_def shares_venue_def tied_def span_overlap strong
    by (auto simp: pair_keys_def)
  then have n: "length (filter (\<lambda>(k, _). pair_of k = Some (f, a, b)) (snd ?s1)) = ?n"
    unfolding count_keys [OF ok1] by simp
  then have few: "too_few w (snd ?s1) (f, a, b) \<longleftrightarrow> int ?n < om_min_shared (vw_params w)" by (simp add: too_few_def)
  have "length (filter (\<lambda>x. dv_family x = f \<and> dv_src x = a \<and> dv_dst x = b) (map snd (snd (draw_all w cl ties)))) =
      card {v. PairKey f v a b \<in> fst ` set (snd (draw_all w cl ties))}"
    unfolding count_entries [OF draw_all_pairs_kept(1) f] count_keys [OF draw_all_pairs_kept(1)] ..
  also have "{v. PairKey f v a b \<in> fst ` set (snd (draw_all w cl ties))} =
      (if int ?n < om_min_shared (vw_params w) then {} else shared_venues w links f a b)"
    unfolding draw_all_pairs_kept(2) few keys by auto
  finally show ?thesis by (simp add: Let_def)
qed

section \<open>The identity clusters of a view\<close>

lemma unite_all_run:
  "identity_step\<^sup>*\<^sup>* (no_parents, []) (p, links) \<Longrightarrow>
     \<exists>q. unite_all ls p = Some q \<and> identity_step\<^sup>*\<^sup>* (no_parents, []) (q, rev ls @ links)"
proof (induction ls arbitrary: p links)
  case (Cons l ls)
  obtain a b where l: "l = (a, b)" by (cases l)
  obtain q where q: "unite a b p = Some q" using unite_ok identity_run [OF Cons.prems] by blast
  then have "identity_step\<^sup>*\<^sup>* (no_parents, []) (q, (a, b) # links)" using Cons.prems united rtranclp.rtrancl_into_rtrancl by meson
  from Cons.IH [OF this] q show ?case by (simp add: l)
qed auto

lemma asks_linked:
  assumes "unite_all ls no_parents = Some q"
  shows "asks q a b \<longleftrightarrow> (a, b) \<in> linked ls"
proof -
  have "identity_step\<^sup>*\<^sup>* (no_parents, []) (q, rev ls)" using unite_all_run [of no_parents "[]" ls] assms by auto
  then have q: "forest q" "cluster q = linked ls" using identity_run [of q "rev ls"] by (simp_all add: linked_def)
  obtain q' where "same a b q = Some ((a, b) \<in> cluster q, q')" using same_ok [OF q(1)] by blast
  then show ?thesis by (simp add: asks_def q(2))
qed

lemma clusters_of_ok:
  obtains cl where "clusters_of ns links = Some cl"
    "\<And>a b. asks (cl_strong cl) a b \<longleftrightarrow> (a, b) \<in> linked (link_pairs ns (filter suppresses links))"
    "\<And>a b. asks (cl_anyone cl) a b \<longleftrightarrow> (a, b) \<in> linked (link_pairs ns links)"
proof -
  obtain p where p: "unite_all (link_pairs ns (filter suppresses links)) no_parents = Some p"
    using unite_all_run [of no_parents "[]"] by blast
  obtain q where q: "unite_all (link_pairs ns links) no_parents = Some q" using unite_all_run [of no_parents "[]"] by blast
  show ?thesis by (rule that [of "\<lparr>cl_strong = p, cl_anyone = q\<rparr>"]) (simp_all add: clusters_of_def p q asks_linked [OF p] asks_linked [OF q])
qed

section \<open>What the answer says\<close>

lemma to_one_mode_Inr:
  assumes "to_one_mode ns ties consumable links p drawing skipped = Some (Inr (ns', edges, cov))"
  obtains cl where "clusters_of ns links = Some cl"
    "edges = map Kept (filter (\<lambda>e. \<not> (is_venue (view_of ns consumable drawing p) (ti_src e) \<or> is_venue (view_of ns consumable drawing p) (ti_dst e))) ties) @
       map (Drawn \<circ> edge_of) (in_order (map snd (snd (draw_all (view_of ns consumable drawing p) cl ties))))"
    "derived_bound (view_of ns consumable drawing p) \<le> max_derived_ties"
    "ns' = filter (\<lambda>n. \<not> is_venue (view_of ns consumable drawing p) (nd_id n)) ns"
    "cov = coverage_of (view_of ns consumable drawing p) skipped ties (draw_all (view_of ns consumable drawing p) cl ties)"
  using assms by (auto simp: to_one_mode_def Let_def split: option.splits if_splits)

lemma to_one_mode_answers:
  assumes "derived_bound (view_of ns consumable drawing p) \<le> max_derived_ties" "period_steps (view_of ns consumable drawing p) \<le> max_period_steps"
  shows "\<exists>ns' edges cov. to_one_mode ns ties consumable links p drawing skipped = Some (Inr (ns', edges, cov))"
proof -
  obtain cl where "clusters_of ns links = Some cl" by (rule clusters_of_ok)
  then show ?thesis using assms by (simp add: to_one_mode_def Let_def)
qed

definition is_drawn :: "string \<Rightarrow> uuid \<Rightarrow> uuid \<Rightarrow> out_edge \<Rightarrow> bool" where
  "is_drawn f a b e \<longleftrightarrow> (case e of Drawn x \<Rightarrow> de_family x = f \<and> de_src x = a \<and> de_dst x = b | Kept _ \<Rightarrow> False)"

lemma length_filter_sort: "length (filter P (sort_key h xs)) = length (filter P xs)"
proof -
  have "length (filter P (insort_key h x ys)) = length (filter P (x # ys))" for x ys by (induction ys) auto
  then show ?thesis by (induction xs) auto
qed

text \<open>C16: Ties through shared venues are exact. In the answer, two entities are tied once for every venue of the
  family within the size limit where both are recorded by the drawn memberships at a common instant, unless a chain
  of undoubted identity links makes them one; and not at all when those venues are fewer than asked for.\<close>

theorem shared_venue_ties_exact:
  assumes "to_one_mode ns ties consumable links p drawing skipped = Some (Inr (ns', edges, cov))"
    and "a < b" "f \<in> {''forum'', ''wallet_control''}"
  shows "length (filter (is_drawn f a b) edges) =
    (let n = card (shared_venues (view_of ns consumable drawing p) (link_pairs ns (filter suppresses links)) f a b)
     in if int n < om_min_shared p then 0 else n)"
proof -
  let ?w = "view_of ns consumable drawing p"
  obtain cl where cl: "clusters_of ns links = Some cl"
    and edges: "edges = map Kept (filter (\<lambda>e. \<not> (is_venue ?w (ti_src e) \<or> is_venue ?w (ti_dst e))) ties) @
      map (Drawn \<circ> edge_of) (in_order (map snd (snd (draw_all ?w cl ties))))"
    by (rule to_one_mode_Inr [OF assms(1)])
  have strong: "asks (cl_strong cl) x y \<longleftrightarrow> (x, y) \<in> linked (link_pairs ns (filter suppresses links))" for x y
    using clusters_of_ok [of ns links] cl by (metis option.inject)
  have "length (filter (is_drawn f a b) edges) =
      length (filter (\<lambda>x. dv_family x = f \<and> dv_src x = a \<and> dv_dst x = b) (map snd (snd (draw_all ?w cl ties))))"
    unfolding edges in_order_def by (simp add: filter_map o_def is_drawn_def edge_of_def length_filter_sort)
  also have "\<dots> = (let n = card (shared_venues ?w (link_pairs ns (filter suppresses links)) f a b)
      in if int n < om_min_shared (vw_params ?w) then 0 else n)"
    by (rule draw_all_count [OF strong assms(2)]) (use assms(3) in auto)
  finally show ?thesis by (simp add: view_of_def)
qed

text \<open>C17: The limit on derived ties is kept. What is counted before anything is built bounds what is built: an answer
  holds at most the count it reports in derived ties, and that is at most the limit.\<close>

theorem derived_within_bound:
  assumes "to_one_mode ns ties consumable links p drawing skipped = Some (Inr (ns', edges, cov))"
  shows "length (filter (\<lambda>e. case e of Drawn _ \<Rightarrow> True | Kept _ \<Rightarrow> False) edges) \<le> cv_bound cov \<and> cv_bound cov \<le> max_derived_ties"
proof -
  let ?w = "view_of ns consumable drawing p"
  obtain cl where edges: "edges = map Kept (filter (\<lambda>e. \<not> (is_venue ?w (ti_src e) \<or> is_venue ?w (ti_dst e))) ties) @
      map (Drawn \<circ> edge_of) (in_order (map snd (snd (draw_all ?w cl ties))))"
    and limit: "derived_bound ?w \<le> max_derived_ties" and cov: "cov = coverage_of ?w skipped ties (draw_all ?w cl ties)"
    by (rule to_one_mode_Inr [OF assms])
  have "length (filter (\<lambda>e. case e of Drawn _ \<Rightarrow> True | Kept _ \<Rightarrow> False) edges) = length (snd (draw_all ?w cl ties))"
    unfolding edges in_order_def by (simp add: filter_map o_def)
  moreover have "cv_bound cov = derived_bound ?w" unfolding cov coverage_of_def by (simp add: case_prod_unfold Let_def)
  ultimately show ?thesis using draw_all_length [of ?w cl ties] limit by simp
qed

lemma gathered_perm:
  assumes "mset rows' = mset rows" "inj_on ti_id (set rows)"
  shows "gathered ns rows' = gathered ns rows"
proof -
  have "set rows' = set rows" using assms(1) by (rule mset_eq_setD)
  then have "inj_on row_key (set rows')" using assms(2) by (auto simp: inj_on_def row_key_def)
  then have "sort_key row_key rows' = sort_key row_key rows"
    by (intro sort_key_inj_key_eq) (use assms(1) in simp_all)
  then show ?thesis by (simp add: gathered_def)
qed

section \<open>The order of the rows\<close>

lemma node_at_Some: "inj_on nd_id (set ns) \<Longrightarrow> node_at ns i = Some n \<longleftrightarrow> n \<in> set ns \<and> nd_id n = i"
proof
  assume inj: "inj_on nd_id (set ns)" and "n \<in> set ns \<and> nd_id n = i"
  then have n: "n \<in> set ns" "nd_id n = i" by simp_all
  then have "i \<in> fst ` set (rev (map (\<lambda>n. (nd_id n, n)) ns))" by force
  then obtain m where m: "node_at ns i = Some m" unfolding node_at_def by (metis map_of_eq_None_iff option.exhaust)
  then have "m \<in> set ns" "nd_id m = i" by (auto simp: node_at_def dest!: map_of_SomeD)
  then show "node_at ns i = Some n" using m n inj by (auto dest: inj_onD)
qed (auto simp: node_at_def dest!: map_of_SomeD)

lemma node_at_perm:
  assumes "mset ns' = mset ns" "inj_on nd_id (set ns)"
  shows "node_at ns' = node_at ns"
proof
  fix i
  have set: "set ns' = set ns" using assms(1) by (rule mset_eq_setD)
  then have "node_at ns' i = Some n \<longleftrightarrow> node_at ns i = Some n" for n using assms(2) by (simp add: node_at_Some)
  then show "node_at ns' i = node_at ns i" by (metis option.exhaust)
qed

lemma node_at_dom: "dom (node_at ns) = set (map nd_id ns)"
  by (force simp: node_at_def dom_map_of_conv_image_fst)

text \<open>Two views that know the same nodes and gathered the same rows.\<close>

definition same_view :: "view \<Rightarrow> view \<Rightarrow> bool" where
  "same_view w' w \<longleftrightarrow> node_at (vw_nodes w') = node_at (vw_nodes w) \<and> vw_params w' = vw_params w \<and>
     vw_sizing w' = vw_sizing w \<and> vw_drawing w' = vw_drawing w"

lemma same_base:
  assumes "same_view w' w"
  shows "node_at (vw_nodes w') = node_at (vw_nodes w)" "vw_params w' = vw_params w" "vw_sizing w' = vw_sizing w"
    "vw_drawing w' = vw_drawing w" "type_at (vw_nodes w') = type_at (vw_nodes w)"
proof -
  show nodes: "node_at (vw_nodes w') = node_at (vw_nodes w)" and "vw_params w' = vw_params w" "vw_sizing w' = vw_sizing w"
    "vw_drawing w' = vw_drawing w" using assms by (simp_all add: same_view_def)
  show "type_at (vw_nodes w') = type_at (vw_nodes w)" unfolding type_at_def [abs_def] nodes ..
qed

lemma same_rows:
  assumes "same_view w' w"
  shows "row_kind_in w' = row_kind_in w" "is_venue w' = is_venue w"
    "is_wallet w' = is_wallet w" "newman w' = newman w" "pair_family w' = pair_family w" "label_of w' = label_of w"
    "type_name_of w' = type_name_of w"
  unfolding row_kind_in_def [abs_def] is_venue_def [abs_def] is_wallet_def [abs_def] newman_def [abs_def] pair_family_def [abs_def]
    label_of_def [abs_def] type_name_of_def [abs_def] same_base [OF assms] by (rule refl)+

lemma same_members:
  assumes "same_view w' w"
  shows "member_rows w' = member_rows w" "members_of w' = members_of w" "input_rows w' = input_rows w" "inputs_of w' = inputs_of w"
    "output_rows w' = output_rows w" "outputs_of w' = outputs_of w" "paid_rows w' = paid_rows w"
  unfolding member_rows_def [abs_def] members_of_def [abs_def] input_rows_def [abs_def] inputs_of_def [abs_def]
    output_rows_def [abs_def] outputs_of_def [abs_def] paid_rows_def [abs_def] same_rows [OF assms] by (rule refl)+

lemma same_sizes:
  assumes "same_view w' w"
  shows "size_of w' = size_of w" "controllers w' = controllers w" "controller_count w' = controller_count w" "span_of w' = span_of w"
    "best_of w' = best_of w" "in_span w' = in_span w" "out_span w' = out_span w"
  unfolding size_of_def [abs_def] controllers_def [abs_def] controller_count_def [abs_def] span_of_def [abs_def] best_of_def [abs_def]
    in_span_def [abs_def] out_span_def [abs_def] same_members [OF assms] same_base [OF assms] by (rule refl)+

lemma same_limits:
  assumes "same_view w' w"
  shows "is_oversized w' = is_oversized w" "behind_of w' = behind_of w" "sized_inputs w' = sized_inputs w"
    "sized_outputs w' = sized_outputs w"
proof -
  note same = same_base [OF assms] same_rows [OF assms] same_members [OF assms] same_sizes [OF assms]
  show over: "is_oversized w' = is_oversized w" and "behind_of w' = behind_of w"
    unfolding is_oversized_def [abs_def] behind_of_def [abs_def] same by (rule refl)+
  show "sized_inputs w' = sized_inputs w" "sized_outputs w' = sized_outputs w"
    unfolding sized_inputs_def [abs_def] sized_outputs_def [abs_def] over same by (rule refl)+
qed

lemma same_venues:
  assumes "same_view w' w"
  shows "venues_of w' = venues_of w" "co_venues w' = co_venues w" "transactions_of w' = transactions_of w" "oversized_of w' = oversized_of w"
proof -
  have "set (map nd_id (vw_nodes w')) = set (map nd_id (vw_nodes w))"
    unfolding node_at_dom [symmetric] same_base [OF assms] ..
  then have "set (filter (is_venue w') (map nd_id (vw_nodes w'))) = set (filter (is_venue w) (map nd_id (vw_nodes w)))"
    by (simp add: same_rows [OF assms])
  then show venues: "venues_of w' = venues_of w"
    unfolding venues_of_def sorted_list_of_set_sort_remdups [symmetric] by (simp only:)
  show "co_venues w' = co_venues w" "transactions_of w' = transactions_of w" "oversized_of w' = oversized_of w"
    unfolding co_venues_def transactions_of_def oversized_of_def venues same_limits [OF assms] same_base [OF assms] by (rule refl)+
qed

lemmas same_view_eqs = same_base same_rows same_members same_sizes same_limits same_venues

lemma same_bounds:
  assumes "same_view w' w"
  shows "derived_bound w' = derived_bound w" "period_steps w' = period_steps w"
proof -
  note same = same_view_eqs [OF assms]
  have width: "end_width w' = end_width w" and steps: "end_steps w' = end_steps w"
    unfolding end_width_def [abs_def] end_steps_def [abs_def] same by (rule refl)+
  have paid: "paid_steps w' = paid_steps w" unfolding paid_steps_def [abs_def] steps ..
  show "derived_bound w' = derived_bound w" "period_steps w' = period_steps w"
    unfolding derived_bound_def period_steps_def width paid same by (rule refl)+
qed

lemma same_drawing:
  assumes "same_view w' w" "set ties' = set ties"
  shows "draw_all w' cl ties' = draw_all w cl ties"
proof -
  note same = same_view_eqs [OF assms(1)]
  have paid: "already_paid ties' = already_paid ties"
    unfolding already_paid_def [abs_def] list_ex_iff assms(2) ..
  have pair: "draw_pair w' = draw_pair w" unfolding draw_pair_def [abs_def] same ..
  have venue: "draw_venue w' = draw_venue w" unfolding draw_venue_def [abs_def] pair same ..
  have few: "too_few w' = too_few w" unfolding too_few_def [abs_def] same ..
  have pruned: "prune w' = prune w" unfolding prune_def [abs_def] few ..
  have add: "add_flow w' = add_flow w" unfolding add_flow_def [abs_def] same ..
  have flow: "flow_pair w' cl ties' = flow_pair w cl ties" unfolding flow_pair_def [abs_def] paid add ..
  have leg: "draw_leg w' cl ties' = draw_leg w cl ties" unfolding draw_leg_def [abs_def] flow same ..
  have counts: "count_transaction w' = count_transaction w" unfolding count_transaction_def [abs_def] same ..
  have transaction: "draw_transaction w' cl ties' = draw_transaction w cl ties"
    unfolding draw_transaction_def [abs_def] leg counts same ..
  have side: "side_of w' = side_of w" unfolding side_of_def [abs_def] same ..
  have sides: "pay_sides w' cl ties' = pay_sides w cl ties" unfolding pay_sides_def [abs_def] side flow same ..
  have payment: "draw_payment w' cl ties' = draw_payment w cl ties" unfolding draw_payment_def [abs_def] sides same ..
  show ?thesis unfolding draw_all_def venue pruned transaction payment same ..
qed

lemma count_by_perm: "mset xs = mset ys \<Longrightarrow> count_by f xs = count_by f ys"
proof -
  assume perm: "mset xs = mset ys"
  then have "set xs = set ys" by (rule mset_eq_setD)
  then have "set (map f xs) = set (map f ys)" by simp
  then have "sort (remdups (map f xs)) = sort (remdups (map f ys))"
    unfolding sorted_list_of_set_sort_remdups [symmetric] by (simp only:)
  moreover have "length (filter P xs) = length (filter P ys)" for P
    using perm by (metis mset_filter size_mset)
  ultimately show ?thesis by (simp add: count_by_def)
qed

lemma same_coverage:
  assumes "same_view w' w" "mset ties' = mset ties"
  shows "coverage_of w' skipped ties' canvas = coverage_of w skipped ties canvas"
proof -
  note same = same_view_eqs [OF assms(1)] same_bounds [OF assms(1)]
  have entry: "oversized_entry_of w' = oversized_entry_of w" unfolding oversized_entry_of_def [abs_def] same ..
  have ties: "count_by ti_type (filter P ties') = count_by ti_type (filter P ties)" for P
    by (rule count_by_perm) (simp add: assms(2))
  show ?thesis unfolding coverage_of_def entry ties same ..
qed

definition is_kept :: "out_edge \<Rightarrow> bool" where
  "is_kept e \<longleftrightarrow> (case e of Kept _ \<Rightarrow> True | Drawn _ \<Rightarrow> False)"

text \<open>The answer, of its parts.\<close>

definition answer_of ::
    "nat \<Rightarrow> nat \<Rightarrow> node list \<Rightarrow> tie list \<Rightarrow> derived list \<Rightarrow> coverage \<Rightarrow>
      (one_mode_error + node list \<times> out_edge list \<times> coverage) option" where
  "answer_of bound steps ns ties ds cov =
     (if max_derived_ties < bound then Some (Inl (TooManyTies bound))
      else if max_period_steps < steps then Some (Inl (TooManyPeriods steps))
      else Some (Inr (ns, map Kept ties @ map (Drawn \<circ> edge_of) (in_order ds), cov)))"

lemma to_one_mode_answer:
  assumes "clusters_of ns links = Some cl"
  shows "to_one_mode ns ties consumable links p drawing skipped =
    (let w = view_of ns consumable drawing p
     in answer_of (derived_bound w) (period_steps w) (filter (\<lambda>n. \<not> is_venue w (nd_id n)) ns)
       (filter (\<lambda>e. \<not> (is_venue w (ti_src e) \<or> is_venue w (ti_dst e))) ties)
       (map snd (snd (draw_all w cl ties))) (coverage_of w skipped ties (draw_all w cl ties)))"
  by (simp add: to_one_mode_def answer_of_def Let_def assms)

lemma answers_alike:
  assumes "set ns' = set ns" "set ties' = set ties"
  shows "case (answer_of b t (filter P ns') (filter Q ties') ds cov, answer_of b t (filter P ns) (filter Q ties) ds cov) of
      (Some (Inr (ks', es', cov')), Some (Inr (ks, es, cov))) \<Rightarrow>
        ks' = filter (\<lambda>n. n \<in> set ks) ns' \<and> filter (\<lambda>e. \<not> is_kept e) es' = filter (\<lambda>e. \<not> is_kept e) es \<and>
        filter is_kept es' = map Kept (filter (\<lambda>e. Kept e \<in> set es) ties') \<and> cov' = cov
    | (answer', answer) \<Rightarrow> answer' = answer"
proof -
  have kept: "filter is_kept (map Kept xs) = map Kept xs" "filter (\<lambda>e. \<not> is_kept e) (map Kept xs) = []" for xs
    by (simp_all add: is_kept_def filter_map o_def)
  have drawn: "filter is_kept (map (Drawn \<circ> edge_of) xs) = []" for xs by (simp add: is_kept_def filter_map o_def)
  have "filter P ns' = filter (\<lambda>n. n \<in> set (filter P ns)) ns'" using assms(1) by (auto intro!: filter_cong)
  moreover have "Kept e \<in> set (map Kept (filter Q ties) @ map (Drawn \<circ> edge_of) (in_order ds)) \<longleftrightarrow> e \<in> set ties \<and> Q e" for e by auto
  moreover have "filter Q ties' = filter (\<lambda>e. e \<in> set ties \<and> Q e) ties'" using assms(2) by (auto intro!: filter_cong)
  ultimately show ?thesis by (simp add: answer_of_def kept drawn del: set_map set_append)
qed

text \<open>C18: The order of the rows is immaterial. Whatever order the database answers the nodes, the ties, the memberships
  and the identity links in (each row under an id of its own), the transform refuses alike or answers alike: the derived ties are the same, one by one,
  the coverage is the same to its last entry, and the nodes and ties kept are the same ones, in the order given.\<close>

theorem row_order_immaterial:
  assumes "mset ns' = mset ns" "inj_on nd_id (set ns)" "mset ties' = mset ties"
    and "mset consumable' = mset consumable" "inj_on ti_id (set consumable)"
    and "mset drawing' = mset drawing" "inj_on ti_id (set drawing)"
    and "mset links' = mset links" "inj_on ti_id (set links)"
  shows "case (to_one_mode ns' ties' consumable' links' p drawing' skipped, to_one_mode ns ties consumable links p drawing skipped) of
      (Some (Inr (ks', es', cov')), Some (Inr (ks, es, cov))) \<Rightarrow>
        ks' = filter (\<lambda>n. n \<in> set ks) ns' \<and> filter (\<lambda>e. \<not> is_kept e) es' = filter (\<lambda>e. \<not> is_kept e) es \<and>
        filter is_kept es' = map Kept (filter (\<lambda>e. Kept e \<in> set es) ties') \<and> cov' = cov
    | (answer', answer) \<Rightarrow> answer' = answer"
proof -
  let ?w' = "view_of ns' consumable' drawing' p" and ?w = "view_of ns consumable drawing p"
  have nodes: "node_at ns' = node_at ns" by (rule node_at_perm [OF assms(1,2)])
  then have rows: "gathered ns' = gathered ns" by (simp add: fun_eq_iff gathered_def)
  have same: "same_view ?w' ?w"
    using gathered_perm [OF assms(4,5)] gathered_perm [OF assms(6,7)] nodes rows by (simp add: same_view_def view_of_def)
  have "gathered ns (filter suppresses links') = gathered ns (filter suppresses links)"
    by (rule gathered_perm) (use assms(8,9) in \<open>auto simp: inj_on_def mset_filter\<close>)
  then have clusters: "clusters_of ns' links' = clusters_of ns links"
    using gathered_perm [OF assms(8,9), of ns] rows by (simp add: clusters_of_def link_pairs_def)
  obtain cl where cl: "clusters_of ns links = Some cl" by (rule clusters_of_ok)
  have sets: "set ns' = set ns" "set ties' = set ties" using assms(1,3) by (auto dest: mset_eq_setD)
  have canvas: "draw_all ?w' cl ties' = draw_all ?w cl ties" by (rule same_drawing [OF same sets(2)])
  show ?thesis
    unfolding to_one_mode_answer [OF cl] to_one_mode_answer [OF clusters [unfolded cl]] Let_def canvas same_bounds [OF same]
      same_coverage [OF same assms(3)] same_rows(2) [OF same]
    by (rule answers_alike [OF sets])
qed

section \<open>Witnesses\<close>

definition sample_nodes :: "node list" where
  "sample_nodes =
     [\<lparr>nd_id = 1, nd_type = ''IDENTITY'', nd_label = Some ''a'', nd_member_count = NoCount\<rparr>,
      \<lparr>nd_id = 2, nd_type = ''IDENTITY'', nd_label = Some ''b'', nd_member_count = NoCount\<rparr>,
      \<lparr>nd_id = 5, nd_type = ''FORUM'', nd_label = Some ''f'', nd_member_count = WholeNumber 4\<rparr>]"

definition sample_post :: "uuid \<Rightarrow> uuid \<Rightarrow> instant option \<Rightarrow> instant option \<Rightarrow> tie" where
  "sample_post i a s e = \<lparr>ti_id = i, ti_type = ''POSTS_ON'', ti_src = a, ti_dst = 5, ti_review = Some ''ACCEPTED'',
     ti_confidence = Some ''HIGH'', ti_evidence = True, ti_from = s, ti_to = e\<rparr>"

definition sample_posts :: "tie list" where
  "sample_posts = [sample_post 20 1 (Some 3) (Some 9), sample_post 21 2 (Some 7) None]"

definition sample_params :: one_mode_params where
  "sample_params = make_one_mode_params [''forum''] ''NEWMAN'' 50 1"

definition sample_view :: view where
  "sample_view = view_of sample_nodes sample_posts sample_posts sample_params"

lemma sample_answers:
  "\<exists>ns' edges cov. to_one_mode sample_nodes [] sample_posts [] sample_params sample_posts (0, 0) = Some (Inr (ns', edges, cov))"
proof (rule to_one_mode_answers)
  have "derived_bound sample_view = 1" "period_steps sample_view = 2" by code_simp+
  then show "derived_bound (view_of sample_nodes sample_posts sample_posts sample_params) \<le> max_derived_ties"
    "period_steps (view_of sample_nodes sample_posts sample_posts sample_params) \<le> max_period_steps"
    by (simp_all add: sample_view_def max_derived_ties_def max_period_steps_def)
qed

lemma sample_shared: "shared_venues sample_view [] ''forum'' 1 2 = {5}"
proof -
  have "co_venues sample_view = [5]" "members_of sample_view (vw_drawing sample_view) 5 = [1, 2]" "pair_family sample_view 5 = ''forum''"
    "map interval_of (member_rows sample_view (vw_drawing sample_view) 5 1) = [(Some 3, Some 9)]"
    "map interval_of (member_rows sample_view (vw_drawing sample_view) 5 2) = [(Some 7, None)]"
    by code_simp+
  moreover have "covers [(Some 3, Some 9)] 8 \<and> covers [(Some 7, None)] 8" by (simp add: inside.simps)
  ultimately show ?thesis by (auto simp: shared_venues_def shares_venue_def linked_def)
qed

theorem shared_venue_ties_exact_witness:
  "\<exists>ns' edges cov. to_one_mode sample_nodes [] sample_posts [] sample_params sample_posts (0, 0) = Some (Inr (ns', edges, cov)) \<and>
     length (filter (is_drawn ''forum'' 1 2) edges) = 1"
proof -
  obtain ns' edges cov where run: "to_one_mode sample_nodes [] sample_posts [] sample_params sample_posts (0, 0) = Some (Inr (ns', edges, cov))"
    using sample_answers by blast
  have "link_pairs sample_nodes (filter suppresses []) = []" by (simp add: link_pairs_def gathered_def)
  moreover have "om_min_shared sample_params = 1" by code_simp
  ultimately have "length (filter (is_drawn ''forum'' 1 2) edges) = 1"
    using shared_venue_ties_exact [OF run, of 1 2 "''forum''"] sample_shared by (simp add: sample_view_def Let_def)
  with run show ?thesis by blast
qed

theorem derived_within_bound_witness:
  "\<exists>ns' edges cov. to_one_mode sample_nodes [] sample_posts [] sample_params sample_posts (0, 0) = Some (Inr (ns', edges, cov)) \<and>
     length (filter (\<lambda>e. case e of Drawn _ \<Rightarrow> True | Kept _ \<Rightarrow> False) edges) \<le> 50000"
proof -
  obtain ns' edges cov where run: "to_one_mode sample_nodes [] sample_posts [] sample_params sample_posts (0, 0) = Some (Inr (ns', edges, cov))"
    using sample_answers by blast
  from derived_within_bound [OF run] run show ?thesis unfolding max_derived_ties_def by (intro exI conjI) auto
qed

theorem row_order_immaterial_witness:
  "case (to_one_mode (rev sample_nodes) [] (rev sample_posts) [] sample_params (rev sample_posts) (0, 0),
      to_one_mode sample_nodes [] sample_posts [] sample_params sample_posts (0, 0)) of
     (Some (Inr (ks', es', cov')), Some (Inr (ks, es, cov))) \<Rightarrow>
       ks' = filter (\<lambda>n. n \<in> set ks) (rev sample_nodes) \<and> filter (\<lambda>e. \<not> is_kept e) es' = filter (\<lambda>e. \<not> is_kept e) es \<and>
       filter is_kept es' = map Kept (filter (\<lambda>e. Kept e \<in> set es) []) \<and> cov' = cov
   | (answer', answer) \<Rightarrow> answer' = answer"
proof (rule row_order_immaterial)
  show "inj_on ti_id (set sample_posts)" "inj_on ti_id (set sample_posts)" by (simp_all add: sample_posts_def sample_post_def)
  show "inj_on nd_id (set sample_nodes)" by (simp add: sample_nodes_def)
qed simp_all
end
