(* ===== verification/Ledger.thy ===== *)
theory Ledger
  imports CanonicalJson Codecs
begin

text \<open>
  The two hash-chained ledgers, the audit log (migrations 0013 and 0149, \<open>audit_verify.py\<close>) and the custody of
  evidence (0024 and 0149, \<open>custody_verify.py\<close>): the trigger that appends under the lock of the chain, the canonical
  text it hashes, and the verifiers. The two share their shape, so the operations are written once over the columns
  a ledger hashes besides the link, and its canonical text; the locale \<open>ledger\<close> states what the lemmas need of that
  text, and each ledger interprets it.

  SHA-256, Postgres' rendering of an instant and of JSON, and the clocks are arguments; JSON columns hold their text.
  A sequence number is not hashed, as in the program.
\<close>

section \<open>Rows\<close>

type_synonym hash = "byte list"

record 'b chain_row =
  cr_seq :: int
  cr_prev :: "hash option"
  cr_hash :: hash
  cr_body :: 'b

text \<open>What a ledger hashes: its canonical text over the link and the columns, and the digest of its UTF-8.\<close>

record 'b scheme =
  sc_text :: "hash option \<Rightarrow> 'b \<Rightarrow> string"
  sc_sha :: "byte list \<Rightarrow> hash"

definition separator :: char where
  "separator = CHR 0x1F"

definition link_text :: "hash option \<Rightarrow> string" where
  "link_text prev = (case prev of None \<Rightarrow> ''GENESIS'' | Some h \<Rightarrow> hex_digest h)"

definition row_text :: "'b scheme \<Rightarrow> 'b chain_row \<Rightarrow> string" where
  "row_text s r = sc_text s (cr_prev r) (cr_body r)"

definition digest :: "'b scheme \<Rightarrow> string \<Rightarrow> hash" where
  "digest s t = sc_sha s (utf8 t)"

section \<open>The trigger\<close>

datatype isolation = ReadUncommitted | ReadCommitted | RepeatableRead | Serializable

definition tail_row :: "'b chain_row list \<Rightarrow> 'b chain_row option" where
  "tail_row rows = (if rows = [] then None else Some (foldl (\<lambda>m r. if cr_seq m < cr_seq r then r else m) (hd rows) (tl rows)))"

text \<open>The row the trigger writes, over the rows its statement sees: number \<open>n\<close>, the tail as predecessor.\<close>

definition chained :: "'b scheme \<Rightarrow> int \<Rightarrow> 'b \<Rightarrow> 'b chain_row list \<Rightarrow> 'b chain_row" where
  "chained s n b rows =
     (let prev = map_option cr_hash (tail_row rows)
      in \<lparr>cr_seq = n, cr_prev = prev, cr_hash = digest s (sc_text s prev b), cr_body = b\<rparr>)"

text \<open>
  The ledger as the writers share it: the rows committed, the transaction that holds the lock of the chain with the
  rows it has appended, and the next number. The lock is held to the end of the transaction.
\<close>

record 'b ledger_state =
  ls_rows :: "'b chain_row list"
  ls_open :: "(nat \<times> 'b chain_row list) option"
  ls_next :: int

datatype append_error = WrongIsolation

definition append_row ::
    "'b scheme \<Rightarrow> nat \<Rightarrow> isolation \<Rightarrow> 'b \<Rightarrow> 'b ledger_state \<Rightarrow> (append_error + 'b ledger_state) option" where
  "append_row s t level b st =
     (if level \<notin> {ReadCommitted, ReadUncommitted} then Some (Inl WrongIsolation)
      else (case ls_open st of
              None \<Rightarrow> Some (Inr (st\<lparr>ls_open := Some (t, [chained s (ls_next st) b (ls_rows st)]), ls_next := ls_next st + 1\<rparr>))
            | Some (holder, own) \<Rightarrow>
              if holder = t
              then Some (Inr (st\<lparr>ls_open := Some (t, own @ [chained s (ls_next st) b (ls_rows st @ own)]), ls_next := ls_next st + 1\<rparr>))
              else None))"

definition commit_chain :: "'b ledger_state \<Rightarrow> 'b ledger_state" where
  "commit_chain st = (case ls_open st of None \<Rightarrow> st | Some (_, own) \<Rightarrow> st\<lparr>ls_rows := ls_rows st @ own, ls_open := None\<rparr>)"

definition rollback_chain :: "'b ledger_state \<Rightarrow> 'b ledger_state" where
  "rollback_chain st = st\<lparr>ls_open := None\<rparr>"

text \<open>Back to a savepoint with \<open>k\<close> rows appended: a lock first taken after it is released with it.\<close>

definition rollback_to :: "nat \<Rightarrow> 'b ledger_state \<Rightarrow> 'b ledger_state" where
  "rollback_to k st =
     (case ls_open st of
        None \<Rightarrow> st
      | Some (t, own) \<Rightarrow> st\<lparr>ls_open := (if take k own = [] then None else Some (t, take k own))\<rparr>)"

definition empty_ledger :: "'b ledger_state" where
  "empty_ledger = \<lparr>ls_rows = [], ls_open = None, ls_next = 1\<rparr>"

text \<open>An append that meets a held lock waits: no step of its own until the holder ends.\<close>

inductive ledger_step :: "'b scheme \<Rightarrow> 'b ledger_state \<Rightarrow> 'b ledger_state \<Rightarrow> bool" for s where
  appended: "append_row s t level b st = Some (Inr st') \<Longrightarrow> ledger_step s st st'"
| committed: "ledger_step s st (commit_chain st)"
| rolled_back: "ledger_step s st (rollback_chain st)"
| back_to_savepoint: "ledger_step s st (rollback_to k st)"
| number_drawn: "ledger_step s st (st\<lparr>ls_next := ls_next st + 1\<rparr>)"

section \<open>The verifiers\<close>

datatype break_kind =
    LinkBreak | ContentBreak | LinkAndContent | ForkBreak | GenesisBreak | NoGenesis | AnchorMissing | AnchorRewritten | AnchorMoved

text \<open>A break names its number, and its row where there is one.\<close>

record 'b chain_break =
  cb_seq :: int
  cb_kind :: break_kind
  cb_row :: "'b chain_row option"

record anchor =
  an_seq :: int
  an_hash :: string

definition make_anchor :: "int \<Rightarrow> string \<Rightarrow> unit + anchor" where
  "make_anchor n h =
     (if length h \<noteq> 64 \<or> \<not> list_all (\<lambda>c. c \<in> set ''0123456789abcdef'') h then Inl () else Inr \<lparr>an_seq = n, an_hash = h\<rparr>)"

datatype anchor_status = Held | Missing | Rewritten | Moved

record anchor_result =
  ar_anchor :: anchor
  ar_status :: anchor_status
  ar_found :: "int option"
  ar_since :: "nat option"

record 'b chain_report =
  rp_checked :: nat
  rp_breaks :: "'b chain_break list"
  rp_forks :: "'b chain_break list"
  rp_first :: "int option"
  rp_last :: "int option"
  rp_genesis :: nat
  rp_tail_seq :: "int option"
  rp_tail_hash :: "string option"
  rp_total :: nat
  rp_boundary :: "int option"
  rp_anchor :: "anchor_result option"

definition intact :: "'b chain_report \<Rightarrow> bool" where
  "intact rp \<longleftrightarrow> rp_breaks rp = []"

definition link_broken :: "'b chain_row list \<Rightarrow> 'b chain_row \<Rightarrow> bool" where
  "link_broken rows r = (case cr_prev r of None \<Rightarrow> False | Some h \<Rightarrow> \<not> list_ex (\<lambda>q. cr_hash q = h) rows)"

definition claimants :: "'b chain_row list \<Rightarrow> 'b chain_row \<Rightarrow> 'b chain_row list" where
  "claimants rows r = (case cr_prev r of None \<Rightarrow> [] | Some h \<Rightarrow> filter (\<lambda>q. cr_prev q = Some h) rows)"

definition forked :: "'b chain_row list \<Rightarrow> 'b chain_row \<Rightarrow> bool" where
  "forked rows r \<longleftrightarrow> 1 < length (claimants rows r)"

definition fresh_fork :: "int option \<Rightarrow> 'b chain_row list \<Rightarrow> 'b chain_row \<Rightarrow> bool" where
  "fresh_fork boundary rows r \<longleftrightarrow>
     forked rows r \<and> (case boundary of None \<Rightarrow> False | Some b \<Rightarrow> list_all (\<lambda>q. b < cr_seq q) (claimants rows r))"

definition content_broken :: "'b scheme \<Rightarrow> 'b chain_row \<Rightarrow> bool" where
  "content_broken s r \<longleftrightarrow> cr_hash r \<noteq> digest s (row_text s r)"

definition row_breaks :: "'b scheme \<Rightarrow> int option \<Rightarrow> 'b chain_row list \<Rightarrow> 'b chain_row \<Rightarrow> 'b chain_break list" where
  "row_breaks s boundary rows r =
     (let link = link_broken rows r; content = content_broken s r
      in (if link \<or> content
          then [\<lparr>cb_seq = cr_seq r, cb_kind = (if link \<and> content then LinkAndContent else if link then LinkBreak else ContentBreak), cb_row = Some r\<rparr>]
          else []) @
         (if fresh_fork boundary rows r then [\<lparr>cb_seq = cr_seq r, cb_kind = ForkBreak, cb_row = Some r\<rparr>] else []))"

definition by_seq :: "'b chain_row list \<Rightarrow> 'b chain_row list" where
  "by_seq rows = sort_key cr_seq rows"

definition genesis_rows :: "'b chain_row list \<Rightarrow> 'b chain_row list" where
  "genesis_rows rows = by_seq (filter (\<lambda>r. cr_prev r = None) rows)"

definition genesis_breaks :: "'b chain_row list \<Rightarrow> 'b chain_break list" where
  "genesis_breaks rows =
     (let genesis = genesis_rows rows
      in if rows \<noteq> [] \<and> genesis = [] then [\<lparr>cb_seq = 0, cb_kind = NoGenesis, cb_row = None\<rparr>]
         else if 1 < length genesis then map (\<lambda>r. \<lparr>cb_seq = cr_seq r, cb_kind = GenesisBreak, cb_row = Some r\<rparr>) genesis
         else [])"

definition check_anchor :: "'b chain_row list \<Rightarrow> anchor \<Rightarrow> anchor_result" where
  "check_anchor rows a =
     (let seqs = map cr_seq (by_seq (filter (\<lambda>r. hex_digest (cr_hash r) = an_hash a) rows))
      in if an_seq a \<in> set seqs then
           \<lparr>ar_anchor = a, ar_status = Held, ar_found = Some (an_seq a), ar_since = Some (length (filter (\<lambda>r. an_seq a < cr_seq r) rows))\<rparr>
         else if seqs \<noteq> [] then \<lparr>ar_anchor = a, ar_status = Moved, ar_found = Some (hd seqs), ar_since = None\<rparr>
         else \<lparr>ar_anchor = a, ar_status = (if list_ex (\<lambda>r. cr_seq r = an_seq a) rows then Rewritten else Missing), ar_found = None, ar_since = None\<rparr>)"

definition anchor_breaks :: "anchor_result option \<Rightarrow> 'b chain_break list" where
  "anchor_breaks res =
     (case res of
        None \<Rightarrow> []
      | Some x \<Rightarrow>
        (case ar_status x of
           Held \<Rightarrow> []
         | Missing \<Rightarrow> [\<lparr>cb_seq = an_seq (ar_anchor x), cb_kind = AnchorMissing, cb_row = None\<rparr>]
         | Rewritten \<Rightarrow> [\<lparr>cb_seq = an_seq (ar_anchor x), cb_kind = AnchorRewritten, cb_row = None\<rparr>]
         | Moved \<Rightarrow> [\<lparr>cb_seq = an_seq (ar_anchor x), cb_kind = AnchorMoved, cb_row = None\<rparr>]))"

text \<open>The report over the rows examined, with every lookup over the whole table.\<close>

definition report_of :: "'b scheme \<Rightarrow> int option \<Rightarrow> anchor option \<Rightarrow> 'b chain_row list \<Rightarrow> 'b chain_row list \<Rightarrow> 'b chain_report" where
  "report_of s boundary a examined rows =
     (let judged = by_seq examined; res = map_option (check_anchor rows) a
      in \<lparr>rp_checked = length judged,
          rp_breaks = genesis_breaks rows @ concat (map (row_breaks s boundary rows) judged) @ anchor_breaks res,
          rp_forks = map (\<lambda>r. \<lparr>cb_seq = cr_seq r, cb_kind = ForkBreak, cb_row = Some r\<rparr>) (filter (forked rows) judged),
          rp_first = (if judged = [] then None else Some (cr_seq (hd judged))),
          rp_last = (if judged = [] then None else Some (cr_seq (last judged))),
          rp_genesis = length (genesis_rows rows),
          rp_tail_seq = map_option cr_seq (tail_row rows),
          rp_tail_hash = map_option (\<lambda>r. hex_digest (cr_hash r)) (tail_row rows),
          rp_total = length rows, rp_boundary = boundary, rp_anchor = res\<rparr>)"

section \<open>The audit log\<close>

record audit_columns =
  au_at :: instant
  au_actor :: "uuid option"
  au_actor_kind :: string
  au_action :: string
  au_object_type :: "string option"
  au_object :: "uuid option"
  au_case :: "uuid option"
  au_outcome :: string
  au_detail :: string
  au_ip_hash :: "hash option"
  au_session :: "uuid option"

definition or_dash :: "string option \<Rightarrow> string" where
  "or_dash x = (case x of None \<Rightarrow> ''-'' | Some t \<Rightarrow> t)"

text \<open>The rendering of an instant is Postgres' \<open>to_char\<close>.\<close>

definition audit_text :: "(instant \<Rightarrow> string) \<Rightarrow> hash option \<Rightarrow> audit_columns \<Rightarrow> string" where
  "audit_text utc prev b =
     join_with [separator]
       [link_text prev, utc (au_at b), or_dash (map_option uuid_text (au_actor b)), au_actor_kind b, au_action b,
        or_dash (au_object_type b), or_dash (map_option uuid_text (au_object b)), or_dash (map_option uuid_text (au_case b)),
        au_outcome b, au_detail b, or_dash (map_option hex_digest (au_ip_hash b)), or_dash (map_option uuid_text (au_session b))]"

definition audit_scheme :: "(instant \<Rightarrow> string) \<Rightarrow> (byte list \<Rightarrow> hash) \<Rightarrow> audit_columns scheme" where
  "audit_scheme utc sha = \<lparr>sc_text = audit_text utc, sc_sha = sha\<rparr>"

text \<open>The trigger replaces the mark \<open>infinity\<close> by the clock it reads under the lock.\<close>

definition stamped :: "instant \<Rightarrow> instant option \<Rightarrow> audit_columns \<Rightarrow> audit_columns" where
  "stamped clock at b = b\<lparr>au_at := (case at of None \<Rightarrow> clock | Some t \<Rightarrow> t)\<rparr>"

definition audit_chain_hash ::
    "(instant \<Rightarrow> string) \<Rightarrow> (byte list \<Rightarrow> hash) \<Rightarrow> nat \<Rightarrow> isolation \<Rightarrow> instant \<Rightarrow> instant option \<Rightarrow> audit_columns \<Rightarrow> audit_columns ledger_state \<Rightarrow>
      (append_error + audit_columns ledger_state) option" where
  "audit_chain_hash utc sha t level clock at b = append_row (audit_scheme utc sha) t level (stamped clock at b)"

definition audit_window :: "nat option \<Rightarrow> int option \<Rightarrow> audit_columns chain_row list \<Rightarrow> audit_columns chain_row list" where
  "audit_window limit since rows =
     (let xs = (case since of None \<Rightarrow> rows | Some n \<Rightarrow> filter (\<lambda>r. n < cr_seq r) rows)
      in (case limit of None \<Rightarrow> xs | Some k \<Rightarrow> take k (rev (by_seq xs))))"

definition verify_chain ::
    "(instant \<Rightarrow> string) \<Rightarrow> (byte list \<Rightarrow> hash) \<Rightarrow> int option \<Rightarrow> nat option \<Rightarrow> int option \<Rightarrow> anchor option \<Rightarrow> audit_columns chain_row list \<Rightarrow>
      audit_columns chain_report" where
  "verify_chain utc sha boundary limit since a rows =
     report_of (audit_scheme utc sha) boundary a (audit_window limit since rows) rows"

section \<open>The custody of evidence\<close>

record custody_columns =
  cu_evidence :: uuid
  cu_action :: string
  cu_actor :: "uuid option"
  cu_at :: instant
  cu_detail :: string
  cu_verified :: "bool option"

definition custody_text :: "(instant \<Rightarrow> string) \<Rightarrow> hash option \<Rightarrow> custody_columns \<Rightarrow> string" where
  "custody_text utc prev b =
     join_with [separator]
       [link_text prev, uuid_text (cu_evidence b), cu_action b, or_dash (map_option uuid_text (cu_actor b)), utc (cu_at b), cu_detail b,
        or_dash (map_option (\<lambda>v. if v then ''true'' else ''false'') (cu_verified b))]"

definition custody_scheme :: "(instant \<Rightarrow> string) \<Rightarrow> (byte list \<Rightarrow> hash) \<Rightarrow> custody_columns scheme" where
  "custody_scheme utc sha = \<lparr>sc_text = custody_text utc, sc_sha = sha\<rparr>"

definition custody_chain_hash ::
    "(instant \<Rightarrow> string) \<Rightarrow> (byte list \<Rightarrow> hash) \<Rightarrow> nat \<Rightarrow> isolation \<Rightarrow> instant \<Rightarrow> custody_columns \<Rightarrow> custody_columns ledger_state \<Rightarrow>
      (append_error + custody_columns ledger_state) option" where
  "custody_chain_hash utc sha t level clock b = append_row (custody_scheme utc sha) t level (b\<lparr>cu_at := clock\<rparr>)"

definition verify_custody_chain ::
    "(instant \<Rightarrow> string) \<Rightarrow> (byte list \<Rightarrow> hash) \<Rightarrow> int option \<Rightarrow> uuid option \<Rightarrow> anchor option \<Rightarrow> custody_columns chain_row list \<Rightarrow>
      custody_columns chain_report" where
  "verify_custody_chain utc sha boundary evidence a rows =
     report_of (custody_scheme utc sha) boundary a
       (case evidence of None \<Rightarrow> rows | Some e \<Rightarrow> filter (\<lambda>r. cu_evidence (cr_body r) = e) rows) rows"

section \<open>The link in a canonical text\<close>

lemma hex_digest_Cons: "hex_digest (b # bs) = hex_char (unat b div 16) # hex_char (unat b mod 16) # hex_digest bs"
  by (simp add: hex_digest_def)

lemma hex_char_inj: "hex_char a = hex_char b \<Longrightarrow> a < 16 \<Longrightarrow> b < 16 \<Longrightarrow> a = b"
  by (metis hex_char_val)

lemma hex_digest_inj: "hex_digest a = hex_digest b \<Longrightarrow> a = b"
proof (induction a arbitrary: b)
  case Nil
  then show ?case by (cases b) (simp_all add: hex_digest_def)
next
  case (Cons x xs)
  then obtain y ys where b: "b = y # ys" by (cases b) (auto simp: hex_digest_def)
  have "unat x div 16 = unat y div 16" "unat x mod 16 = unat y mod 16"
    using Cons.prems byte_less [of x] byte_less [of y] by (auto simp: b hex_digest_Cons intro!: hex_char_inj)
  then have "unat x = unat y" by (metis div_mult_mod_eq)
  then have "x = y" by (rule unsigned_word_eqI)
  then show ?case using Cons by (simp add: b hex_digest_Cons)
qed

lemma hex_digest_chars: "c \<in> set (hex_digest bs) \<Longrightarrow> is_hex_char c"
proof (induction bs)
  case (Cons b bs)
  have "unat b div 16 < 16" "unat b mod 16 < 16" using byte_less [of b] by simp_all
  then show ?case using Cons by (auto simp: hex_digest_Cons)
qed (simp add: hex_digest_def)

lemma link_text_inj: "link_text p = link_text q \<Longrightarrow> p = q"
proof -
  have "\<not> is_hex_char (CHR ''G'')" by (simp add: is_hex_char_def code_point_def Let_def)
  then have "CHR ''G'' \<notin> set (hex_digest h)" for h using hex_digest_chars by blast
  moreover have "CHR ''G'' \<in> set ''GENESIS''" by simp
  ultimately have "hex_digest h \<noteq> ''GENESIS''" "''GENESIS'' \<noteq> hex_digest h" for h by metis+
  then show "link_text p = link_text q \<Longrightarrow> p = q"
    using hex_digest_inj by (auto simp: link_text_def split: option.splits)
qed

lemma link_text_plain: "separator \<notin> set (link_text p)"
  using hex_digest_chars [of separator] is_hex_others(2) by (auto simp: link_text_def separator_def split: option.splits)

lemma joined_head: "join_with [separator] (link_text p # x # xs) = join_with [separator] (link_text q # y # ys) \<Longrightarrow> p = q"
  using separated_prefix [of "link_text p" "link_text q"] link_text_plain link_text_inj by (simp add: separator_def)

section \<open>An honest ledger\<close>

text \<open>Every row names the row before it and hashes its own text, and the numbers rise.\<close>

fun chain_from :: "'b scheme \<Rightarrow> hash option \<Rightarrow> 'b chain_row list \<Rightarrow> bool" where
  "chain_from s prev [] \<longleftrightarrow> True"
| "chain_from s prev (r # rs) \<longleftrightarrow> cr_prev r = prev \<and> cr_hash r = digest s (row_text s r) \<and> chain_from s (Some (cr_hash r)) rs"

definition honest :: "'b scheme \<Rightarrow> 'b chain_row list \<Rightarrow> bool" where
  "honest s rows \<longleftrightarrow> sorted_wrt (\<lambda>q r. cr_seq q < cr_seq r) rows \<and> chain_from s None rows"

lemma chain_from_append:
  "chain_from s prev (xs @ ys) \<longleftrightarrow> chain_from s prev xs \<and> chain_from s (if xs = [] then prev else Some (cr_hash (last xs))) ys"
  by (induction xs arbitrary: prev) auto

lemma chain_from_nth:
  "chain_from s prev rows \<Longrightarrow> i < length rows \<Longrightarrow>
     cr_prev (rows ! i) = (if i = 0 then prev else Some (cr_hash (rows ! (i - 1)))) \<and> cr_hash (rows ! i) = digest s (row_text s (rows ! i))"
  by (induction rows arbitrary: prev i) (auto simp: nth_Cons split: nat.splits)

lemma tail_of_sorted:
  assumes "sorted_wrt (\<lambda>q r. cr_seq q < cr_seq r) rows"
  shows "tail_row rows = (if rows = [] then None else Some (last rows))"
proof -
  have "foldl (\<lambda>m r. if cr_seq m < cr_seq r then r else m) m rows = last (m # rows)"
    if "sorted_wrt (\<lambda>q r. cr_seq q < cr_seq r) (m # rows)" for m and rows :: "'a chain_row list"
    using that by (induction rows arbitrary: m) auto
  then show ?thesis using assms by (cases rows) (simp_all add: tail_row_def)
qed

lemma honest_chained:
  assumes "honest s rows" "\<forall>r\<in>set rows. cr_seq r < n"
  shows "honest s (rows @ [chained s n b rows])"
  using assms tail_of_sorted [of rows]
  by (auto simp: honest_def chain_from_append sorted_wrt_append chained_def Let_def row_text_def)

lemma honest_prefix: "honest s (xs @ ys) \<Longrightarrow> honest s xs"
  by (simp add: honest_def sorted_wrt_append chain_from_append)

definition with_open :: "'b ledger_state \<Rightarrow> 'b chain_row list" where
  "with_open st = ls_rows st @ (case ls_open st of None \<Rightarrow> [] | Some (_, own) \<Rightarrow> own)"

definition ledger_inv :: "'b scheme \<Rightarrow> 'b ledger_state \<Rightarrow> bool" where
  "ledger_inv s st \<longleftrightarrow> honest s (with_open st) \<and> (\<forall>r\<in>set (with_open st). cr_seq r < ls_next st)"

lemma ledger_step_inv:
  assumes "ledger_step s st st'" "ledger_inv s st"
  shows "ledger_inv s st' \<and> (\<exists>ys. ls_rows st' = ls_rows st @ ys)"
  using assms
proof (cases rule: ledger_step.cases)
  case (appended t level b)
  then obtain own where own: "with_open st' = with_open st @ [chained s (ls_next st) b (with_open st)]" "ls_next st' = ls_next st + 1" "ls_rows st' = ls_rows st"
    by (auto simp: append_row_def with_open_def split: if_splits option.splits)
  have "honest s (with_open st')" using assms(2) unfolding own(1) by (intro honest_chained) (auto simp: ledger_inv_def)
  then show ?thesis using assms(2) own by (fastforce simp: ledger_inv_def chained_def Let_def)
next
  case committed
  then have "with_open st' = with_open st" "ls_next st' = ls_next st" by (auto simp: commit_chain_def with_open_def split: option.splits)
  then show ?thesis using assms(2) committed by (auto simp: ledger_inv_def commit_chain_def split: option.splits)
next
  case rolled_back
  then have "with_open st' = ls_rows st" "ls_next st' = ls_next st" "ls_rows st' = ls_rows st" by (simp_all add: rollback_chain_def with_open_def)
  then show ?thesis using assms(2) honest_prefix by (fastforce simp: ledger_inv_def with_open_def)
next
  case (back_to_savepoint k)
  obtain zs where zs: "with_open st = with_open st' @ zs"
  proof (cases "ls_open st")
    case (Some x)
    then show ?thesis
      using that [of "drop k (snd x)"] back_to_savepoint append_take_drop_id [of k "snd x"]
      by (cases x) (auto simp: rollback_to_def with_open_def simp del: append_take_drop_id)
  qed (use that [of "[]"] back_to_savepoint in \<open>simp add: rollback_to_def\<close>)
  have "ls_next st' = ls_next st" "ls_rows st' = ls_rows st" using back_to_savepoint by (simp_all add: rollback_to_def split: option.splits)
  then show ?thesis using assms(2) honest_prefix [of s "with_open st'" zs] zs by (auto simp: ledger_inv_def)
next
  case number_drawn
  then have "with_open st' = with_open st" "ls_next st' = ls_next st + 1" "ls_rows st' = ls_rows st" by (simp_all add: with_open_def)
  then show ?thesis using assms(2) by (fastforce simp: ledger_inv_def)
qed

lemma ledger_run:
  assumes "(ledger_step s)\<^sup>*\<^sup>* st st'" "ledger_inv s st"
  shows "ledger_inv s st' \<and> (\<exists>ys. ls_rows st' = ls_rows st @ ys)"
  using assms(1)
proof (induction rule: rtranclp_induct)
  case (step y z)
  then show ?case using ledger_step_inv [of s y z] by auto
qed (use assms(2) in simp)

lemma empty_ledger_inv: "ledger_inv s empty_ledger"
  by (simp add: ledger_inv_def with_open_def empty_ledger_def honest_def)

lemma honest_run: "(ledger_step s)\<^sup>*\<^sup>* empty_ledger st \<Longrightarrow> honest s (ls_rows st)"
  using ledger_run [OF _ empty_ledger_inv] honest_prefix by (fastforce simp: ledger_inv_def with_open_def)

section \<open>What a verifier can and cannot see\<close>

text \<open>No two of the texts the rows hash collide.\<close>

definition no_collision :: "'b scheme \<Rightarrow> 'b chain_row list \<Rightarrow> bool" where
  "no_collision s rows \<longleftrightarrow> inj_on (digest s) (row_text s ` set rows)"

text \<open>A selection that keeps, with every element, the one before it keeps a beginning of the list.\<close>

lemma kept_beginning:
  "(\<And>i. Suc i < length rows \<Longrightarrow> keep (rows ! Suc i) \<Longrightarrow> keep (rows ! i)) \<Longrightarrow> filter keep rows = takeWhile keep rows"
proof (induction rows)
  case (Cons r rows)
  have tail: "keep (rows ! i)" if "Suc i < length rows" "keep (rows ! Suc i)" for i
    using Cons.prems [of "Suc i"] that by simp
  show ?case
  proof (cases "keep r")
    case True
    then show ?thesis using Cons.IH tail by simp
  next
    case False
    have "\<not> keep (rows ! i)" if "i < length rows" for i
      using that
    proof (induction i)
      case 0
      then show ?case using Cons.prems [of 0] False by auto
    next
      case (Suc i)
      then show ?case using tail [of i] by auto
    qed
    then have "filter keep rows = []" by (auto simp: filter_empty_conv in_set_conv_nth)
    then show ?thesis using False by simp
  qed
qed simp

text \<open>What a verifier owes a ledger: its canonical text tells which row it names as predecessor.\<close>

locale ledger =
  fixes s :: "'b scheme"
  assumes text_link: "sc_text s p b = sc_text s q c \<Longrightarrow> p = q"
begin

lemma same_hash:
  assumes "no_collision s rows" "q \<in> set rows" "r \<in> set rows" "\<not> content_broken s q" "\<not> content_broken s r" "cr_hash q = cr_hash r"
  shows "row_text s q = row_text s r" "cr_prev q = cr_prev r"
proof -
  show same_text: "row_text s q = row_text s r"
    by (rule inj_onD [OF assms(1) [unfolded no_collision_def]]) (use assms in \<open>auto simp: content_broken_def\<close>)
  then show "cr_prev q = cr_prev r" using text_link by (simp add: row_text_def)
qed

lemma honest_content: "honest s rows \<Longrightarrow> r \<in> set rows \<Longrightarrow> \<not> content_broken s r"
  using chain_from_nth [of s None rows] by (auto simp: honest_def content_broken_def in_set_conv_nth)

lemma honest_prev: "honest s rows \<Longrightarrow> i < length rows \<Longrightarrow> cr_prev (rows ! i) = (if i = 0 then None else Some (cr_hash (rows ! (i - 1))))"
  using chain_from_nth [of s None rows i] by (simp add: honest_def)

lemma hashes_distinct:
  assumes "honest s rows" "no_collision s rows" "i < length rows" "j < length rows" "cr_hash (rows ! i) = cr_hash (rows ! j)"
  shows "i = j"
  using assms(3-5)
proof (induction i arbitrary: j)
  case 0
  then have "cr_prev (rows ! 0) = cr_prev (rows ! j)"
    by (intro same_hash(2) [OF assms(2)] honest_content [OF assms(1)]) simp_all
  then show ?case using honest_prev [OF assms(1), of 0] honest_prev [OF assms(1), of j] 0 by (auto split: if_splits)
next
  case (Suc i)
  then have prev: "cr_prev (rows ! Suc i) = cr_prev (rows ! j)"
    by (intro same_hash(2) [OF assms(2)] honest_content [OF assms(1)]) simp_all
  then have "j \<noteq> 0" "cr_hash (rows ! i) = cr_hash (rows ! (j - 1))"
    using honest_prev [OF assms(1), of "Suc i"] honest_prev [OF assms(1), of j] Suc.prems by (auto split: if_splits)
  then show ?case using Suc.IH [of "j - 1"] Suc.prems by auto
qed

lemma filter_one:
  assumes "distinct xs" "\<And>x y. x \<in> set xs \<Longrightarrow> y \<in> set xs \<Longrightarrow> P x \<Longrightarrow> P y \<Longrightarrow> x = y"
  shows "length (filter P xs) \<le> 1"
proof -
  have "filter P xs = [] \<or> (\<exists>x. filter P xs = [x])"
  proof (cases "filter P xs")
    case (Cons x ys)
    have "y = x" if "y \<in> set ys" for y
    proof -
      have "y \<in> set (filter P xs)" "x \<in> set (filter P xs)" using that Cons by simp_all
      then show ?thesis using assms(2) by auto
    qed
    moreover have "distinct (x # ys)" using assms(1) Cons distinct_filter by metis
    ultimately have "ys = []" by (cases ys) auto
    then show ?thesis using Cons by simp
  qed simp
  then show ?thesis by auto
qed

lemma honest_distinct: "honest s rows \<Longrightarrow> distinct rows"
  by (auto simp: honest_def distinct_conv_nth sorted_wrt_iff_nth_less) (metis less_irrefl linorder_neqE_nat)

lemma not_forked:
  assumes "honest s rows" "no_collision s rows"
  shows "\<not> forked rows r"
proof (cases "cr_prev r")
  case (Some h)
  have "x = y" if both: "x \<in> set rows" "y \<in> set rows" and prev: "cr_prev x = Some h" "cr_prev y = Some h" for x y
  proof -
    obtain i j where x: "x = rows ! i" "i < length rows" and y: "y = rows ! j" "j < length rows" using both by (metis in_set_conv_nth)
    then have ij: "i \<noteq> 0" "j \<noteq> 0" "cr_hash (rows ! (i - 1)) = cr_hash (rows ! (j - 1))"
      using prev honest_prev [OF assms(1), of i] honest_prev [OF assms(1), of j] by (auto split: if_splits)
    then have "i - 1 = j - 1" using x(2) y(2) by (intro hashes_distinct [OF assms]) simp_all
    then have "i = j" using ij by simp
    then show ?thesis using x y by simp
  qed
  then show ?thesis using filter_one [OF honest_distinct [OF assms(1)], of "\<lambda>q. cr_prev q = Some h"] Some
    by (simp add: forked_def claimants_def)
qed (simp add: forked_def claimants_def)

lemma not_unlinked: "honest s rows \<Longrightarrow> r \<in> set rows \<Longrightarrow> \<not> link_broken rows r"
  using honest_prev [of rows] by (auto simp: in_set_conv_nth link_broken_def list_ex_iff split: option.splits if_splits)
    (metis less_imp_diff_less nth_mem)

lemma one_genesis:
  assumes "honest s rows"
  shows "genesis_breaks rows = []"
proof (cases rows)
  case (Cons r rs)
  have "cr_prev q \<noteq> None" if "q \<in> set rs" for q
  proof -
    obtain i where "q = rs ! i" "i < length rs" using \<open>q \<in> set rs\<close> by (metis in_set_conv_nth)
    then have "q = rows ! Suc i" "Suc i < length rows" using Cons by simp_all
    then show ?thesis using honest_prev [OF assms] by simp
  qed
  then have "filter (\<lambda>r. cr_prev r = None) rows = [r]"
    using honest_prev [OF assms, of 0] Cons by (auto simp: filter_empty_conv)
  then show ?thesis by (simp add: genesis_breaks_def genesis_rows_def by_seq_def Let_def)
qed (simp add: genesis_breaks_def genesis_rows_def by_seq_def)

lemma honest_intact:
  assumes "honest s rows" "no_collision s rows" "set examined \<subseteq> set rows" "anchor_breaks (map_option (check_anchor rows) a) = ([] :: 'b chain_break list)"
  shows "intact (report_of s boundary a examined rows)" "rp_forks (report_of s boundary a examined rows) = []"
proof -
  have "row_breaks s boundary rows r = []" if "r \<in> set examined" for r
    using that assms(3) not_forked [OF assms(1,2)] not_unlinked [OF assms(1)] honest_content [OF assms(1)]
    by (auto simp: row_breaks_def fresh_fork_def)
  then show "intact (report_of s boundary a examined rows)"
    using one_genesis [OF assms(1)] assms(4) by (auto simp: intact_def report_of_def by_seq_def Let_def)
  show "rp_forks (report_of s boundary a examined rows) = []"
    using not_forked [OF assms(1,2)] by (simp add: report_of_def Let_def)
qed

lemma later_holds:
  assumes "old \<noteq> []"
  shows "ar_status (check_anchor (old @ ys) \<lparr>an_seq = cr_seq (last old), an_hash = hex_digest (cr_hash (last old))\<rparr>) = Held"
proof -
  have "last old \<in> set old" using assms by simp
  then show ?thesis by (auto simp: check_anchor_def Let_def by_seq_def)
qed

lemma intact_rows:
  assumes "intact (report_of s boundary a rows rows)" "r \<in> set rows"
  shows "\<not> content_broken s r" "\<not> link_broken rows r"
  using assms by (auto simp: intact_def report_of_def Let_def by_seq_def row_breaks_def split: if_splits)

text \<open>A row with a hash of the honest ledger stands in an intact table with everything before it.\<close>

lemma past_vouched:
  assumes "honest s (old @ [last_old])" "inj_on (digest s) (row_text s ` (set (old @ [last_old]) \<union> set rows))"
    and "intact (report_of s boundary a rows rows)" "r \<in> set rows" "cr_hash r = cr_hash last_old"
  shows "\<exists>rows'. set rows' \<subseteq> set rows \<and> map (row_text s) rows' = map (row_text s) (old @ [last_old])"
  using assms
proof (induction old arbitrary: last_old r rule: rev_induct)
  case Nil
  have "\<not> content_broken s last_old" using honest_content [OF Nil.prems(1)] by simp
  then have "row_text s r = row_text s last_old"
    using Nil.prems intact_rows(1) [OF Nil.prems(3,4)] by (intro inj_onD [OF Nil.prems(2)]) (auto simp: content_broken_def)
  then show ?case using Nil.prems(4) by (intro exI [of _ "[r]"]) simp
next
  case (snoc p old)
  have "\<not> content_broken s last_old" using honest_content [OF snoc.prems(1)] by simp
  then have same_text: "row_text s r = row_text s last_old"
    using snoc.prems intact_rows(1) [OF snoc.prems(3,4)] by (intro inj_onD [OF snoc.prems(2)]) (auto simp: content_broken_def)
  have "cr_prev last_old = Some (cr_hash p)"
    using honest_prev [OF snoc.prems(1), of "Suc (length old)"] by (simp add: nth_append)
  then have "cr_prev r = Some (cr_hash p)" using same_text text_link by (auto simp: row_text_def)
  then obtain q where q: "q \<in> set rows" "cr_hash q = cr_hash p"
    using intact_rows(2) [OF snoc.prems(3,4)] by (auto simp: link_broken_def list_ex_iff)
  have "\<exists>rows'. set rows' \<subseteq> set rows \<and> map (row_text s) rows' = map (row_text s) (old @ [p])"
  proof (rule snoc.IH [OF _ _ snoc.prems(3) q])
    show "honest s (old @ [p])" using honest_prefix [of s "old @ [p]" "[last_old]"] snoc.prems(1) by simp
    show "inj_on (digest s) (row_text s ` (set (old @ [p]) \<union> set rows))"
      by (rule inj_on_subset [OF snoc.prems(2)]) auto
  qed
  then obtain rows' where "set rows' \<subseteq> set rows" "map (row_text s) rows' = map (row_text s) (old @ [p])" by blast
  then show ?case using snoc.prems(4) same_text by (intro exI [of _ "rows' @ [r]"]) simp
qed

lemma anchor_vouches:
  assumes "honest s old" "old \<noteq> []" "inj_on (digest s) (row_text s ` (set old \<union> set rows))"
    and "intact (report_of s boundary (Some \<lparr>an_seq = cr_seq (last old), an_hash = hex_digest (cr_hash (last old))\<rparr>) rows rows)"
  shows "\<exists>rows'. set rows' \<subseteq> set rows \<and> map (row_text s) rows' = map (row_text s) old"
proof -
  let ?a = "\<lparr>an_seq = cr_seq (last old), an_hash = hex_digest (cr_hash (last old))\<rparr>"
  have "anchor_breaks (Some (check_anchor rows ?a)) = ([] :: 'b chain_break list)" using assms(4) by (simp add: intact_def report_of_def Let_def)
  then have "ar_status (check_anchor rows ?a) = Held" by (simp add: anchor_breaks_def split: anchor_status.splits)
  then obtain r where r: "r \<in> set rows" "hex_digest (cr_hash r) = hex_digest (cr_hash (last old))"
    by (auto simp: check_anchor_def Let_def by_seq_def split: if_splits)
  have old: "old = butlast old @ [last old]" using assms(2) by simp
  show ?thesis
    using past_vouched [of "butlast old" "last old" rows boundary "Some ?a" r] assms r hex_digest_inj [OF r(2)] old by simp
qed

text \<open>Of the rows of an honest ledger, those that stay verify exactly when they are its beginning.\<close>

lemma deletions:
  assumes "honest s rows" "no_collision s rows"
  shows "intact (report_of s boundary None (filter keep rows) (filter keep rows)) \<longleftrightarrow> (\<exists>k. filter keep rows = take k rows)"
proof
  assume "\<exists>k. filter keep rows = take k rows"
  then obtain k where k: "filter keep rows = take k rows" by blast
  have "honest s (take k rows)" using honest_prefix [of s "take k rows" "drop k rows"] assms(1) by simp
  moreover have "no_collision s (take k rows)"
    using assms(2) unfolding no_collision_def by (rule inj_on_subset) (auto dest: in_set_takeD)
  ultimately show "intact (report_of s boundary None (filter keep rows) (filter keep rows))"
    unfolding k by (intro honest_intact) (simp_all add: anchor_breaks_def)
next
  assume ok: "intact (report_of s boundary None (filter keep rows) (filter keep rows))"
  have down: "keep (rows ! i)" if "Suc i < length rows" "keep (rows ! Suc i)" for i
  proof -
    have r: "rows ! Suc i \<in> set (filter keep rows)" using that by simp
    have "cr_prev (rows ! Suc i) = Some (cr_hash (rows ! i))" using honest_prev [OF assms(1) that(1)] by simp
    then obtain q where q: "q \<in> set (filter keep rows)" "cr_hash q = cr_hash (rows ! i)"
      using intact_rows(2) [OF ok r] by (auto simp: link_broken_def list_ex_iff)
    then obtain j where "q = rows ! j" "j < length rows" by (auto simp: in_set_conv_nth)
    then show ?thesis using hashes_distinct [OF assms, of j i] q that by auto
  qed
  have "filter keep rows = takeWhile keep rows" by (rule kept_beginning) (rule down)
  then show "\<exists>k. filter keep rows = take k rows" using takeWhile_eq_take by metis
qed
end

interpretation audit: ledger "audit_scheme utc sha" for utc sha
  by unfold_locales (simp only: audit_scheme_def scheme.simps audit_text_def, erule joined_head)

interpretation custody: ledger "custody_scheme utc sha" for utc sha
  by unfold_locales (simp only: custody_scheme_def scheme.simps custody_text_def, erule joined_head)

section \<open>The properties of the two ledgers\<close>

lemma tail_of_run:
  assumes "(ledger_step s)\<^sup>*\<^sup>* empty_ledger st" "rp_tail_seq (report_of s b a xs (ls_rows st)) = Some n" "rp_tail_hash (report_of s b a xs (ls_rows st)) = Some h"
  shows "ls_rows st \<noteq> [] \<and> n = cr_seq (last (ls_rows st)) \<and> h = hex_digest (cr_hash (last (ls_rows st)))"
  using tail_of_sorted [of "ls_rows st"] honest_run [OF assms(1)] assms(2,3)
  by (auto simp: report_of_def Let_def honest_def split: if_splits)

lemma window_sub: "set (audit_window limit since rows) \<subseteq> set rows"
  by (auto simp: audit_window_def Let_def by_seq_def dest!: in_set_takeD split: option.splits if_splits)

text \<open>C38: An honest log verifies. Whatever the writers did, interleaved in any way, with commits, rollbacks and numbers
  burned, the verifier finds nothing wrong with the committed log in any window, no fork, and the tail an earlier run
  reported still there, unless two of the texts hashed collide.\<close>

theorem honest_log_verifies:
  assumes "(ledger_step (audit_scheme utc sha))\<^sup>*\<^sup>* empty_ledger st0" "(ledger_step (audit_scheme utc sha))\<^sup>*\<^sup>* st0 st"
    and "rp_tail_seq (verify_chain utc sha b0 l0 s0 a0 (ls_rows st0)) = Some n"
    and "rp_tail_hash (verify_chain utc sha b0 l0 s0 a0 (ls_rows st0)) = Some h"
    and "no_collision (audit_scheme utc sha) (ls_rows st)"
  shows "intact (verify_chain utc sha boundary limit since (Some \<lparr>an_seq = n, an_hash = h\<rparr>) (ls_rows st)) \<and>
    rp_forks (verify_chain utc sha boundary limit since (Some \<lparr>an_seq = n, an_hash = h\<rparr>) (ls_rows st)) = []"
proof -
  have tail: "ls_rows st0 \<noteq> []" "n = cr_seq (last (ls_rows st0))" "h = hex_digest (cr_hash (last (ls_rows st0)))"
    using tail_of_run [OF assms(1)] assms(3,4) unfolding verify_chain_def by blast+
  have "ledger_inv (audit_scheme utc sha) st0" using ledger_run [OF assms(1) empty_ledger_inv] by blast
  then obtain ys where ys: "ls_rows st = ls_rows st0 @ ys" using ledger_run [OF assms(2)] by blast
  have honest: "honest (audit_scheme utc sha) (ls_rows st)" by (rule honest_run) (use assms(1,2) in \<open>rule rtranclp_trans\<close>)
  have "ar_status (check_anchor (ls_rows st) \<lparr>an_seq = n, an_hash = h\<rparr>) = Held"
    unfolding ys tail(2,3) by (rule audit.later_holds [OF tail(1)])
  then have "anchor_breaks (map_option (check_anchor (ls_rows st)) (Some \<lparr>an_seq = n, an_hash = h\<rparr>)) = []" by (simp add: anchor_breaks_def)
  then show ?thesis
    unfolding verify_chain_def using audit.honest_intact [OF honest assms(5) window_sub] by blast
qed

text \<open>C39: A held anchor vouches for the past. If the tail of an honest log was recorded and a later verification of the
  whole table, whatever was done to that table in between, finds it intact with that anchor, then every row of the
  log as it was is still in the table with the text it had, unless two of the texts collide.\<close>

theorem held_anchor_vouches:
  assumes "(ledger_step (audit_scheme utc sha))\<^sup>*\<^sup>* empty_ledger st"
    and "rp_tail_seq (verify_chain utc sha b0 l0 s0 a0 (ls_rows st)) = Some n"
    and "rp_tail_hash (verify_chain utc sha b0 l0 s0 a0 (ls_rows st)) = Some h"
    and "intact (verify_chain utc sha boundary None None (Some \<lparr>an_seq = n, an_hash = h\<rparr>) rows)"
    and "inj_on (digest (audit_scheme utc sha)) (row_text (audit_scheme utc sha) ` (set (ls_rows st) \<union> set rows))"
  shows "\<exists>rows'. set rows' \<subseteq> set rows \<and> map (row_text (audit_scheme utc sha)) rows' = map (row_text (audit_scheme utc sha)) (ls_rows st)"
proof -
  have tail: "ls_rows st \<noteq> []" "n = cr_seq (last (ls_rows st))" "h = hex_digest (cr_hash (last (ls_rows st)))"
    using tail_of_run [OF assms(1)] assms(2,3) unfolding verify_chain_def by blast+
  have "audit_window None None rows = rows" by (simp add: audit_window_def)
  then show ?thesis
    using audit.anchor_vouches [OF honest_run [OF assms(1)] tail(1) assms(5)] assms(4) unfolding verify_chain_def tail(2,3) by simp
qed

text \<open>C40: Deletions from the custody ledger, exactly. Delete any rows of an honest ledger: without an anchor the verifier
  finds the rest intact exactly when what is left is a beginning of the ledger, so every deletion but one at the end is
  seen, unless two of the texts hashed collide.\<close>

theorem custody_deletions_exact:
  assumes "(ledger_step (custody_scheme utc sha))\<^sup>*\<^sup>* empty_ledger st" "no_collision (custody_scheme utc sha) (ls_rows st)"
  shows "intact (verify_custody_chain utc sha boundary None None (filter keep (ls_rows st))) \<longleftrightarrow>
    (\<exists>k. filter keep (ls_rows st) = take k (ls_rows st))"
  using custody.deletions [OF honest_run [OF assms(1)] assms(2)] by (simp add: verify_custody_chain_def)

text \<open>
  The separator is there so that text moved across a boundary shows. A text column may itself hold it: these two rows
  differ and hash alike.
\<close>

lemma separator_moves:
  "audit_text utc p (b\<lparr>au_action := x @ [separator] @ y, au_object_type := Some z\<rparr>) =
   audit_text utc p (b\<lparr>au_action := x, au_object_type := Some (y @ [separator] @ z)\<rparr>)"
  by (simp add: audit_text_def or_dash_def)

section \<open>Witnesses\<close>

definition sample_audit :: audit_columns where
  "sample_audit = \<lparr>au_at = 5, au_actor = None, au_actor_kind = ''SYSTEM'', au_action = ''BOOT'', au_object_type = None, au_object = None,
     au_case = None, au_outcome = ''SUCCESS'', au_detail = ''{}'', au_ip_hash = None, au_session = None\<rparr>"

definition sample_custody :: custody_columns where
  "sample_custody = \<lparr>cu_evidence = 1, cu_action = ''INGESTED'', cu_actor = None, cu_at = 5, cu_detail = ''{}'', cu_verified = Some True\<rparr>"

definition no_clock :: "instant \<Rightarrow> string" where
  "no_clock t = []"

definition one_more :: "'b scheme \<Rightarrow> 'b \<Rightarrow> 'b ledger_state \<Rightarrow> 'b ledger_state" where
  "one_more s b st = commit_chain (projr (the (append_row s 0 ReadCommitted b st)))"

lemma one_more_run:
  assumes "ls_open st = None"
  shows "(ledger_step s)\<^sup>*\<^sup>* st (one_more s b st)" "ls_open (one_more s b st) = None"
    "ls_rows (one_more s b st) = ls_rows st @ [chained s (ls_next st) b (ls_rows st)]" "ls_next (one_more s b st) = ls_next st + 1"
proof -
  obtain st' where st': "append_row s 0 ReadCommitted b st = Some (Inr st')" by (simp add: append_row_def assms)
  then have "ledger_step s st st'" "ledger_step s st' (commit_chain st')" by (auto intro: appended committed)
  then show "(ledger_step s)\<^sup>*\<^sup>* st (one_more s b st)" unfolding one_more_def st' by (simp add: converse_rtranclp_into_rtranclp r_into_rtranclp)
  show "ls_open (one_more s b st) = None" "ls_rows (one_more s b st) = ls_rows st @ [chained s (ls_next st) b (ls_rows st)]"
    "ls_next (one_more s b st) = ls_next st + 1"
    using st' by (auto simp: one_more_def append_row_def assms commit_chain_def)
qed

lemma utf8_inj: "inj utf8"
  by (metis injI option.inject utf8_roundtrip)

lemma plain_digest: "inj_on (digest (audit_scheme utc id)) X" "inj_on (digest (custody_scheme utc id)) X"
  using utf8_inj by (auto simp: digest_def audit_scheme_def custody_scheme_def inj_on_def)

definition sample_log :: "audit_columns ledger_state" where
  "sample_log = one_more (audit_scheme no_clock id) sample_audit empty_ledger"

lemma empty_open: "ls_open empty_ledger = None"
  by (simp add: empty_ledger_def)

lemma sample_log_run: "(ledger_step (audit_scheme no_clock id))\<^sup>*\<^sup>* empty_ledger sample_log" "length (ls_rows sample_log) = 1"
proof -
  note one = one_more_run [OF empty_open, of "audit_scheme no_clock id" sample_audit]
  show "(ledger_step (audit_scheme no_clock id))\<^sup>*\<^sup>* empty_ledger sample_log" unfolding sample_log_def by (rule one(1))
  show "length (ls_rows sample_log) = 1" unfolding sample_log_def one(3) by (simp add: empty_ledger_def)
qed

lemma sample_log_tail:
  obtains n h where "rp_tail_seq (verify_chain no_clock id None None None None (ls_rows sample_log)) = Some n"
    "rp_tail_hash (verify_chain no_clock id None None None None (ls_rows sample_log)) = Some h"
proof -
  obtain r where "ls_rows sample_log = [r]" using sample_log_run(2) by (auto simp: length_Suc_conv)
  then have "rp_tail_seq (verify_chain no_clock id None None None None (ls_rows sample_log)) = Some (cr_seq r)"
    "rp_tail_hash (verify_chain no_clock id None None None None (ls_rows sample_log)) = Some (hex_digest (cr_hash r))"
    by (simp_all add: verify_chain_def report_of_def Let_def tail_row_def)
  then show thesis by (rule that)
qed

theorem honest_log_verifies_witness:
  "\<exists>n h. intact (verify_chain no_clock id (Some 0) (Some 10) None (Some \<lparr>an_seq = n, an_hash = h\<rparr>) (ls_rows sample_log))"
proof -
  obtain n h where tail: "rp_tail_seq (verify_chain no_clock id None None None None (ls_rows sample_log)) = Some n"
    "rp_tail_hash (verify_chain no_clock id None None None None (ls_rows sample_log)) = Some h" by (rule sample_log_tail)
  have "no_collision (audit_scheme no_clock id) (ls_rows sample_log)" unfolding no_collision_def by (rule plain_digest)
  from honest_log_verifies [OF sample_log_run(1) rtranclp.rtrancl_refl tail this] show ?thesis by blast
qed

theorem held_anchor_vouches_witness:
  "\<exists>rows'. set rows' \<subseteq> set (ls_rows sample_log) \<and>
     map (row_text (audit_scheme no_clock id)) rows' = map (row_text (audit_scheme no_clock id)) (ls_rows sample_log)"
proof -
  obtain n h where tail: "rp_tail_seq (verify_chain no_clock id None None None None (ls_rows sample_log)) = Some n"
    "rp_tail_hash (verify_chain no_clock id None None None None (ls_rows sample_log)) = Some h" by (rule sample_log_tail)
  have honest: "honest (audit_scheme no_clock id) (ls_rows sample_log)" by (rule honest_run [OF sample_log_run(1)])
  have "anchor_breaks (map_option (check_anchor (ls_rows sample_log)) (Some \<lparr>an_seq = n, an_hash = h\<rparr>)) = []"
    using tail_of_run [OF sample_log_run(1)] tail audit.later_holds [of "ls_rows sample_log" "[]"]
    by (auto simp: verify_chain_def anchor_breaks_def)
  then have "intact (verify_chain no_clock id None None None (Some \<lparr>an_seq = n, an_hash = h\<rparr>) (ls_rows sample_log))"
    unfolding verify_chain_def by (intro audit.honest_intact(1) honest window_sub) (simp add: no_collision_def plain_digest)
  from held_anchor_vouches [OF sample_log_run(1) tail this plain_digest(1)] show ?thesis .
qed

definition sample_ledger :: "custody_columns ledger_state" where
  "sample_ledger = one_more (custody_scheme no_clock id) sample_custody (one_more (custody_scheme no_clock id) sample_custody empty_ledger)"

theorem custody_deletions_exact_witness:
  "\<not> intact (verify_custody_chain no_clock id None None None (filter (\<lambda>r. cr_seq r = 2) (ls_rows sample_ledger)))"
proof -
  let ?s = "custody_scheme no_clock id"
  note one = one_more_run [OF empty_open, of ?s sample_custody]
  note two = one_more_run [OF one(2), of ?s sample_custody]
  have run: "(ledger_step ?s)\<^sup>*\<^sup>* empty_ledger sample_ledger" unfolding sample_ledger_def using one(1) two(1) by (rule rtranclp_trans)
  obtain p q where rows: "ls_rows sample_ledger = [p, q]" "cr_seq p = 1" "cr_seq q = 2"
    using one(3,4) two(3,4) by (simp add: sample_ledger_def empty_ledger_def chained_def Let_def)
  have "filter (\<lambda>r. cr_seq r = 2) (ls_rows sample_ledger) \<noteq> take k (ls_rows sample_ledger)" for k
    using rows by (cases k) auto
  moreover have "no_collision ?s (ls_rows sample_ledger)" unfolding no_collision_def by (rule plain_digest)
  ultimately show ?thesis using custody_deletions_exact [OF run] by blast
qed
end
