(* ===== verification/Spec2Isabelle.thy ===== *)
theory Spec2Isabelle
  imports Access EgressWire RateLimit Approvals LabSimilarity Sessions Auth IamAdmin CaseRequests OneMode Ledger
begin

text \<open>
  A verification development of NocTORnal, a case-management and network-analysis platform for investigations. The
  program is a FastAPI service over Postgres; this development models the parts of \<open>src/apps/api/src/noctornal_api\<close> that
  decide: who may read or do what, what is counted and signed, where a connection may go, what is refused for how long,
  what the hash-chained ledgers prove, and three computations whose answers an investigator relies on. File names below
  are relative to that directory; a migration is a file of \<open>src/db/migrations/versions\<close>.

  \<^bold>\<open>How the parts meet.\<close> A request presents a token (\<open>security/tokens.py\<close>), which a session answers for
  (\<open>security/sessions.py\<close>, \<open>http/deps.py\<close>); the session came from a sign-in (\<open>security/auth.py\<close>). The gates of
  \<open>http/deps.py\<close> resolve the facts of the five checks from the tables (\<open>stores.py\<close>) and ask the one function that
  decides (\<open>security/access.py\<close>), and the row security of the database decides the same again. Emergency access
  (\<open>break_glass.py\<close>) widens one of the checks for a while. Cases and their assignments (\<open>cases.py\<close>) and accounts
  (\<open>iam_admin.py\<close>) are the tables the gate reads. Some verbs need a second person (\<open>approvals.py\<close>). Everything is
  written down in chained ledgers (\<open>audit_verify.py\<close>, \<open>custody_verify.py\<close>). Outbound connections are judged by
  \<open>egress_policy.py\<close>, requests metered by \<open>ratelimit.py\<close>. The Lab compares samples (\<open>fuzzyhash.py\<close>,
  \<open>lab_similarity.py\<close>), and the graph's affiliation venues are projected away by \<open>affiliation.py\<close>.

  \<^bold>\<open>Conventions\<close> (theory \<open>NocPrelude\<close>). An instant or a duration is a whole number of microseconds, as Python's
  \<open>datetime\<close> has it; a UUID is a number ordered as its text; a string is a list of the code points 0 to 255. A call that
  may raise answers \<open>error + 'a\<close>. A table is a list of row records. State is passed explicitly; where the code reads two
  clocks (Python's and the database's), both are arguments. A dictionary whose order matters is an association list.

  \<^bold>\<open>Theories, and the code they model.\<close>

  \<^item> \<open>Access\<close>: \<open>security/access.py\<close>, the TLP lattice, \<open>AccessContext\<close> and \<open>evaluate\<close>. The lemmas: it allows exactly
    when all five checks hold and names the failed ones in the order of \<open>ALL_CHECKS\<close>.
  \<^item> \<open>CaseWorld\<close>: the tables behind access in one record \<open>platform\<close> (accounts, roles, permissions, compartments, cases,
    assignments, grants, sessions, audit trail). \<open>Gate\<close>: \<open>PgAccessResolver\<close> of \<open>stores.py\<close>, \<open>authorize_object\<close>,
    \<open>require_global\<close> and the ceilings of \<open>http/deps.py\<close>, \<open>CaseService.list_for_user\<close>, and the row-security functions of
    migration 0111. The lemmas: the listing, the row security and the gate agree case by case; a caller without an
    assignment learns nothing; one access uses an emergency grant once.
  \<^item> \<open>BreakGlass\<close>: \<open>break_glass.py\<close> with the constraints of migration 0032. The lemmas follow a grant over any run of
    invocations, revocations, reviews (two statements each, which others may separate) and gate calls.
  \<^item> \<open>Cases\<close>: \<open>cases.py\<close> and \<open>http/routers/cases.py\<close>, each handler composed of the pieces its connection commits: what it
    reads and checks, and what it writes. \<open>CaseRequests\<close>: the same pieces as statements of concurrent requests, since a
    request's connection is in autocommit and its writes name the case by id alone. \<open>advance\<close> performs the next
    statements of one request; \<open>request_step\<close> lets any request go next. A request nothing interrupts does what its
    handler does (\<open>served_alone\<close>). The theorems hold under every interleaving, except the parts that carry the
    condition \<open>alone\<close> (no request writes a case that another has written since it was read); the lemmas
    \<open>archived_case_reopened\<close> and \<open>retention_shortened\<close> are interleavings in which those parts fail.
  \<^item> \<open>IamAdmin\<close>: \<open>iam_admin.py\<close>. The lemmas: the load-bearing roles stay held, the holders of cases stay cleared for
    them (whether an account is active is a matter apart), a deactivated account keeps nothing.
  \<^item> \<open>Sessions\<close>: \<open>security/sessions.py\<close>, \<open>PgSessionStore\<close>, \<open>http/session_rejections.py\<close>, the guard of migration 0144
    and the actor of migration 0174. The service rests on the locale \<open>session_store\<close>, which the table interprets.
  \<^item> \<open>Codecs\<close>, \<open>Envelope\<close>, \<open>SecondFactor\<close>, \<open>Auth\<close>: the byte codecs of the standard library, \<open>security/envelope.py\<close>,
    \<open>security/totp.py\<close> and \<open>security/recovery.py\<close>, and \<open>security/auth.py\<close> over \<open>PgUserStore\<close>. A sign-in is a program of
    single store statements, so that any interleaving of many is a schedule; the locale \<open>user_store\<close> states the
    statements' laws and the table interprets it.
  \<^item> \<open>ApprovalPolicy\<close>, \<open>CanonicalJson\<close>, \<open>Approvals\<close>: \<open>approvals.py\<close> with the constraints and triggers of migrations 0028,
    0074, 0075 and 0150: the catalogue, the person rules, the payload hash, and a request from its raising to its
    spending. The lemmas follow a request over any run: one decision, by a second person, and one use of exactly
    what was approved.
  \<^item> \<open>Ledger\<close>: the two chains (migrations 0013, 0024 and 0149) and their verifiers, written once over the columns a
    ledger hashes; the locale \<open>ledger\<close> states what the canonical text must do, and each ledger interprets it.
  \<^item> \<open>IpAddress\<close>, \<open>IpText\<close>, \<open>EgressAddress\<close>, \<open>EgressCodes\<close>, \<open>EgressHosts\<close>, \<open>EgressPolicy\<close>, \<open>EgressWire\<close>: Python's
    \<open>ipaddress\<close> at its widths, and \<open>egress_policy.py\<close> on it, from the classes of addresses to the pinned answer of a
    lookup and the wire username of a route. \<open>EgressPolicy.admissible\<close> is the specification that \<open>admit\<close> implements.
  \<^item> \<open>RateLimit\<close>: \<open>ratelimit.py\<close>, the meter, the in-process backend with its eviction, the catalogue and the limiter.
    The bound on what is granted is proved in the locale \<open>meter_backend\<close>, interpreted on the in-process backend while
    its table has room for the keys in play (an evicted key starts afresh).
  \<^item> \<open>Tlsh\<close>, \<open>Ssdeep\<close>, \<open>LabSimilarity\<close>: \<open>fuzzyhash.py\<close> and \<open>lab_similarity.py\<close>, the digests against their reference
    definitions, and the searches against a comparison with every visible sample.
  \<^item> \<open>Periods\<close>, \<open>IdentityClusters\<close>, \<open>OneMode\<close>: \<open>affiliation.py\<close> and its path through \<open>projections.py\<close>: unions of
    closed periods, the union-find of recorded identities, and the projection itself. The lemmas: exactly which
    entities are tied through a shared venue, the bound counted before anything is built, and that the order of the
    rows decides nothing but the order of what is kept.
\<close>

text \<open>
  \<^bold>\<open>Bounds and fuel.\<close> \<open>CaseRequests.serve\<close> runs a request for at most four stages, and none has more than four
  (\<open>served_alone\<close> shows that it ends as its handler does). The loops of the union-find are \<open>partial_function (option)\<close>, and
  that they return is theorem \<open>identity_questions_return\<close>. All other loops are structural, or come with a measure.

  \<^bold>\<open>Parameters: code that is not in the repository.\<close> SHA-256, HMAC-SHA1, Argon2 and AES-GCM are functions given to the
  definitions that use them; a theorem that needs the absence of a collision says so as a hypothesis on the function, and
  the laws of AES-GCM (what is sealed opens again under its key) stand as hypotheses. So are the IDNA encoder, the
  resolver \<open>getaddrinfo\<close>, Postgres' \<open>inet\<close> and its rendering of an instant, the clocks and every random draw.

  \<^bold>\<open>Where the model simplifies.\<close>

  \<^item> Strings have the code points 0 to 255 only, in payloads and their canonical JSON as well.
  \<^item> The weights of the one-mode projection are exact rationals where the program has floats.
  \<^item> One instant stands for the two readings of the clock inside \<open>SessionService.validate\<close>.
  \<^item> A ledger's history starts empty under the trigger of migration 0149; forks that the earlier trigger let arise are
    not reached by a run, though the verifiers are functions of any table. The queries of one verification are taken
    over one snapshot.
  \<^item> In \<open>CaseRequests\<close> the reads that stand between two stages of a request are taken at one instant. The exhibits'
    storage locks that follow an extended retention are outside the model, and so are the legal hold and the dual-control
    switches of a case, which other routes write in other columns.
  \<^item> Account administration, invocations, approvals and metered requests are single steps: the writes of each are one
    transaction, one guarded statement or one locked section, and the reads before it are taken at the same instant
    (the census of a load-bearing role is read under its lock). Sign-ins, break-glass reviews, case requests and the
    writers of the ledgers interleave statement by statement.
  \<^item> Notifications, response bodies and prose are not modelled; who is alerted and what is refused are.

  \<^bold>\<open>What is not modelled.\<close> The components of the manifest list it with reasons: the graph's write path, merges and
  proposals; collection, its personas and adapters; evidence storage, retention and purge; the Lab's parsers, sandbox
  and rule compiler; lookups, Jira and other transports; the network measures over igraph; the egress proxy's sockets
  and its ledger; reports, search and the console. They are input and output, third-party engines, or subsystems a later
  development may take up with the tables modelled here.
\<close>

end
